(* ===== verification/Pando_Prelude.thy ===== *)
theory Pando_Prelude
  imports Main "HOL-Library.Word"
begin

unbundle bit_operations_syntax

text \<open>
  Shared vocabulary of the development: names for the machine integers of the C++ code, the
  collections that gather the simplification facts of a component, and the generic lemmas on
  words, lists and naturals that several components use.

  A \<^verbatim>\<open>std::uint64_t\<close>, \<^verbatim>\<open>std::size_t\<close>, \<^verbatim>\<open>GlobalAddress\<close> or \<^verbatim>\<open>std::int64_t\<close> is a
  64-bit word; unsigned comparisons are the order of the type, signed ones go through
  \<^const>\<open>sint\<close>; \<open>+\<close>, \<open>-\<close> and \<open>*\<close> wrap as the hardware does.
\<close>

type_synonym u8 = "8 word"
type_synonym u16 = "16 word"
type_synonym u32 = "32 word"
type_synonym u64 = "64 word"
type_synonym i8 = "8 word"
type_synonym i32 = "32 word"
type_synonym i64 = "64 word"

named_theorems addr_defs \<open>definitions of the address encoders and decoders\<close>
named_theorems range_defs \<open>bit ranges of the address maps\<close>
named_theorems ptr_defs \<open>definitions of the global pointer operations\<close>

subsection \<open>Words and natural numbers\<close>

lemma unat_lt_2p64 [simp]: "unat (x :: u64) < 18446744073709551616"
  using unsigned_less [of x] by simp

lemma unat_add_no_wrap:
  fixes a b :: u64
  assumes "unat a + unat b < 2 ^ 64"
  shows "unat (a + b) = unat a + unat b"
  using assms by (simp add: unat_word_ariths)

lemma unat_mult_no_wrap:
  fixes a b :: u64
  assumes "unat a * unat b < 2 ^ 64"
  shows "unat (a * b) = unat a * unat b"
  using assms by (simp add: unat_word_ariths)

lemma unat_sub_no_wrap:
  fixes a b :: u64
  assumes "unat b \<le> unat a"
  shows "unat (a - b) = unat a - unat b"
  using assms by (simp add: unat_sub word_le_nat_alt)

lemma unat_plus_one:
  fixes a b :: u64
  assumes "a < b"
  shows "unat (a + 1) = Suc (unat a)"
proof -
  have "unat a + 1 \<le> unat b" using assms by (simp add: word_less_nat_alt)
  then have "unat a + unat (1 :: u64) < 2 ^ 64" using unat_lt_2p64 [of b] by (simp del: unat_lt_2p64)
  from unat_add_no_wrap [OF this] show ?thesis by simp
qed

lemma unat_minus_one_u64: "(a :: u64) \<noteq> 0 \<Longrightarrow> unat (a - 1) = unat a - 1"
  by (rule unat_minus_one)

lemma u64_eq_iff_unat: "(a :: u64) = b \<longleftrightarrow> unat a = unat b"
  by (simp add: word_unat_eq_iff)

lemma word_of_nat_unat_less [simp]:
  "n < 2 ^ 64 \<Longrightarrow> unat (word_of_nat n :: u64) = n"
  by (simp add: unat_of_nat)

lemma unat_add_of_nat:
  fixes a :: u64
  assumes "unat a + n < 2 ^ 64"
  shows "unat (a + word_of_nat n) = unat a + n"
proof -
  have "unat (word_of_nat n :: u64) = n" using assms by simp
  then show ?thesis using unat_add_no_wrap [of a "word_of_nat n"] assms by simp
qed

lemma word_of_nat_eqI: "unat w = n \<Longrightarrow> w = word_of_nat n"
  by auto

lemma unat_uminus_u64:
  fixes w :: u64
  assumes "w \<noteq> 0"
  shows "unat (- w) = 2 ^ 64 - unat w"
proof -
  have "unat (w + - w) = (unat w + unat (- w)) mod 2 ^ 64" by (simp only: unat_word_ariths) simp
  then have "2 ^ 64 dvd unat w + unat (- w)" by (simp add: dvd_eq_mod_eq_0)
  then obtain k where k: "unat w + unat (- w) = 2 ^ 64 * k" ..
  moreover have "0 < unat w" using assms by (simp add: unat_gt_0)
  moreover have "unat w < 2 ^ 64" "unat (- w) < 2 ^ 64" using unat_lt_2p64 by simp_all
  ultimately have "0 < k" "2 ^ 64 * k < 2 ^ 64 * 2"
    by (simp_all del: unat_lt_2p64)
  then have "k = 1" by simp
  with k show ?thesis by simp
qed

lemma sint_inject [simp]: "sint x = sint y \<longleftrightarrow> x = (y :: 'a :: len word)"
  by (metis signed_word_eqI)

lemma sint_eq_0 [simp]: "sint w = 0 \<longleftrightarrow> w = (0 :: 'a :: len word)"
  using sint_inject [of w 0] by (simp del: sint_inject)

lemma int_less_power: "n < 2 ^ k \<Longrightarrow> int n < 2 ^ k"
  by (metis of_nat_less_iff of_nat_numeral of_nat_power)

lemma sint_of_int_i64:
  assumes "- (2 ^ 63) \<le> k" "k < 2 ^ 63"
  shows "sint (word_of_int k :: i64) = k"
proof -
  have "LENGTH(64) - Suc 0 = 63" by simp
  then show ?thesis using assms by (simp only: signed_of_int signed_take_bit_int_eq_self of_int_eq_id id_apply)
qed

subsection \<open>Lists updated by index\<close>

lemma map_nth_upt_update:
  "i < length xs \<Longrightarrow> map (\<lambda>j. if j = i then v else xs ! j) [0..<length xs] = xs[i := v]"
  by (rule nth_equalityI) (auto simp: nth_list_update)

lemma take_update_last:
  "n < length xs \<Longrightarrow> take (Suc n) (xs[n := v]) = take n xs @ [v]"
  by (simp add: take_Suc_conv_app_nth)

text \<open>The elements from position \<open>a\<close> up to \<open>b\<close>, and a list written over another from position \<open>k\<close> on.\<close>

definition segment :: "nat \<Rightarrow> nat \<Rightarrow> 'a list \<Rightarrow> 'a list" where
  "segment a b xs = take (b - a) (drop a xs)"

lemma segment_Cons: "a < b \<Longrightarrow> b \<le> length xs \<Longrightarrow> segment a b xs = xs ! a # segment (Suc a) b xs"
  by (simp add: segment_def Cons_nth_drop_Suc [symmetric] take_Cons' Suc_diff_Suc)

lemma segment_empty [simp]: "b \<le> a \<Longrightarrow> segment a b xs = []"
  by (simp add: segment_def)

lemma length_segment [simp]: "b \<le> length xs \<Longrightarrow> length (segment a b xs) = b - a"
  by (simp add: segment_def)

definition overwrite :: "'a list \<Rightarrow> nat \<Rightarrow> 'a list \<Rightarrow> 'a list" where
  "overwrite temp k xs = take k temp @ xs @ drop (k + length xs) temp"

lemma overwrite_Nil [simp]: "overwrite temp k [] = temp"
  by (simp add: overwrite_def)

lemma overwrite_update:
  "k < length temp \<Longrightarrow> overwrite (temp[k := x]) (Suc k) xs = overwrite temp k (x # xs)"
  by (simp add: overwrite_def take_Suc_conv_app_nth)

lemma length_overwrite [simp]: "k + length xs \<le> length temp \<Longrightarrow> length (overwrite temp k xs) = length temp"
  by (simp add: overwrite_def)

lemma overwrite_append:
  "k + length xs + length ys \<le> length zs \<Longrightarrow>
    overwrite (overwrite zs k xs) (k + length xs) ys = overwrite zs k (xs @ ys)"
  by (simp add: overwrite_def ac_simps)

lemma overwrite_all: "length xs = length zs \<Longrightarrow> overwrite zs 0 xs = xs"
  by (simp add: overwrite_def)

lemma segment_concat:
  "i < length xss \<Longrightarrow>
    segment (length (concat (take i xss))) (length (concat (take (Suc i) xss))) (concat xss) = xss ! i"
proof -
  assume i: "i < length xss"
  have "concat xss = concat (take i xss) @ xss ! i @ concat (drop (Suc i) xss)"
    using i by (metis append.assoc append_take_drop_id concat.simps(2) concat_append Cons_nth_drop_Suc)
  then show ?thesis using i by (simp add: segment_def take_Suc_conv_app_nth)
qed

lemma map_segment: "map f (segment a b xs) = segment a b (map f xs)"
  by (simp add: segment_def take_map drop_map)

end
