(* ===== verification/Bit_Manip.thy ===== *)
theory Bit_Manip
  imports Pando_Prelude
begin

unbundle bit_operations_syntax

text \<open>
  Bit ranges (\<^verbatim>\<open>pando-rt/include/pando-rt/utility/bit_manip.hpp\<close>) and the power-of-two helpers
  (\<^verbatim>\<open>utility/math.hpp\<close>). A \<^verbatim>\<open>BitRange\<close> is the half-open range \<open>[lo, hi)\<close>; \<^verbatim>\<open>readBits\<close> extracts
  it and \<^verbatim>\<open>createMask\<close> places a value there. The lemmas give both operations bit by bit, show
  that a value placed in a range is read back truncated to the width of the range, and that
  ranges that do not overlap do not disturb each other.
\<close>

record BitRange =
  lo :: u32
  hi :: u32

definition width :: "BitRange \<Rightarrow> u32" where
  "width r = hi r - lo r"

definition readBits :: "u64 \<Rightarrow> BitRange \<Rightarrow> u64" where
  "readBits value r =
     (let maskSize = unat (width r);
          m = NOT (push_bit maskSize (NOT 0))
      in drop_bit (unat (lo r)) value AND m)"

definition createMask :: "BitRange \<Rightarrow> u64 \<Rightarrow> u64" where
  "createMask r value =
     (let maskSize = unat (width r);
          m = NOT (push_bit maskSize (NOT 0))
      in push_bit (unat (lo r)) (value AND m))"

text \<open>
  \<^verbatim>\<open>__builtin_clzll\<close> counts the leading zeros of a 64-bit value; it is undefined at 0, which is
  the case \<^verbatim>\<open>log2floor\<close> warns about. The count is kept as a natural number here and the result
  is truncated to \<^verbatim>\<open>std::uint8_t\<close> as the cast in the source does.
\<close>

fun clz_from :: "nat \<Rightarrow> u64 \<Rightarrow> nat" where
  "clz_from 0 i = 0"
| "clz_from (Suc n) i = (if bit i n then 0 else Suc (clz_from n i))"

definition builtin_clzll :: "u64 \<Rightarrow> nat" where
  "builtin_clzll i = clz_from 64 i"

definition log2floor :: "u64 \<Rightarrow> u8" where
  "log2floor i = word_of_nat (8 * 8 - builtin_clzll i - 1)"

definition up2 :: "u64 \<Rightarrow> u64" where
  "up2 i = (let log2 = log2floor i in push_bit (unat log2 + 1) 1)"

subsection \<open>The range operations, bit by bit\<close>

definition valid_range :: "BitRange \<Rightarrow> bool" where
  "valid_range r \<longleftrightarrow> lo r < hi r \<and> hi r \<le> 64"

definition disjoint_ranges :: "BitRange \<Rightarrow> BitRange \<Rightarrow> bool" where
  "disjoint_ranges r s \<longleftrightarrow> hi r \<le> lo s \<or> hi s \<le> lo r"

lemma unat_width: "valid_range r \<Longrightarrow> unat (width r) = unat (hi r) - unat (lo r)"
  by (simp add: valid_range_def width_def unat_sub word_less_nat_alt word_le_nat_alt)

lemma bit_readBits:
  "bit (readBits v r) n \<longleftrightarrow> n < 64 \<and> n < unat (width r) \<and> bit v (unat (lo r) + n)"
  by (auto simp: readBits_def bit_simps)

lemma bit_createMask:
  "bit (createMask r v) n \<longleftrightarrow>
     n < 64 \<and> unat (lo r) \<le> n \<and> n - unat (lo r) < unat (width r) \<and> bit v (n - unat (lo r))"
  by (auto simp: createMask_def bit_simps)

lemma readBits_eq_take_drop:
  "readBits v r = take_bit (unat (width r)) (drop_bit (unat (lo r)) v)"
  by (rule bit_word_eqI) (auto simp: bit_readBits bit_simps)

lemma readBits_bound: "valid_range r \<Longrightarrow> unat (readBits v r) < 2 ^ unat (width r)"
  by (simp add: readBits_eq_take_drop unsigned_take_bit_eq)

lemma readBits_or: "readBits (a OR b) r = readBits a r OR readBits b r"
  by (rule bit_word_eqI) (auto simp: bit_readBits bit_simps)

lemma readBits_zero [simp]: "readBits 0 r = 0"
  by (rule bit_word_eqI) (simp add: bit_readBits)

lemma readBits_createMask_same:
  "valid_range r \<Longrightarrow> readBits (createMask r v) r = take_bit (unat (width r)) v"
  by (rule bit_word_eqI)
    (auto simp: bit_readBits bit_createMask bit_simps unat_width valid_range_def word_less_nat_alt word_le_nat_alt)

lemma readBits_createMask_disjoint:
  assumes "valid_range r" "valid_range s" "disjoint_ranges r s"
  shows "readBits (createMask r v) s = 0"
proof (rule bit_word_eqI)
  fix n
  assume "n < LENGTH(64)"
  show "bit (readBits (createMask r v) s) n \<longleftrightarrow> bit (0 :: u64) n"
    using assms
    by (auto simp: bit_readBits bit_createMask unat_width valid_range_def disjoint_ranges_def
        word_less_nat_alt word_le_nat_alt)
qed

subsection \<open>Powers of two\<close>

lemma clz_from_le: "clz_from n i \<le> n"
  by (induction n) auto

lemma clz_from_less: "(\<exists>k<n. bit i k) \<Longrightarrow> clz_from n i < n"
  by (induction n) (force simp: less_Suc_eq)+

lemma clz_from_top:
  "(\<exists>k<n. bit i k) \<Longrightarrow> bit i (n - clz_from n i - 1)"
proof (induction n)
  case (Suc n)
  then show ?case
    using clz_from_less [of n i] by (auto simp: less_Suc_eq)
qed simp

lemma clz_from_above:
  "n - clz_from n i \<le> k \<Longrightarrow> k < n \<Longrightarrow> \<not> bit i k"
proof (induction n)
  case (Suc n)
  then show ?case
    using clz_from_le [of n i] by (auto split: if_splits simp: less_Suc_eq Suc_diff_le)
qed simp

lemma word_nonzero_bit: "(i :: u64) \<noteq> 0 \<Longrightarrow> \<exists>k<64. bit i k"
  using bit_word_eqI [of i 0] by auto

lemma builtin_clzll_less: "i \<noteq> 0 \<Longrightarrow> builtin_clzll i < 64"
  unfolding builtin_clzll_def by (rule clz_from_less [OF word_nonzero_bit])

lemma unat_log2floor: "i \<noteq> 0 \<Longrightarrow> unat (log2floor i) = 63 - builtin_clzll i"
  using builtin_clzll_less [of i]
  by (simp add: log2floor_def unat_of_nat flip: of_nat_diff del: of_nat_diff)

lemma unat_top_bit_bounds:
  assumes top: "bit i n" and above: "\<And>k. n < k \<Longrightarrow> k < 64 \<Longrightarrow> \<not> bit i k" and n: "n < 64"
  shows "2 ^ n \<le> unat (i :: u64) \<and> unat i < 2 ^ Suc n"
proof
  have "bit (unat i) n" using top n by (simp add: bit_simps)
  then have "odd (unat i div 2 ^ n)" by (simp add: bit_iff_odd)
  then have "unat i div 2 ^ n \<noteq> 0" by (metis even_zero)
  then show "2 ^ n \<le> unat i" by (simp add: div_eq_0_iff)
next
  have "take_bit (Suc n) i = i"
    by (rule bit_word_eqI) (use above in \<open>force simp: bit_simps less_Suc_eq_le not_le [symmetric]\<close>)
  then have "unat i = take_bit (Suc n) (unat i)"
    by (metis unsigned_take_bit_eq)
  then show "unat i < 2 ^ Suc n"
    by (metis take_bit_nat_less_exp)
qed

lemma log2floor_bounds:
  assumes "i \<noteq> 0"
  shows "2 ^ unat (log2floor i) \<le> unat i \<and> unat i < 2 ^ Suc (unat (log2floor i))"
proof (rule unat_top_bit_bounds)
  show "bit i (unat (log2floor i))"
    using clz_from_top [OF word_nonzero_bit [OF assms]]
    by (simp add: unat_log2floor [OF assms] builtin_clzll_def)
  show "unat (log2floor i) < 64"
    by (simp add: unat_log2floor [OF assms])
next
  fix k assume "unat (log2floor i) < k" and "k < 64"
  then show "\<not> bit i k"
    by (intro clz_from_above [of 64 i k])
      (simp_all add: unat_log2floor [OF assms] builtin_clzll_def)
qed

lemma unat_pow2_u64: "n < 64 \<Longrightarrow> unat (2 ^ n :: u64) = 2 ^ n"
  using word_of_nat_unat_less [of "2 ^ n"] power_strict_increasing [of n 64 "2 :: nat"] by simp

lemma unat_up2:
  "i \<noteq> 0 \<Longrightarrow> unat (log2floor i) < 63 \<Longrightarrow> unat (up2 i) = 2 ^ Suc (unat (log2floor i))"
  using unat_pow2_u64 [of "Suc (unat (log2floor i))"] by (simp add: up2_def push_bit_of_1)

end
