(* ===== verification/Bit_Field.thy ===== *)
theory Bit_Field
  imports Bit_Manip
begin

text \<open>
  The interface both back ends use to pack an address: named fields of a 64-bit word, an
  operation that puts a value into a field of a word and one that reads a field. The PREP back
  end ORs masks into a word that starts at zero; the DrvX back end clears and sets the bits of
  a handle. Both satisfy the two laws below, and the client lemma says what is read back after
  a sequence of writes to fields that do not overlap.
\<close>

locale field_store =
  fixes get :: "'f \<Rightarrow> u64 \<Rightarrow> u64"
    and put :: "'f \<Rightarrow> u64 \<Rightarrow> u64 \<Rightarrow> u64"
    and fwidth :: "'f \<Rightarrow> nat"
    and ok :: "'f \<Rightarrow> bool"
    and apart :: "'f \<Rightarrow> 'f \<Rightarrow> bool"
  assumes get_put_same:
      "\<lbrakk>ok f; get f w = 0\<rbrakk> \<Longrightarrow> get f (put f w v) = take_bit (fwidth f) v"
    and get_put_other:
      "\<lbrakk>ok f; ok g; apart f g\<rbrakk> \<Longrightarrow> get f (put g w v) = get f w"
    and get_zero: "ok f \<Longrightarrow> get f 0 = 0"
begin

fun put_all :: "u64 \<Rightarrow> ('f \<times> u64) list \<Rightarrow> u64" where
  "put_all w [] = w"
| "put_all w ((f, v) # fs) = put_all (put f w v) fs"

definition fields_ok :: "('f \<times> u64) list \<Rightarrow> bool" where
  "fields_ok fs \<longleftrightarrow>
     list_all (\<lambda>a. ok (fst a)) fs
     \<and> sorted_wrt (\<lambda>a b. apart (fst a) (fst b) \<and> apart (fst b) (fst a)) fs"

lemma fields_ok_simps [simp]:
  "fields_ok []"
  "fields_ok ((f, v) # fs) \<longleftrightarrow>
     ok f \<and> list_all (\<lambda>b. apart f (fst b) \<and> apart (fst b) f) fs \<and> fields_ok fs"
  by (auto simp: fields_ok_def list_all_iff)

lemma get_put_all_apart:
  "\<lbrakk>ok f; fields_ok fs; list_all (\<lambda>b. apart f (fst b)) fs\<rbrakk> \<Longrightarrow> get f (put_all w fs) = get f w"
  by (induction fs arbitrary: w) (auto simp: get_put_other)

lemma get_put_all_from:
  "\<lbrakk>fields_ok fs; map_of fs f = Some v; get f w = 0\<rbrakk>
     \<Longrightarrow> get f (put_all w fs) = take_bit (fwidth f) v"
proof (induction fs arbitrary: w)
  case (Cons a fs)
  obtain g u where a: "a = (g, u)" by (cases a)
  show ?case
  proof (cases "g = f")
    case True
    have "list_all (\<lambda>b. apart f (fst b)) fs"
      using Cons.prems True by (auto simp: a list_all_iff)
    with Cons.prems True show ?thesis
      by (simp add: a get_put_all_apart get_put_same)
  next
    case False
    with Cons.prems have v: "map_of fs f = Some v" by (simp add: a)
    then have "(f, v) \<in> set fs" by (rule map_of_SomeD)
    with Cons.prems have "ok f" "ok g" "apart f g"
      by (auto simp: a list_all_iff fields_ok_def)
    with Cons.prems v Cons.IH [of "put g w u"] show ?thesis
      by (simp add: a get_put_other)
  qed
qed simp

lemma get_put_all:
  assumes "fields_ok fs" "map_of fs f \<noteq> None"
  shows "get f (put_all 0 fs) = take_bit (fwidth f) (the (map_of fs f))"
proof -
  from assms(2) obtain v where v: "map_of fs f = Some v" by auto
  then have "ok f" using assms(1) map_of_SomeD by (fastforce simp: fields_ok_def list_all_iff)
  then show ?thesis using get_put_all_from [OF assms(1) v get_zero] v by simp
qed

end

subsection \<open>The PREP instance: masks ORed into a word\<close>

definition orMask :: "BitRange \<Rightarrow> u64 \<Rightarrow> u64 \<Rightarrow> u64" where
  "orMask r p value = p OR createMask r value"

lemma disjoint_ranges_sym: "disjoint_ranges r s \<Longrightarrow> disjoint_ranges s r"
  by (auto simp: disjoint_ranges_def)

interpretation prep_field: field_store "\<lambda>r v. readBits v r" orMask "\<lambda>r. unat (width r)"
  valid_range disjoint_ranges
  by unfold_locales
    (simp_all add: orMask_def readBits_or readBits_createMask_same readBits_createMask_disjoint
      disjoint_ranges_sym)

end
