(* ===== verification/Place_Index.thy ===== *)
theory Place_Index
  imports Pando_Prelude "HOL-Library.Product_Lexorder"
begin

text \<open>
  Positions in the machine (\<^verbatim>\<open>pando-rt/include/pando-rt/index.hpp\<close>): nodes, pods, cores, places and
  hardware threads. The C++ structs hold signed integers, so the comparisons read the words
  through \<^const>\<open>sint\<close>. The comparison operators of the source are the orders of the HOL types,
  and \<^verbatim>\<open>isSubsetOf\<close> is shown to be inclusion of the sets of positions that an index with its
  wildcards (\<^verbatim>\<open>anyNode\<close>, \<^verbatim>\<open>anyPod\<close>, \<^verbatim>\<open>anyCore\<close>) stands for.
\<close>

datatype NodeIndex = NodeIndex (node_id: i64)
datatype PodIndex = PodIndex (pod_x: i8) (pod_y: i8)
datatype CoreIndex = CoreIndex (core_x: i8) (core_y: i8)
datatype Place = Place (place_node: NodeIndex) (place_pod: PodIndex) (place_core: CoreIndex)
datatype ThreadIndex = ThreadIndex (thread_id: i8)

definition anyNode :: NodeIndex where "anyNode = NodeIndex (-1)"
definition anyPod :: PodIndex where "anyPod = PodIndex (-1) (-1)"
definition anyCore :: CoreIndex where "anyCore = CoreIndex (-1) (-1)"
definition anyPlace :: Place where "anyPlace = Place anyNode anyPod anyCore"

subsection \<open>Comparison operators\<close>

definition node_less :: "NodeIndex \<Rightarrow> NodeIndex \<Rightarrow> bool" where
  "node_less x y \<longleftrightarrow> sint (node_id x) < sint (node_id y)"

definition pod_less :: "PodIndex \<Rightarrow> PodIndex \<Rightarrow> bool" where
  "pod_less x y \<longleftrightarrow>
     sint (pod_x x) < sint (pod_x y)
     \<or> (\<not> (sint (pod_x y) < sint (pod_x x)) \<and> sint (pod_y x) < sint (pod_y y))"

definition core_less :: "CoreIndex \<Rightarrow> CoreIndex \<Rightarrow> bool" where
  "core_less x y \<longleftrightarrow>
     sint (core_x x) < sint (core_x y)
     \<or> (\<not> (sint (core_x y) < sint (core_x x)) \<and> sint (core_y x) < sint (core_y y))"

definition thread_less :: "ThreadIndex \<Rightarrow> ThreadIndex \<Rightarrow> bool" where
  "thread_less x y \<longleftrightarrow> sint (thread_id x) < sint (thread_id y)"

instantiation NodeIndex :: linorder
begin
definition less_NodeIndex_inst: "x < y = node_less x y"
definition less_eq_NodeIndex_inst: "x \<le> y = (\<not> node_less y x)" for x y :: NodeIndex
instance
  by standard (auto simp: less_NodeIndex_inst less_eq_NodeIndex_inst node_less_def
      intro!: NodeIndex.expand)
end

instantiation PodIndex :: linorder
begin
definition less_PodIndex_inst: "x < y = pod_less x y"
definition less_eq_PodIndex_inst: "x \<le> y = (\<not> pod_less y x)" for x y :: PodIndex
instance
  by standard (auto simp: less_PodIndex_inst less_eq_PodIndex_inst pod_less_def
      intro!: PodIndex.expand)
end

instantiation CoreIndex :: linorder
begin
definition less_CoreIndex_inst: "x < y = core_less x y"
definition less_eq_CoreIndex_inst: "x \<le> y = (\<not> core_less y x)" for x y :: CoreIndex
instance
  by standard (auto simp: less_CoreIndex_inst less_eq_CoreIndex_inst core_less_def
      intro!: CoreIndex.expand)
end

instantiation ThreadIndex :: linorder
begin
definition less_ThreadIndex_inst: "x < y = thread_less x y"
definition less_eq_ThreadIndex_inst: "x \<le> y = (\<not> thread_less y x)" for x y :: ThreadIndex
instance
  by standard (auto simp: less_ThreadIndex_inst less_eq_ThreadIndex_inst thread_less_def
      intro!: ThreadIndex.expand)
end

text \<open>Places compare as \<^verbatim>\<open>std::tie(node, pod, core)\<close>, lexicographically.\<close>

definition place_tie :: "Place \<Rightarrow> NodeIndex \<times> PodIndex \<times> CoreIndex" where
  "place_tie p = (place_node p, place_pod p, place_core p)"

definition place_less :: "Place \<Rightarrow> Place \<Rightarrow> bool" where
  "place_less x y \<longleftrightarrow> place_tie x < place_tie y"

instantiation Place :: linorder
begin
definition less_Place_inst: "x < y = place_less x y"
definition less_eq_Place_inst: "x \<le> y = (\<not> place_less y x)" for x y :: Place
instance
  by standard (auto simp: less_Place_inst less_eq_Place_inst place_less_def place_tie_def
      intro: Place.expand)
end

subsection \<open>Subsets of the machine\<close>

definition node_isSubsetOf :: "NodeIndex \<Rightarrow> NodeIndex \<Rightarrow> bool" where
  "node_isSubsetOf x y = (if y = anyNode then True else x = y)"

definition pod_isSubsetOf :: "PodIndex \<Rightarrow> PodIndex \<Rightarrow> bool" where
  "pod_isSubsetOf x y = (if y = anyPod then True else x = y)"

definition core_isSubsetOf :: "CoreIndex \<Rightarrow> CoreIndex \<Rightarrow> bool" where
  "core_isSubsetOf x y = (if y = anyCore then True else x = y)"

definition place_isSubsetOf :: "Place \<Rightarrow> Place \<Rightarrow> bool" where
  "place_isSubsetOf x y \<longleftrightarrow>
     node_isSubsetOf (place_node x) (place_node y)
     \<and> pod_isSubsetOf (place_pod x) (place_pod y)
     \<and> core_isSubsetOf (place_core x) (place_core y)"

text \<open>
  The specification: an index stands for the set of proper positions (no wildcard) that match
  it, and a place for the product of its three sets.
\<close>

definition nodes_of :: "NodeIndex \<Rightarrow> NodeIndex set" where
  "nodes_of x = (if x = anyNode then - {anyNode} else {x})"

definition pods_of :: "PodIndex \<Rightarrow> PodIndex set" where
  "pods_of x = (if x = anyPod then - {anyPod} else {x})"

definition cores_of :: "CoreIndex \<Rightarrow> CoreIndex set" where
  "cores_of x = (if x = anyCore then - {anyCore} else {x})"

definition places_of :: "Place \<Rightarrow> (NodeIndex \<times> PodIndex \<times> CoreIndex) set" where
  "places_of p = nodes_of (place_node p) \<times> pods_of (place_pod p) \<times> cores_of (place_core p)"

text \<open>The three index types share one argument: a wildcard over at least two proper positions.\<close>

lemma wildcard_subset:
  assumes "a \<noteq> any" "b \<noteq> any" "a \<noteq> b"
  shows "(if y = any then True else x = y) \<longleftrightarrow>
    (if x = any then - {any} else {x}) \<subseteq> (if y = any then - {any} else {y})"
  using assms by auto

lemma node_isSubsetOf_sets: "node_isSubsetOf x y \<longleftrightarrow> nodes_of x \<subseteq> nodes_of y"
  unfolding node_isSubsetOf_def nodes_of_def
  by (rule wildcard_subset [of "NodeIndex 0" _ "NodeIndex 1"]) (simp_all add: anyNode_def)

lemma pod_isSubsetOf_sets: "pod_isSubsetOf x y \<longleftrightarrow> pods_of x \<subseteq> pods_of y"
  unfolding pod_isSubsetOf_def pods_of_def
  by (rule wildcard_subset [of "PodIndex 0 0" _ "PodIndex 1 0"]) (simp_all add: anyPod_def)

lemma core_isSubsetOf_sets: "core_isSubsetOf x y \<longleftrightarrow> cores_of x \<subseteq> cores_of y"
  unfolding core_isSubsetOf_def cores_of_def
  by (rule wildcard_subset [of "CoreIndex 0 0" _ "CoreIndex 1 0"]) (simp_all add: anyCore_def)

lemma index_sets_nonempty [simp]: "nodes_of n \<noteq> {}" "pods_of p \<noteq> {}" "cores_of c \<noteq> {}"
proof -
  have "NodeIndex 0 \<noteq> anyNode" "PodIndex 0 0 \<noteq> anyPod" "CoreIndex 0 0 \<noteq> anyCore"
    by (simp_all add: anyNode_def anyPod_def anyCore_def)
  then show "nodes_of n \<noteq> {}" "pods_of p \<noteq> {}" "cores_of c \<noteq> {}"
    by (auto simp: nodes_of_def pods_of_def cores_of_def)
qed

text \<open>
  The place tests of the runtime are set inclusion: \<open>isSubsetOf\<close> on nodes, pods, cores and whole
  places holds exactly when the set of machine positions of the first is included in that of the
  second, wildcards included.
\<close>

theorem isSubsetOf_is_subset:
  "(node_isSubsetOf n n' \<longleftrightarrow> nodes_of n \<subseteq> nodes_of n') \<and>
   (pod_isSubsetOf p p' \<longleftrightarrow> pods_of p \<subseteq> pods_of p') \<and>
   (core_isSubsetOf c c' \<longleftrightarrow> cores_of c \<subseteq> cores_of c') \<and>
   (place_isSubsetOf x y \<longleftrightarrow> places_of x \<subseteq> places_of y)"
  by (simp add: node_isSubsetOf_sets pod_isSubsetOf_sets core_isSubsetOf_sets place_isSubsetOf_def
      places_of_def times_subset_iff)

end
