(* ===== verification/Address_Translation.thy ===== *)
theory Address_Translation
  imports Bit_Field Place_Index
begin

unbundle bit_operations_syntax

text \<open>
  The global address map of the PREP back end
  (\<^verbatim>\<open>pando-rt/include/pando-rt/memory/address_map.hpp\<close>, \<^verbatim>\<open>memory_type.hpp\<close>) and the encoders and
  decoders over it (\<^verbatim>\<open>memory/address_translation.hpp\<close>, the branches under
  \<^verbatim>\<open>PANDO_RT_USE_BACKEND_PREP\<close>). The DrvX branches of the same functions are in \<open>Drv_Address_Map\<close>.
\<close>

type_synonym GlobalAddress = u64

text \<open>
  An \<^verbatim>\<open>enum class\<close> with underlying type \<^verbatim>\<open>std::uint8_t\<close>: the decoder casts any six-bit value to
  it, so values that are no enumerator are kept as \<open>MemoryTypeValue\<close>.
\<close>

datatype MemoryType = L1SP | L2SP | MainMem | UnknownMem | MemoryTypeValue u8

fun memoryType_code :: "MemoryType \<Rightarrow> u8" where
  "memoryType_code L1SP = 0"
| "memoryType_code L2SP = 1"
| "memoryType_code MainMem = 2"
| "memoryType_code UnknownMem = 63"
| "memoryType_code (MemoryTypeValue c) = c"

definition memoryType_of_code :: "u8 \<Rightarrow> MemoryType" where
  "memoryType_of_code c =
     (if c = 0 then L1SP else if c = 1 then L2SP else if c = 2 then MainMem
      else if c = 63 then UnknownMem else MemoryTypeValue c)"

lemma memoryType_code_inverse [simp]: "memoryType_code (memoryType_of_code c) = c"
  by (simp add: memoryType_of_code_def)

subsection \<open>The address map\<close>

definition am_memoryType :: BitRange where "am_memoryType = \<lparr>lo = 58, hi = 64\<rparr>"

definition am_L1SP_nodeIndex :: BitRange where "am_L1SP_nodeIndex = \<lparr>lo = 44, hi = 58\<rparr>"
definition am_L1SP_podY :: BitRange where "am_L1SP_podY = \<lparr>lo = 28, hi = 31\<rparr>"
definition am_L1SP_podX :: BitRange where "am_L1SP_podX = \<lparr>lo = 25, hi = 28\<rparr>"
definition am_L1SP_coreY :: BitRange where "am_L1SP_coreY = \<lparr>lo = 22, hi = 25\<rparr>"
definition am_L1SP_coreX :: BitRange where "am_L1SP_coreX = \<lparr>lo = 19, hi = 22\<rparr>"
definition am_L1SP_global :: BitRange where "am_L1SP_global = \<lparr>lo = 18, hi = 19\<rparr>"
definition am_L1SP_offset :: BitRange where "am_L1SP_offset = \<lparr>lo = 0, hi = 18\<rparr>"

definition am_L2SP_nodeIndex :: BitRange where "am_L2SP_nodeIndex = \<lparr>lo = 44, hi = 58\<rparr>"
definition am_L2SP_podY :: BitRange where "am_L2SP_podY = \<lparr>lo = 28, hi = 31\<rparr>"
definition am_L2SP_podX :: BitRange where "am_L2SP_podX = \<lparr>lo = 25, hi = 28\<rparr>"
definition am_L2SP_offset :: BitRange where "am_L2SP_offset = \<lparr>lo = 0, hi = 25\<rparr>"

definition am_main_nodeIndex :: BitRange where "am_main_nodeIndex = \<lparr>lo = 44, hi = 58\<rparr>"
definition am_main_offset :: BitRange where "am_main_offset = \<lparr>lo = 0, hi = 44\<rparr>"

declare am_memoryType_def [range_defs]
  am_L1SP_nodeIndex_def [range_defs] am_L1SP_podY_def [range_defs] am_L1SP_podX_def [range_defs]
  am_L1SP_coreY_def [range_defs] am_L1SP_coreX_def [range_defs] am_L1SP_global_def [range_defs]
  am_L1SP_offset_def [range_defs]
  am_L2SP_nodeIndex_def [range_defs] am_L2SP_podY_def [range_defs] am_L2SP_podX_def [range_defs]
  am_L2SP_offset_def [range_defs] am_main_nodeIndex_def [range_defs] am_main_offset_def [range_defs]

subsection \<open>Decoders\<close>

definition extractMemoryType :: "GlobalAddress \<Rightarrow> MemoryType" where
  "extractMemoryType addr = memoryType_of_code (ucast (readBits addr am_memoryType))"

definition extractNodeIndex :: "GlobalAddress \<Rightarrow> NodeIndex" where
  "extractNodeIndex addr = NodeIndex (readBits addr am_main_nodeIndex)"

definition extractPodIndex :: "GlobalAddress \<Rightarrow> PodIndex" where
  "extractPodIndex addr =
     PodIndex (ucast (readBits addr am_L1SP_podX)) (ucast (readBits addr am_L1SP_podY))"

definition extractCoreIndex :: "GlobalAddress \<Rightarrow> CoreIndex" where
  "extractCoreIndex addr =
     CoreIndex (ucast (readBits addr am_L1SP_coreX)) (ucast (readBits addr am_L1SP_coreY))"

definition extractL1SPGlobalBit :: "GlobalAddress \<Rightarrow> bool" where
  "extractL1SPGlobalBit addr \<longleftrightarrow> readBits addr am_L1SP_global \<noteq> 0"

subsection \<open>Encoders\<close>

text \<open>
  The signed coordinates of a pod or core are converted to \<^verbatim>\<open>std::uintptr_t\<close> before they are
  masked, which sign-extends them.
\<close>

definition encodeL1SPAddress :: "NodeIndex \<Rightarrow> PodIndex \<Rightarrow> CoreIndex \<Rightarrow> u64 \<Rightarrow> GlobalAddress" where
  "encodeL1SPAddress nodeIdx podIdx coreIdx offset =
     (let p = 0;
          p = p OR createMask am_memoryType (ucast (memoryType_code L1SP));
          p = p OR createMask am_L1SP_nodeIndex (node_id nodeIdx);
          p = p OR createMask am_L1SP_podX (scast (pod_x podIdx));
          p = p OR createMask am_L1SP_podY (scast (pod_y podIdx));
          p = p OR createMask am_L1SP_coreX (scast (core_x coreIdx));
          p = p OR createMask am_L1SP_coreY (scast (core_y coreIdx));
          p = p OR createMask am_L1SP_global 1;
          p = p OR createMask am_L1SP_offset offset
      in p)"

definition encodeL2SPAddress :: "NodeIndex \<Rightarrow> PodIndex \<Rightarrow> u64 \<Rightarrow> GlobalAddress" where
  "encodeL2SPAddress nodeIdx podIdx offset =
     (let p = 0;
          p = p OR createMask am_memoryType (ucast (memoryType_code L2SP));
          p = p OR createMask am_L2SP_nodeIndex (node_id nodeIdx);
          p = p OR createMask am_L2SP_podX (scast (pod_x podIdx));
          p = p OR createMask am_L2SP_podY (scast (pod_y podIdx));
          p = p OR createMask am_L2SP_offset offset
      in p)"

definition encodeMainAddress :: "NodeIndex \<Rightarrow> u64 \<Rightarrow> GlobalAddress" where
  "encodeMainAddress nodeIdx offset =
     (let p = 0;
          p = p OR createMask am_memoryType (ucast (memoryType_code MainMem));
          p = p OR createMask am_main_nodeIndex (node_id nodeIdx);
          p = p OR createMask am_main_offset offset
      in p)"

subsection \<open>The encoders write fields that do not overlap\<close>

lemma encodeL1SPAddress_fields:
  "encodeL1SPAddress n p c off = prep_field.put_all 0
     [(am_memoryType, ucast (memoryType_code L1SP)), (am_L1SP_nodeIndex, node_id n),
      (am_L1SP_podX, scast (pod_x p)), (am_L1SP_podY, scast (pod_y p)),
      (am_L1SP_coreX, scast (core_x c)), (am_L1SP_coreY, scast (core_y c)),
      (am_L1SP_global, 1), (am_L1SP_offset, off)]"
  by (simp add: encodeL1SPAddress_def orMask_def Let_def)

lemma encodeL2SPAddress_fields:
  "encodeL2SPAddress n p off = prep_field.put_all 0
     [(am_memoryType, ucast (memoryType_code L2SP)), (am_L2SP_nodeIndex, node_id n),
      (am_L2SP_podX, scast (pod_x p)), (am_L2SP_podY, scast (pod_y p)), (am_L2SP_offset, off)]"
  by (simp add: encodeL2SPAddress_def orMask_def Let_def)

lemma encodeMainAddress_fields:
  "encodeMainAddress n off = prep_field.put_all 0
     [(am_memoryType, ucast (memoryType_code MainMem)), (am_main_nodeIndex, node_id n),
      (am_main_offset, off)]"
  by (simp add: encodeMainAddress_def orMask_def Let_def)

lemmas field_evals = range_defs valid_range_def disjoint_ranges_def width_def

lemma encodeL1SPAddress_reads:
  "readBits (encodeL1SPAddress n p c off) am_memoryType = 0"
  "readBits (encodeL1SPAddress n p c off) am_main_nodeIndex = take_bit 14 (node_id n)"
  "readBits (encodeL1SPAddress n p c off) am_L1SP_podX = take_bit 3 (scast (pod_x p))"
  "readBits (encodeL1SPAddress n p c off) am_L1SP_podY = take_bit 3 (scast (pod_y p))"
  "readBits (encodeL1SPAddress n p c off) am_L1SP_coreX = take_bit 3 (scast (core_x c))"
  "readBits (encodeL1SPAddress n p c off) am_L1SP_coreY = take_bit 3 (scast (core_y c))"
  "readBits (encodeL1SPAddress n p c off) am_L1SP_global = 1"
  "readBits (encodeL1SPAddress n p c off) am_L1SP_offset = take_bit 18 off"
  by (simp_all add: encodeL1SPAddress_fields prep_field.get_put_all field_evals del: prep_field.put_all.simps)

lemma encodeL2SPAddress_reads:
  "readBits (encodeL2SPAddress n p off) am_memoryType = 1"
  "readBits (encodeL2SPAddress n p off) am_main_nodeIndex = take_bit 14 (node_id n)"
  "readBits (encodeL2SPAddress n p off) am_L1SP_podX = take_bit 3 (scast (pod_x p))"
  "readBits (encodeL2SPAddress n p off) am_L1SP_podY = take_bit 3 (scast (pod_y p))"
  "readBits (encodeL2SPAddress n p off) am_L2SP_offset = take_bit 25 off"
  by (simp_all add: encodeL2SPAddress_fields prep_field.get_put_all field_evals del: prep_field.put_all.simps)

lemma encodeMainAddress_reads:
  "readBits (encodeMainAddress n off) am_memoryType = 2"
  "readBits (encodeMainAddress n off) am_main_nodeIndex = take_bit 14 (node_id n)"
  "readBits (encodeMainAddress n off) am_main_offset = take_bit 44 off"
  by (simp_all add: encodeMainAddress_fields prep_field.get_put_all field_evals del: prep_field.put_all.simps)

subsection \<open>Round trips\<close>

lemma take_bit_eq_self_u64:
  fixes w :: "'a :: len word"
  shows "take_bit n w = w \<longleftrightarrow> unat w < 2 ^ n"
proof
  assume "take_bit n w = w"
  then have "unat w = take_bit n (unat w)" by (metis unsigned_take_bit_eq)
  then show "unat w < 2 ^ n" by (metis take_bit_nat_less_exp)
next
  assume "unat w < 2 ^ n"
  then show "take_bit n w = w"
    by (metis take_bit_nat_eq_self_iff unsigned_take_bit_eq unsigned_word_eqI)
qed

lemma coord_roundtrip:
  fixes x :: i8
  assumes "x < 8"
  shows "ucast (take_bit 3 (scast x :: u64)) = x"
proof -
  have "take_bit 3 x = x"
    using assms by (simp add: take_bit_eq_self_u64 word_less_nat_alt)
  then have "\<not> bit x n" if "3 \<le> n" for n
    using that by (metis bit_take_bit_iff not_le)
  then show ?thesis
    by (intro bit_word_eqI) (auto simp: bit_simps not_le [symmetric])
qed

definition in_node_range :: "NodeIndex \<Rightarrow> bool" where
  "in_node_range n \<longleftrightarrow> unat (node_id n) < 2 ^ 14"

definition in_pod_range :: "PodIndex \<Rightarrow> bool" where
  "in_pod_range p \<longleftrightarrow> pod_x p < 8 \<and> pod_y p < 8"

definition in_core_range :: "CoreIndex \<Rightarrow> bool" where
  "in_core_range c \<longleftrightarrow> core_x c < 8 \<and> core_y c < 8"

lemmas in_range_defs = in_node_range_def in_pod_range_def in_core_range_def

lemmas extract_defs = extractMemoryType_def extractNodeIndex_def extractPodIndex_def
  extractCoreIndex_def extractL1SPGlobalBit_def memoryType_of_code_def

lemma node_roundtrip: "in_node_range n \<Longrightarrow> NodeIndex (take_bit 14 (node_id n)) = n"
  by (cases n) (simp add: in_node_range_def take_bit_eq_self_u64)

lemma pod_roundtrip:
  "in_pod_range p \<Longrightarrow>
     PodIndex (ucast (take_bit 3 (scast (pod_x p) :: u64))) (ucast (take_bit 3 (scast (pod_y p) :: u64))) = p"
  by (cases p) (simp add: in_pod_range_def coord_roundtrip)

lemma core_roundtrip:
  "in_core_range c \<Longrightarrow>
     CoreIndex (ucast (take_bit 3 (scast (core_x c) :: u64))) (ucast (take_bit 3 (scast (core_y c) :: u64))) = c"
  by (cases c) (simp add: in_core_range_def coord_roundtrip)

lemma extract_memoryType_encoders [simp]:
  "extractMemoryType (encodeL1SPAddress n p c off) = L1SP"
  "extractMemoryType (encodeL2SPAddress n p off) = L2SP"
  "extractMemoryType (encodeMainAddress n off) = MainMem"
  by (simp_all add: extractMemoryType_def memoryType_of_code_def encodeL1SPAddress_reads
      encodeL2SPAddress_reads encodeMainAddress_reads)

lemma encoder_classes_differ:
  "encodeL1SPAddress n p c off \<noteq> encodeL2SPAddress m q o2"
  "encodeL1SPAddress n p c off \<noteq> encodeMainAddress m o3"
  "encodeL2SPAddress m q o2 \<noteq> encodeMainAddress m' o3"
  by (metis extract_memoryType_encoders MemoryType.distinct(1,3,9))+

lemma extract_nodeIndex_encoders:
  assumes "in_node_range n"
  shows "extractNodeIndex (encodeL1SPAddress n p c off) = n"
    and "extractNodeIndex (encodeL2SPAddress n p off) = n"
    and "extractNodeIndex (encodeMainAddress n off) = n"
  using node_roundtrip [OF assms]
  by (simp_all add: extractNodeIndex_def encodeL1SPAddress_reads encodeL2SPAddress_reads
      encodeMainAddress_reads)

text \<open>
  An L1SP address built by \<^verbatim>\<open>encodeL1SPAddress\<close> from a node below \<open>2^14\<close>, pod and core
  coordinates in \<open>0..7\<close> and an offset below \<open>2^18\<close> decodes to exactly these components, has
  memory type L1SP and has its global bit set.
\<close>

theorem encodeL1SPAddress_roundtrip:
  assumes "in_node_range n" "in_pod_range p" "in_core_range c" "unat off < 2 ^ 18"
  defines "a \<equiv> encodeL1SPAddress n p c off"
  shows "extractMemoryType a = L1SP \<and> extractNodeIndex a = n \<and> extractPodIndex a = p
    \<and> extractCoreIndex a = c \<and> extractL1SPGlobalBit a \<and> readBits a am_L1SP_offset = off"
  using pod_roundtrip [OF assms(2)] core_roundtrip [OF assms(3)] assms(4)
    extract_nodeIndex_encoders(1) [OF assms(1)]
  by (simp add: a_def encodeL1SPAddress_reads extractPodIndex_def extractCoreIndex_def
      extractL1SPGlobalBit_def take_bit_eq_self_u64)

theorem encodeL1SPAddress_roundtrip_witness:
  "extractCoreIndex (encodeL1SPAddress (NodeIndex 5) (PodIndex 1 2) (CoreIndex 7 3) 4096) = CoreIndex 7 3
   \<and> extractNodeIndex (encodeL1SPAddress (NodeIndex 5) (PodIndex 1 2) (CoreIndex 7 3) 4096) = NodeIndex 5"
  using encodeL1SPAddress_roundtrip [of "NodeIndex 5" "PodIndex 1 2" "CoreIndex 7 3" 4096]
  by (simp add: in_range_defs)

text \<open>
  The L2SP and main-memory encoders are lossless on in-range arguments: memory type, node,
  pod (for L2SP) and offset are read back from the address.
\<close>

theorem encodeL2SP_Main_roundtrip:
  assumes "in_node_range n" "in_pod_range p" "unat off2 < 2 ^ 25" "unat off < 2 ^ 44"
  defines "a2 \<equiv> encodeL2SPAddress n p off2"
  defines "a \<equiv> encodeMainAddress n off"
  shows "extractMemoryType a2 = L2SP \<and> extractNodeIndex a2 = n \<and> extractPodIndex a2 = p
    \<and> readBits a2 am_L2SP_offset = off2
    \<and> extractMemoryType a = MainMem \<and> extractNodeIndex a = n \<and> readBits a am_main_offset = off"
  using pod_roundtrip [OF assms(2)] assms(3,4)
    extract_nodeIndex_encoders(2,3) [OF assms(1)]
  by (simp add: a2_def a_def encodeL2SPAddress_reads encodeMainAddress_reads extractPodIndex_def
      take_bit_eq_self_u64)

theorem encodeL2SP_Main_roundtrip_witness:
  "extractPodIndex (encodeL2SPAddress (NodeIndex 16383) (PodIndex 7 0) 33554431) = PodIndex 7 0
   \<and> readBits (encodeMainAddress (NodeIndex 16383) 17592186044415) am_main_offset = 17592186044415"
  using encodeL2SP_Main_roundtrip
    [of "NodeIndex 16383" "PodIndex 7 0" 33554431 17592186044415]
  by (simp add: in_range_defs)

lemma encodeL1SPAddress_inject:
  assumes "in_node_range n" "in_pod_range p" "in_core_range c" "unat off < 2 ^ 18"
    and "in_node_range n'" "in_pod_range p'" "in_core_range c'" "unat off' < 2 ^ 18"
  shows "encodeL1SPAddress n p c off = encodeL1SPAddress n' p' c' off' \<longleftrightarrow> n = n' \<and> p = p' \<and> c = c' \<and> off = off'"
  using encodeL1SPAddress_roundtrip [OF assms(1-4)] encodeL1SPAddress_roundtrip [OF assms(5-8)] by metis

lemma encodeL2SPAddress_inject:
  assumes "in_node_range n" "in_pod_range p" "unat off < 2 ^ 25"
    and "in_node_range n'" "in_pod_range p'" "unat off' < 2 ^ 25"
  shows "encodeL2SPAddress n p off = encodeL2SPAddress n' p' off' \<longleftrightarrow> n = n' \<and> p = p' \<and> off = off'"
  using encodeL2SP_Main_roundtrip [OF assms(1-3), of 0] encodeL2SP_Main_roundtrip [OF assms(4-6), of 0]
  by (metis unat_0 zero_less_numeral zero_less_power)

lemma encodeMainAddress_inject:
  assumes "in_node_range n" "unat off < 2 ^ 44" "in_node_range n'" "unat off' < 2 ^ 44"
  shows "encodeMainAddress n off = encodeMainAddress n' off' \<longleftrightarrow> n = n' \<and> off = off'"
proof -
  have "extractNodeIndex (encodeMainAddress n off) = n \<and> readBits (encodeMainAddress n off) am_main_offset = off"
    if "in_node_range n" "unat off < 2 ^ 44" for n off
    using extract_nodeIndex_encoders(3) [OF that(1)] that(2)
    by (simp add: encodeMainAddress_reads take_bit_eq_self_u64)
  then show ?thesis using assms by metis
qed

text \<open>
  C27: addresses of different memory types never collide, and inside each of the three types the encoding is injective on
  components that fit their fields: two L1SP addresses are equal only if node, pod, core and offset are, two L2SP addresses
  only if node, pod and offset are, and two main-memory addresses only if node and offset are.
\<close>

theorem encode_addresses_separate:
  assumes "in_node_range n" "in_pod_range p" "in_core_range c" "unat off < 2 ^ 18"
    and "in_node_range n'" "in_pod_range p'" "in_core_range c'" "unat off' < 2 ^ 18"
    and "unat off2 < 2 ^ 25" "unat off2' < 2 ^ 25" "unat off3 < 2 ^ 44" "unat off3' < 2 ^ 44"
  shows "(encodeL1SPAddress n p c off = encodeL1SPAddress n' p' c' off'
      \<longleftrightarrow> n = n' \<and> p = p' \<and> c = c' \<and> off = off')
    \<and> (encodeL2SPAddress n p off2 = encodeL2SPAddress n' p' off2' \<longleftrightarrow> n = n' \<and> p = p' \<and> off2 = off2')
    \<and> (encodeMainAddress n off3 = encodeMainAddress n' off3' \<longleftrightarrow> n = n' \<and> off3 = off3')
    \<and> encodeL1SPAddress n p c off \<noteq> encodeL2SPAddress m q o2
    \<and> encodeL1SPAddress n p c off \<noteq> encodeMainAddress m o3
    \<and> encodeL2SPAddress m q o2 \<noteq> encodeMainAddress m' o3"
  using encodeL1SPAddress_inject [OF assms(1-8)] encodeL2SPAddress_inject [OF assms(1,2,9,5,6,10)]
    encodeMainAddress_inject [OF assms(1,11,5,12)] encoder_classes_differ by simp

theorem encode_addresses_separate_witness:
  "encodeL1SPAddress (NodeIndex 1) (PodIndex 0 0) (CoreIndex 0 1) 8
     \<noteq> encodeL1SPAddress (NodeIndex 2) (PodIndex 0 0) (CoreIndex 0 1) 8
   \<and> encodeL2SPAddress (NodeIndex 1) (PodIndex 0 0) 8 \<noteq> encodeL2SPAddress (NodeIndex 2) (PodIndex 0 0) 8
   \<and> encodeMainAddress (NodeIndex 1) 16 \<noteq> encodeMainAddress (NodeIndex 2) 16"
  using encode_addresses_separate [of "NodeIndex 1" "PodIndex 0 0" "CoreIndex 0 1" 8 "NodeIndex 2" "PodIndex 0 0" "CoreIndex 0 1" 8
      8 8 16 16]
  by (simp add: in_range_defs)

end
