(* ===== verification/Drv_Address_Map.thy ===== *)
theory Drv_Address_Map
  imports Bit_Field Address_Translation
begin

unbundle bit_operations_syntax

text \<open>
  The address map of the DrvX simulator
  (\<^verbatim>\<open>pando-drv/api/DrvAPIAddressMap.hpp\<close> and \<^verbatim>\<open>.cpp\<close>): bit-range handles, the virtual and physical
  address layouts, the translation from virtual to physical addresses, the conversion of a
  core-relative address to a global one, and the DrvX branches of the encoders of
  \<^verbatim>\<open>pando-rt/include/pando-rt/memory/address_translation.hpp\<close>. Both address structs hold one
  64-bit word, so they are modelled by it.
\<close>

type_synonym DrvAPIAddress = u64
type_synonym DrvAPIVAddress = u64
type_synonym DrvAPIPAddress = u64

subsection \<open>Bit-range handles\<close>

datatype bitrange_handle = bitrange_handle (HI: nat) (LO: nat)

definition handle_bits :: "bitrange_handle \<Rightarrow> nat" where
  "handle_bits h = HI h - LO h + 1"

definition handle_mask :: "bitrange_handle \<Rightarrow> u64" where
  "handle_mask h = push_bit (LO h) (push_bit (HI h - LO h + 1) 1 - 1)"

definition getbits :: "bitrange_handle \<Rightarrow> u64 \<Rightarrow> u64" where
  "getbits h i = drop_bit (LO h) (i AND handle_mask h)"

definition setbits :: "bitrange_handle \<Rightarrow> u64 \<Rightarrow> u64 \<Rightarrow> u64" where
  "setbits h i val =
     (let i = i AND NOT (handle_mask h)
      in i OR (handle_mask h AND push_bit (LO h) val))"

definition valid_handle :: "bitrange_handle \<Rightarrow> bool" where
  "valid_handle h \<longleftrightarrow> LO h \<le> HI h \<and> HI h < 64"

definition handles_apart :: "bitrange_handle \<Rightarrow> bitrange_handle \<Rightarrow> bool" where
  "handles_apart g h \<longleftrightarrow> HI g < LO h \<or> HI h < LO g"

lemma bit_handle_mask:
  "valid_handle h \<Longrightarrow> bit (handle_mask h) n \<longleftrightarrow> LO h \<le> n \<and> n \<le> HI h"
proof -
  have "push_bit (HI h - LO h + 1) 1 - 1 = (mask (HI h - LO h + 1) :: u64)"
    by (simp add: push_bit_of_1 mask_eq_exp_minus_1)
  then show "valid_handle h \<Longrightarrow> ?thesis"
    by (auto simp: handle_mask_def valid_handle_def bit_simps)
qed

lemma bit_getbits:
  "valid_handle h \<Longrightarrow> bit (getbits h i) n \<longleftrightarrow> LO h + n \<le> HI h \<and> bit i (LO h + n)"
  by (auto simp: getbits_def bit_simps bit_handle_mask)

lemma bit_setbits:
  "valid_handle h \<Longrightarrow>
     bit (setbits h i v) n \<longleftrightarrow> (if LO h \<le> n \<and> n \<le> HI h then bit v (n - LO h) else bit i n)"
  using bit_imp_le_length [of i n]
  by (auto simp: setbits_def Let_def bit_simps bit_handle_mask valid_handle_def)

lemma getbits_setbits_same:
  "valid_handle h \<Longrightarrow> getbits h (setbits h i v) = take_bit (handle_bits h) v"
  by (rule bit_word_eqI) (auto simp: bit_getbits bit_setbits handle_bits_def valid_handle_def bit_simps)

lemma getbits_setbits_other:
  "\<lbrakk>valid_handle g; valid_handle h; handles_apart g h\<rbrakk> \<Longrightarrow> getbits g (setbits h i v) = getbits g i"
  by (rule bit_word_eqI) (auto simp: bit_getbits bit_setbits handles_apart_def)

lemma getbits_zero [simp]: "getbits h 0 = 0"
  by (simp add: getbits_def)

interpretation drv_field: field_store getbits setbits handle_bits valid_handle handles_apart
  by unfold_locales (simp_all add: getbits_setbits_same getbits_setbits_other)

subsection \<open>The virtual address layout\<close>

definition V_ctrl_register :: bitrange_handle where "V_ctrl_register = bitrange_handle 63 63"
definition V_not_scratchpad :: bitrange_handle where "V_not_scratchpad = bitrange_handle 47 47"
definition V_pxn :: bitrange_handle where "V_pxn = bitrange_handle 46 33"
definition V_global :: bitrange_handle where "V_global = bitrange_handle 32 32"
definition V_pod :: bitrange_handle where "V_pod = bitrange_handle 31 26"
definition V_l2_not_l1 :: bitrange_handle where "V_l2_not_l1 = bitrange_handle 25 25"
definition V_core_y :: bitrange_handle where "V_core_y = bitrange_handle 22 20"
definition V_core_x :: bitrange_handle where "V_core_x = bitrange_handle 19 17"
definition V_l1_offset :: bitrange_handle where "V_l1_offset = bitrange_handle 16 0"
definition V_l2_offset :: bitrange_handle where "V_l2_offset = bitrange_handle 24 0"
definition V_dram_offset_hi10 :: bitrange_handle where "V_dram_offset_hi10 = bitrange_handle 57 48"
definition V_dram_offset_lo33 :: bitrange_handle where "V_dram_offset_lo33 = bitrange_handle 32 0"

definition V_dram_offset :: "DrvAPIVAddress \<Rightarrow> DrvAPIAddress" where
  "V_dram_offset a = push_bit 33 (getbits V_dram_offset_hi10 a) OR getbits V_dram_offset_lo33 a"

definition is_ctrl_register :: "DrvAPIVAddress \<Rightarrow> bool" where
  "is_ctrl_register a \<longleftrightarrow> getbits V_ctrl_register a \<noteq> 0"

definition is_dram :: "DrvAPIVAddress \<Rightarrow> bool" where
  "is_dram a \<longleftrightarrow> \<not> is_ctrl_register a \<and> getbits V_not_scratchpad a \<noteq> 0"

definition is_l2 :: "DrvAPIVAddress \<Rightarrow> bool" where
  "is_l2 a \<longleftrightarrow> \<not> is_ctrl_register a \<and> \<not> is_dram a \<and> getbits V_l2_not_l1 a \<noteq> 0"

definition is_l1 :: "DrvAPIVAddress \<Rightarrow> bool" where
  "is_l1 a \<longleftrightarrow> \<not> is_ctrl_register a \<and> \<not> is_dram a \<and> getbits V_l2_not_l1 a = 0"

definition MyL2Base :: DrvAPIVAddress where
  "MyL2Base =
     (let addr = 0;
          addr = setbits V_ctrl_register addr 0;
          addr = setbits V_l2_not_l1 addr 1;
          addr = setbits V_global addr 0;
          addr = setbits V_not_scratchpad addr 0
      in addr)"

definition MyL1Base :: DrvAPIVAddress where
  "MyL1Base =
     (let addr = 0;
          addr = setbits V_ctrl_register addr 0;
          addr = setbits V_l2_not_l1 addr 0;
          addr = setbits V_global addr 0;
          addr = setbits V_not_scratchpad addr 0
      in addr)"

definition MainMemBase :: "u32 \<Rightarrow> DrvAPIVAddress" where
  "MainMemBase pxn =
     (let addr = 0;
          addr = setbits V_ctrl_register addr 0;
          addr = setbits V_not_scratchpad addr 1;
          addr = setbits V_pxn addr (ucast pxn);
          addr = setbits V_global addr 0;
          addr = setbits V_dram_offset_hi10 addr 0;
          addr = setbits V_dram_offset_lo33 addr 0
      in addr)"

definition CoreCtrlBase :: "u32 \<Rightarrow> u32 \<Rightarrow> u32 \<Rightarrow> u32 \<Rightarrow> DrvAPIVAddress" where
  "CoreCtrlBase pxn pod cy cx =
     (let addr = 0;
          addr = setbits V_ctrl_register addr 1;
          addr = setbits V_not_scratchpad addr 1;
          addr = setbits V_pxn addr (ucast pxn);
          addr = setbits V_global addr 0;
          addr = setbits V_pod addr (ucast pod);
          addr = setbits V_core_y addr (ucast cy);
          addr = setbits V_core_x addr (ucast cx)
      in addr)"

text \<open>\<^verbatim>\<open>toGlobalAddress\<close> throws when no case applies; that is the value \<open>None\<close>.\<close>

definition toGlobalAddress ::
  "DrvAPIAddress \<Rightarrow> u32 \<Rightarrow> u32 \<Rightarrow> u32 \<Rightarrow> u32 \<Rightarrow> DrvAPIAddress option" where
  "toGlobalAddress local pxn pod cy cx =
     (if getbits V_not_scratchpad local \<noteq> 0 then Some local
      else if getbits V_global local \<noteq> 0 then Some local
      else if is_l2 local then
        Some (let v = setbits V_pxn local (ucast pxn);
                  v = setbits V_pod v (ucast pod);
                  v = setbits V_global v 1
              in v)
      else if is_l1 local then
        Some (let v = setbits V_pxn local (ucast pxn);
                  v = setbits V_pod v (ucast pod);
                  v = setbits V_global v 1;
                  v = setbits V_core_y v (ucast cy);
                  v = setbits V_core_x v (ucast cx)
              in v)
      else None)"

subsection \<open>The physical address layout and the translation\<close>

definition P_type :: bitrange_handle where "P_type = bitrange_handle 63 58"
definition TYPE_L1SP :: u64 where "TYPE_L1SP = 0"
definition TYPE_L2SP :: u64 where "TYPE_L2SP = 1"
definition TYPE_DRAM :: u64 where "TYPE_DRAM = 4"
definition TYPE_CTRL :: u64 where "TYPE_CTRL = 8"
definition P_pxn :: bitrange_handle where "P_pxn = bitrange_handle 57 44"
definition P_pod :: bitrange_handle where "P_pod = bitrange_handle 39 34"
definition P_core_y :: bitrange_handle where "P_core_y = bitrange_handle 30 28"
definition P_core_x :: bitrange_handle where "P_core_x = bitrange_handle 24 22"
definition P_l1_offset :: bitrange_handle where "P_l1_offset = bitrange_handle 16 0"
definition P_l2_offset :: bitrange_handle where "P_l2_offset = bitrange_handle 24 0"
definition P_dram_offset :: bitrange_handle where "P_dram_offset = bitrange_handle 43 0"

definition to_physical :: "DrvAPIVAddress \<Rightarrow> u32 \<Rightarrow> u32 \<Rightarrow> u32 \<Rightarrow> u32 \<Rightarrow> DrvAPIPAddress" where
  "to_physical a this_pxn this_pod this_core_y this_core_x =
     (let ret = 0;
          glob = getbits V_global a \<noteq> 0
      in
      if is_ctrl_register a then
        (let ret = setbits P_type ret TYPE_CTRL;
             ret = setbits P_pxn ret (getbits V_pxn a);
             ret = setbits P_pod ret (getbits V_pod a);
             ret = setbits P_core_y ret (getbits V_core_y a);
             ret = setbits P_core_x ret (getbits V_core_x a)
         in ret)
      else if getbits V_not_scratchpad a \<noteq> 0 then
        (let ret = setbits P_type ret TYPE_DRAM;
             ret = setbits P_pxn ret (getbits V_pxn a);
             ret = setbits P_dram_offset ret (V_dram_offset a)
         in ret)
      else if getbits V_l2_not_l1 a \<noteq> 0 then
        (let ret = setbits P_type ret TYPE_L2SP;
             ret = setbits P_pxn ret (if glob then getbits V_pxn a else ucast this_pxn);
             ret = setbits P_pod ret (if glob then getbits V_pod a else ucast this_pod);
             ret = setbits P_l2_offset ret (getbits V_l2_offset a)
         in ret)
      else
        (let ret = setbits P_type ret TYPE_L1SP;
             ret = setbits P_pxn ret (if glob then getbits V_pxn a else ucast this_pxn);
             ret = setbits P_pod ret (if glob then getbits V_pod a else ucast this_pod);
             ret = setbits P_core_y ret (if glob then getbits V_core_y a else ucast this_core_y);
             ret = setbits P_core_x ret (if glob then getbits V_core_x a else ucast this_core_x);
             ret = setbits P_l1_offset ret (getbits V_l1_offset a)
         in ret))"

subsection \<open>The DrvX branches of the pando-rt address functions\<close>

definition drvx_extractMemoryType :: "DrvAPIAddress \<Rightarrow> MemoryType" where
  "drvx_extractMemoryType a =
     (if is_dram a then MainMem else if is_l2 a then L2SP else if is_l1 a then L1SP
      else UnknownMem)"

definition drvx_extractNodeIndex :: "DrvAPIAddress \<Rightarrow> NodeIndex" where
  "drvx_extractNodeIndex a = NodeIndex (getbits V_pxn a)"

definition drvx_extractPodIndex :: "DrvAPIAddress \<Rightarrow> PodIndex" where
  "drvx_extractPodIndex a = PodIndex (ucast (getbits V_pod a)) 0"

definition drvx_extractCoreIndex :: "DrvAPIAddress \<Rightarrow> CoreIndex" where
  "drvx_extractCoreIndex a = CoreIndex (ucast (getbits V_core_x a)) (ucast (getbits V_core_y a))"

definition drvx_extractL1SPGlobalBit :: "DrvAPIAddress \<Rightarrow> bool" where
  "drvx_extractL1SPGlobalBit a = (if getbits V_global a \<noteq> 0 then True else False)"

definition drvx_encodeL1SPAddress :: "NodeIndex \<Rightarrow> PodIndex \<Rightarrow> CoreIndex \<Rightarrow> u64 \<Rightarrow> DrvAPIAddress" where
  "drvx_encodeL1SPAddress nodeIdx podIdx coreIdx offset =
     (let addr = 0;
          addr = setbits V_l2_not_l1 addr 0;
          addr = setbits V_not_scratchpad addr 0;
          addr = setbits V_pxn addr (node_id nodeIdx);
          addr = setbits V_pod addr (scast (pod_x podIdx));
          addr = setbits V_core_x addr (scast (core_x coreIdx));
          addr = setbits V_core_y addr (scast (core_y coreIdx));
          addr = setbits V_global addr 1;
          addr = setbits V_l1_offset addr offset
      in addr)"

definition drvx_encodeL2SPAddress :: "NodeIndex \<Rightarrow> PodIndex \<Rightarrow> u64 \<Rightarrow> DrvAPIAddress" where
  "drvx_encodeL2SPAddress nodeIdx podIdx offset =
     (let addr = 0;
          addr = setbits V_l2_not_l1 addr 1;
          addr = setbits V_not_scratchpad addr 0;
          addr = setbits V_pxn addr (node_id nodeIdx);
          addr = setbits V_pod addr (scast (pod_x podIdx));
          addr = setbits V_l2_offset addr offset;
          addr = setbits V_global addr 1
      in addr)"

definition drvx_encodeMainAddress :: "NodeIndex \<Rightarrow> u64 \<Rightarrow> DrvAPIAddress" where
  "drvx_encodeMainAddress nodeIdx offset =
     (let addr = 0;
          addr = setbits V_not_scratchpad addr 1;
          addr = setbits V_pxn addr (node_id nodeIdx);
          addr = setbits V_dram_offset_lo33 addr (getbits V_dram_offset_lo33 offset);
          addr = setbits V_dram_offset_hi10 addr (getbits V_dram_offset_hi10 offset)
      in addr)"

subsection \<open>Reading back fields\<close>

lemmas V_defs = V_ctrl_register_def V_not_scratchpad_def V_pxn_def V_global_def V_pod_def
  V_l2_not_l1_def V_core_y_def V_core_x_def V_l1_offset_def V_l2_offset_def
  V_dram_offset_hi10_def V_dram_offset_lo33_def

lemmas P_defs = P_type_def P_pxn_def P_pod_def P_core_y_def P_core_x_def P_l1_offset_def
  P_l2_offset_def P_dram_offset_def TYPE_L1SP_def TYPE_L2SP_def TYPE_DRAM_def TYPE_CTRL_def

lemmas class_defs = is_ctrl_register_def is_dram_def is_l2_def is_l1_def

text \<open>Simplification with these rules evaluates a field of a word built by \<^const>\<open>setbits\<close>.\<close>

lemmas handle_evals = getbits_setbits_same getbits_setbits_other valid_handle_def
  handles_apart_def handle_bits_def

lemma setbits_take_bit:
  "valid_handle h \<Longrightarrow> setbits h i (take_bit (handle_bits h) v) = setbits h i v"
  by (rule bit_word_eqI) (auto simp: bit_setbits handle_bits_def valid_handle_def bit_simps)

lemma getbits_bound: "valid_handle h \<Longrightarrow> getbits h i = take_bit (handle_bits h) (getbits h i)"
  by (rule bit_word_eqI) (auto simp: bit_getbits handle_bits_def valid_handle_def bit_simps)

lemma getbits_take_bit:
  "valid_handle h \<Longrightarrow> take_bit (handle_bits h) (getbits h i) = getbits h i"
  by (metis getbits_bound)

lemma setbits_take_bit_num:
  "\<lbrakk>valid_handle h; n = handle_bits h\<rbrakk> \<Longrightarrow> setbits h i (take_bit n v) = setbits h i v"
  by (simp add: setbits_take_bit)

text \<open>
  C26: Translating an address to its global form does not change what it denotes: the physical
  address of the global form, seen from any core, is the physical address of the original seen
  from the core it is relative to.
\<close>

theorem to_physical_toGlobalAddress:
  assumes "toGlobalAddress a pxn pod cy cx = Some g"
  shows "to_physical g pxn' pod' cy' cx' = to_physical a pxn pod cy cx"
proof -
  consider (unchanged) "g = a" "getbits V_not_scratchpad a \<noteq> 0 \<or> getbits V_global a \<noteq> 0"
    | (l2) "is_l2 a" "getbits V_not_scratchpad a = 0" "getbits V_global a = 0"
        "g = setbits V_global (setbits V_pod (setbits V_pxn a (ucast pxn)) (ucast pod)) 1"
    | (l1) "is_l1 a" "getbits V_not_scratchpad a = 0" "getbits V_global a = 0"
        "g = setbits V_core_x (setbits V_core_y (setbits V_global
           (setbits V_pod (setbits V_pxn a (ucast pxn)) (ucast pod)) 1) (ucast cy)) (ucast cx)"
    using assms by (auto simp: toGlobalAddress_def Let_def split: if_splits)
  then show ?thesis
  proof cases
    case unchanged
    then show ?thesis by (auto simp: to_physical_def Let_def)
  next
    case l2
    then show ?thesis
      by (simp add: to_physical_def Let_def class_defs V_defs handle_evals P_defs
          setbits_take_bit_num)
  next
    case l1
    then show ?thesis
      by (simp add: to_physical_def Let_def class_defs V_defs handle_evals P_defs
          setbits_take_bit_num)
  qed
qed

theorem to_physical_toGlobalAddress_witness:
  "to_physical (setbits V_core_x (setbits V_core_y (setbits V_global
       (setbits V_pod (setbits V_pxn 64 3) 1) 1) 2) 5) 0 0 0 0
   = to_physical 64 3 1 2 5"
proof -
  have "is_l1 64" "getbits V_not_scratchpad 64 = 0" "getbits V_global 64 = 0" "\<not> is_l2 64"
    by (simp_all add: class_defs V_defs getbits_def handle_mask_def)
  then have "toGlobalAddress 64 3 1 2 5 = Some (setbits V_core_x (setbits V_core_y
       (setbits V_global (setbits V_pod (setbits V_pxn 64 3) 1) 1) 2) 5)"
    by (simp add: toGlobalAddress_def Let_def)
  from to_physical_toGlobalAddress [OF this, of 0 0 0 0] show ?thesis .
qed

text \<open>
  \<^verbatim>\<open>toGlobalAddress\<close> fails (throws) exactly on a control-register address that is marked neither
  as main memory nor as global; in every other case it returns an address, and the result is
  either main memory, a control register or has its global bit set.
\<close>

theorem toGlobalAddress_total:
  "(toGlobalAddress a pxn pod cy cx = None \<longleftrightarrow>
      is_ctrl_register a \<and> getbits V_not_scratchpad a = 0 \<and> getbits V_global a = 0)
   \<and> (case toGlobalAddress a pxn pod cy cx of None \<Rightarrow> True
       | Some g \<Rightarrow> (if getbits V_not_scratchpad g = 0 then getbits V_global g = 1 else True))"
proof -
  have one: "getbits V_global a = 0 \<or> getbits V_global a = 1"
  proof -
    have "getbits V_global a = take_bit 1 (getbits V_global a)"
      using getbits_bound [of V_global a] by (simp add: V_defs valid_handle_def handle_bits_def)
    then have "unat (getbits V_global a) < 2"
      by (metis power_one_right take_bit_eq_self_u64)
    then show ?thesis
      by (metis less_2_cases One_nat_def u64_eq_iff_unat unsigned_0 unsigned_1)
  qed
  show ?thesis
    using one by (auto simp: toGlobalAddress_def Let_def class_defs V_defs handle_evals)
qed

lemma drvx_encodeMainAddress_reads:
  assumes "unat off < 2 ^ 43"
  shows "V_dram_offset (drvx_encodeMainAddress n off) = take_bit 33 off"
    and "drvx_extractMemoryType (drvx_encodeMainAddress n off) = MainMem"
    and "drvx_extractNodeIndex (drvx_encodeMainAddress n off) = NodeIndex (take_bit 14 (node_id n))"
proof -
  have off: "take_bit 43 off = off"
    using assms(1) by (simp add: take_bit_eq_self_u64)
  have hi: "getbits V_dram_offset_hi10 off = 0"
    by (rule bit_word_eqI, subst off [symmetric])
      (simp add: bit_getbits V_defs valid_handle_def bit_simps)
  have lo: "getbits V_dram_offset_lo33 off = take_bit 33 off"
    by (rule bit_word_eqI) (auto simp: bit_getbits V_defs valid_handle_def bit_simps)
  show "V_dram_offset (drvx_encodeMainAddress n off) = take_bit 33 off"
    by (simp add: V_dram_offset_def drvx_encodeMainAddress_def Let_def hi lo)
      (simp add: V_defs handle_evals)
  show "drvx_extractMemoryType (drvx_encodeMainAddress n off) = MainMem"
    and "drvx_extractNodeIndex (drvx_encodeMainAddress n off) = NodeIndex (take_bit 14 (node_id n))"
    by (simp_all add: drvx_extractMemoryType_def drvx_extractNodeIndex_def
        drvx_encodeMainAddress_def Let_def class_defs V_defs handle_evals)
qed

text \<open>
  On the DrvX back end a main-memory address keeps its node and the low 33 bits of its
  offset, and the offset is lossless exactly below \<open>2^33\<close>: the encoder stores bits 48 to 57
  of the offset in the field for offset bits 33 to 42.
\<close>

theorem drvx_encodeMainAddress_offset:
  assumes "unat off < 2 ^ 43" "in_node_range n"
  shows "V_dram_offset (drvx_encodeMainAddress n off) = take_bit 33 off
    \<and> (V_dram_offset (drvx_encodeMainAddress n off) = off \<longleftrightarrow> unat off < 2 ^ 33)
    \<and> drvx_extractMemoryType (drvx_encodeMainAddress n off) = MainMem
    \<and> drvx_extractNodeIndex (drvx_encodeMainAddress n off) = n"
  using drvx_encodeMainAddress_reads [OF assms(1), of n] node_roundtrip [OF assms(2)]
  by (simp add: take_bit_eq_self_u64)

theorem drvx_encodeMainAddress_offset_witness:
  "V_dram_offset (drvx_encodeMainAddress (NodeIndex 1) 4096) = 4096
   \<and> V_dram_offset (drvx_encodeMainAddress (NodeIndex 1) 8589934592) = 0"
  using drvx_encodeMainAddress_offset [of 4096 "NodeIndex 1"]
    drvx_encodeMainAddress_offset [of 8589934592 "NodeIndex 1"]
  by (simp add: in_range_defs)

lemma coord_roundtrip6:
  fixes x :: i8
  assumes "x < 64"
  shows "ucast (take_bit 6 (scast x :: u64)) = x"
proof -
  have "take_bit 6 x = x"
    using assms by (simp add: take_bit_eq_self_u64 word_less_nat_alt)
  then have "\<not> bit x n" if "6 \<le> n" for n
    using that by (metis bit_take_bit_iff not_le)
  then show ?thesis
    by (intro bit_word_eqI) (auto simp: bit_simps not_le [symmetric])
qed

text \<open>
  DrvX L1SP addresses round trip for a node below \<open>2^14\<close>, a pod in row 0 with column below
  64, core coordinates in \<open>0..7\<close> and an offset below \<open>2^17\<close>; the pod row is not stored.
\<close>

theorem drvx_encodeL1SPAddress_roundtrip:
  assumes "in_node_range n" "pod_x p < 64" "in_core_range c" "unat off < 2 ^ 17"
  defines "a \<equiv> drvx_encodeL1SPAddress n p c off"
  shows "drvx_extractMemoryType a = L1SP \<and> drvx_extractNodeIndex a = n
    \<and> drvx_extractPodIndex a = PodIndex (pod_x p) 0 \<and> drvx_extractCoreIndex a = c
    \<and> drvx_extractL1SPGlobalBit a \<and> getbits V_l1_offset a = off"
proof -
  have reads: "getbits V_ctrl_register a = 0" "getbits V_not_scratchpad a = 0"
      "getbits V_l2_not_l1 a = 0" "getbits V_pxn a = take_bit 14 (node_id n)"
      "getbits V_pod a = take_bit 6 (scast (pod_x p))"
      "getbits V_core_x a = take_bit 3 (scast (core_x c))"
      "getbits V_core_y a = take_bit 3 (scast (core_y c))"
      "getbits V_global a = 1" "getbits V_l1_offset a = take_bit 17 off"
    by (simp_all add: a_def drvx_encodeL1SPAddress_def Let_def V_defs handle_evals)
  show ?thesis
    using node_roundtrip [OF assms(1)] coord_roundtrip6 [OF assms(2)] core_roundtrip [OF assms(3)]
      assms(4)
    by (simp add: drvx_extractMemoryType_def drvx_extractNodeIndex_def drvx_extractPodIndex_def
        drvx_extractCoreIndex_def drvx_extractL1SPGlobalBit_def class_defs reads take_bit_eq_self_u64)
qed

theorem drvx_encodeL1SPAddress_roundtrip_witness:
  "drvx_extractCoreIndex (drvx_encodeL1SPAddress (NodeIndex 2) (PodIndex 33 0) (CoreIndex 6 1) 100)
     = CoreIndex 6 1"
  using drvx_encodeL1SPAddress_roundtrip [of "NodeIndex 2" "PodIndex 33 0" "CoreIndex 6 1" 100]
  by (simp add: in_range_defs)

end
