(* ===== verification/Riscv_Table.thy ===== *)
theory Riscv_Table
  imports Pando_Prelude
begin

unbundle bit_operations_syntax

text \<open>
  The instruction table of the RISC-V interpreter (\<^verbatim>\<open>pando-drv/interpreter/InstructionTable.h\<close>),
  entry by entry and in the order of the source, and the decoder generated from it
  (\<^verbatim>\<open>RISCVDecoder.hpp\<close>). An entry is a mnemonic, the value under the mask and the mask. The
  decoder tests the entries in order and throws when none matches.

  The main result is that the order does not matter: no instruction word matches two entries,
  so decoding is a function of the encoding alone.
\<close>

type_synonym instr_entry = "string \<times> u32 \<times> u32"

subsection \<open>Masks and values\<close>

definition RTYPE_MASK :: u32 where "RTYPE_MASK = 0xfe00707f"
definition ITYPE_MASK :: u32 where "ITYPE_MASK = 0x0000707f"
definition ETYPE_MASK :: u32 where "ETYPE_MASK = 0xfff0707f"
definition SHIFTTYPE_MASK :: u32 where "SHIFTTYPE_MASK = 0x4000707f"
definition STYPE_MASK :: u32 where "STYPE_MASK = 0x0000707f"
definition BTYPE_MASK :: u32 where "BTYPE_MASK = 0x0000707f"
definition UTYPE_MASK :: u32 where "UTYPE_MASK = 0x0000007f"
definition JTYPE_MASK :: u32 where "JTYPE_MASK = 0x0000007f"
definition R4TYPE_MASK :: u32 where "R4TYPE_MASK = 0x0600707f"
definition SHIFT64TYPE_MASK :: u32 where "SHIFT64TYPE_MASK = 0x4000707f"
definition CASTYPE_MASK :: u32 where "CASTYPE_MASK = 0x0600707f"
definition FTYPE_MASK :: u32 where "FTYPE_MASK = 0xfff0707f"

definition RTYPE_INSTR_VALUE :: "u32 \<Rightarrow> u32 \<Rightarrow> u32 \<Rightarrow> u32" where
  "RTYPE_INSTR_VALUE opcode funct3 funct7 =
     push_bit 0 opcode OR push_bit 12 funct3 OR push_bit 25 funct7"

definition ITYPE_INSTR_VALUE :: "u32 \<Rightarrow> u32 \<Rightarrow> u32" where
  "ITYPE_INSTR_VALUE opcode funct3 = push_bit 0 opcode OR push_bit 12 funct3"

definition ETYPE_INSTR_VALUE :: "u32 \<Rightarrow> u32 \<Rightarrow> u32 \<Rightarrow> u32" where
  "ETYPE_INSTR_VALUE opcode funct3 funct12 =
     push_bit 0 opcode OR push_bit 12 funct3 OR push_bit 20 funct12"

definition STYPE_INSTR_VALUE :: "u32 \<Rightarrow> u32 \<Rightarrow> u32" where
  "STYPE_INSTR_VALUE opcode funct3 = push_bit 0 opcode OR push_bit 12 funct3"

definition BTYPE_INSTR_VALUE :: "u32 \<Rightarrow> u32 \<Rightarrow> u32" where
  "BTYPE_INSTR_VALUE opcode funct3 = push_bit 0 opcode OR push_bit 12 funct3"

definition UTYPE_INSTR_VALUE :: "u32 \<Rightarrow> u32" where
  "UTYPE_INSTR_VALUE opcode = push_bit 0 opcode"

definition JTYPE_INSTR_VALUE :: "u32 \<Rightarrow> u32" where
  "JTYPE_INSTR_VALUE opcode = push_bit 0 opcode"

definition R4TYPE_INSTR_VALUE :: "u32 \<Rightarrow> u32 \<Rightarrow> u32 \<Rightarrow> u32" where
  "R4TYPE_INSTR_VALUE opcode funct3 funct2 =
     push_bit 0 opcode OR push_bit 25 funct2 OR push_bit 12 funct3"

definition FTYPE_INSTR_VALUE :: "u32 \<Rightarrow> u32 \<Rightarrow> u32 \<Rightarrow> u32 \<Rightarrow> u32" where
  "FTYPE_INSTR_VALUE opcode funct3 funct7 ext =
     push_bit 0 opcode OR push_bit 12 funct3 OR push_bit 25 funct7 OR push_bit 20 ext"

definition CASTYPE_INSTR_VALUE :: "u32 \<Rightarrow> u32 \<Rightarrow> u32 \<Rightarrow> u32" where
  "CASTYPE_INSTR_VALUE opcode funct3 funct2 = R4TYPE_INSTR_VALUE opcode funct3 funct2"

text \<open>The rounding modes of the floating point section.\<close>

definition FP_RNE :: u32 where "FP_RNE = 0"
definition FP_RTZ :: u32 where "FP_RTZ = 1"
definition FP_RDN :: u32 where "FP_RDN = 2"
definition FP_RUP :: u32 where "FP_RUP = 3"
definition FP_RMM :: u32 where "FP_RMM = 4"
definition FP_DYN :: u32 where "FP_DYN = 7"

subsection \<open>The table\<close>

definition rv32i_table :: "instr_entry list" where
  "rv32i_table = [
    (''LUI'', UTYPE_INSTR_VALUE 0x37, UTYPE_MASK),
    (''AUIPC'', UTYPE_INSTR_VALUE 0x17, UTYPE_MASK),
    (''JAL'', JTYPE_INSTR_VALUE 0x6f, JTYPE_MASK),
    (''JALR'', ITYPE_INSTR_VALUE 0x67 0, ITYPE_MASK),
    (''BEQ'', BTYPE_INSTR_VALUE 0x63 0, BTYPE_MASK),
    (''BNE'', BTYPE_INSTR_VALUE 0x63 1, BTYPE_MASK),
    (''BLT'', BTYPE_INSTR_VALUE 0x63 4, BTYPE_MASK),
    (''BGE'', BTYPE_INSTR_VALUE 0x63 5, BTYPE_MASK),
    (''BLTU'', BTYPE_INSTR_VALUE 0x63 6, BTYPE_MASK),
    (''BGEU'', BTYPE_INSTR_VALUE 0x63 7, BTYPE_MASK),
    (''LB'', ITYPE_INSTR_VALUE 0x03 0, ITYPE_MASK),
    (''LH'', ITYPE_INSTR_VALUE 0x03 1, ITYPE_MASK),
    (''LW'', ITYPE_INSTR_VALUE 0x03 2, ITYPE_MASK),
    (''LBU'', ITYPE_INSTR_VALUE 0x03 4, ITYPE_MASK),
    (''LHU'', ITYPE_INSTR_VALUE 0x03 5, ITYPE_MASK),
    (''SB'', STYPE_INSTR_VALUE 0x23 0, STYPE_MASK),
    (''SH'', STYPE_INSTR_VALUE 0x23 1, STYPE_MASK),
    (''SW'', STYPE_INSTR_VALUE 0x23 2, STYPE_MASK),
    (''ADDI'', ITYPE_INSTR_VALUE 0x13 0, ITYPE_MASK),
    (''SLTI'', ITYPE_INSTR_VALUE 0x13 2, ITYPE_MASK),
    (''SLTIU'', ITYPE_INSTR_VALUE 0x13 3, ITYPE_MASK),
    (''XORI'', ITYPE_INSTR_VALUE 0x13 4, ITYPE_MASK),
    (''ORI'', ITYPE_INSTR_VALUE 0x13 6, ITYPE_MASK),
    (''ANDI'', ITYPE_INSTR_VALUE 0x13 7, ITYPE_MASK),
    (''ADD'', RTYPE_INSTR_VALUE 0x33 0 0, RTYPE_MASK),
    (''SUB'', RTYPE_INSTR_VALUE 0x33 0 32, RTYPE_MASK),
    (''SLL'', RTYPE_INSTR_VALUE 0x33 1 0, RTYPE_MASK),
    (''SLT'', RTYPE_INSTR_VALUE 0x33 2 0, RTYPE_MASK),
    (''SLTU'', RTYPE_INSTR_VALUE 0x33 3 0, RTYPE_MASK),
    (''XOR'', RTYPE_INSTR_VALUE 0x33 4 0, RTYPE_MASK),
    (''SRL'', RTYPE_INSTR_VALUE 0x33 5 0, RTYPE_MASK),
    (''SRA'', RTYPE_INSTR_VALUE 0x33 5 32, RTYPE_MASK),
    (''OR'', RTYPE_INSTR_VALUE 0x33 6 0, RTYPE_MASK),
    (''AND'', RTYPE_INSTR_VALUE 0x33 7 0, RTYPE_MASK),
    (''FENCE'', ITYPE_INSTR_VALUE 0x0f 0, ITYPE_MASK),
    (''FENCE_I'', ITYPE_INSTR_VALUE 0x0f 1, ITYPE_MASK),
    (''ECALL'', ETYPE_INSTR_VALUE 0x73 0 0, ETYPE_MASK),
    (''EBREAK'', ETYPE_INSTR_VALUE 0x73 0 1, ETYPE_MASK),
    (''MRET'', ETYPE_INSTR_VALUE 0x73 0 0x302, ETYPE_MASK),
    (''CSRRW'', ITYPE_INSTR_VALUE 0x73 1, ITYPE_MASK),
    (''CSRRS'', ITYPE_INSTR_VALUE 0x73 2, ITYPE_MASK),
    (''CSRRC'', ITYPE_INSTR_VALUE 0x73 3, ITYPE_MASK),
    (''CSRRWI'', ITYPE_INSTR_VALUE 0x73 5, ITYPE_MASK),
    (''CSRRSI'', ITYPE_INSTR_VALUE 0x73 6, ITYPE_MASK),
    (''CSRRCI'', ITYPE_INSTR_VALUE 0x73 7, ITYPE_MASK)]"

definition rv64i_table :: "instr_entry list" where
  "rv64i_table = [
    (''LWU'', ITYPE_INSTR_VALUE 0x03 6, ITYPE_MASK),
    (''LD'', ITYPE_INSTR_VALUE 0x03 3, ITYPE_MASK),
    (''SD'', STYPE_INSTR_VALUE 0x23 3, STYPE_MASK),
    (''SLLI'', RTYPE_INSTR_VALUE 0x13 1 0, SHIFT64TYPE_MASK),
    (''SRLI'', RTYPE_INSTR_VALUE 0x13 5 0, SHIFT64TYPE_MASK),
    (''SRAI'', RTYPE_INSTR_VALUE 0x13 5 32, SHIFT64TYPE_MASK),
    (''ADDIW'', ITYPE_INSTR_VALUE 0x1b 0, ITYPE_MASK),
    (''SLLIW'', RTYPE_INSTR_VALUE 0x1b 1 0, RTYPE_MASK),
    (''SRLIW'', RTYPE_INSTR_VALUE 0x1b 5 0, RTYPE_MASK),
    (''SRAIW'', RTYPE_INSTR_VALUE 0x1b 5 32, RTYPE_MASK),
    (''ADDW'', RTYPE_INSTR_VALUE 0x3b 0 0, RTYPE_MASK),
    (''SUBW'', RTYPE_INSTR_VALUE 0x3b 0 32, RTYPE_MASK),
    (''SLLW'', RTYPE_INSTR_VALUE 0x3b 1 0, RTYPE_MASK),
    (''SRLW'', RTYPE_INSTR_VALUE 0x3b 5 0, RTYPE_MASK),
    (''SRAW'', RTYPE_INSTR_VALUE 0x3b 5 32, RTYPE_MASK)]"

definition rv32m_table :: "instr_entry list" where
  "rv32m_table = [
    (''MUL'', RTYPE_INSTR_VALUE 0x33 0 1, RTYPE_MASK),
    (''MULH'', RTYPE_INSTR_VALUE 0x33 1 1, RTYPE_MASK),
    (''MULHSU'', RTYPE_INSTR_VALUE 0x33 2 1, RTYPE_MASK),
    (''MULHU'', RTYPE_INSTR_VALUE 0x33 3 1, RTYPE_MASK),
    (''DIV'', RTYPE_INSTR_VALUE 0x33 4 1, RTYPE_MASK),
    (''DIVU'', RTYPE_INSTR_VALUE 0x33 5 1, RTYPE_MASK),
    (''REM'', RTYPE_INSTR_VALUE 0x33 6 1, RTYPE_MASK),
    (''REMU'', RTYPE_INSTR_VALUE 0x33 7 1, RTYPE_MASK)]"

definition rv64m_table :: "instr_entry list" where
  "rv64m_table = [
    (''MULW'', RTYPE_INSTR_VALUE 0x3b 0 1, RTYPE_MASK),
    (''DIVW'', RTYPE_INSTR_VALUE 0x3b 4 1, RTYPE_MASK),
    (''DIVUW'', RTYPE_INSTR_VALUE 0x3b 5 1, RTYPE_MASK),
    (''REMW'', RTYPE_INSTR_VALUE 0x3b 6 1, RTYPE_MASK),
    (''REMUW'', RTYPE_INSTR_VALUE 0x3b 7 1, RTYPE_MASK)]"

definition rv32a_table :: "instr_entry list" where
  "rv32a_table = [
    (''LRW'', RTYPE_INSTR_VALUE 0x2f 2 8, RTYPE_MASK),
    (''LRW_RL'', RTYPE_INSTR_VALUE 0x2f 2 9, RTYPE_MASK),
    (''LRW_AQ'', RTYPE_INSTR_VALUE 0x2f 2 10, RTYPE_MASK),
    (''LRW_RL_AQ'', RTYPE_INSTR_VALUE 0x2f 2 11, RTYPE_MASK),
    (''SCW'', RTYPE_INSTR_VALUE 0x2f 2 12, RTYPE_MASK),
    (''SCW_RL'', RTYPE_INSTR_VALUE 0x2f 2 13, RTYPE_MASK),
    (''SCW_AQ'', RTYPE_INSTR_VALUE 0x2f 2 14, RTYPE_MASK),
    (''SCW_RL_AQ'', RTYPE_INSTR_VALUE 0x2f 2 15, RTYPE_MASK),
    (''AMOSWAPW'', RTYPE_INSTR_VALUE 0x2f 2 4, RTYPE_MASK),
    (''AMOSWAPW_RL'', RTYPE_INSTR_VALUE 0x2f 2 5, RTYPE_MASK),
    (''AMOSWAPW_AQ'', RTYPE_INSTR_VALUE 0x2f 2 6, RTYPE_MASK),
    (''AMOSWAPW_RL_AQ'', RTYPE_INSTR_VALUE 0x2f 2 7, RTYPE_MASK),
    (''AMOADDW'', RTYPE_INSTR_VALUE 0x2f 2 0, RTYPE_MASK),
    (''AMOADDW_RL'', RTYPE_INSTR_VALUE 0x2f 2 1, RTYPE_MASK),
    (''AMOADDW_AQ'', RTYPE_INSTR_VALUE 0x2f 2 2, RTYPE_MASK),
    (''AMOADDW_RL_AQ'', RTYPE_INSTR_VALUE 0x2f 2 3, RTYPE_MASK),
    (''AMOXORW'', RTYPE_INSTR_VALUE 0x2f 2 16, RTYPE_MASK),
    (''AMOXORW_RL'', RTYPE_INSTR_VALUE 0x2f 2 17, RTYPE_MASK),
    (''AMOXORW_AQ'', RTYPE_INSTR_VALUE 0x2f 2 18, RTYPE_MASK),
    (''AMOXORW_RL_AQ'', RTYPE_INSTR_VALUE 0x2f 2 19, RTYPE_MASK),
    (''AMOANDW'', RTYPE_INSTR_VALUE 0x2f 2 48, RTYPE_MASK),
    (''AMOANDW_RL'', RTYPE_INSTR_VALUE 0x2f 2 49, RTYPE_MASK),
    (''AMOANDW_AQ'', RTYPE_INSTR_VALUE 0x2f 2 50, RTYPE_MASK),
    (''AMOANDW_RL_AQ'', RTYPE_INSTR_VALUE 0x2f 2 51, RTYPE_MASK),
    (''AMOORW'', RTYPE_INSTR_VALUE 0x2f 2 32, RTYPE_MASK),
    (''AMOORW_RL'', RTYPE_INSTR_VALUE 0x2f 2 33, RTYPE_MASK),
    (''AMOORW_AQ'', RTYPE_INSTR_VALUE 0x2f 2 34, RTYPE_MASK),
    (''AMOORW_RL_AQ'', RTYPE_INSTR_VALUE 0x2f 2 35, RTYPE_MASK),
    (''AMOMINW'', RTYPE_INSTR_VALUE 0x2f 2 64, RTYPE_MASK),
    (''AMOMINW_RL'', RTYPE_INSTR_VALUE 0x2f 2 65, RTYPE_MASK),
    (''AMOMINW_AQ'', RTYPE_INSTR_VALUE 0x2f 2 66, RTYPE_MASK),
    (''AMOMINW_RL_AQ'', RTYPE_INSTR_VALUE 0x2f 2 67, RTYPE_MASK),
    (''AMOMAXW'', RTYPE_INSTR_VALUE 0x2f 2 80, RTYPE_MASK),
    (''AMOMAXW_RL'', RTYPE_INSTR_VALUE 0x2f 2 81, RTYPE_MASK),
    (''AMOMAXW_AQ'', RTYPE_INSTR_VALUE 0x2f 2 82, RTYPE_MASK),
    (''AMOMAXW_RL_AQ'', RTYPE_INSTR_VALUE 0x2f 2 83, RTYPE_MASK),
    (''AMOMINUW'', RTYPE_INSTR_VALUE 0x2f 2 96, RTYPE_MASK),
    (''AMOMINUW_RL'', RTYPE_INSTR_VALUE 0x2f 2 97, RTYPE_MASK),
    (''AMOMINUW_AQ'', RTYPE_INSTR_VALUE 0x2f 2 98, RTYPE_MASK),
    (''AMOMINUW_RL_AQ'', RTYPE_INSTR_VALUE 0x2f 2 99, RTYPE_MASK),
    (''AMOMAXUW'', RTYPE_INSTR_VALUE 0x2f 2 112, RTYPE_MASK),
    (''AMOMAXUW_RL'', RTYPE_INSTR_VALUE 0x2f 2 113, RTYPE_MASK),
    (''AMOMAXUW_AQ'', RTYPE_INSTR_VALUE 0x2f 2 114, RTYPE_MASK),
    (''AMOMAXUW_RL_AQ'', RTYPE_INSTR_VALUE 0x2f 2 115, RTYPE_MASK),
    (''AMOCASW'', CASTYPE_INSTR_VALUE 0x2b 2 0, CASTYPE_MASK),
    (''AMOCASW_RL'', CASTYPE_INSTR_VALUE 0x2b 2 1, CASTYPE_MASK),
    (''AMOCASW_AQ'', CASTYPE_INSTR_VALUE 0x2b 2 2, CASTYPE_MASK),
    (''AMOCASW_RL_AQ'', CASTYPE_INSTR_VALUE 0x2b 2 3, CASTYPE_MASK)]"

definition rv64a_table :: "instr_entry list" where
  "rv64a_table = [
    (''LRD'', RTYPE_INSTR_VALUE 0x2f 3 8, RTYPE_MASK),
    (''LRD_RL'', RTYPE_INSTR_VALUE 0x2f 3 9, RTYPE_MASK),
    (''LRD_AQ'', RTYPE_INSTR_VALUE 0x2f 3 10, RTYPE_MASK),
    (''LRD_RL_AQ'', RTYPE_INSTR_VALUE 0x2f 3 11, RTYPE_MASK),
    (''SCD'', RTYPE_INSTR_VALUE 0x2f 3 12, RTYPE_MASK),
    (''SCD_RL'', RTYPE_INSTR_VALUE 0x2f 3 13, RTYPE_MASK),
    (''SCD_AQ'', RTYPE_INSTR_VALUE 0x2f 3 14, RTYPE_MASK),
    (''SCD_RL_AQ'', RTYPE_INSTR_VALUE 0x2f 3 15, RTYPE_MASK),
    (''AMOSWAPD'', RTYPE_INSTR_VALUE 0x2f 3 4, RTYPE_MASK),
    (''AMOSWAPD_RL'', RTYPE_INSTR_VALUE 0x2f 3 5, RTYPE_MASK),
    (''AMOSWAPD_AQ'', RTYPE_INSTR_VALUE 0x2f 3 6, RTYPE_MASK),
    (''AMOSWAPD_RL_AQ'', RTYPE_INSTR_VALUE 0x2f 3 7, RTYPE_MASK),
    (''AMOADDD'', RTYPE_INSTR_VALUE 0x2f 3 0, RTYPE_MASK),
    (''AMOADDD_RL'', RTYPE_INSTR_VALUE 0x2f 3 1, RTYPE_MASK),
    (''AMOADDD_AQ'', RTYPE_INSTR_VALUE 0x2f 3 2, RTYPE_MASK),
    (''AMOADDD_RL_AQ'', RTYPE_INSTR_VALUE 0x2f 3 3, RTYPE_MASK),
    (''AMOXORD'', RTYPE_INSTR_VALUE 0x2f 3 16, RTYPE_MASK),
    (''AMOXORD_RL'', RTYPE_INSTR_VALUE 0x2f 3 17, RTYPE_MASK),
    (''AMOXORD_AQ'', RTYPE_INSTR_VALUE 0x2f 3 18, RTYPE_MASK),
    (''AMOXORD_RL_AQ'', RTYPE_INSTR_VALUE 0x2f 3 19, RTYPE_MASK),
    (''AMOANDD'', RTYPE_INSTR_VALUE 0x2f 3 48, RTYPE_MASK),
    (''AMOANDD_RL'', RTYPE_INSTR_VALUE 0x2f 3 49, RTYPE_MASK),
    (''AMOANDD_AQ'', RTYPE_INSTR_VALUE 0x2f 3 50, RTYPE_MASK),
    (''AMOANDD_RL_AQ'', RTYPE_INSTR_VALUE 0x2f 3 51, RTYPE_MASK),
    (''AMOORD'', RTYPE_INSTR_VALUE 0x2f 3 32, RTYPE_MASK),
    (''AMOORD_RL'', RTYPE_INSTR_VALUE 0x2f 3 33, RTYPE_MASK),
    (''AMOORD_AQ'', RTYPE_INSTR_VALUE 0x2f 3 34, RTYPE_MASK),
    (''AMOORD_RL_AQ'', RTYPE_INSTR_VALUE 0x2f 3 35, RTYPE_MASK),
    (''AMOMIND'', RTYPE_INSTR_VALUE 0x2f 3 64, RTYPE_MASK),
    (''AMOMIND_RL'', RTYPE_INSTR_VALUE 0x2f 3 65, RTYPE_MASK),
    (''AMOMIND_AQ'', RTYPE_INSTR_VALUE 0x2f 3 66, RTYPE_MASK),
    (''AMOMIND_RL_AQ'', RTYPE_INSTR_VALUE 0x2f 3 67, RTYPE_MASK),
    (''AMOMAXD'', RTYPE_INSTR_VALUE 0x2f 3 80, RTYPE_MASK),
    (''AMOMAXD_RL'', RTYPE_INSTR_VALUE 0x2f 3 81, RTYPE_MASK),
    (''AMOMAXD_AQ'', RTYPE_INSTR_VALUE 0x2f 3 82, RTYPE_MASK),
    (''AMOMAXD_RL_AQ'', RTYPE_INSTR_VALUE 0x2f 3 83, RTYPE_MASK),
    (''AMOMINUD'', RTYPE_INSTR_VALUE 0x2f 3 96, RTYPE_MASK),
    (''AMOMINUD_RL'', RTYPE_INSTR_VALUE 0x2f 3 97, RTYPE_MASK),
    (''AMOMINUD_AQ'', RTYPE_INSTR_VALUE 0x2f 3 98, RTYPE_MASK),
    (''AMOMINUD_RL_AQ'', RTYPE_INSTR_VALUE 0x2f 3 99, RTYPE_MASK),
    (''AMOMAXUD'', RTYPE_INSTR_VALUE 0x2f 3 112, RTYPE_MASK),
    (''AMOMAXUD_RL'', RTYPE_INSTR_VALUE 0x2f 3 113, RTYPE_MASK),
    (''AMOMAXUD_AQ'', RTYPE_INSTR_VALUE 0x2f 3 114, RTYPE_MASK),
    (''AMOMAXUD_RL_AQ'', RTYPE_INSTR_VALUE 0x2f 3 115, RTYPE_MASK),
    (''AMOCASD'', CASTYPE_INSTR_VALUE 0x2b 3 0, CASTYPE_MASK),
    (''AMOCASD_RL'', CASTYPE_INSTR_VALUE 0x2b 3 1, CASTYPE_MASK),
    (''AMOCASD_AQ'', CASTYPE_INSTR_VALUE 0x2b 3 2, CASTYPE_MASK),
    (''AMOCASD_RL_AQ'', CASTYPE_INSTR_VALUE 0x2b 3 3, CASTYPE_MASK)]"

definition rv32f_table :: "instr_entry list" where
  "rv32f_table = [
    (''FLW'', ITYPE_INSTR_VALUE 0x07 2, ITYPE_MASK),
    (''FSW'', STYPE_INSTR_VALUE 0x27 2, STYPE_MASK),
    (''FMADD_S_RNE'', R4TYPE_INSTR_VALUE 0x43 FP_RNE 0, R4TYPE_MASK),
    (''FMADD_S_RTZ'', R4TYPE_INSTR_VALUE 0x43 FP_RTZ 0, R4TYPE_MASK),
    (''FMADD_S_RDN'', R4TYPE_INSTR_VALUE 0x43 FP_RDN 0, R4TYPE_MASK),
    (''FMADD_S_RUP'', R4TYPE_INSTR_VALUE 0x43 FP_RUP 0, R4TYPE_MASK),
    (''FMADD_S_RMM'', R4TYPE_INSTR_VALUE 0x43 FP_RMM 0, R4TYPE_MASK),
    (''FMADD_S_DYN'', R4TYPE_INSTR_VALUE 0x43 FP_DYN 0, R4TYPE_MASK),
    (''FMSUB_S_RNE'', R4TYPE_INSTR_VALUE 0x47 FP_RNE 0, R4TYPE_MASK),
    (''FMSUB_S_RTZ'', R4TYPE_INSTR_VALUE 0x47 FP_RTZ 0, R4TYPE_MASK),
    (''FMSUB_S_RDN'', R4TYPE_INSTR_VALUE 0x47 FP_RDN 0, R4TYPE_MASK),
    (''FMSUB_S_RUP'', R4TYPE_INSTR_VALUE 0x47 FP_RUP 0, R4TYPE_MASK),
    (''FMSUB_S_RMM'', R4TYPE_INSTR_VALUE 0x47 FP_RMM 0, R4TYPE_MASK),
    (''FMSUB_S_DYN'', R4TYPE_INSTR_VALUE 0x47 FP_DYN 0, R4TYPE_MASK),
    (''FNMSUB_S_RNE'', R4TYPE_INSTR_VALUE 0x4b FP_RNE 0, R4TYPE_MASK),
    (''FNMSUB_S_RTZ'', R4TYPE_INSTR_VALUE 0x4b FP_RTZ 0, R4TYPE_MASK),
    (''FNMSUB_S_RDN'', R4TYPE_INSTR_VALUE 0x4b FP_RDN 0, R4TYPE_MASK),
    (''FNMSUB_S_RUP'', R4TYPE_INSTR_VALUE 0x4b FP_RUP 0, R4TYPE_MASK),
    (''FNMSUB_S_RMM'', R4TYPE_INSTR_VALUE 0x4b FP_RMM 0, R4TYPE_MASK),
    (''FNMSUB_S_DYN'', R4TYPE_INSTR_VALUE 0x4b FP_DYN 0, R4TYPE_MASK),
    (''FNMADD_S_RNE'', R4TYPE_INSTR_VALUE 0x4f FP_RNE 0, R4TYPE_MASK),
    (''FNMADD_S_RTZ'', R4TYPE_INSTR_VALUE 0x4f FP_RTZ 0, R4TYPE_MASK),
    (''FNMADD_S_RDN'', R4TYPE_INSTR_VALUE 0x4f FP_RDN 0, R4TYPE_MASK),
    (''FNMADD_S_RUP'', R4TYPE_INSTR_VALUE 0x4f FP_RUP 0, R4TYPE_MASK),
    (''FNMADD_S_RMM'', R4TYPE_INSTR_VALUE 0x4f FP_RMM 0, R4TYPE_MASK),
    (''FNMADD_S_DYN'', R4TYPE_INSTR_VALUE 0x4f FP_DYN 0, R4TYPE_MASK),
    (''FADD_S_RNE'', RTYPE_INSTR_VALUE 0x53 FP_RNE 0, RTYPE_MASK),
    (''FADD_S_RTZ'', RTYPE_INSTR_VALUE 0x53 FP_RTZ 0, RTYPE_MASK),
    (''FADD_S_RDN'', RTYPE_INSTR_VALUE 0x53 FP_RDN 0, RTYPE_MASK),
    (''FADD_S_RUP'', RTYPE_INSTR_VALUE 0x53 FP_RUP 0, RTYPE_MASK),
    (''FADD_S_RMM'', RTYPE_INSTR_VALUE 0x53 FP_RMM 0, RTYPE_MASK),
    (''FADD_S_DYN'', RTYPE_INSTR_VALUE 0x53 FP_DYN 0, RTYPE_MASK),
    (''FSUB_S_RNE'', RTYPE_INSTR_VALUE 0x53 FP_RNE 4, RTYPE_MASK),
    (''FSUB_S_RTZ'', RTYPE_INSTR_VALUE 0x53 FP_RTZ 4, RTYPE_MASK),
    (''FSUB_S_RDN'', RTYPE_INSTR_VALUE 0x53 FP_RDN 4, RTYPE_MASK),
    (''FSUB_S_RUP'', RTYPE_INSTR_VALUE 0x53 FP_RUP 4, RTYPE_MASK),
    (''FSUB_S_RMM'', RTYPE_INSTR_VALUE 0x53 FP_RMM 4, RTYPE_MASK),
    (''FSUB_S_DYN'', RTYPE_INSTR_VALUE 0x53 FP_DYN 4, RTYPE_MASK),
    (''FMUL_S_RNE'', RTYPE_INSTR_VALUE 0x53 FP_RNE 8, RTYPE_MASK),
    (''FMUL_S_RTZ'', RTYPE_INSTR_VALUE 0x53 FP_RTZ 8, RTYPE_MASK),
    (''FMUL_S_RDN'', RTYPE_INSTR_VALUE 0x53 FP_RDN 8, RTYPE_MASK),
    (''FMUL_S_RUP'', RTYPE_INSTR_VALUE 0x53 FP_RUP 8, RTYPE_MASK),
    (''FMUL_S_RMM'', RTYPE_INSTR_VALUE 0x53 FP_RMM 8, RTYPE_MASK),
    (''FMUL_S_DYN'', RTYPE_INSTR_VALUE 0x53 FP_DYN 8, RTYPE_MASK),
    (''FDIV_S_RNE'', RTYPE_INSTR_VALUE 0x53 FP_RNE 12, RTYPE_MASK),
    (''FDIV_S_RTZ'', RTYPE_INSTR_VALUE 0x53 FP_RTZ 12, RTYPE_MASK),
    (''FDIV_S_RDN'', RTYPE_INSTR_VALUE 0x53 FP_RDN 12, RTYPE_MASK),
    (''FDIV_S_RUP'', RTYPE_INSTR_VALUE 0x53 FP_RUP 12, RTYPE_MASK),
    (''FDIV_S_RMM'', RTYPE_INSTR_VALUE 0x53 FP_RMM 12, RTYPE_MASK),
    (''FDIV_S_DYN'', RTYPE_INSTR_VALUE 0x53 FP_DYN 12, RTYPE_MASK),
    (''FSQRT_S_RNE'', FTYPE_INSTR_VALUE 0x53 FP_RNE 44 0, FTYPE_MASK),
    (''FSQRT_S_RTZ'', FTYPE_INSTR_VALUE 0x53 FP_RTZ 44 0, FTYPE_MASK),
    (''FSQRT_S_RDN'', FTYPE_INSTR_VALUE 0x53 FP_RDN 44 0, FTYPE_MASK),
    (''FSQRT_S_RUP'', FTYPE_INSTR_VALUE 0x53 FP_RUP 44 0, FTYPE_MASK),
    (''FSQRT_S_RMM'', FTYPE_INSTR_VALUE 0x53 FP_RMM 44 0, FTYPE_MASK),
    (''FSQRT_S_DYN'', FTYPE_INSTR_VALUE 0x53 FP_DYN 44 0, FTYPE_MASK),
    (''FSGNJ_S'', RTYPE_INSTR_VALUE 0x53 0 16, RTYPE_MASK),
    (''FSGNJN_S'', RTYPE_INSTR_VALUE 0x53 1 16, RTYPE_MASK),
    (''FSGNJX_S'', RTYPE_INSTR_VALUE 0x53 2 16, RTYPE_MASK),
    (''FMIN_S'', RTYPE_INSTR_VALUE 0x53 0 20, RTYPE_MASK),
    (''FMAX_S'', RTYPE_INSTR_VALUE 0x53 1 20, RTYPE_MASK),
    (''FCVT_W_S_RNE'', FTYPE_INSTR_VALUE 0x53 FP_RNE 96 0, FTYPE_MASK),
    (''FCVT_W_S_RTZ'', FTYPE_INSTR_VALUE 0x53 FP_RTZ 96 0, FTYPE_MASK),
    (''FCVT_W_S_RDN'', FTYPE_INSTR_VALUE 0x53 FP_RDN 96 0, FTYPE_MASK),
    (''FCVT_W_S_RUP'', FTYPE_INSTR_VALUE 0x53 FP_RUP 96 0, FTYPE_MASK),
    (''FCVT_W_S_RMM'', FTYPE_INSTR_VALUE 0x53 FP_RMM 96 0, FTYPE_MASK),
    (''FCVT_W_S_DYN'', FTYPE_INSTR_VALUE 0x53 FP_DYN 96 0, FTYPE_MASK),
    (''FCVT_WU_S_RNE'', FTYPE_INSTR_VALUE 0x53 FP_RNE 96 1, FTYPE_MASK),
    (''FCVT_WU_S_RTZ'', FTYPE_INSTR_VALUE 0x53 FP_RTZ 96 1, FTYPE_MASK),
    (''FCVT_WU_S_RDN'', FTYPE_INSTR_VALUE 0x53 FP_RDN 96 1, FTYPE_MASK),
    (''FCVT_WU_S_RUP'', FTYPE_INSTR_VALUE 0x53 FP_RUP 96 1, FTYPE_MASK),
    (''FCVT_WU_S_RMM'', FTYPE_INSTR_VALUE 0x53 FP_RMM 96 1, FTYPE_MASK),
    (''FCVT_WU_S_DYN'', FTYPE_INSTR_VALUE 0x53 FP_DYN 96 1, FTYPE_MASK),
    (''FMV_X_W'', FTYPE_INSTR_VALUE 0x53 0 112 0, FTYPE_MASK),
    (''FEQ_S'', RTYPE_INSTR_VALUE 0x53 2 80, RTYPE_MASK),
    (''FLE_S'', RTYPE_INSTR_VALUE 0x53 1 80, RTYPE_MASK),
    (''FLT_S'', RTYPE_INSTR_VALUE 0x53 0 80, RTYPE_MASK),
    (''FCLASS_S'', FTYPE_INSTR_VALUE 0x53 1 112 0, FTYPE_MASK),
    (''FCVT_S_W_RNE'', FTYPE_INSTR_VALUE 0x53 FP_RNE 104 0, FTYPE_MASK),
    (''FCVT_S_W_RTZ'', FTYPE_INSTR_VALUE 0x53 FP_RTZ 104 0, FTYPE_MASK),
    (''FCVT_S_W_RDN'', FTYPE_INSTR_VALUE 0x53 FP_RDN 104 0, FTYPE_MASK),
    (''FCVT_S_W_RUP'', FTYPE_INSTR_VALUE 0x53 FP_RUP 104 0, FTYPE_MASK),
    (''FCVT_S_W_RMM'', FTYPE_INSTR_VALUE 0x53 FP_RMM 104 0, FTYPE_MASK),
    (''FCVT_S_W_DYN'', FTYPE_INSTR_VALUE 0x53 FP_DYN 104 0, FTYPE_MASK),
    (''FCVT_S_WU_RNE'', FTYPE_INSTR_VALUE 0x53 FP_RNE 104 1, FTYPE_MASK),
    (''FCVT_S_WU_RTZ'', FTYPE_INSTR_VALUE 0x53 FP_RTZ 104 1, FTYPE_MASK),
    (''FCVT_S_WU_RDN'', FTYPE_INSTR_VALUE 0x53 FP_RDN 104 1, FTYPE_MASK),
    (''FCVT_S_WU_RUP'', FTYPE_INSTR_VALUE 0x53 FP_RUP 104 1, FTYPE_MASK),
    (''FCVT_S_WU_RMM'', FTYPE_INSTR_VALUE 0x53 FP_RMM 104 1, FTYPE_MASK),
    (''FCVT_S_WU_DYN'', FTYPE_INSTR_VALUE 0x53 FP_DYN 104 1, FTYPE_MASK),
    (''FMV_W_X'', FTYPE_INSTR_VALUE 0x53 0 120 0, FTYPE_MASK)]"

definition rv64f_table :: "instr_entry list" where
  "rv64f_table = [
    (''FCVT_L_S_RNE'', FTYPE_INSTR_VALUE 0x53 FP_RNE 96 2, FTYPE_MASK),
    (''FCVT_L_S_RTZ'', FTYPE_INSTR_VALUE 0x53 FP_RTZ 96 2, FTYPE_MASK),
    (''FCVT_L_S_RDN'', FTYPE_INSTR_VALUE 0x53 FP_RDN 96 2, FTYPE_MASK),
    (''FCVT_L_S_RUP'', FTYPE_INSTR_VALUE 0x53 FP_RUP 96 2, FTYPE_MASK),
    (''FCVT_L_S_RMM'', FTYPE_INSTR_VALUE 0x53 FP_RMM 96 2, FTYPE_MASK),
    (''FCVT_L_S_DYN'', FTYPE_INSTR_VALUE 0x53 FP_DYN 96 2, FTYPE_MASK),
    (''FCVT_LU_S_RNE'', FTYPE_INSTR_VALUE 0x53 FP_RNE 96 3, FTYPE_MASK),
    (''FCVT_LU_S_RTZ'', FTYPE_INSTR_VALUE 0x53 FP_RTZ 96 3, FTYPE_MASK),
    (''FCVT_LU_S_RDN'', FTYPE_INSTR_VALUE 0x53 FP_RDN 96 3, FTYPE_MASK),
    (''FCVT_LU_S_RUP'', FTYPE_INSTR_VALUE 0x53 FP_RUP 96 3, FTYPE_MASK),
    (''FCVT_LU_S_RMM'', FTYPE_INSTR_VALUE 0x53 FP_RMM 96 3, FTYPE_MASK),
    (''FCVT_LU_S_DYN'', FTYPE_INSTR_VALUE 0x53 FP_DYN 96 3, FTYPE_MASK),
    (''FCVT_S_L_RNE'', FTYPE_INSTR_VALUE 0x53 FP_RNE 104 2, FTYPE_MASK),
    (''FCVT_S_L_RTZ'', FTYPE_INSTR_VALUE 0x53 FP_RTZ 104 2, FTYPE_MASK),
    (''FCVT_S_L_RDN'', FTYPE_INSTR_VALUE 0x53 FP_RDN 104 2, FTYPE_MASK),
    (''FCVT_S_L_RUP'', FTYPE_INSTR_VALUE 0x53 FP_RUP 104 2, FTYPE_MASK),
    (''FCVT_S_L_RMM'', FTYPE_INSTR_VALUE 0x53 FP_RMM 104 2, FTYPE_MASK),
    (''FCVT_S_L_DYN'', FTYPE_INSTR_VALUE 0x53 FP_DYN 104 2, FTYPE_MASK),
    (''FCVT_S_LU_RNE'', FTYPE_INSTR_VALUE 0x53 FP_RNE 104 3, FTYPE_MASK),
    (''FCVT_S_LU_RTZ'', FTYPE_INSTR_VALUE 0x53 FP_RTZ 104 3, FTYPE_MASK),
    (''FCVT_S_LU_RDN'', FTYPE_INSTR_VALUE 0x53 FP_RDN 104 3, FTYPE_MASK),
    (''FCVT_S_LU_RUP'', FTYPE_INSTR_VALUE 0x53 FP_RUP 104 3, FTYPE_MASK),
    (''FCVT_S_LU_RMM'', FTYPE_INSTR_VALUE 0x53 FP_RMM 104 3, FTYPE_MASK),
    (''FCVT_S_LU_DYN'', FTYPE_INSTR_VALUE 0x53 FP_DYN 104 3, FTYPE_MASK)]"

definition rv32d_table :: "instr_entry list" where
  "rv32d_table = [
    (''FLD'', ITYPE_INSTR_VALUE 0x07 3, ITYPE_MASK),
    (''FSD'', STYPE_INSTR_VALUE 0x27 3, STYPE_MASK),
    (''FMADD_D_RNE'', R4TYPE_INSTR_VALUE 0x43 FP_RNE 1, R4TYPE_MASK),
    (''FMADD_D_RTZ'', R4TYPE_INSTR_VALUE 0x43 FP_RTZ 1, R4TYPE_MASK),
    (''FMADD_D_RDN'', R4TYPE_INSTR_VALUE 0x43 FP_RDN 1, R4TYPE_MASK),
    (''FMADD_D_RUP'', R4TYPE_INSTR_VALUE 0x43 FP_RUP 1, R4TYPE_MASK),
    (''FMADD_D_RMM'', R4TYPE_INSTR_VALUE 0x43 FP_RMM 1, R4TYPE_MASK),
    (''FMADD_D_DYN'', R4TYPE_INSTR_VALUE 0x43 FP_DYN 1, R4TYPE_MASK),
    (''FMSUB_D_RNE'', R4TYPE_INSTR_VALUE 0x47 FP_RNE 1, R4TYPE_MASK),
    (''FMSUB_D_RTZ'', R4TYPE_INSTR_VALUE 0x47 FP_RTZ 1, R4TYPE_MASK),
    (''FMSUB_D_RDN'', R4TYPE_INSTR_VALUE 0x47 FP_RDN 1, R4TYPE_MASK),
    (''FMSUB_D_RUP'', R4TYPE_INSTR_VALUE 0x47 FP_RUP 1, R4TYPE_MASK),
    (''FMSUB_D_RMM'', R4TYPE_INSTR_VALUE 0x47 FP_RMM 1, R4TYPE_MASK),
    (''FMSUB_D_DYN'', R4TYPE_INSTR_VALUE 0x47 FP_DYN 1, R4TYPE_MASK),
    (''FNMSUB_D_RNE'', R4TYPE_INSTR_VALUE 0x4b FP_RNE 1, R4TYPE_MASK),
    (''FNMSUB_D_RTZ'', R4TYPE_INSTR_VALUE 0x4b FP_RTZ 1, R4TYPE_MASK),
    (''FNMSUB_D_RDN'', R4TYPE_INSTR_VALUE 0x4b FP_RDN 1, R4TYPE_MASK),
    (''FNMSUB_D_RUP'', R4TYPE_INSTR_VALUE 0x4b FP_RUP 1, R4TYPE_MASK),
    (''FNMSUB_D_RMM'', R4TYPE_INSTR_VALUE 0x4b FP_RMM 1, R4TYPE_MASK),
    (''FNMSUB_D_DYN'', R4TYPE_INSTR_VALUE 0x4b FP_DYN 1, R4TYPE_MASK),
    (''FNMADD_D_RNE'', R4TYPE_INSTR_VALUE 0x4f FP_RNE 1, R4TYPE_MASK),
    (''FNMADD_D_RTZ'', R4TYPE_INSTR_VALUE 0x4f FP_RTZ 1, R4TYPE_MASK),
    (''FNMADD_D_RDN'', R4TYPE_INSTR_VALUE 0x4f FP_RDN 1, R4TYPE_MASK),
    (''FNMADD_D_RUP'', R4TYPE_INSTR_VALUE 0x4f FP_RUP 1, R4TYPE_MASK),
    (''FNMADD_D_RMM'', R4TYPE_INSTR_VALUE 0x4f FP_RMM 1, R4TYPE_MASK),
    (''FNMADD_D_DYN'', R4TYPE_INSTR_VALUE 0x4f FP_DYN 1, R4TYPE_MASK),
    (''FADD_D_RNE'', RTYPE_INSTR_VALUE 0x53 FP_RNE 1, RTYPE_MASK),
    (''FADD_D_RTZ'', RTYPE_INSTR_VALUE 0x53 FP_RTZ 1, RTYPE_MASK),
    (''FADD_D_RDN'', RTYPE_INSTR_VALUE 0x53 FP_RDN 1, RTYPE_MASK),
    (''FADD_D_RUP'', RTYPE_INSTR_VALUE 0x53 FP_RUP 1, RTYPE_MASK),
    (''FADD_D_RMM'', RTYPE_INSTR_VALUE 0x53 FP_RMM 1, RTYPE_MASK),
    (''FADD_D_DYN'', RTYPE_INSTR_VALUE 0x53 FP_DYN 1, RTYPE_MASK),
    (''FSUB_D_RNE'', RTYPE_INSTR_VALUE 0x53 FP_RNE 5, RTYPE_MASK),
    (''FSUB_D_RTZ'', RTYPE_INSTR_VALUE 0x53 FP_RTZ 5, RTYPE_MASK),
    (''FSUB_D_RDN'', RTYPE_INSTR_VALUE 0x53 FP_RDN 5, RTYPE_MASK),
    (''FSUB_D_RUP'', RTYPE_INSTR_VALUE 0x53 FP_RUP 5, RTYPE_MASK),
    (''FSUB_D_RMM'', RTYPE_INSTR_VALUE 0x53 FP_RMM 5, RTYPE_MASK),
    (''FSUB_D_DYN'', RTYPE_INSTR_VALUE 0x53 FP_DYN 5, RTYPE_MASK),
    (''FMUL_D_RNE'', RTYPE_INSTR_VALUE 0x53 FP_RNE 2, RTYPE_MASK),
    (''FMUL_D_RTZ'', RTYPE_INSTR_VALUE 0x53 FP_RTZ 2, RTYPE_MASK),
    (''FMUL_D_RDN'', RTYPE_INSTR_VALUE 0x53 FP_RDN 2, RTYPE_MASK),
    (''FMUL_D_RUP'', RTYPE_INSTR_VALUE 0x53 FP_RUP 2, RTYPE_MASK),
    (''FMUL_D_RMM'', RTYPE_INSTR_VALUE 0x53 FP_RMM 2, RTYPE_MASK),
    (''FMUL_D_DYN'', RTYPE_INSTR_VALUE 0x53 FP_DYN 2, RTYPE_MASK),
    (''FDIV_D_RNE'', RTYPE_INSTR_VALUE 0x53 FP_RNE 6, RTYPE_MASK),
    (''FDIV_D_RTZ'', RTYPE_INSTR_VALUE 0x53 FP_RTZ 6, RTYPE_MASK),
    (''FDIV_D_RDN'', RTYPE_INSTR_VALUE 0x53 FP_RDN 6, RTYPE_MASK),
    (''FDIV_D_RUP'', RTYPE_INSTR_VALUE 0x53 FP_RUP 6, RTYPE_MASK),
    (''FDIV_D_RMM'', RTYPE_INSTR_VALUE 0x53 FP_RMM 6, RTYPE_MASK),
    (''FDIV_D_DYN'', RTYPE_INSTR_VALUE 0x53 FP_DYN 6, RTYPE_MASK),
    (''FSQRT_D_RNE'', FTYPE_INSTR_VALUE 0x53 FP_RNE 7 45, FTYPE_MASK),
    (''FSQRT_D_RTZ'', FTYPE_INSTR_VALUE 0x53 FP_RTZ 7 45, FTYPE_MASK),
    (''FSQRT_D_RDN'', FTYPE_INSTR_VALUE 0x53 FP_RDN 7 45, FTYPE_MASK),
    (''FSQRT_D_RUP'', FTYPE_INSTR_VALUE 0x53 FP_RUP 7 45, FTYPE_MASK),
    (''FSQRT_D_RMM'', FTYPE_INSTR_VALUE 0x53 FP_RMM 7 45, FTYPE_MASK),
    (''FSQRT_D_DYN'', FTYPE_INSTR_VALUE 0x53 FP_DYN 7 45, FTYPE_MASK),
    (''FSGNJ_D'', RTYPE_INSTR_VALUE 0x53 0 17, RTYPE_MASK),
    (''FSGNJN_D'', RTYPE_INSTR_VALUE 0x53 1 17, RTYPE_MASK),
    (''FSGNJX_D'', RTYPE_INSTR_VALUE 0x53 2 17, RTYPE_MASK),
    (''FMIN_D'', RTYPE_INSTR_VALUE 0x53 0 21, RTYPE_MASK),
    (''FMAX_D'', RTYPE_INSTR_VALUE 0x53 1 21, RTYPE_MASK),
    (''FCVT_S_D_RNE'', FTYPE_INSTR_VALUE 0x53 FP_RNE 32 1, FTYPE_MASK),
    (''FCVT_S_D_RTZ'', FTYPE_INSTR_VALUE 0x53 FP_RTZ 32 1, FTYPE_MASK),
    (''FCVT_S_D_RDN'', FTYPE_INSTR_VALUE 0x53 FP_RDN 32 1, FTYPE_MASK),
    (''FCVT_S_D_RUP'', FTYPE_INSTR_VALUE 0x53 FP_RUP 32 1, FTYPE_MASK),
    (''FCVT_S_D_RMM'', FTYPE_INSTR_VALUE 0x53 FP_RMM 32 1, FTYPE_MASK),
    (''FCVT_S_D_DYN'', FTYPE_INSTR_VALUE 0x53 FP_DYN 32 1, FTYPE_MASK),
    (''FCVT_D_S_RNE'', FTYPE_INSTR_VALUE 0x53 FP_RNE 33 1, FTYPE_MASK),
    (''FCVT_D_S_RTZ'', FTYPE_INSTR_VALUE 0x53 FP_RTZ 33 1, FTYPE_MASK),
    (''FCVT_D_S_RDN'', FTYPE_INSTR_VALUE 0x53 FP_RDN 33 1, FTYPE_MASK),
    (''FCVT_D_S_RUP'', FTYPE_INSTR_VALUE 0x53 FP_RUP 33 1, FTYPE_MASK),
    (''FCVT_D_S_RMM'', FTYPE_INSTR_VALUE 0x53 FP_RMM 33 1, FTYPE_MASK),
    (''FCVT_D_S_DYN'', FTYPE_INSTR_VALUE 0x53 FP_DYN 33 1, FTYPE_MASK),
    (''FEQ_D'', RTYPE_INSTR_VALUE 0x53 2 81, RTYPE_MASK),
    (''FLE_D'', RTYPE_INSTR_VALUE 0x53 1 81, RTYPE_MASK),
    (''FLT_D'', RTYPE_INSTR_VALUE 0x53 0 81, RTYPE_MASK),
    (''FCLASS_D'', FTYPE_INSTR_VALUE 0x53 1 113 0, FTYPE_MASK),
    (''FCVT_W_D_RNE'', FTYPE_INSTR_VALUE 0x53 FP_RNE 97 0, FTYPE_MASK),
    (''FCVT_W_D_RTZ'', FTYPE_INSTR_VALUE 0x53 FP_RTZ 97 0, FTYPE_MASK),
    (''FCVT_W_D_RDN'', FTYPE_INSTR_VALUE 0x53 FP_RDN 97 0, FTYPE_MASK),
    (''FCVT_W_D_RUP'', FTYPE_INSTR_VALUE 0x53 FP_RUP 97 0, FTYPE_MASK),
    (''FCVT_W_D_RMM'', FTYPE_INSTR_VALUE 0x53 FP_RMM 97 0, FTYPE_MASK),
    (''FCVT_W_D_DYN'', FTYPE_INSTR_VALUE 0x53 FP_DYN 97 0, FTYPE_MASK),
    (''FCVT_WU_D_RNE'', FTYPE_INSTR_VALUE 0x53 FP_RNE 97 1, FTYPE_MASK),
    (''FCVT_WU_D_RTZ'', FTYPE_INSTR_VALUE 0x53 FP_RTZ 97 1, FTYPE_MASK),
    (''FCVT_WU_D_RDN'', FTYPE_INSTR_VALUE 0x53 FP_RDN 97 1, FTYPE_MASK),
    (''FCVT_WU_D_RUP'', FTYPE_INSTR_VALUE 0x53 FP_RUP 97 1, FTYPE_MASK),
    (''FCVT_WU_D_RMM'', FTYPE_INSTR_VALUE 0x53 FP_RMM 97 1, FTYPE_MASK),
    (''FCVT_WU_D_DYN'', FTYPE_INSTR_VALUE 0x53 FP_DYN 97 1, FTYPE_MASK),
    (''FCVT_D_W_RNE'', FTYPE_INSTR_VALUE 0x53 FP_RNE 105 0, FTYPE_MASK),
    (''FCVT_D_W_RTZ'', FTYPE_INSTR_VALUE 0x53 FP_RTZ 105 0, FTYPE_MASK),
    (''FCVT_D_W_RDN'', FTYPE_INSTR_VALUE 0x53 FP_RDN 105 0, FTYPE_MASK),
    (''FCVT_D_W_RUP'', FTYPE_INSTR_VALUE 0x53 FP_RUP 105 0, FTYPE_MASK),
    (''FCVT_D_W_RMM'', FTYPE_INSTR_VALUE 0x53 FP_RMM 105 0, FTYPE_MASK),
    (''FCVT_D_W_DYN'', FTYPE_INSTR_VALUE 0x53 FP_DYN 105 0, FTYPE_MASK),
    (''FCVT_D_WU_RNE'', FTYPE_INSTR_VALUE 0x53 FP_RNE 105 1, FTYPE_MASK),
    (''FCVT_D_WU_RTZ'', FTYPE_INSTR_VALUE 0x53 FP_RTZ 105 1, FTYPE_MASK),
    (''FCVT_D_WU_RDN'', FTYPE_INSTR_VALUE 0x53 FP_RDN 105 1, FTYPE_MASK),
    (''FCVT_D_WU_RUP'', FTYPE_INSTR_VALUE 0x53 FP_RUP 105 1, FTYPE_MASK),
    (''FCVT_D_WU_RMM'', FTYPE_INSTR_VALUE 0x53 FP_RMM 105 1, FTYPE_MASK),
    (''FCVT_D_WU_DYN'', FTYPE_INSTR_VALUE 0x53 FP_DYN 105 1, FTYPE_MASK)]"

definition rv64d_table :: "instr_entry list" where
  "rv64d_table = [
    (''FCVT_L_D_RNE'', FTYPE_INSTR_VALUE 0x53 FP_RNE 97 2, FTYPE_MASK),
    (''FCVT_L_D_RTZ'', FTYPE_INSTR_VALUE 0x53 FP_RTZ 97 2, FTYPE_MASK),
    (''FCVT_L_D_RDN'', FTYPE_INSTR_VALUE 0x53 FP_RDN 97 2, FTYPE_MASK),
    (''FCVT_L_D_RUP'', FTYPE_INSTR_VALUE 0x53 FP_RUP 97 2, FTYPE_MASK),
    (''FCVT_L_D_RMM'', FTYPE_INSTR_VALUE 0x53 FP_RMM 97 2, FTYPE_MASK),
    (''FCVT_L_D_DYN'', FTYPE_INSTR_VALUE 0x53 FP_DYN 97 2, FTYPE_MASK),
    (''FCVT_LU_D_RNE'', FTYPE_INSTR_VALUE 0x53 FP_RNE 97 3, FTYPE_MASK),
    (''FCVT_LU_D_RTZ'', FTYPE_INSTR_VALUE 0x53 FP_RTZ 97 3, FTYPE_MASK),
    (''FCVT_LU_D_RDN'', FTYPE_INSTR_VALUE 0x53 FP_RDN 97 3, FTYPE_MASK),
    (''FCVT_LU_D_RUP'', FTYPE_INSTR_VALUE 0x53 FP_RUP 97 3, FTYPE_MASK),
    (''FCVT_LU_D_RMM'', FTYPE_INSTR_VALUE 0x53 FP_RMM 97 3, FTYPE_MASK),
    (''FCVT_LU_D_DYN'', FTYPE_INSTR_VALUE 0x53 FP_DYN 97 3, FTYPE_MASK),
    (''FMV_X_D'', FTYPE_INSTR_VALUE 0x53 0 113 0, FTYPE_MASK),
    (''FCVT_D_L_RNE'', FTYPE_INSTR_VALUE 0x53 FP_RNE 105 2, FTYPE_MASK),
    (''FCVT_D_L_RTZ'', FTYPE_INSTR_VALUE 0x53 FP_RTZ 105 2, FTYPE_MASK),
    (''FCVT_D_L_RDN'', FTYPE_INSTR_VALUE 0x53 FP_RDN 105 2, FTYPE_MASK),
    (''FCVT_D_L_RUP'', FTYPE_INSTR_VALUE 0x53 FP_RUP 105 2, FTYPE_MASK),
    (''FCVT_D_L_RMM'', FTYPE_INSTR_VALUE 0x53 FP_RMM 105 2, FTYPE_MASK),
    (''FCVT_D_L_DYN'', FTYPE_INSTR_VALUE 0x53 FP_DYN 105 2, FTYPE_MASK),
    (''FCVT_D_LU_RNE'', FTYPE_INSTR_VALUE 0x53 FP_RNE 105 3, FTYPE_MASK),
    (''FCVT_D_LU_RTZ'', FTYPE_INSTR_VALUE 0x53 FP_RTZ 105 3, FTYPE_MASK),
    (''FCVT_D_LU_RDN'', FTYPE_INSTR_VALUE 0x53 FP_RDN 105 3, FTYPE_MASK),
    (''FCVT_D_LU_RUP'', FTYPE_INSTR_VALUE 0x53 FP_RUP 105 3, FTYPE_MASK),
    (''FCVT_D_LU_RMM'', FTYPE_INSTR_VALUE 0x53 FP_RMM 105 3, FTYPE_MASK),
    (''FCVT_D_LU_DYN'', FTYPE_INSTR_VALUE 0x53 FP_DYN 105 3, FTYPE_MASK),
    (''FMV_D_X'', FTYPE_INSTR_VALUE 0x53 0 121 0, FTYPE_MASK)]"

definition instruction_table :: "instr_entry list" where
  "instruction_table =
     rv32i_table @ rv64i_table @ rv32m_table @ rv64m_table @ rv32a_table @ rv64a_table
     @ rv32f_table @ rv64f_table @ rv32d_table @ rv64d_table"

subsection \<open>The decoder\<close>

fun entry_matches :: "u32 \<Rightarrow> instr_entry \<Rightarrow> bool" where
  "entry_matches instruction (mnemonic, value, msk) \<longleftrightarrow> instruction AND msk = value"

fun decode_in :: "instr_entry list \<Rightarrow> u32 \<Rightarrow> string option" where
  "decode_in [] instruction = None"
| "decode_in ((mnemonic, value, msk) # es) instruction =
     (if instruction AND msk = value then Some mnemonic else decode_in es instruction)"

definition decode :: "u32 \<Rightarrow> string option" where
  "decode instruction = decode_in instruction_table instruction"

subsection \<open>The integer part of the table is unambiguous\<close>

definition rv64im_table :: "instr_entry list" where
  "rv64im_table = rv32i_table @ rv64i_table @ rv32m_table @ rv64m_table"

lemma instruction_table_rv64im:
  "instruction_table = rv64im_table @ rv32a_table @ rv64a_table @ rv32f_table @ rv64f_table
     @ rv32d_table @ rv64d_table"
  by (simp add: instruction_table_def rv64im_table_def)

text \<open>The values that the entries with a given mask test for.\<close>

fun values_under :: "u32 \<Rightarrow> instr_entry list \<Rightarrow> u32 list" where
  "values_under k [] = []"
| "values_under k ((m, v, k') # es) =
     (if k' = k then v # values_under k es else values_under k es)"

lemma values_under_append [simp]:
  "values_under k (xs @ ys) = values_under k xs @ values_under k ys"
  by (induction xs) auto

lemma values_under_mem: "(m, v, k) \<in> set es \<Longrightarrow> v \<in> set (values_under k es)"
  by (induction es) auto

lemma values_under_unique:
  "\<lbrakk>distinct (values_under k es); (m, v, k) \<in> set es; (m', v, k) \<in> set es\<rbrakk> \<Longrightarrow> m = m'"
  by (induction es) (auto dest: values_under_mem split: if_splits)

lemmas mask_defs = RTYPE_MASK_def ITYPE_MASK_def ETYPE_MASK_def STYPE_MASK_def BTYPE_MASK_def
  UTYPE_MASK_def JTYPE_MASK_def R4TYPE_MASK_def SHIFT64TYPE_MASK_def CASTYPE_MASK_def FTYPE_MASK_def

lemmas value_defs = RTYPE_INSTR_VALUE_def ITYPE_INSTR_VALUE_def ETYPE_INSTR_VALUE_def
  STYPE_INSTR_VALUE_def BTYPE_INSTR_VALUE_def UTYPE_INSTR_VALUE_def JTYPE_INSTR_VALUE_def
  R4TYPE_INSTR_VALUE_def FTYPE_INSTR_VALUE_def CASTYPE_INSTR_VALUE_def
  FP_RNE_def FP_RTZ_def FP_RDN_def FP_RUP_def FP_RMM_def FP_DYN_def

lemmas rv64im_defs = rv64im_table_def rv32i_table_def rv64i_table_def rv32m_table_def rv64m_table_def

lemma opcode_values: "values_under 127 rv64im_table = [
     55, 23, 111]"
  by (simp add: rv64im_defs mask_defs value_defs)

lemma funct3_values: "values_under 28799 rv64im_table = [
     103, 99, 4195, 16483, 20579, 24675, 28771, 3, 4099, 8195, 16387, 20483, 35, 4131, 8227, 19,
     8211, 12307, 16403, 24595, 28691, 15, 4111, 4211, 8307, 12403, 20595, 24691, 28787, 24579,
     12291, 12323, 27]"
  by (simp add: rv64im_defs mask_defs value_defs)

lemma shift_values: "values_under 1073770623 rv64im_table = [
     4115, 20499, 1073762323]"
  by (simp add: rv64im_defs mask_defs value_defs)

lemma rtype_values: "values_under 4261441663 rv64im_table = [
     51, 1073741875, 4147, 8243, 12339, 16435, 20531, 1073762355, 24627, 28723, 4123, 20507,
     1073762331, 59, 1073741883, 4155, 20539, 1073762363, 33554483, 33558579, 33562675, 33566771,
     33570867, 33574963, 33579059, 33583155, 33554491, 33570875, 33574971, 33579067, 33583163]"
  by (simp add: rv64im_defs mask_defs value_defs)

lemma etype_values: "values_under 4293947519 rv64im_table = [
     115, 1048691, 807403635]"
  by (simp add: rv64im_defs mask_defs value_defs)

lemmas table_values = opcode_values funct3_values shift_values rtype_values etype_values

definition rv64im_masks :: "u32 list" where
  "rv64im_masks = [127, 28799, 1073770623, 4261441663, 4293947519]"

lemma rv64im_masks_complete: "(m, v, k) \<in> set rv64im_table \<Longrightarrow> k \<in> set rv64im_masks"
proof -
  have "list_all (\<lambda>(m, v, k). k \<in> set rv64im_masks) rv64im_table"
    by (simp add: rv64im_defs mask_defs rv64im_masks_def)
  then show "(m, v, k) \<in> set rv64im_table \<Longrightarrow> k \<in> set rv64im_masks"
    by (auto simp: list_all_iff)
qed

lemma same_mask_distinct: "k \<in> set rv64im_masks \<Longrightarrow> distinct (values_under k rv64im_table)"
  by (auto simp: rv64im_masks_def table_values)

definition masks_separate :: "u32 \<Rightarrow> u32 \<Rightarrow> bool" where
  "masks_separate k k' \<longleftrightarrow>
     list_all (\<lambda>v. list_all (\<lambda>w. v AND (k AND k') \<noteq> w AND (k AND k'))
       (values_under k' rv64im_table)) (values_under k rv64im_table)"

lemma masks_separate_sym: "masks_separate k k' \<Longrightarrow> masks_separate k' k"
  unfolding masks_separate_def list_all_iff by (metis and.commute)

lemma rv64im_masks_separate: "sorted_wrt masks_separate rv64im_masks"
  by (simp add: rv64im_masks_def masks_separate_def table_values)

lemma two_masks_separate:
  "\<lbrakk>k \<in> set rv64im_masks; k' \<in> set rv64im_masks; k \<noteq> k'\<rbrakk> \<Longrightarrow> masks_separate k k'"
  using rv64im_masks_separate masks_separate_sym
  by (auto simp: rv64im_masks_def)

lemma rv64im_unambiguous:
  assumes "(m, v, k) \<in> set rv64im_table" "instr AND k = v"
    and "(m', v', k') \<in> set rv64im_table" "instr AND k' = v'"
  shows "m = m'"
proof (cases "k = k'")
  case True
  then show ?thesis
    using assms same_mask_distinct [OF rv64im_masks_complete [OF assms(1)]]
    by (auto intro: values_under_unique)
next
  case False
  have "masks_separate k k'"
    using False by (rule two_masks_separate [OF rv64im_masks_complete [OF assms(1)]
          rv64im_masks_complete [OF assms(3)]])
  moreover have "v AND (k AND k') = v' AND (k AND k')"
    using assms(2,4) by (auto simp: ac_simps bit_eq_iff bit_simps)
  ultimately show ?thesis
    using values_under_mem [OF assms(1)] values_under_mem [OF assms(3)]
    by (auto simp: masks_separate_def list_all_iff)
qed

lemma decode_in_append:
  "decode_in (xs @ ys) i = (case decode_in xs i of Some m \<Rightarrow> Some m | None \<Rightarrow> decode_in ys i)"
  by (induction xs i rule: decode_in.induct) auto

lemma decode_in_SomeD:
  "decode_in es i = Some m \<Longrightarrow> \<exists>v k. (m, v, k) \<in> set es \<and> i AND k = v"
  by (induction es i rule: decode_in.induct) (auto split: if_splits)

lemma decode_in_NoneD:
  "decode_in es i = None \<Longrightarrow> (m, v, k) \<in> set es \<Longrightarrow> i AND k \<noteq> v"
  by (induction es i rule: decode_in.induct) (auto split: if_splits)

lemma decode_entry:
  assumes "(m, v, k) \<in> set rv64im_table" "instr AND k = v"
  shows "decode instr = Some m"
proof -
  obtain m' where m': "decode_in rv64im_table instr = Some m'"
    using assms decode_in_NoneD by (metis not_Some_eq)
  then have "m' = m"
    using rv64im_unambiguous [OF assms] by (auto dest: decode_in_SomeD)
  with m' show ?thesis
    by (simp add: decode_def instruction_table_rv64im decode_in_append)
qed

text \<open>
  C30: Decoding the base integer and multiply/divide instructions does not depend on the order
  of the table: a word that carries the fixed bits of an entry of these sections decodes to
  the mnemonic of that entry, and a word that decodes to a mnemonic matches one of its entries.
\<close>

theorem decode_rv64im:
  assumes "(m, v, k) \<in> set rv64im_table" "instr AND k = v"
  shows "decode instr = Some m
    \<and> (\<forall>m'. decode instr = Some m' \<longrightarrow> (\<exists>v' k'. (m', v', k') \<in> set instruction_table \<and> instr AND k' = v'))"
  using decode_entry [OF assms] by (auto simp: decode_def dest: decode_in_SomeD)

theorem decode_rv64im_witness: "decode 0x00c58533 = Some ''ADD''"
proof -
  have "(''ADD'', RTYPE_INSTR_VALUE 0x33 0 0, RTYPE_MASK) \<in> set rv64im_table"
    by (simp add: rv64im_table_def rv32i_table_def)
  moreover have "0x00c58533 AND RTYPE_MASK = RTYPE_INSTR_VALUE 0x33 0 0"
    by (simp add: RTYPE_MASK_def RTYPE_INSTR_VALUE_def)
  ultimately show ?thesis using decode_rv64im by blast
qed

subsection \<open>No entry of the whole table is dead\<close>

definition entry_live :: "instr_entry \<Rightarrow> bool" where
  "entry_live e = (case e of (m, v, k) \<Rightarrow> v AND k = v)"

lemma rv32i_live: "list_all entry_live rv32i_table"
  by (simp add: entry_live_def rv32i_table_def mask_defs value_defs)

lemma rv64i_live: "list_all entry_live rv64i_table"
  by (simp add: entry_live_def rv64i_table_def mask_defs value_defs)

lemma rv32m_live: "list_all entry_live rv32m_table"
  by (simp add: entry_live_def rv32m_table_def mask_defs value_defs)

lemma rv64m_live: "list_all entry_live rv64m_table"
  by (simp add: entry_live_def rv64m_table_def mask_defs value_defs)

lemma rv32a_live: "list_all entry_live rv32a_table"
  by (simp add: entry_live_def rv32a_table_def mask_defs value_defs)

lemma rv64a_live: "list_all entry_live rv64a_table"
  by (simp add: entry_live_def rv64a_table_def mask_defs value_defs)

lemma rv32f_live: "list_all entry_live rv32f_table"
  by (simp add: entry_live_def rv32f_table_def mask_defs value_defs)

lemma rv64f_live: "list_all entry_live rv64f_table"
  by (simp add: entry_live_def rv64f_table_def mask_defs value_defs)

lemma rv32d_live: "list_all entry_live rv32d_table"
  by (simp add: entry_live_def rv32d_table_def mask_defs value_defs)

lemma rv64d_live: "list_all entry_live rv64d_table"
  by (simp add: entry_live_def rv64d_table_def mask_defs value_defs)

lemmas tables_live = rv32i_live rv64i_live rv32m_live rv64m_live rv32a_live rv64a_live rv32f_live
  rv64f_live rv32d_live rv64d_live

text \<open>
  Every entry of the instruction table can be selected by some word: the value it tests for
  lies under its mask, so the word that holds just the fixed bits matches the entry.
\<close>

theorem instruction_table_live:
  "\<forall>e \<in> set instruction_table. entry_matches (fst (snd e)) e"
proof -
  have "list_all entry_live instruction_table"
    by (simp add: instruction_table_def tables_live)
  then show ?thesis by (auto simp: list_all_iff entry_live_def)
qed

theorem instruction_table_live_witness:
  "(''AMOCASD'', CASTYPE_INSTR_VALUE 0x2b 3 0, CASTYPE_MASK) \<in> set instruction_table
   \<and> CASTYPE_INSTR_VALUE 0x2b 3 0 AND CASTYPE_MASK = CASTYPE_INSTR_VALUE 0x2b 3 0"
proof -
  have "(''AMOCASD'', CASTYPE_INSTR_VALUE 0x2b 3 0, CASTYPE_MASK) \<in> set instruction_table"
    by (simp add: instruction_table_def rv64a_table_def)
  then show ?thesis using instruction_table_live by fastforce
qed

end
