(* ===== verification/Riscv_Instr.thy ===== *)
theory Riscv_Instr
  imports Pando_Prelude
begin

unbundle bit_operations_syntax

text \<open>
  The operand fields and immediates of an instruction word, as the accessors of
  \<^verbatim>\<open>pando-drv/interpreter/RISCVInstructionBase.hpp\<close> compute them. An \<^verbatim>\<open>int32_t\<close> is an \<open>i32\<close> whose
  right shift is \<open>signed_drop_bit\<close>.
\<close>

subsection \<open>Fields and immediates\<close>

definition rs1 :: "u32 \<Rightarrow> u32" where "rs1 i = drop_bit 15 i AND 0x1F"
definition rs2 :: "u32 \<Rightarrow> u32" where "rs2 i = drop_bit 20 i AND 0x1F"
definition rs3 :: "u32 \<Rightarrow> u32" where "rs3 i = drop_bit 27 i AND 0x1F"
definition rd :: "u32 \<Rightarrow> u32" where "rd i = drop_bit 7 i AND 0x1F"
definition Iimm :: "u32 \<Rightarrow> u32" where "Iimm i = drop_bit 20 i"
definition SIimm :: "u32 \<Rightarrow> i32" where "SIimm i = signed_drop_bit 20 i"

definition Simm :: "u32 \<Rightarrow> i32" where
  "Simm i = push_bit 5 (signed_drop_bit 25 i) OR (signed_drop_bit 7 i AND 0x1F)"

definition Bimm :: "u32 \<Rightarrow> i32" where
  "Bimm i = push_bit 12 (signed_drop_bit 31 i)
     OR push_bit 11 (signed_drop_bit 7 i AND 0x1)
     OR push_bit 5 (signed_drop_bit 25 i AND 0x3F)
     OR push_bit 1 (signed_drop_bit 8 i AND 0xF)"

definition Uimm :: "u32 \<Rightarrow> u32" where "Uimm i = i AND 0xFFFFF000"
definition SUimm :: "u32 \<Rightarrow> i32" where "SUimm i = i AND 0xFFFFF000"

definition Jimm :: "u32 \<Rightarrow> i32" where
  "Jimm i = push_bit 20 (signed_drop_bit 31 i)
     OR push_bit 1 (signed_drop_bit 21 i AND 0x3FF)
     OR push_bit 11 (signed_drop_bit 20 i AND 0x1)
     OR push_bit 12 (signed_drop_bit 12 i AND 0xFF)"

definition shamt :: "u32 \<Rightarrow> u32" where "shamt i = drop_bit 20 i AND 0x1F"
definition shamt5 :: "u32 \<Rightarrow> u32" where "shamt5 i = shamt i"
definition shamt6 :: "u32 \<Rightarrow> u32" where "shamt6 i = drop_bit 20 i AND 0x3F"

subsection \<open>Bit layout\<close>

lemma low_mask_bits:
  "bit (0x1F :: i32) n \<longleftrightarrow> n < 5"
  "bit (0x1 :: i32) n \<longleftrightarrow> n < 1"
  "bit (0x3F :: i32) n \<longleftrightarrow> n < 6"
  "bit (0xF :: i32) n \<longleftrightarrow> n < 4"
  "bit (0x3FF :: i32) n \<longleftrightarrow> n < 10"
  "bit (0xFF :: i32) n \<longleftrightarrow> n < 8"
proof -
  have m: "0x1F = (mask 5 :: i32)" "0x1 = (mask 1 :: i32)" "0x3F = (mask 6 :: i32)"
    "0xF = (mask 4 :: i32)" "0x3FF = (mask 10 :: i32)" "0xFF = (mask 8 :: i32)"
    by (simp_all add: mask_numeral)
  show "bit (0x1F :: i32) n \<longleftrightarrow> n < 5" "bit (0x1 :: i32) n \<longleftrightarrow> n < 1"
    "bit (0x3F :: i32) n \<longleftrightarrow> n < 6" "bit (0xF :: i32) n \<longleftrightarrow> n < 4"
    "bit (0x3FF :: i32) n \<longleftrightarrow> n < 10" "bit (0xFF :: i32) n \<longleftrightarrow> n < 8"
    unfolding m by (auto simp: bit_mask_iff bit_1_iff)
qed

lemma bit_u32_length: "bit (w :: u32) n \<Longrightarrow> n < 32"
  using bit_imp_le_length [of w n] by simp

lemma bit_sar:
  "bit (signed_drop_bit k (w :: i32)) n \<longleftrightarrow> n < 32 \<and> bit w (if n + k < 32 then n + k else 31)"
proof -
  have l: "LENGTH(32) = 32" "(32 :: nat) - 1 = 31" by simp_all
  show ?thesis
    unfolding bit_signed_drop_bit_iff l
    using bit_u32_length [of w "k + n"] by (auto simp only: add.commute split: if_splits) 
qed

lemma bit_shl:
  "bit (push_bit k (w :: i32)) n \<longleftrightarrow> n < 32 \<and> k \<le> n \<and> bit w (n - k)"
  by (auto simp: bit_push_bit_iff)

lemmas imm_bits = bit_or_iff bit_and_iff bit_shl bit_sar low_mask_bits

lemma bit_SIimm:
  "bit (SIimm i) n \<longleftrightarrow> (if n < 12 then bit i (n + 20) else n < 32 \<and> bit i 31)"
  unfolding SIimm_def imm_bits by (auto simp: add.commute)

lemma bit_Simm:
  "bit (Simm i) n \<longleftrightarrow>
     (if n < 5 then bit i (n + 7) else if n < 12 then bit i (n + 20) else n < 32 \<and> bit i 31)"
  unfolding Simm_def imm_bits by (auto simp: add.commute)

lemma bit_Bimm:
  "bit (Bimm i) n \<longleftrightarrow>
     (if n = 0 then False else if n < 5 then bit i (n + 7) else if n < 11 then bit i (n + 20)
      else if n = 11 then bit i 7 else n < 32 \<and> bit i 31)"
  unfolding Bimm_def imm_bits by (auto simp: add.commute)

lemma bit_Jimm:
  "bit (Jimm i) n \<longleftrightarrow>
     (if n = 0 then False else if n < 11 then bit i (n + 20) else if n = 11 then bit i 20
      else if n < 20 then bit i n else n < 32 \<and> bit i 31)"
  unfolding Jimm_def imm_bits by (auto simp: add.commute)

subsection \<open>Ranges\<close>

lemma bit_sint_i32: "bit (sint (w :: i32)) n \<longleftrightarrow> bit w (if n < 32 then n else 31)"
proof -
  have l: "LENGTH(32) = 32" "(32 :: nat) - 1 = 31" by simp_all
  show ?thesis unfolding bit_sint_iff l by (auto simp del: One_nat_def dest: bit_u32_length)
qed

lemma even_sint_of_bit0: "\<not> bit (w :: i32) 0 \<Longrightarrow> even (sint w)"
  using bit_sint_i32 [of w 0] by (simp add: bit_0)

lemma sint_range_of_sign_bits:
  assumes "\<And>n. k \<le> n \<Longrightarrow> n < 32 \<Longrightarrow> bit (w :: i32) n = bit w k" and "k < 32"
  shows "- (2 ^ k) \<le> sint w \<and> sint w < 2 ^ k"
proof -
  have "bit (signed_take_bit k (sint w)) n = bit (sint w) n" for n
    using assms(1)[of n] assms(1)[of 31] assms(2)
    by (cases "k \<le> n") (auto simp: bit_signed_take_bit_iff bit_sint_i32 min_def)
  then have "signed_take_bit k (sint w) = sint w"
    by (intro bit_eqI) simp
  then show ?thesis
    by (metis signed_take_bit_int_greater_eq_minus_exp signed_take_bit_int_less_exp)
qed

text \<open>
  The four signed immediates are exactly the bit selections of the instruction formats: every
  bit of \<open>SIimm\<close>, \<open>Simm\<close>, \<open>Bimm\<close> and \<open>Jimm\<close> is the stated bit of the instruction word, with bit 31
  as the sign; hence a load, store or arithmetic offset is a 12-bit signed value, a branch offset an
  even 13-bit one and a jump offset an even 21-bit one.
\<close>

theorem immediates_decode:
  "(\<forall>n. bit (SIimm i) n = (if n < 12 then bit i (n + 20) else n < 32 \<and> bit i 31)) \<and>
   (\<forall>n. bit (Simm i) n =
      (if n < 5 then bit i (n + 7) else if n < 12 then bit i (n + 20) else n < 32 \<and> bit i 31)) \<and>
   (\<forall>n. bit (Bimm i) n =
      (if n = 0 then False else if n < 5 then bit i (n + 7) else if n < 11 then bit i (n + 20)
       else if n = 11 then bit i 7 else n < 32 \<and> bit i 31)) \<and>
   (\<forall>n. bit (Jimm i) n =
      (if n = 0 then False else if n < 11 then bit i (n + 20) else if n = 11 then bit i 20
       else if n < 20 then bit i n else n < 32 \<and> bit i 31)) \<and>
   sint (SIimm i) \<in> {- 2048 ..< 2048} \<and> sint (Simm i) \<in> {- 2048 ..< 2048} \<and>
   sint (Bimm i) \<in> {- 4096 ..< 4096} \<and> even (sint (Bimm i)) \<and>
   sint (Jimm i) \<in> {- 1048576 ..< 1048576} \<and> even (sint (Jimm i))"
proof -
  note bits = bit_SIimm bit_Simm bit_Bimm bit_Jimm
  have r: "- (2 ^ 11) \<le> sint (SIimm i) \<and> sint (SIimm i) < 2 ^ 11"
    "- (2 ^ 11) \<le> sint (Simm i) \<and> sint (Simm i) < 2 ^ 11"
    "- (2 ^ 12) \<le> sint (Bimm i) \<and> sint (Bimm i) < 2 ^ 12"
    "- (2 ^ 20) \<le> sint (Jimm i) \<and> sint (Jimm i) < 2 ^ 20"
    by (rule sint_range_of_sign_bits; auto simp: bits le_less)+
  have e: "even (sint (Bimm i))" "even (sint (Jimm i))"
    by (rule even_sint_of_bit0; simp add: bits)+
  show ?thesis
    using r e by (simp add: bits)
qed

end
