(* ===== verification/Riscv_Hart.thy ===== *)
theory Riscv_Hart
  imports Riscv_Instr "HOL-Library.Signed_Division"
begin

unbundle bit_operations_syntax

text \<open>
  The integer state of a hart (\<^verbatim>\<open>pando-drv/interpreter/RISCVHart.hpp\<close>) and the visitors of the base
  integer instructions (\<^verbatim>\<open>RV64IInterpreter.hpp\<close>) and of the multiply, divide and remainder instructions
  (\<^verbatim>\<open>RV64IMInterpreter.hpp\<close>). The multiply visitors compute with the 128-bit numbers of a third-party
  library; the operations they use of it are a record of functions on the integers those numbers stand for.

  Signed additions, subtractions and products wrap, as the two's complement machine the
  simulator runs on does. A C++ shift whose amount is not below the width of its left operand
  has no defined result; such a visitor call ends in \<open>UndefinedShift\<close>.
\<close>

datatype riscv_error =
    UnknownInstruction u32
  | NotImplemented string
  | UndefinedShift
  | OutOfBounds

subsection \<open>The hart\<close>

record RISCVHart =
  hart_x :: "u64 list"
  hart_pc :: u64

definition RISCVHart_init :: RISCVHart where
  "RISCVHart_init = \<lparr>hart_x = replicate 32 0, hart_pc = 0\<rparr>"

text \<open>Reading and assigning through the reference handle of register \<open>i\<close>; register 0 is zero.\<close>

definition x_get :: "RISCVHart \<Rightarrow> u32 \<Rightarrow> u64" where
  "x_get h i = (if i = 0 then 0 else hart_x h ! unat i)"

definition x_set :: "RISCVHart \<Rightarrow> u32 \<Rightarrow> u64 \<Rightarrow> RISCVHart" where
  "x_set h i v = (if i = 0 then h else h\<lparr>hart_x := (hart_x h)[unat i := v]\<rparr>)"

definition pc_add :: "RISCVHart \<Rightarrow> u64 \<Rightarrow> RISCVHart" where
  "pc_add h d = h\<lparr>hart_pc := hart_pc h + d\<rparr>"

type_synonym visitor = "RISCVHart \<Rightarrow> u32 \<Rightarrow> riscv_error + RISCVHart"

text \<open>The common shape: assign the destination register, then advance the program counter.\<close>

definition put_next :: "RISCVHart \<Rightarrow> u32 \<Rightarrow> u64 \<Rightarrow> riscv_error + RISCVHart" where
  "put_next h i v = Inr (pc_add (x_set h (rd i) v) 4)"

definition branch :: "bool \<Rightarrow> RISCVHart \<Rightarrow> u32 \<Rightarrow> riscv_error + RISCVHart" where
  "branch c h i = Inr (if c then pc_add h (scast (Bimm i)) else pc_add h 4)"

definition shift_ok :: "nat \<Rightarrow> nat \<Rightarrow> bool" where
  "shift_ok width amount \<longleftrightarrow> amount < width"

subsection \<open>Base integer instructions\<close>

definition visitLUI :: visitor where
  "visitLUI h i = put_next h i (scast (SUimm i))"

definition visitAUIPC :: visitor where
  "visitAUIPC h i = put_next h i (hart_pc h + scast (SUimm i))"

definition visitJAL :: visitor where
  "visitJAL h i =
     (let h' = x_set h (rd i) (hart_pc h + 4) in Inr (pc_add h' (scast (Jimm i))))"

definition visitJALR :: visitor where
  "visitJALR h i =
     (let jmp_target = x_get h (rs1 i) + scast (SIimm i);
          h' = x_set h (rd i) (hart_pc h + 4)
      in Inr (h'\<lparr>hart_pc := jmp_target\<rparr>))"

definition visitBEQ :: visitor where
  "visitBEQ h i = branch (x_get h (rs1 i) = x_get h (rs2 i)) h i"
definition visitBNE :: visitor where
  "visitBNE h i = branch (x_get h (rs1 i) \<noteq> x_get h (rs2 i)) h i"
definition visitBLT :: visitor where
  "visitBLT h i = branch (sint (x_get h (rs1 i)) < sint (x_get h (rs2 i))) h i"
definition visitBGE :: visitor where
  "visitBGE h i = branch (sint (x_get h (rs1 i)) \<ge> sint (x_get h (rs2 i))) h i"
definition visitBLTU :: visitor where
  "visitBLTU h i = branch (x_get h (rs1 i) < x_get h (rs2 i)) h i"
definition visitBGEU :: visitor where
  "visitBGEU h i = branch (x_get h (rs1 i) \<ge> x_get h (rs2 i)) h i"

definition visitADDI :: visitor where
  "visitADDI h i = put_next h i (x_get h (rs1 i) + scast (SIimm i))"
definition visitSLTI :: visitor where
  "visitSLTI h i = put_next h i (of_bool (sint (x_get h (rs1 i)) < sint (SIimm i)))"
definition visitSLTIU :: visitor where
  "visitSLTIU h i =
     (let imm = scast (SIimm i) :: u64 in put_next h i (of_bool (x_get h (rs1 i) < imm)))"
definition visitXORI :: visitor where
  "visitXORI h i = put_next h i (x_get h (rs1 i) XOR scast (SIimm i))"
definition visitORI :: visitor where
  "visitORI h i = put_next h i (x_get h (rs1 i) OR scast (SIimm i))"
definition visitANDI :: visitor where
  "visitANDI h i = put_next h i (x_get h (rs1 i) AND scast (SIimm i))"
definition visitSLLI :: visitor where
  "visitSLLI h i = put_next h i (push_bit (unat (shamt6 i)) (x_get h (rs1 i)))"
definition visitSRLI :: visitor where
  "visitSRLI h i = put_next h i (drop_bit (unat (shamt6 i)) (x_get h (rs1 i)))"
definition visitSRAI :: visitor where
  "visitSRAI h i = put_next h i (signed_drop_bit (unat (shamt6 i)) (x_get h (rs1 i)))"

definition visitADD :: visitor where
  "visitADD h i = put_next h i (x_get h (rs1 i) + x_get h (rs2 i))"
definition visitSUB :: visitor where
  "visitSUB h i = put_next h i (x_get h (rs1 i) - x_get h (rs2 i))"

definition visitSLL :: visitor where
  "visitSLL h i =
     (let amount = unat (x_get h (rs2 i)) in
      if shift_ok 64 amount then put_next h i (push_bit amount (x_get h (rs1 i)))
      else Inl UndefinedShift)"

definition visitSLT :: visitor where
  "visitSLT h i = put_next h i (of_bool (sint (x_get h (rs1 i)) < sint (x_get h (rs2 i))))"
definition visitSLTU :: visitor where
  "visitSLTU h i = put_next h i (of_bool (x_get h (rs1 i) < x_get h (rs2 i)))"
definition visitXOR :: visitor where
  "visitXOR h i = put_next h i (x_get h (rs1 i) XOR x_get h (rs2 i))"

definition visitSRL :: visitor where
  "visitSRL h i =
     (let amount = unat (x_get h (rs2 i)) in
      if shift_ok 64 amount then put_next h i (drop_bit amount (x_get h (rs1 i)))
      else Inl UndefinedShift)"

definition visitSRA :: visitor where
  "visitSRA h i =
     (let amount = unat (x_get h (rs2 i)) in
      if shift_ok 64 amount then put_next h i (signed_drop_bit amount (x_get h (rs1 i)))
      else Inl UndefinedShift)"

definition visitOR :: visitor where
  "visitOR h i = put_next h i (x_get h (rs1 i) OR x_get h (rs2 i))"
definition visitAND :: visitor where
  "visitAND h i = put_next h i (x_get h (rs1 i) AND x_get h (rs2 i))"

text \<open>The 32-bit forms truncate their operands and sign-extend the result.\<close>

definition visitADDIW :: visitor where
  "visitADDIW h i =
     (let rs = ucast (x_get h (rs1 i)) :: i32; r = rs + SIimm i in put_next h i (scast r))"
definition visitSLLIW :: visitor where
  "visitSLLIW h i =
     (let rs = ucast (x_get h (rs1 i)) :: u32; r = push_bit (unat (shamt5 i)) rs
      in put_next h i (scast r))"
definition visitSRLIW :: visitor where
  "visitSRLIW h i =
     (let rs = ucast (x_get h (rs1 i)) :: u32; r = drop_bit (unat (shamt5 i)) rs
      in put_next h i (scast r))"
definition visitSRAIW :: visitor where
  "visitSRAIW h i =
     (let rs = ucast (x_get h (rs1 i)) :: i32; r = signed_drop_bit (unat (shamt5 i)) rs
      in put_next h i (scast r))"
definition visitADDW :: visitor where
  "visitADDW h i =
     (let a = ucast (x_get h (rs1 i)) :: i32; b = ucast (x_get h (rs2 i)) :: i32
      in put_next h i (scast (a + b)))"
definition visitSUBW :: visitor where
  "visitSUBW h i =
     (let a = ucast (x_get h (rs1 i)) :: i32; b = ucast (x_get h (rs2 i)) :: i32
      in put_next h i (scast (a - b)))"
definition visitSLLW :: visitor where
  "visitSLLW h i =
     (let a = ucast (x_get h (rs1 i)) :: u32; b = ucast (x_get h (rs2 i)) :: u32 in
      if shift_ok 32 (unat b) then put_next h i (scast (push_bit (unat b) a))
      else Inl UndefinedShift)"
definition visitSRLW :: visitor where
  "visitSRLW h i =
     (let a = ucast (x_get h (rs1 i)) :: u32; b = ucast (x_get h (rs2 i)) :: u32 in
      if shift_ok 32 (unat b) then put_next h i (scast (drop_bit (unat b) a))
      else Inl UndefinedShift)"
definition visitSRAW :: visitor where
  "visitSRAW h i =
     (let a = ucast (x_get h (rs1 i)) :: i32; b = ucast (x_get h (rs2 i)) :: i32 in
      if sint b \<ge> 0 \<and> shift_ok 32 (unat b) then put_next h i (scast (signed_drop_bit (unat b) a))
      else Inl UndefinedShift)"

subsection \<open>Division, remainder and word multiplication\<close>

definition INT64_MIN :: i64 where "INT64_MIN = 0x8000000000000000"
definition INT32_MIN :: i32 where "INT32_MIN = 0x80000000"

definition visitDIV :: visitor where
  "visitDIV h i =
     (let a = x_get h (rs1 i); b = x_get h (rs2 i) in
      put_next h i
        (if b = 0 then -1
         else if a = INT64_MIN \<and> b = -1 then INT64_MIN
         else word_of_int (sint a sdiv sint b)))"

definition visitDIVU :: visitor where
  "visitDIVU h i =
     (let a = x_get h (rs1 i); b = x_get h (rs2 i) in
      put_next h i (if b = 0 then 0xFFFFFFFFFFFFFFFF else a div b))"

definition visitREM :: visitor where
  "visitREM h i =
     (let a = x_get h (rs1 i); b = x_get h (rs2 i) in
      put_next h i
        (if b = 0 then a
         else if a = INT64_MIN \<and> b = -1 then 0
         else word_of_int (sint a smod sint b)))"

definition visitREMU :: visitor where
  "visitREMU h i =
     (let a = x_get h (rs1 i); b = x_get h (rs2 i) in
      put_next h i (if b = 0 then a else a mod b))"

definition visitMULW :: visitor where
  "visitMULW h i =
     (let a = ucast (x_get h (rs1 i)) :: i32; b = ucast (x_get h (rs2 i)) :: i32
      in put_next h i (scast (a * b)))"

definition visitDIVW :: visitor where
  "visitDIVW h i =
     (let a = ucast (x_get h (rs1 i)) :: i32; b = ucast (x_get h (rs2 i)) :: i32 in
      put_next h i
        (if b = 0 then -1
         else if a = INT32_MIN \<and> b = -1 then scast INT32_MIN
         else scast (word_of_int (sint a sdiv sint b) :: i32)))"

definition visitDIVUW :: visitor where
  "visitDIVUW h i =
     (let a = ucast (x_get h (rs1 i)) :: u32; b = ucast (x_get h (rs2 i)) :: u32 in
      put_next h i
        (if b = 0 then scast (0xFFFFFFFF :: i32) else scast (a div b)))"

definition visitREMW :: visitor where
  "visitREMW h i =
     (let a = ucast (x_get h (rs1 i)) :: i32; b = ucast (x_get h (rs2 i)) :: i32 in
      put_next h i
        (if b = 0 then scast a
         else if a = INT32_MIN \<and> b = -1 then 0
         else scast (word_of_int (sint a smod sint b) :: i32)))"

definition visitREMUW :: visitor where
  "visitREMUW h i =
     (let a = ucast (x_get h (rs1 i)) :: u32; b = ucast (x_get h (rs2 i)) :: u32 in
      put_next h i (if b = 0 then scast a else scast (a mod b)))"


subsection \<open>Multiplication\<close>

text \<open>
  \<^verbatim>\<open>boost::multiprecision\<close>: products of two signed, two unsigned and mixed 128-bit numbers, the bitwise and, the
  right shifts and the conversions to 64 bits.
\<close>

record wide_ops =
  wide_mul :: "int \<Rightarrow> int \<Rightarrow> int"
  wide_mulu :: "int \<Rightarrow> int \<Rightarrow> int"
  wide_mulsu :: "int \<Rightarrow> int \<Rightarrow> int"
  wide_and :: "int \<Rightarrow> int \<Rightarrow> int"
  wide_shr :: "int \<Rightarrow> nat \<Rightarrow> int"
  wide_shru :: "int \<Rightarrow> nat \<Rightarrow> int"
  to_int64 :: "int \<Rightarrow> i64"
  to_uint64 :: "int \<Rightarrow> u64"

definition visitMUL :: "wide_ops \<Rightarrow> visitor" where
  "visitMUL w h i =
     (let rs1 = sint (x_get h (rs1 i)); rs2 = sint (x_get h (rs2 i)); res = wide_mul w rs1 rs2
      in put_next h i (to_int64 w (wide_and w res 0xFFFFFFFFFFFFFFFF)))"

definition visitMULH :: "wide_ops \<Rightarrow> visitor" where
  "visitMULH w h i =
     (let rs1 = sint (x_get h (rs1 i)); rs2 = sint (x_get h (rs2 i)); res = wide_mul w rs1 rs2
      in put_next h i (to_int64 w (wide_shr w res 64)))"

definition visitMULHU :: "wide_ops \<Rightarrow> visitor" where
  "visitMULHU w h i =
     (let rs1 = uint (x_get h (rs1 i)); rs2 = uint (x_get h (rs2 i)); res = wide_mulu w rs1 rs2
      in put_next h i (to_uint64 w (wide_shru w res 64)))"

definition visitMULHSU :: "wide_ops \<Rightarrow> visitor" where
  "visitMULHSU w h i =
     (let rs1 = sint (x_get h (rs1 i)); rs2 = uint (x_get h (rs2 i)); res = wide_mulsu w rs1 rs2
      in put_next h i (to_int64 w (wide_shr w res 64)))"

subsection \<open>The overriding visitors by mnemonic\<close>

definition rv64i_control_visitors :: "(string \<times> visitor) list" where
  "rv64i_control_visitors = [
     (''JAL'', visitJAL), (''JALR'', visitJALR),
     (''BEQ'', visitBEQ), (''BNE'', visitBNE), (''BLT'', visitBLT), (''BGE'', visitBGE),
     (''BLTU'', visitBLTU), (''BGEU'', visitBGEU)]"

definition rv64i_compute_visitors :: "(string \<times> visitor) list" where
  "rv64i_compute_visitors = [
     (''LUI'', visitLUI), (''AUIPC'', visitAUIPC),
     (''ADDI'', visitADDI), (''SLTI'', visitSLTI), (''SLTIU'', visitSLTIU), (''XORI'', visitXORI),
     (''ORI'', visitORI), (''ANDI'', visitANDI), (''SLLI'', visitSLLI), (''SRLI'', visitSRLI),
     (''SRAI'', visitSRAI), (''ADD'', visitADD), (''SUB'', visitSUB), (''SLL'', visitSLL),
     (''SLT'', visitSLT), (''SLTU'', visitSLTU), (''XOR'', visitXOR), (''SRL'', visitSRL),
     (''SRA'', visitSRA), (''OR'', visitOR), (''AND'', visitAND),
     (''ADDIW'', visitADDIW), (''SLLIW'', visitSLLIW), (''SRLIW'', visitSRLIW),
     (''SRAIW'', visitSRAIW), (''ADDW'', visitADDW), (''SUBW'', visitSUBW), (''SLLW'', visitSLLW),
     (''SRLW'', visitSRLW), (''SRAW'', visitSRAW)]"

definition rv64i_visitors :: "(string \<times> visitor) list" where
  "rv64i_visitors = rv64i_control_visitors @ rv64i_compute_visitors"

definition rv64m_visitors :: "wide_ops \<Rightarrow> (string \<times> visitor) list" where
  "rv64m_visitors w = [
     (''MUL'', visitMUL w), (''MULH'', visitMULH w), (''MULHU'', visitMULHU w), (''MULHSU'', visitMULHSU w),
     (''DIV'', visitDIV), (''DIVU'', visitDIVU), (''REM'', visitREM), (''REMU'', visitREMU),
     (''MULW'', visitMULW), (''DIVW'', visitDIVW), (''DIVUW'', visitDIVUW), (''REMW'', visitREMW),
     (''REMUW'', visitREMUW)]"

subsection \<open>Well-formed harts\<close>

definition wf_hart :: "RISCVHart \<Rightarrow> bool" where
  "wf_hart h \<longleftrightarrow> length (hart_x h) = 32 \<and> hart_x h ! 0 = 0"

lemma wf_hart_init: "wf_hart RISCVHart_init"
  by (simp add: wf_hart_def RISCVHart_init_def)

lemma unat_reg_less:
  "unat (rd i) < 32" "unat (rs1 i) < 32" "unat (rs2 i) < 32" "unat (rs3 i) < 32"
proof -
  have "unat (w AND 0x1F) < 32" for w :: u32
    using word_and_le1 [of w "0x1F"] by (simp add: word_le_nat_alt)
  then show "unat (rd i) < 32" "unat (rs1 i) < 32" "unat (rs2 i) < 32" "unat (rs3 i) < 32"
    by (simp_all add: rd_def rs1_def rs2_def rs3_def)
qed

lemma wf_x_set: "wf_hart h \<Longrightarrow> wf_hart (x_set h r v)"
  by (auto simp: wf_hart_def x_set_def unat_eq_0)

lemma wf_pc_add [simp]: "wf_hart (pc_add h d) = wf_hart h"
  by (simp add: wf_hart_def pc_add_def)

lemma wf_set_pc [simp]: "wf_hart (h\<lparr>hart_pc := v\<rparr>) = wf_hart h"
  by (simp add: wf_hart_def)

lemma wf_put_next: "wf_hart h \<Longrightarrow> put_next h i v = Inr h' \<Longrightarrow> wf_hart h'"
  by (auto simp: put_next_def wf_x_set)

lemma x_get_pc_add [simp]: "x_get (pc_add h d) r = x_get h r"
  by (simp add: x_get_def pc_add_def)

lemma x_get_x_set:
  "wf_hart h \<Longrightarrow> unat r < 32 \<Longrightarrow>
     x_get (x_set h r v) r' = (if r' = r \<and> r \<noteq> 0 then v else x_get h r')"
  by (auto simp: x_get_def x_set_def wf_hart_def nth_list_update word_unat_eq_iff)

lemma hart_pc_x_set [simp]: "hart_pc (x_set h r v) = hart_pc h"
  by (simp add: x_set_def)

lemma hart_pc_add [simp]: "hart_pc (pc_add h d) = hart_pc h + d"
  by (simp add: pc_add_def)

definition keeps_wf :: "visitor \<Rightarrow> bool" where
  "keeps_wf f \<longleftrightarrow> (\<forall>h i h'. wf_hart h \<longrightarrow> f h i = Inr h' \<longrightarrow> wf_hart h')"

named_theorems visitor_defs

lemmas [visitor_defs] =
  visitLUI_def visitAUIPC_def visitJAL_def visitJALR_def visitBEQ_def visitBNE_def visitBLT_def
  visitBGE_def visitBLTU_def visitBGEU_def visitADDI_def visitSLTI_def visitSLTIU_def
  visitXORI_def visitORI_def visitANDI_def visitSLLI_def visitSRLI_def visitSRAI_def visitADD_def
  visitSUB_def visitSLL_def visitSLT_def visitSLTU_def visitXOR_def visitSRL_def visitSRA_def
  visitOR_def visitAND_def visitADDIW_def visitSLLIW_def visitSRLIW_def visitSRAIW_def
  visitADDW_def visitSUBW_def visitSLLW_def visitSRLW_def visitSRAW_def
  visitMUL_def visitMULH_def visitMULHU_def visitMULHSU_def visitDIV_def visitDIVU_def visitREM_def visitREMU_def visitMULW_def visitDIVW_def
  visitDIVUW_def visitREMW_def visitREMUW_def

lemma rv64i_visitors_keep_wf: "(m, f) \<in> set rv64i_visitors \<Longrightarrow> keeps_wf f"
  unfolding rv64i_visitors_def rv64i_control_visitors_def rv64i_compute_visitors_def
  by (auto simp: keeps_wf_def visitor_defs branch_def Let_def wf_x_set
      intro: wf_put_next split: if_splits)

lemma rv64m_visitors_keep_wf: "(m, f) \<in> set (rv64m_visitors w) \<Longrightarrow> keeps_wf f"
  unfolding rv64m_visitors_def
  by (auto simp: keeps_wf_def visitor_defs Let_def intro: wf_put_next)

text \<open>
  The frame of a visitor: it writes no register but \<open>rd\<close>; unless it is a jump or a branch it
  advances the program counter by 4.
\<close>

definition only_rd :: "visitor \<Rightarrow> bool" where
  "only_rd f \<longleftrightarrow> (\<forall>h i h' r. wf_hart h \<longrightarrow> f h i = Inr h' \<longrightarrow> r \<noteq> rd i \<longrightarrow> x_get h' r = x_get h r)"

definition next_pc :: "visitor \<Rightarrow> bool" where
  "next_pc f \<longleftrightarrow> (\<forall>h i h'. f h i = Inr h' \<longrightarrow> hart_pc h' = hart_pc h + 4)"

lemma x_get_set_pc [simp]: "x_get (h\<lparr>hart_pc := v\<rparr>) r = x_get h r"
  by (simp add: x_get_def)

lemma x_get_x_set_other:
  "wf_hart h \<Longrightarrow> r \<noteq> rd i \<Longrightarrow> x_get (x_set h (rd i) v) r = x_get h r"
  by (simp add: x_get_x_set unat_reg_less)

lemma put_next_frame:
  "put_next h i v = Inr h' \<Longrightarrow> wf_hart h \<Longrightarrow> r \<noteq> rd i \<Longrightarrow> x_get h' r = x_get h r"
  "put_next h i v = Inr h' \<Longrightarrow> hart_pc h' = hart_pc h + 4"
  by (auto simp: put_next_def x_get_x_set_other)

lemma rv64i_visitors_only_rd: "(m, f) \<in> set rv64i_visitors \<Longrightarrow> only_rd f"
  unfolding rv64i_visitors_def rv64i_control_visitors_def rv64i_compute_visitors_def
  by (auto simp: only_rd_def visitor_defs branch_def Let_def x_get_x_set_other
      dest: put_next_frame(1) split: if_splits)

lemma rv64m_visitors_only_rd: "(m, f) \<in> set (rv64m_visitors w) \<Longrightarrow> only_rd f"
  unfolding rv64m_visitors_def
  by (auto simp: only_rd_def visitor_defs Let_def dest: put_next_frame(1))

lemma rv64i_compute_visitors_next_pc: "(m, f) \<in> set rv64i_compute_visitors \<Longrightarrow> next_pc f"
  unfolding rv64i_compute_visitors_def
  by (auto simp: next_pc_def visitor_defs Let_def dest: put_next_frame(2) split: if_splits)

lemma rv64m_visitors_next_pc: "(m, f) \<in> set (rv64m_visitors w) \<Longrightarrow> next_pc f"
  unfolding rv64m_visitors_def
  by (auto simp: next_pc_def visitor_defs Let_def dest: put_next_frame(2))

text \<open>
  With exact products, shifts that round down and conversions modulo \<open>2 ^ 64\<close>, the four instructions give the low
  and the high word of the product.
\<close>

definition exact_wide :: wide_ops where
  "exact_wide = \<lparr>wide_mul = (*), wide_mulu = (*), wide_mulsu = (*), wide_and = (AND), wide_shr = (\<lambda>x n. x div 2 ^ n),
     wide_shru = (\<lambda>x n. x div 2 ^ n), to_int64 = word_of_int, to_uint64 = word_of_int\<rparr>"

lemma exact_multiplication:
  "visitMUL exact_wide h i = put_next h i (x_get h (rs1 i) * x_get h (rs2 i))"
  "visitMULH exact_wide h i = put_next h i (word_of_int (sint (x_get h (rs1 i)) * sint (x_get h (rs2 i)) div 2 ^ 64))"
  "visitMULHU exact_wide h i = put_next h i (word_of_int (uint (x_get h (rs1 i)) * uint (x_get h (rs2 i)) div 2 ^ 64))"
  "visitMULHSU exact_wide h i = put_next h i (word_of_int (sint (x_get h (rs1 i)) * uint (x_get h (rs2 i)) div 2 ^ 64))"
proof -
  have m: "(0xFFFFFFFFFFFFFFFF :: int) = mask 64" by (simp add: mask_eq_exp_minus_1)
  have "word_of_int (x AND 0xFFFFFFFFFFFFFFFF) = (word_of_int x :: u64)" for x :: int
    by (rule bit_word_eqI) (simp add: m bit_simps)
  then show "visitMUL exact_wide h i = put_next h i (x_get h (rs1 i) * x_get h (rs2 i))"
    by (simp add: visitMUL_def exact_wide_def Let_def)
qed (simp_all add: visitMULH_def visitMULHU_def visitMULHSU_def exact_wide_def Let_def)

subsection \<open>Division and shifts\<close>

lemma smod_sign_magnitude:
  fixes a b :: int
  assumes "b \<noteq> 0"
  shows "\<bar>a smod b\<bar> < \<bar>b\<bar> \<and> \<bar>a smod b\<bar> \<le> \<bar>a\<bar> \<and> (a smod b \<noteq> 0 \<longrightarrow> sgn (a smod b) = sgn a)"
proof -
  have m: "0 \<le> \<bar>a\<bar> mod \<bar>b\<bar>" "\<bar>a\<bar> mod \<bar>b\<bar> < \<bar>b\<bar>" "\<bar>a\<bar> mod \<bar>b\<bar> \<le> \<bar>a\<bar>"
    using assms zmod_le_nonneg_dividend [of "\<bar>a\<bar>" "\<bar>b\<bar>"] by simp_all
  have "\<bar>a smod b\<bar> = \<bar>a\<bar> mod \<bar>b\<bar>"
    using m(1) by (cases "a = 0") (simp_all add: smod_int_alt_def abs_mult)
  moreover have "a smod b \<noteq> 0 \<longrightarrow> sgn (a smod b) = sgn a"
    using m(1) by (auto simp: smod_int_alt_def sgn_mult)
  ultimately show ?thesis using m by simp
qed

lemma sint_smod_word:
  fixes a b :: i64
  assumes "b \<noteq> 0"
  shows "sint (word_of_int (sint a smod sint b) :: i64) = sint a smod sint b"
proof -
  have "sint b \<noteq> 0" using assms sint_inject [of b 0] by (simp del: sint_inject)
  then have s: "\<bar>sint a smod sint b\<bar> \<le> \<bar>sint a\<bar>"
      "sint a smod sint b \<noteq> 0 \<longrightarrow> sgn (sint a smod sint b) = sgn (sint a)"
    using smod_sign_magnitude by blast+
  have "- (2 ^ 63) \<le> sint a" "sint a < 2 ^ 63"
    using sint_greater_eq [of a] sint_lt [of a] by simp_all
  with s have "- (2 ^ 63) \<le> sint a smod sint b" "sint a smod sint b < 2 ^ 63"
    by (auto simp: sgn_if split: if_splits)
  then show ?thesis by (simp add: signed_of_int signed_take_bit_int_eq_self)
qed

lemma div_rem_words:
  fixes a b :: "'a::len word"
  shows "word_of_int (sint a sdiv sint b) * b + word_of_int (sint a smod sint b) = a"
proof -
  have "word_of_int (sint a sdiv sint b) * b + word_of_int (sint a smod sint b)
      = (word_of_int (sint a sdiv sint b * sint b + sint a smod sint b) :: 'a word)"
    by simp
  then show ?thesis by (simp add: sdiv_mult_smod_eq)
qed

lemma x_get_put_next:
  "wf_hart h \<Longrightarrow> rd i \<noteq> 0 \<Longrightarrow> put_next h i v = Inr h' \<Longrightarrow> x_get h' (rd i) = v"
  by (auto simp: put_next_def x_get_x_set unat_reg_less)

text \<open>
  C29: on every pair of operands, zero divisors and the overflowing pair included, the signed and the
  unsigned divide and remainder instructions return and satisfy quotient times divisor plus
  remainder equals the dividend; a remainder by a nonzero divisor is smaller than the divisor in
  magnitude and has the sign of the dividend, and a division by zero returns all ones.
\<close>

theorem div_rem_identity:
  assumes "wf_hart h" "rd i \<noteq> 0"
    and a: "a = x_get h (rs1 i)" and b: "b = x_get h (rs2 i)"
  shows "\<exists>hq hr hqu hru.
     visitDIV h i = Inr hq \<and> visitREM h i = Inr hr \<and>
     visitDIVU h i = Inr hqu \<and> visitREMU h i = Inr hru \<and>
     x_get hq (rd i) * b + x_get hr (rd i) = a \<and>
     x_get hqu (rd i) * b + x_get hru (rd i) = a \<and>
     (if b = 0 then x_get hq (rd i) = -1 \<and> x_get hqu (rd i) = -1
      else \<bar>sint (x_get hr (rd i))\<bar> < \<bar>sint b\<bar> \<and>
           (sint (x_get hr (rd i)) = 0 \<or> sgn (sint (x_get hr (rd i))) = sgn (sint a)) \<and>
           x_get hru (rd i) < b)"
proof -
  define q where "q = (if b = 0 then -1 else if a = INT64_MIN \<and> b = -1 then INT64_MIN
    else word_of_int (sint a sdiv sint b) :: i64)"
  define r where "r = (if b = 0 then a else if a = INT64_MIN \<and> b = -1 then 0
    else word_of_int (sint a smod sint b) :: i64)"
  define qu where "qu = (if b = 0 then 0xFFFFFFFFFFFFFFFF else a div b)"
  define ru where "ru = (if b = 0 then a else a mod b)"
  have sb: "sint b \<noteq> 0" if "b \<noteq> 0" using that sint_inject [of b 0] by (simp del: sint_inject)
  have qr: "q * b + r = a" using div_rem_words [of a b] by (simp add: q_def r_def INT64_MIN_def)
  have qru: "qu * b + ru = a" by (simp add: qu_def ru_def word_mod_div_equality)
  have mag: "\<bar>sint r\<bar> < \<bar>sint b\<bar> \<and> (sint r = 0 \<or> sgn (sint r) = sgn (sint a)) \<and> ru < b"
    if "b \<noteq> 0"
    using that smod_sign_magnitude [OF sb [OF that], of "sint a"] sb [OF that]
    by (auto simp: r_def ru_def sint_smod_word word_mod_less_divisor word_gt_0)
  obtain hq hr hqu hru where v: "visitDIV h i = Inr hq" "visitREM h i = Inr hr"
    "visitDIVU h i = Inr hqu" "visitREMU h i = Inr hru"
    by (simp add: visitor_defs put_next_def Let_def)
  have "x_get hq (rd i) = q" "x_get hr (rd i) = r" "x_get hqu (rd i) = qu" "x_get hru (rd i) = ru"
    using v assms by (auto simp: visitor_defs Let_def q_def r_def qu_def ru_def dest: x_get_put_next)
  then show ?thesis
    using v qr qru mag by (auto simp: q_def qu_def)
qed

definition div_hart :: RISCVHart where
  "div_hart = x_set (x_set RISCVHart_init 1 (-7)) 2 2"

theorem div_rem_identity_witness:
  "\<exists>hq hr. visitDIV div_hart 0x0220C1B3 = Inr hq \<and> visitREM div_hart 0x0220C1B3 = Inr hr \<and>
     x_get hq 3 * 2 + x_get hr 3 = -7 \<and> \<bar>sint (x_get hr 3)\<bar> < 2"
proof -
  have "wf_hart div_hart" by (simp add: div_hart_def wf_x_set wf_hart_init)
  moreover have f: "rd 0x0220C1B3 = 3" "rs1 0x0220C1B3 = 1" "rs2 0x0220C1B3 = 2"
    by (simp_all add: rd_def rs1_def rs2_def)
  moreover have "-7 = x_get div_hart 1" "2 = x_get div_hart 2"
    by (simp_all add: div_hart_def x_get_x_set wf_x_set wf_hart_init)
  ultimately show ?thesis
    using div_rem_identity [of div_hart "0x0220C1B3" "-7" 2] by auto
qed

lemma negative_i32_large:
  assumes "sint (w :: i32) < 0"
  shows "32 \<le> unat w"
proof (rule ccontr)
  assume "\<not> 32 \<le> unat w"
  then have "int (unat w) < 32" by linarith
  then have "uint w < 32" by simp
  then have "signed_take_bit 31 (uint w) = uint w"
    by (intro signed_take_bit_int_eq_self order_trans [OF _ uint_ge_0]) simp_all
  moreover have "LENGTH(32) - Suc 0 = 31" by simp
  ultimately have "sint w = uint w" by (simp only: sint_uint)
  with assms show False by simp
qed

text \<open>
  The register shifts take the whole source register as the amount: they return exactly when it
  is below the operand width (64, or 32 for the word forms), and the value then is the product by,
  or the unsigned or signed quotient by, that power of two. An amount of 64 or more, which the
  architecture would reduce modulo the width, leaves them without a defined result.
\<close>

theorem register_shifts:
  assumes "wf_hart h" "rd i \<noteq> 0"
  shows "(case visitSLL h i of Inl e \<Rightarrow> 64 \<le> unat (x_get h (rs2 i))
          | Inr h' \<Rightarrow> unat (x_get h (rs2 i)) < 64 \<and>
              x_get h' (rd i) = x_get h (rs1 i) * 2 ^ unat (x_get h (rs2 i))) \<and>
         (case visitSRL h i of Inl e \<Rightarrow> 64 \<le> unat (x_get h (rs2 i))
          | Inr h' \<Rightarrow> unat (x_get h (rs2 i)) < 64 \<and>
              unat (x_get h' (rd i)) = unat (x_get h (rs1 i)) div 2 ^ unat (x_get h (rs2 i))) \<and>
         (case visitSRA h i of Inl e \<Rightarrow> 64 \<le> unat (x_get h (rs2 i))
          | Inr h' \<Rightarrow> unat (x_get h (rs2 i)) < 64 \<and>
              sint (x_get h' (rd i)) = sint (x_get h (rs1 i)) div 2 ^ unat (x_get h (rs2 i))) \<and>
         isl (visitSLLW h i) = (32 \<le> unat (ucast (x_get h (rs2 i)) :: u32)) \<and>
         isl (visitSRLW h i) = (32 \<le> unat (ucast (x_get h (rs2 i)) :: u32)) \<and>
         isl (visitSRAW h i) = (32 \<le> unat (ucast (x_get h (rs2 i)) :: u32))"
proof -
  have g: "x_get (x_set h (rd i) v) (rd i) = v" for v
    using assms by (simp add: x_get_x_set unat_reg_less)
  note sh = Let_def put_next_def shift_ok_def g
  show ?thesis
  proof (intro conjI)
    show "case visitSLL h i of Inl e \<Rightarrow> 64 \<le> unat (x_get h (rs2 i))
          | Inr h' \<Rightarrow> unat (x_get h (rs2 i)) < 64 \<and>
              x_get h' (rd i) = x_get h (rs1 i) * 2 ^ unat (x_get h (rs2 i))"
      by (simp add: visitSLL_def sh push_bit_eq_mult)
    show "case visitSRL h i of Inl e \<Rightarrow> 64 \<le> unat (x_get h (rs2 i))
          | Inr h' \<Rightarrow> unat (x_get h (rs2 i)) < 64 \<and>
              unat (x_get h' (rd i)) = unat (x_get h (rs1 i)) div 2 ^ unat (x_get h (rs2 i))"
      by (simp add: visitSRL_def sh unat_drop_bit_eq) (simp add: drop_bit_eq_div)
    show "case visitSRA h i of Inl e \<Rightarrow> 64 \<le> unat (x_get h (rs2 i))
          | Inr h' \<Rightarrow> unat (x_get h (rs2 i)) < 64 \<and>
              sint (x_get h' (rd i)) = sint (x_get h (rs1 i)) div 2 ^ unat (x_get h (rs2 i))"
      by (simp add: visitSRA_def sh sint_signed_drop_bit_eq drop_bit_eq_div)
    show "isl (visitSLLW h i) = (32 \<le> unat (ucast (x_get h (rs2 i)) :: u32))"
      by (simp add: visitSLLW_def sh)
    show "isl (visitSRLW h i) = (32 \<le> unat (ucast (x_get h (rs2 i)) :: u32))"
      by (simp add: visitSRLW_def sh)
    show "isl (visitSRAW h i) = (32 \<le> unat (ucast (x_get h (rs2 i)) :: u32))"
      using negative_i32_large [of "ucast (x_get h (rs2 i))"] by (auto simp: visitSRAW_def sh not_less)
  qed
qed

theorem register_shifts_witness:
  "(case visitSRA div_hart 0x4020D1B3 of Inl e \<Rightarrow> False | Inr h' \<Rightarrow> sint (x_get h' 3) = -2) \<and>
   isl (visitSLLW div_hart 0x001091BB)"
proof -
  have w: "wf_hart div_hart" by (simp add: div_hart_def wf_x_set wf_hart_init)
  have f: "rd 0x4020D1B3 = 3" "rs1 0x4020D1B3 = 1" "rs2 0x4020D1B3 = 2"
    "rd 0x001091BB = 3" "rs2 0x001091BB = 1"
    by (simp_all add: rd_def rs1_def rs2_def)
  have x: "x_get div_hart 1 = -7" "x_get div_hart 2 = 2"
    by (simp_all add: div_hart_def x_get_x_set wf_x_set wf_hart_init)
  note t = register_shifts [OF w]
  have "case visitSRA div_hart 0x4020D1B3 of Inl e \<Rightarrow> False | Inr h' \<Rightarrow> sint (x_get h' 3) = -2"
    using t [of "0x4020D1B3", unfolded f x, THEN conjunct2, THEN conjunct2, THEN conjunct1]
    by (simp split: sum.splits)
  moreover have "isl (visitSLLW div_hart 0x001091BB)"
    using t [of "0x001091BB", unfolded f x, THEN conjunct2, THEN conjunct2, THEN conjunct2, THEN conjunct1]
    by simp
  ultimately show ?thesis ..
qed

end
