(* ===== verification/Riscv_Interp.thy ===== *)
theory Riscv_Interp
  imports Riscv_Table Riscv_Hart
begin

unbundle bit_operations_syntax

text \<open>
  The loads, stores and fetch-decode-execute loop of \<^verbatim>\<open>pando-drv/interpreter/interpreter.cpp\<close>, with the
  double dispatch of \<^verbatim>\<open>RISCVInterpreter.hpp\<close> and \<^verbatim>\<open>RISCVInstruction.hpp\<close>.

  The third-party 128-bit arithmetic \<open>w\<close> that the multiply visitors use is a parameter, about which nothing is assumed; so
  is the instruction memory, which is read from an ELF file.
\<close>

subsection \<open>Loads and stores over a byte vector\<close>

record MyInterpreter =
  hart :: RISCVHart
  mem :: "u8 list"

fun le_bytes :: "nat \<Rightarrow> u64 \<Rightarrow> u8 list" where
  "le_bytes 0 v = []"
| "le_bytes (Suc n) v = ucast v # le_bytes n (drop_bit 8 v)"

fun le_value :: "u8 list \<Rightarrow> u64" where
  "le_value [] = 0"
| "le_value (b # bs) = ucast b OR push_bit 8 (le_value bs)"

text \<open>
  \<^verbatim>\<open>mem[a]\<close> is an unchecked access to a \<^verbatim>\<open>std::vector\<close>; an access that does not stay inside the
  vector ends in \<open>OutOfBounds\<close>. \<open>n\<close> is the size of the accessed type.
\<close>

definition visitLoad :: "nat \<Rightarrow> MyInterpreter \<Rightarrow> u32 \<Rightarrow> riscv_error + u64" where
  "visitLoad n s i =
     (let a = unat (x_get (hart s) (rs1 i) + scast (SIimm i)) in
      if a + n \<le> length (mem s) then Inr (le_value (take n (drop a (mem s)))) else Inl OutOfBounds)"

definition visitStore :: "nat \<Rightarrow> MyInterpreter \<Rightarrow> u32 \<Rightarrow> riscv_error + MyInterpreter" where
  "visitStore n s i =
     (let a = unat (x_get (hart s) (rs1 i) + scast (Simm i)) in
      if a + n \<le> length (mem s)
      then Inr (s\<lparr>mem := take a (mem s) @ le_bytes n (x_get (hart s) (rs2 i)) @ drop (a + n) (mem s)\<rparr>)
      else Inl OutOfBounds)"

type_synonym mvisitor = "MyInterpreter \<Rightarrow> u32 \<Rightarrow> riscv_error + MyInterpreter"

definition load_next :: "nat \<Rightarrow> (u64 \<Rightarrow> u64) \<Rightarrow> mvisitor" where
  "load_next n conv s i =
     (case visitLoad n s i of
        Inl e \<Rightarrow> Inl e
      | Inr v \<Rightarrow> Inr (s\<lparr>hart := pc_add (x_set (hart s) (rd i) (conv v)) 4\<rparr>))"

definition store_next :: "nat \<Rightarrow> mvisitor" where
  "store_next n s i =
     (case visitStore n s i of Inl e \<Rightarrow> Inl e | Inr s' \<Rightarrow> Inr (s'\<lparr>hart := pc_add (hart s') 4\<rparr>))"

definition visitLB :: mvisitor where "visitLB = load_next 1 (\<lambda>v. scast (ucast v :: 8 word))"
definition visitLH :: mvisitor where "visitLH = load_next 2 (\<lambda>v. scast (ucast v :: 16 word))"
definition visitLW :: mvisitor where "visitLW = load_next 4 (\<lambda>v. scast (ucast v :: 32 word))"
definition visitLBU :: mvisitor where "visitLBU = load_next 1 (\<lambda>v. ucast (ucast v :: 8 word))"
definition visitLHU :: mvisitor where "visitLHU = load_next 2 (\<lambda>v. ucast (ucast v :: 16 word))"
definition visitLWU :: mvisitor where "visitLWU = load_next 4 (\<lambda>v. ucast (ucast v :: 32 word))"
definition visitLD :: mvisitor where "visitLD = load_next 8 (\<lambda>v. v)"
definition visitSB :: mvisitor where "visitSB = store_next 1"
definition visitSH :: mvisitor where "visitSH = store_next 2"
definition visitSW :: mvisitor where "visitSW = store_next 4"
definition visitSD :: mvisitor where "visitSD = store_next 8"

subsection \<open>Dispatch and the run loop\<close>

definition memory_visitors :: "(string \<times> mvisitor) list" where
  "memory_visitors = [
     (''LB'', visitLB), (''LH'', visitLH), (''LW'', visitLW), (''LBU'', visitLBU),
     (''LHU'', visitLHU), (''LWU'', visitLWU), (''LD'', visitLD), (''SB'', visitSB),
     (''SH'', visitSH), (''SW'', visitSW), (''SD'', visitSD)]"

definition lift_visitor :: "visitor \<Rightarrow> mvisitor" where
  "lift_visitor f s i = (case f (hart s) i of Inl e \<Rightarrow> Inl e | Inr h \<Rightarrow> Inr (s\<lparr>hart := h\<rparr>))"

text \<open>
  Every mnemonic of the table without a visitor here falls back to the base class, whose visitors throw.
\<close>

definition visit :: "wide_ops \<Rightarrow> string \<Rightarrow> mvisitor" where
  "visit w m s i =
     (case map_of rv64i_visitors m of
        Some f \<Rightarrow> lift_visitor f s i
      | None \<Rightarrow> (case map_of (rv64m_visitors w) m of
          Some f \<Rightarrow> lift_visitor f s i
        | None \<Rightarrow> (case map_of memory_visitors m of
            Some g \<Rightarrow> g s i
          | None \<Rightarrow> Inl (NotImplemented m))))"

text \<open>One iteration of the loop in \<^verbatim>\<open>main\<close>: fetch at the program counter, decode, visit.\<close>

definition interp_step :: "wide_ops \<Rightarrow> (u64 \<Rightarrow> u32) \<Rightarrow> MyInterpreter \<Rightarrow> riscv_error + MyInterpreter" where
  "interp_step w icache_read s =
     (let instr = icache_read (hart_pc (hart s)) in
      case decode instr of
        None \<Rightarrow> Inl (UnknownInstruction instr)
      | Some m \<Rightarrow> visit w m s instr)"

fun interp_run :: "wide_ops \<Rightarrow> (u64 \<Rightarrow> u32) \<Rightarrow> nat \<Rightarrow> MyInterpreter \<Rightarrow> riscv_error + MyInterpreter" where
  "interp_run w icache_read 0 s = Inr s"
| "interp_run w icache_read (Suc n) s =
     (case interp_step w icache_read s of
        Inl e \<Rightarrow> Inl e
      | Inr s' \<Rightarrow> interp_run w icache_read n s')"


subsection \<open>Invariant and frame of a step\<close>

definition wf_interp :: "MyInterpreter \<Rightarrow> bool" where
  "wf_interp s \<longleftrightarrow> wf_hart (hart s)"

lemma length_le_bytes [simp]: "length (le_bytes n v) = n"
  by (induction n arbitrary: v) auto

lemma visitStore_frame:
  "visitStore n s i = Inr s' \<Longrightarrow> hart s' = hart s \<and> length (mem s') = length (mem s)"
  by (auto simp: visitStore_def Let_def split: if_splits)

lemma load_next_frame:
  assumes "load_next n c s i = Inr s'" "wf_interp s"
  shows "wf_interp s' \<and> length (mem s') = length (mem s) \<and> hart_pc (hart s') = hart_pc (hart s) + 4 \<and>
    (\<forall>r. r \<noteq> rd i \<longrightarrow> x_get (hart s') r = x_get (hart s) r)"
  using assms by (auto simp: load_next_def wf_interp_def wf_x_set x_get_x_set_other split: sum.splits)

lemma store_next_frame:
  assumes "store_next n s i = Inr s'" "wf_interp s"
  shows "wf_interp s' \<and> length (mem s') = length (mem s) \<and> hart_pc (hart s') = hart_pc (hart s) + 4 \<and>
    (\<forall>r. r \<noteq> rd i \<longrightarrow> x_get (hart s') r = x_get (hart s) r)"
  using assms by (auto simp: store_next_def wf_interp_def dest!: visitStore_frame split: sum.splits)

lemmas memory_visitor_defs = visitLB_def visitLH_def visitLW_def visitLBU_def visitLHU_def
  visitLWU_def visitLD_def visitSB_def visitSH_def visitSW_def visitSD_def

lemma memory_visitors_frame:
  assumes "(m, g) \<in> set memory_visitors" "g s i = Inr s'" "wf_interp s"
  shows "wf_interp s' \<and> length (mem s') = length (mem s) \<and> hart_pc (hart s') = hart_pc (hart s) + 4 \<and>
    (\<forall>r. r \<noteq> rd i \<longrightarrow> x_get (hart s') r = x_get (hart s) r)"
proof -
  obtain n c where "g = load_next n c \<or> g = store_next n"
    using assms(1) unfolding memory_visitors_def memory_visitor_defs by auto
  then show ?thesis using load_next_frame store_next_frame assms(2,3) by blast
qed

lemma lift_visitor_frame:
  assumes "lift_visitor f s i = Inr s'" "wf_interp s" "keeps_wf f" "only_rd f"
  shows "wf_interp s' \<and> mem s' = mem s \<and> (next_pc f \<longrightarrow> hart_pc (hart s') = hart_pc (hart s) + 4) \<and>
    (\<forall>r. r \<noteq> rd i \<longrightarrow> x_get (hart s') r = x_get (hart s) r)"
proof -
  obtain h where h: "f (hart s) i = Inr h" "s' = s\<lparr>hart := h\<rparr>"
    using assms(1) by (auto simp: lift_visitor_def split: sum.splits)
  show ?thesis
    using assms(2-4) h unfolding wf_interp_def keeps_wf_def only_rd_def next_pc_def by auto
qed

lemma visit_cases:
  assumes "visit w m s i = Inr s'"
  obtains (plain) f where "(m, f) \<in> set rv64i_visitors \<or> (m, f) \<in> set (rv64m_visitors w)"
      "lift_visitor f s i = Inr s'"
    | (memory) g where "(m, g) \<in> set memory_visitors" "g s i = Inr s'"
  using assms by (auto simp: visit_def dest: map_of_SomeD split: option.splits)

lemma plain_visitor_contract:
  assumes "(m, f) \<in> set rv64i_visitors \<or> (m, f) \<in> set (rv64m_visitors w)"
  shows "keeps_wf f \<and> only_rd f \<and> (m \<notin> fst ` set rv64i_control_visitors \<longrightarrow> next_pc f)"
proof -
  have "next_pc f" if "(m, f) \<in> set rv64i_visitors" "m \<notin> fst ` set rv64i_control_visitors"
    using that rv64i_compute_visitors_next_pc by (force simp: rv64i_visitors_def)
  then show ?thesis
    using assms rv64i_visitors_keep_wf rv64m_visitors_keep_wf rv64i_visitors_only_rd
      rv64m_visitors_only_rd rv64m_visitors_next_pc by metis
qed

lemma visit_frame:
  assumes "visit w m s i = Inr s'" "wf_interp s"
  shows "wf_interp s' \<and> length (mem s') = length (mem s) \<and>
    (\<forall>r. r \<noteq> rd i \<longrightarrow> x_get (hart s') r = x_get (hart s) r) \<and>
    (m \<in> fst ` set rv64i_control_visitors \<or> hart_pc (hart s') = hart_pc (hart s) + 4)"
  using assms(1)
proof (cases rule: visit_cases)
  case (plain f)
  with plain_visitor_contract lift_visitor_frame [OF _ assms(2)] show ?thesis
    by metis
next
  case (memory g)
  with memory_visitors_frame [OF _ _ assms(2)] show ?thesis by metis
qed

lemma interp_step_frame_aux:
  assumes "interp_step w ic s = Inr s'" "wf_interp s"
  shows "\<exists>m. decode (ic (hart_pc (hart s))) = Some m \<and> wf_interp s' \<and> length (mem s') = length (mem s) \<and>
    (\<forall>r. r \<noteq> rd (ic (hart_pc (hart s))) \<longrightarrow> x_get (hart s') r = x_get (hart s) r) \<and>
    (m \<in> fst ` set rv64i_control_visitors \<or> hart_pc (hart s') = hart_pc (hart s) + 4)"
  using assms(1) visit_frame [OF _ assms(2)]
  by (auto simp: interp_step_def Let_def split: option.splits)

lemma interp_run_wf_aux:
  assumes "interp_run w ic n s = Inr s'" "wf_interp s"
  shows "wf_interp s' \<and> length (mem s') = length (mem s)"
  using assms(1,2)
proof (induction n arbitrary: s)
  case (Suc n)
  then obtain t where t: "interp_step w ic s = Inr t" "interp_run w ic n t = Inr s'"
    by (auto split: sum.splits)
  with Suc.IH [OF t(2)] interp_step_frame_aux [OF t(1) Suc.prems(2)] show ?case by auto
qed simp

subsection \<open>Stores and loads\<close>

lemma bit_le_value_le_bytes:
  "bit (le_value (le_bytes n v)) k \<longleftrightarrow> k < 8 * n \<and> bit v k"
proof (induction n arbitrary: v k)
  case (Suc n)
  show ?case
    using bit_imp_le_length [of v k]
    by (cases "k < 8") (auto simp: Suc bit_or_iff bit_push_bit_iff bit_ucast_iff bit_drop_bit_eq)
qed simp

lemma le_value_le_bytes: "le_value (le_bytes n v) = take_bit (8 * n) v"
  by (rule bit_eqI) (simp add: bit_le_value_le_bytes bit_take_bit_iff)

text \<open>
  C33: a load of \<open>n\<close> bytes from the address of a store of \<open>n\<close> bytes returns the low \<open>n\<close> bytes of the
  stored register, whatever immediates and base registers the two instructions use to name the
  address; every byte outside the stored range keeps its value, and the hart is not touched.
\<close>

theorem store_load_roundtrip:
  assumes st: "visitStore n s i = Inr s'"
    and ad: "x_get (hart s) (rs1 j) + scast (SIimm j) = x_get (hart s) (rs1 i) + scast (Simm i)"
    and a: "a = unat (x_get (hart s) (rs1 i) + scast (Simm i))"
  shows "visitLoad n s' j = Inr (take_bit (8 * n) (x_get (hart s) (rs2 i))) \<and>
    (\<forall>k. k < a \<or> a + n \<le> k \<longrightarrow> k < length (mem s) \<longrightarrow> mem s' ! k = mem s ! k) \<and>
    length (mem s') = length (mem s) \<and> hart s' = hart s"
proof -
  have s': "a + n \<le> length (mem s)"
    "s' = s\<lparr>mem := take a (mem s) @ le_bytes n (x_get (hart s) (rs2 i)) @ drop (a + n) (mem s)\<rparr>"
    using st by (auto simp: visitStore_def Let_def a split: if_splits)
  have "visitLoad n s' j = Inr (take_bit (8 * n) (x_get (hart s) (rs2 i)))"
    using s' by (simp add: visitLoad_def Let_def ad le_value_le_bytes flip: a)
  moreover have "mem s' ! k = mem s ! k" if "k < a \<or> a + n \<le> k" "k < length (mem s)" for k
    using s' that by (auto simp: nth_append)
  ultimately show ?thesis using s' by auto
qed

definition example_interp :: MyInterpreter where
  "example_interp = \<lparr>hart = x_set (x_set RISCVHart_init 1 4) 2 0x1234, mem = replicate 16 0\<rparr>"

lemma example_interp_wf: "wf_interp example_interp"
  by (simp add: example_interp_def wf_interp_def wf_x_set wf_hart_init)

theorem store_load_roundtrip_witness:
  "visitLoad 1 (example_interp\<lparr>mem := (replicate 16 0)[6 := 0x34]\<rparr>) 0x00208183 = Inr 0x34"
proof -
  have st: "visitStore 1 example_interp 0x00208123 = Inr (example_interp\<lparr>mem := (replicate 16 0)[6 := 0x34]\<rparr>)"
    by code_simp
  have ad: "x_get (hart example_interp) (rs1 0x00208183) + scast (SIimm 0x00208183) =
      x_get (hart example_interp) (rs1 0x00208123) + scast (Simm 0x00208123)"
    by code_simp
  have v: "take_bit (8 * 1) (x_get (hart example_interp) (rs2 0x00208123)) = 0x34"
    by code_simp
  show ?thesis
    by (rule store_load_roundtrip [OF st ad refl, unfolded v, THEN conjunct1])
qed

text \<open>
  C31: a run of any number of instructions keeps the hart well formed (32 registers, register 0 zero)
  and the memory at its size, whatever the 128-bit library computes.
\<close>

theorem interp_run_invariant:
  assumes "interp_run w icache_read n s = Inr s'" "wf_hart (hart s)"
  shows "wf_hart (hart s') \<and> x_get (hart s') 0 = 0 \<and> length (mem s') = length (mem s)"
  using interp_run_wf_aux [OF assms(1)] assms(2) by (simp add: wf_interp_def x_get_def)

text \<open>The word is \<^verbatim>\<open>mul x1, x1, x2\<close>.\<close>

lemma example_decode: "decode 0x022080B3 = Some ''MUL''"
  by (rule decode_entry [where v = "RTYPE_INSTR_VALUE 0x33 0 1" and k = RTYPE_MASK])
    (simp_all add: rv64im_table_def rv32m_table_def RTYPE_MASK_def RTYPE_INSTR_VALUE_def)

lemma example_step: "\<not> isl (interp_step exact_wide (\<lambda>_. 0x022080B3) example_interp)"
  by (simp add: interp_step_def example_decode visit_def rv64i_visitors_def rv64i_control_visitors_def
      rv64i_compute_visitors_def rv64m_visitors_def lift_visitor_def exact_multiplication put_next_def)

theorem interp_run_invariant_witness:
  "\<exists>s'. interp_run exact_wide (\<lambda>_. 0x022080B3) 1 example_interp = Inr s' \<and>
     x_get (hart s') 0 = 0 \<and> length (mem s') = 16"
proof -
  obtain s' where "interp_step exact_wide (\<lambda>_. 0x022080B3) example_interp = Inr s'"
    using example_step by (cases "interp_step exact_wide (\<lambda>_. 0x022080B3) example_interp") auto
  then have "interp_run exact_wide (\<lambda>_. 0x022080B3) 1 example_interp = Inr s'"
    by simp
  with interp_run_invariant [OF this] example_interp_wf show ?thesis
    by (auto simp: wf_interp_def example_interp_def)
qed

text \<open>
  C32: one step of the run loop decodes the word at the program counter, changes no register but
  the \<open>rd\<close> of that word, keeps the size of the memory, and moves the program counter by
  4 unless the instruction is a jump or a branch.
\<close>

theorem interp_step_frame:
  assumes "interp_step w icache_read s = Inr s'" "wf_hart (hart s)"
    and "i = icache_read (hart_pc (hart s))"
  shows "\<exists>m. decode i = Some m \<and> length (mem s') = length (mem s) \<and>
    (\<forall>r. r \<noteq> rd i \<longrightarrow> x_get (hart s') r = x_get (hart s) r) \<and>
    (m \<in> fst ` set rv64i_control_visitors \<or> hart_pc (hart s') = hart_pc (hart s) + 4)"
  using interp_step_frame_aux [OF assms(1)] assms(2,3) by (auto simp: wf_interp_def)

theorem interp_step_frame_witness:
  "\<exists>s'. interp_step exact_wide (\<lambda>_. 0x022080B3) example_interp = Inr s' \<and>
     x_get (hart s') 2 = x_get (hart example_interp) 2"
proof -
  obtain s' where "interp_step exact_wide (\<lambda>_. 0x022080B3) example_interp = Inr s'"
    using example_step by (cases "interp_step exact_wide (\<lambda>_. 0x022080B3) example_interp") auto
  with interp_step_frame [OF this] example_interp_wf show ?thesis
    by (auto simp: wf_interp_def rd_def)
qed

end
