(* ===== verification/Rt_Atomics.thy ===== *)
theory Rt_Atomics
  imports Address_Translation
begin

unbundle bit_operations_syntax

text \<open>
  The atomic operations of \<^verbatim>\<open>pando-rt/src/atomic.cpp\<close> and the in-place mutex of
  \<^verbatim>\<open>memory/common_memory_resource.hpp\<close>, over an explicit memory.

  The memory maps the global address of an aligned 64-bit cell to its value. Every operation is
  one atomic step on it; the fences and yields of the code order steps of different threads and do
  not change the value a step sees. The local branch of an operation runs the compiler's atomic
  built-in on the cell; the remote branch sends the operation to the owning node, which runs
  it there and answers with the value found. Failures of the transport abort the program and are
  not modelled.
\<close>

type_synonym rt_mem = "u64 \<Rightarrow> u64"

definition atomicLoad :: "u64 \<Rightarrow> rt_mem \<Rightarrow> u64" where
  "atomicLoad ptr m = m ptr"

definition atomicStore :: "u64 \<Rightarrow> u64 \<Rightarrow> rt_mem \<Rightarrow> rt_mem" where
  "atomicStore ptr value m = m(ptr := value)"

text \<open>The built-in: on failure the expected value becomes the value found.\<close>

definition builtin_compare_exchange :: "u64 \<Rightarrow> u64 \<Rightarrow> u64 \<Rightarrow> rt_mem \<Rightarrow> bool \<times> u64 \<times> rt_mem" where
  "builtin_compare_exchange ptr expected desired m =
     (if m ptr = expected then (True, expected, m(ptr := desired)) else (False, m ptr, m))"

text \<open>The request executed at the owning node (also \<^verbatim>\<open>DrvAPI::atomic_cas\<close>): it returns the value found.\<close>

definition found_compare_exchange :: "u64 \<Rightarrow> u64 \<Rightarrow> u64 \<Rightarrow> rt_mem \<Rightarrow> u64 \<times> rt_mem" where
  "found_compare_exchange ptr expected desired m =
     (m ptr, if m ptr = expected then m(ptr := desired) else m)"

definition atomicCompareExchangeAt ::
  "NodeIndex \<Rightarrow> u64 \<Rightarrow> u64 \<Rightarrow> u64 \<Rightarrow> rt_mem \<Rightarrow> bool \<times> u64 \<times> rt_mem" where
  "atomicCompareExchangeAt here ptr expected desired m =
     (if extractNodeIndex ptr = here then builtin_compare_exchange ptr expected desired m
      else
        let (found, m') = found_compare_exchange ptr expected desired m
        in if found = expected then (True, expected, m') else (False, found, m'))"

text \<open>The placement of the cell does not matter, so the components below use one operation.\<close>

definition atomicCompareExchange :: "u64 \<Rightarrow> u64 \<Rightarrow> u64 \<Rightarrow> rt_mem \<Rightarrow> bool \<times> u64 \<times> rt_mem" where
  "atomicCompareExchange = builtin_compare_exchange"

lemma atomicCompareExchangeAt_eq: "atomicCompareExchangeAt here = atomicCompareExchange"
  by (intro ext) (simp add: atomicCompareExchangeAt_def atomicCompareExchange_def
      builtin_compare_exchange_def found_compare_exchange_def)

definition atomicFetchAdd :: "u64 \<Rightarrow> u64 \<Rightarrow> rt_mem \<Rightarrow> u64 \<times> rt_mem" where
  "atomicFetchAdd ptr value m = (m ptr, m(ptr := m ptr + value))"

definition atomicFetchSub :: "u64 \<Rightarrow> u64 \<Rightarrow> rt_mem \<Rightarrow> u64 \<times> rt_mem" where
  "atomicFetchSub ptr value m = atomicFetchAdd ptr (-1 * value) m"

definition atomicIncrement :: "u64 \<Rightarrow> u64 \<Rightarrow> rt_mem \<Rightarrow> rt_mem" where
  "atomicIncrement ptr value m = snd (atomicFetchAdd ptr value m)"

definition atomicDecrement :: "u64 \<Rightarrow> u64 \<Rightarrow> rt_mem \<Rightarrow> rt_mem" where
  "atomicDecrement ptr value m = snd (atomicFetchAdd ptr (-1 * value) m)"

subsection \<open>The in-place mutex\<close>

datatype MutexState = isUnlocked | isLocked

fun MutexState_value :: "MutexState \<Rightarrow> u64" where
  "MutexState_value isUnlocked = 0"
| "MutexState_value isLocked = 1"

definition InplaceMutex_initialize :: "u64 \<Rightarrow> rt_mem \<Rightarrow> rt_mem" where
  "InplaceMutex_initialize mutexStatePtr = atomicStore mutexStatePtr (MutexState_value isUnlocked)"

definition InplaceMutex_tryLock :: "u64 \<Rightarrow> rt_mem \<Rightarrow> bool \<times> rt_mem" where
  "InplaceMutex_tryLock mutexStatePtr m =
     (let (ok, _, m') = atomicCompareExchange mutexStatePtr
            (MutexState_value isUnlocked) (MutexState_value isLocked) m
      in (ok, m'))"

definition InplaceMutex_unlock :: "u64 \<Rightarrow> rt_mem \<Rightarrow> rt_mem" where
  "InplaceMutex_unlock mutexStatePtr = atomicStore mutexStatePtr (MutexState_value isUnlocked)"

text \<open>
  The spin loop of \<^verbatim>\<open>lock\<close>, with no other thread running between two attempts: \<open>None\<close> means that
  it spins forever.
\<close>

partial_function (option) InplaceMutex_lock :: "u64 \<Rightarrow> rt_mem \<Rightarrow> rt_mem option" where
  "InplaceMutex_lock mutexStatePtr m =
     (case InplaceMutex_tryLock mutexStatePtr m of
        (resourceLocked, m') \<Rightarrow>
          if resourceLocked then Some m' else InplaceMutex_lock mutexStatePtr m')"

lemmas atomic_defs = atomicLoad_def atomicStore_def atomicCompareExchange_def
  builtin_compare_exchange_def atomicFetchAdd_def atomicFetchSub_def atomicIncrement_def
  atomicDecrement_def

lemmas mutex_defs = InplaceMutex_initialize_def InplaceMutex_tryLock_def InplaceMutex_unlock_def

lemma InplaceMutex_lock_free:
  "m p = 0 \<Longrightarrow> InplaceMutex_lock p m = Some (m(p := 1))"
  by (subst InplaceMutex_lock.simps) (simp add: InplaceMutex_tryLock_def atomic_defs)

end
