(* ===== verification/Spin_Lock.thy ===== *)
theory Spin_Lock
  imports Rt_Atomics
begin

unbundle bit_operations_syntax

text \<open>
  The spin locks of the runtime and of the graph library: \<^verbatim>\<open>pando::detail::InplaceMutex\<close>,
  \<^verbatim>\<open>pando::Mutex\<close> (\<^verbatim>\<open>sync/mutex.hpp\<close>) and \<^verbatim>\<open>galois::SimpleLock\<close> (\<^verbatim>\<open>sync/simple_lock.hpp\<close>). The three have
  the same client protocol: a thread repeats \<^verbatim>\<open>try_lock\<close> until it succeeds, runs its critical section and
  calls \<^verbatim>\<open>unlock\<close>. The protocol is a step relation over any number of threads; the interface a lock
  must satisfy is a locale; mutual exclusion is proved once there and holds for the three locks
  by interpretation.
\<close>

subsection \<open>The locks\<close>

text \<open>\<^verbatim>\<open>pando::Mutex\<close> holds its 32-bit state itself.\<close>

datatype Mutex_State = Mutex_IsUnlocked | Mutex_IsLocked

fun Mutex_State_value :: "Mutex_State \<Rightarrow> u32" where
  "Mutex_State_value Mutex_IsUnlocked = 0"
| "Mutex_State_value Mutex_IsLocked = 1"

definition Mutex_initialize :: "u32 \<Rightarrow> u32" where
  "Mutex_initialize m_state = Mutex_State_value Mutex_IsUnlocked"

definition Mutex_try_lock :: "u32 \<Rightarrow> bool \<times> u32" where
  "Mutex_try_lock m_state =
     (if m_state = Mutex_State_value Mutex_IsUnlocked then (True, Mutex_State_value Mutex_IsLocked)
      else (False, m_state))"

definition Mutex_unlock :: "u32 \<Rightarrow> u32" where
  "Mutex_unlock m_state = Mutex_State_value Mutex_IsUnlocked"

text \<open>\<^verbatim>\<open>galois::SimpleLock\<close> holds a pointer to a cell shared by its copies; 0 is the null pointer.\<close>

definition SimpleLock_IsUnlocked :: u64 where "SimpleLock_IsUnlocked = 0"
definition SimpleLock_IsLocked :: u64 where "SimpleLock_IsLocked = 1"

definition SimpleLock_initialize :: "u64 \<Rightarrow> rt_mem \<Rightarrow> rt_mem" where
  "SimpleLock_initialize m_state m = m(m_state := SimpleLock_IsUnlocked)"

definition SimpleLock_try_lock :: "u64 \<Rightarrow> rt_mem \<Rightarrow> bool \<times> rt_mem" where
  "SimpleLock_try_lock m_state m =
     (let (ok, _, m') = atomicCompareExchange m_state SimpleLock_IsUnlocked SimpleLock_IsLocked m
      in (ok, m'))"

definition SimpleLock_unlock :: "u64 \<Rightarrow> rt_mem \<Rightarrow> rt_mem" where
  "SimpleLock_unlock m_state m = atomicStore m_state SimpleLock_IsUnlocked m"

subsection \<open>The client protocol\<close>

datatype lock_pc = Outside | Spinning | Inside

record 'm lock_sys =
  shared :: 'm
  pcs :: "nat \<Rightarrow> lock_pc"

text \<open>
  \<open>try_lock\<close> and \<open>unlock\<close> are the operations of the lock, \<open>locked\<close> reads its state. The last rule is
  any other change of the memory by any thread, which leaves the lock alone.
\<close>

inductive lock_step ::
  "('m \<Rightarrow> bool \<times> 'm) \<Rightarrow> ('m \<Rightarrow> 'm) \<Rightarrow> ('m \<Rightarrow> bool) \<Rightarrow> 'm lock_sys \<Rightarrow> 'm lock_sys \<Rightarrow> bool"
  for try_lock :: "'m \<Rightarrow> bool \<times> 'm" and unlock :: "'m \<Rightarrow> 'm" and locked :: "'m \<Rightarrow> bool"
where
  enter: "pcs s t = Outside \<Longrightarrow>
    lock_step try_lock unlock locked s (s\<lparr>pcs := (pcs s)(t := Spinning)\<rparr>)"
| attempt: "pcs s t = Spinning \<Longrightarrow> try_lock (shared s) = (ok, m) \<Longrightarrow>
    lock_step try_lock unlock locked s
      (s\<lparr>shared := m, pcs := (pcs s)(t := (if ok then Inside else Spinning))\<rparr>)"
| leave: "pcs s t = Inside \<Longrightarrow>
    lock_step try_lock unlock locked s
      (s\<lparr>shared := unlock (shared s), pcs := (pcs s)(t := Outside)\<rparr>)"
| work: "locked m = locked (shared s) \<Longrightarrow>
    lock_step try_lock unlock locked s (s\<lparr>shared := m\<rparr>)"

inductive_cases lock_stepE: "lock_step try_lock unlock locked s s'"

definition lock_start :: "'m \<Rightarrow> 'm lock_sys" where
  "lock_start m = \<lparr>shared = m, pcs = (\<lambda>_. Outside)\<rparr>"

subsection \<open>The interface of a lock and what its clients get\<close>

locale spin_lock =
  fixes try_lock :: "'m \<Rightarrow> bool \<times> 'm"
    and unlock :: "'m \<Rightarrow> 'm"
    and locked :: "'m \<Rightarrow> bool"
  assumes try_lock_result: "try_lock m = (ok, m') \<Longrightarrow> ok = (\<not> locked m) \<and> locked m'"
    and unlock_result: "\<not> locked (unlock m)"
begin

definition lock_inv :: "'m lock_sys \<Rightarrow> bool" where
  "lock_inv s \<longleftrightarrow>
     (\<forall>t u. pcs s t = Inside \<longrightarrow> pcs s u = Inside \<longrightarrow> t = u) \<and>
     (locked (shared s) \<longleftrightarrow> (\<exists>t. pcs s t = Inside))"

lemma lock_inv_start: "\<not> locked m \<Longrightarrow> lock_inv (lock_start m)"
  by (simp add: lock_inv_def lock_start_def)

lemma lock_inv_step:
  assumes "lock_step try_lock unlock locked s s'" "lock_inv s"
  shows "lock_inv s'"
  using assms
proof (cases rule: lock_step.cases)
  case (enter t)
  then have "pcs s' v = Inside \<longleftrightarrow> pcs s v = Inside" for v by auto
  with enter assms(2) show ?thesis by (simp add: lock_inv_def)
next
  case (attempt t ok m)
  note r = try_lock_result [OF attempt(3)]
  have "pcs s' v = Inside \<longleftrightarrow> pcs s v = Inside \<or> (v = t \<and> ok)" for v using attempt by auto
  with attempt r assms(2) show ?thesis by (auto simp: lock_inv_def)
next
  case (leave t)
  with assms(2) unlock_result [of "shared s"] show ?thesis
    unfolding lock_inv_def by (auto split: if_splits)
next
  case (work m)
  with assms(2) show ?thesis by (simp add: lock_inv_def)
qed

lemma lock_inv_reachable:
  assumes "(lock_step try_lock unlock locked)\<^sup>*\<^sup>* (lock_start m) s" "\<not> locked m"
  shows "lock_inv s"
  using assms(1)
  by (induction rule: rtranclp_induct) (auto intro: lock_inv_start [OF assms(2)] lock_inv_step)

lemma mutual_exclusion:
  assumes "(lock_step try_lock unlock locked)\<^sup>*\<^sup>* (lock_start m) s" "\<not> locked m"
    and "pcs s t = Inside" "pcs s u = Inside"
  shows "t = u"
  using lock_inv_reachable [OF assms(1,2)] assms(3,4) by (auto simp: lock_inv_def)

text \<open>A spinning thread gets in with its next attempt once nobody is inside.\<close>

lemma next_attempt_succeeds:
  assumes "(lock_step try_lock unlock locked)\<^sup>*\<^sup>* (lock_start m) s" "\<not> locked m"
    and "pcs s t = Spinning" "\<forall>u. pcs s u \<noteq> Inside"
  shows "\<exists>s'. lock_step try_lock unlock locked s s' \<and> pcs s' t = Inside"
proof -
  have "\<not> locked (shared s)"
    using lock_inv_reachable [OF assms(1,2)] assms(4) by (auto simp: lock_inv_def)
  moreover obtain ok m' where r: "try_lock (shared s) = (ok, m')" by fastforce
  ultimately have ok using try_lock_result by blast
  moreover have "lock_step try_lock unlock locked s
      (s\<lparr>shared := m', pcs := (pcs s)(t := (if ok then Inside else Spinning))\<rparr>)"
    by (rule lock_step.attempt [of s t try_lock ok m' unlock locked, OF assms(3) r])
  ultimately show ?thesis by (intro exI [where x = "s\<lparr>shared := m', pcs := (pcs s)(t := Inside)\<rparr>"]) simp
qed

end

interpretation inplace_mutex: spin_lock "InplaceMutex_tryLock p" "InplaceMutex_unlock p" "\<lambda>m. m p \<noteq> 0"
  by unfold_locales (auto simp: mutex_defs atomic_defs split: if_splits)

interpretation rt_mutex: spin_lock Mutex_try_lock Mutex_unlock "\<lambda>s. s \<noteq> 0"
  by unfold_locales (auto simp: Mutex_try_lock_def Mutex_unlock_def split: if_splits)

interpretation simple_lock: spin_lock "SimpleLock_try_lock p" "SimpleLock_unlock p" "\<lambda>m. m p \<noteq> 0"
  by unfold_locales
    (auto simp: SimpleLock_try_lock_def SimpleLock_unlock_def SimpleLock_IsUnlocked_def
      SimpleLock_IsLocked_def atomic_defs split: if_splits)

text \<open>
  C24: mutual exclusion of the three locks. Whatever the number of threads and the interleaving of
  their attempts, unlocks and other memory accesses, from the unlocked state no two different threads
  are inside the critical section of an \<open>InplaceMutex\<close>, a \<open>Mutex\<close> or a \<open>SimpleLock\<close> at once.
\<close>

theorem spin_locks_exclude:
  assumes "t \<noteq> u"
  shows "(m p = 0 \<longrightarrow>
      (lock_step (InplaceMutex_tryLock p) (InplaceMutex_unlock p) (\<lambda>m. m p \<noteq> 0))\<^sup>*\<^sup>* (lock_start m) s \<longrightarrow>
      \<not> (pcs s t = Inside \<and> pcs s u = Inside)) \<and>
    ((lock_step (SimpleLock_try_lock p) (SimpleLock_unlock p) (\<lambda>m. m p \<noteq> 0))\<^sup>*\<^sup>*
        (lock_start (SimpleLock_initialize p m)) s \<longrightarrow>
      \<not> (pcs s t = Inside \<and> pcs s u = Inside)) \<and>
    ((lock_step Mutex_try_lock Mutex_unlock (\<lambda>s. s \<noteq> 0))\<^sup>*\<^sup>* (lock_start (Mutex_initialize x)) s' \<longrightarrow>
      \<not> (pcs s' t = Inside \<and> pcs s' u = Inside))"
  using assms inplace_mutex.mutual_exclusion [of p m s t u] rt_mutex.mutual_exclusion [of _ s' t u]
    simple_lock.mutual_exclusion [of p "SimpleLock_initialize p m" s t u]
  by (auto simp: SimpleLock_initialize_def SimpleLock_IsUnlocked_def Mutex_initialize_def)

definition taken_mutex :: "u32 lock_sys" where
  "taken_mutex = \<lparr>shared = 1, pcs = (\<lambda>_. Outside)(0 := Inside)\<rparr>"

lemma taken_mutex_reachable:
  "(lock_step Mutex_try_lock Mutex_unlock (\<lambda>s. s \<noteq> 0))\<^sup>*\<^sup>* (lock_start (Mutex_initialize 7)) taken_mutex"
proof -
  let ?step = "lock_step Mutex_try_lock Mutex_unlock (\<lambda>s. s \<noteq> 0)"
  let ?mid = "\<lparr>shared = 0 :: u32, pcs = (\<lambda>_. Outside)(0 := Spinning)\<rparr>"
  have "?step (lock_start (Mutex_initialize 7)) ?mid"
    using lock_step.enter [of "lock_start (Mutex_initialize 7)" 0 Mutex_try_lock Mutex_unlock]
    by (simp add: lock_start_def Mutex_initialize_def)
  moreover have "?step ?mid taken_mutex"
    using lock_step.attempt [of ?mid 0 Mutex_try_lock True 1 Mutex_unlock]
    by (simp add: taken_mutex_def Mutex_try_lock_def)
  ultimately show ?thesis by (meson rtranclp.rtrancl_into_rtrancl rtranclp.rtrancl_refl)
qed

theorem spin_locks_exclude_witness:
  "pcs taken_mutex 0 = Inside \<and> \<not> (pcs taken_mutex 0 = Inside \<and> pcs taken_mutex 1 = Inside)"
  using spin_locks_exclude [of 0 1 _ _ _ 7 taken_mutex] taken_mutex_reachable
  by (simp add: taken_mutex_def)

end
