(* ===== verification/Rt_Status.thy ===== *)
theory Rt_Status
  imports Pando_Prelude
begin

text \<open>
  The status codes of the runtime (\<^verbatim>\<open>pando-rt/status.hpp\<close>). An operation that returns
  \<^verbatim>\<open>Expected<T>\<close> is modelled by the sum type \<open>Status + 'a\<close>; \<^verbatim>\<open>PANDO_ABORT\<close> ends a run with its message.
\<close>

datatype Status =
    Success
  | Error
  | StatusNotImplemented
  | InvalidValue
  | InitError
  | NotInit
  | AlreadyInit
  | MemoryError
  | BadAlloc
  | StatusOutOfBounds
  | InsufficientSpace
  | LaunchError
  | EnqueueError

fun Status_code :: "Status \<Rightarrow> u32" where
  "Status_code Success = 0x0"
| "Status_code Error = 0x1"
| "Status_code StatusNotImplemented = 0x2"
| "Status_code InvalidValue = 0x3"
| "Status_code InitError = 0x10"
| "Status_code NotInit = 0x11"
| "Status_code AlreadyInit = 0x12"
| "Status_code MemoryError = 0x20"
| "Status_code BadAlloc = 0x21"
| "Status_code StatusOutOfBounds = 0x22"
| "Status_code InsufficientSpace = 0x23"
| "Status_code LaunchError = 0x30"
| "Status_code EnqueueError = 0x31"

type_synonym 'a expected = "Status + 'a"

datatype abort = PANDO_ABORT string

type_synonym 'a or_abort = "abort + 'a"

text \<open>A run goes on with the value of its first part, or ends with its abort.\<close>

definition abort_bind :: "'a or_abort \<Rightarrow> ('a \<Rightarrow> 'b or_abort) \<Rightarrow> 'b or_abort" where
  "abort_bind x f = (case x of Inl e \<Rightarrow> Inl e | Inr y \<Rightarrow> f y)"

lemma abort_bind_Inr: "abort_bind x f = Inr z \<longleftrightarrow> (\<exists>y. x = Inr y \<and> f y = Inr z)"
  by (simp add: abort_bind_def split: sum.splits)

lemma abort_bind_simps [simp]: "abort_bind (Inr y) f = f y" "abort_bind (Inl e) f = Inl e"
  by (simp_all add: abort_bind_def)

lemma Status_code_inject: "Status_code x = Status_code y \<longleftrightarrow> x = y"
  by (cases x; cases y) simp_all

end
