(* ===== verification/Wait_Group.thy ===== *)
theory Wait_Group
  imports Rt_Atomics Rt_Status
begin

text \<open>
  The completion counters of the graph library: \<^verbatim>\<open>galois::WaitGroup\<close> (\<^verbatim>\<open>sync/wait_group.hpp\<close>) and
  \<^verbatim>\<open>galois::GlobalBarrier\<close> (\<^verbatim>\<open>sync/global_barrier.hpp\<close>). A parent adds the number of tasks it is about to
  start, each task signals \<^verbatim>\<open>done\<close> once, and \<^verbatim>\<open>wait\<close> monitors the counter until it is zero.

  The counter is a cell of the shared memory. The protocol of the clients is a step relation; the
  contract of the counter is a locale that both classes satisfy, and the safety of \<^verbatim>\<open>wait\<close> is
  proved there.
\<close>

subsection \<open>WaitGroup\<close>

text \<open>The result of the allocation is an argument of \<^verbatim>\<open>initialize\<close>; 0 is the null pointer.\<close>

record WaitGroup =
  wg_count :: u64

definition WaitGroup_initialize ::
  "u32 \<Rightarrow> u64 expected \<Rightarrow> WaitGroup \<Rightarrow> rt_mem \<Rightarrow> Status \<times> WaitGroup \<times> rt_mem" where
  "WaitGroup_initialize initialCount expected w m =
     (case expected of
        Inl e \<Rightarrow> (e, w, m)
      | Inr p \<Rightarrow> (Success, w\<lparr>wg_count := p\<rparr>, m(p := ucast initialCount)))"

definition WaitGroup_deinitialize :: "WaitGroup \<Rightarrow> WaitGroup \<times> u64 option" where
  "WaitGroup_deinitialize w =
     (if wg_count w \<noteq> 0 then (w\<lparr>wg_count := 0\<rparr>, Some (wg_count w)) else (w, None))"

definition WaitGroup_getHandle :: "WaitGroup \<Rightarrow> u64" where
  "WaitGroup_getHandle w = wg_count w"

definition HandleType_add :: "u64 \<Rightarrow> u32 \<Rightarrow> rt_mem \<Rightarrow> rt_mem" where
  "HandleType_add m_count delta m = snd (atomicFetchAdd m_count (ucast delta) m)"

definition HandleType_addOne :: "u64 \<Rightarrow> rt_mem \<Rightarrow> rt_mem" where
  "HandleType_addOne m_count = HandleType_add m_count 1"

definition HandleType_done :: "u64 \<Rightarrow> rt_mem \<Rightarrow> rt_mem" where
  "HandleType_done m_count m = atomicDecrement m_count 1 m"

text \<open>
  \<^verbatim>\<open>wait\<close> has two accesses to the counter: the monitor, which lets the caller pass when it reads
  zero, and the read after it, which decides the returned status.
\<close>

definition WaitGroup_ready :: "u64 \<Rightarrow> rt_mem \<Rightarrow> bool" where
  "WaitGroup_ready m_count m \<longleftrightarrow> atomicLoad m_count m = 0"

definition WaitGroup_result :: "u64 \<Rightarrow> rt_mem \<Rightarrow> Status" where
  "WaitGroup_result m_count m = (if sint (m m_count) < 0 then Error else Success)"

subsection \<open>GlobalBarrier\<close>

definition GlobalBarrier_initialize :: "u32 \<Rightarrow> u64 expected \<Rightarrow> u64 \<Rightarrow> rt_mem \<Rightarrow> Status \<times> u64 \<times> rt_mem" where
  "GlobalBarrier_initialize initialCount expected b m =
     (case expected of
        Inl e \<Rightarrow> (e, b, m)
      | Inr p \<Rightarrow> (Success, p, m(p := ucast initialCount)))"

definition GlobalBarrier_add :: "u64 \<Rightarrow> u32 \<Rightarrow> rt_mem \<Rightarrow> rt_mem" where
  "GlobalBarrier_add m_count delta m = snd (atomicFetchAdd m_count (ucast delta) m)"

definition GlobalBarrier_addOne :: "u64 \<Rightarrow> rt_mem \<Rightarrow> rt_mem" where
  "GlobalBarrier_addOne m_count = GlobalBarrier_add m_count 1"

definition GlobalBarrier_done :: "u64 \<Rightarrow> rt_mem \<Rightarrow> rt_mem" where
  "GlobalBarrier_done m_count m = atomicDecrement m_count 1 m"

definition GlobalBarrier_ready :: "u64 \<Rightarrow> rt_mem \<Rightarrow> bool" where
  "GlobalBarrier_ready m_count m \<longleftrightarrow> atomicLoad m_count m = 0"

definition GlobalBarrier_result :: "u64 \<Rightarrow> rt_mem \<Rightarrow> Status" where
  "GlobalBarrier_result m_count m = (if sint (m m_count) < 0 then Error else Success)"

subsection \<open>The client protocol\<close>

datatype waiter = Working | Waiting | Passed | Returned Status

record 'm wg_sys =
  wg_mem :: 'm
  owed :: nat
  waiter :: waiter

text \<open>
  \<open>owed\<close> counts the announced tasks that have not signalled \<open>done\<close>. Tasks are announced by the waiter
  before it waits, or by a task that itself still owes its \<open>done\<close> (nested parallelism); the number of
  owed tasks stays in the range of the counter.
\<close>

inductive wg_step ::
  "(u32 \<Rightarrow> 'm \<Rightarrow> 'm) \<Rightarrow> ('m \<Rightarrow> 'm) \<Rightarrow> ('m \<Rightarrow> bool) \<Rightarrow> ('m \<Rightarrow> Status) \<Rightarrow> 'm wg_sys \<Rightarrow> 'm wg_sys \<Rightarrow> bool"
  for add :: "u32 \<Rightarrow> 'm \<Rightarrow> 'm" and signal :: "'m \<Rightarrow> 'm" and ready :: "'m \<Rightarrow> bool" and result :: "'m \<Rightarrow> Status"
where
  announce: "waiter s = Working \<or> 0 < owed s \<Longrightarrow> owed s + unat delta < 2 ^ 63 \<Longrightarrow>
    wg_step add signal ready result s (s\<lparr>wg_mem := add delta (wg_mem s), owed := owed s + unat delta\<rparr>)"
| finish: "0 < owed s \<Longrightarrow>
    wg_step add signal ready result s (s\<lparr>wg_mem := signal (wg_mem s), owed := owed s - 1\<rparr>)"
| start_wait: "waiter s = Working \<Longrightarrow> wg_step add signal ready result s (s\<lparr>waiter := Waiting\<rparr>)"
| pass: "waiter s = Waiting \<Longrightarrow> ready (wg_mem s) \<Longrightarrow>
    wg_step add signal ready result s (s\<lparr>waiter := Passed\<rparr>)"
| return: "waiter s = Passed \<Longrightarrow>
    wg_step add signal ready result s (s\<lparr>waiter := Returned (result (wg_mem s))\<rparr>)"

definition wg_start :: "'m \<Rightarrow> nat \<Rightarrow> 'm wg_sys" where
  "wg_start m n = \<lparr>wg_mem = m, owed = n, waiter = Working\<rparr>"

subsection \<open>The contract of a completion counter\<close>

locale completion_counter =
  fixes add :: "u32 \<Rightarrow> 'm \<Rightarrow> 'm"
    and signal :: "'m \<Rightarrow> 'm"
    and ready :: "'m \<Rightarrow> bool"
    and result :: "'m \<Rightarrow> Status"
    and counter :: "'m \<Rightarrow> int"
  assumes add_counter:
      "0 \<le> counter m \<Longrightarrow> counter m + int (unat d) < 2 ^ 63 \<Longrightarrow> counter (add d m) = counter m + int (unat d)"
    and signal_counter: "0 < counter m \<Longrightarrow> counter (signal m) = counter m - 1"
    and ready_counter: "ready m \<longleftrightarrow> counter m = 0"
    and result_counter: "0 \<le> counter m \<Longrightarrow> result m = Success"
begin

definition wg_inv :: "'m wg_sys \<Rightarrow> bool" where
  "wg_inv s \<longleftrightarrow> counter (wg_mem s) = int (owed s) \<and>
     (waiter s = Passed \<longrightarrow> owed s = 0) \<and>
     (\<forall>r. waiter s = Returned r \<longrightarrow> owed s = 0 \<and> r = Success)"

lemma wg_inv_step:
  assumes "wg_step add signal ready result s s'" "wg_inv s"
  shows "wg_inv s'"
  using assms
proof (cases rule: wg_step.cases)
  case (announce delta)
  have "counter (wg_mem s) + int (unat delta) < 2 ^ 63"
    using int_less_power [OF announce(3)] assms(2) by (simp add: wg_inv_def)
  with announce assms(2) show ?thesis by (auto simp: wg_inv_def add_counter)
next
  case finish
  with assms(2) show ?thesis by (auto simp: wg_inv_def signal_counter)
next
  case start_wait
  with assms(2) show ?thesis by (simp add: wg_inv_def)
next
  case pass
  with assms(2) show ?thesis by (simp add: wg_inv_def ready_counter)
next
  case return
  with assms(2) show ?thesis by (simp add: wg_inv_def result_counter)
qed

lemma wg_inv_reachable:
  assumes "(wg_step add signal ready result)\<^sup>*\<^sup>* (wg_start m n) s" "counter m = int n"
  shows "wg_inv s"
  using assms(1)
proof (induction rule: rtranclp_induct)
  case base
  show ?case using assms(2) by (simp add: wg_inv_def wg_start_def)
next
  case (step s s')
  then show ?case by (blast intro: wg_inv_step)
qed

lemma wait_safe:
  assumes "(wg_step add signal ready result)\<^sup>*\<^sup>* (wg_start m n) s" "counter m = int n"
  shows "(waiter s = Returned r \<longrightarrow> r = Success \<and> owed s = 0) \<and>
    (waiter s = Waiting \<and> owed s = 0 \<longrightarrow> wg_step add signal ready result s (s\<lparr>waiter := Passed\<rparr>))"
  using wg_inv_reachable [OF assms] wg_step.pass [of s ready add signal result]
  by (auto simp: wg_inv_def ready_counter)

end

lemma sint_add_u32:
  assumes "0 \<le> sint (a :: i64)" "sint a + int (unat (d :: u32)) < 2 ^ 63"
  shows "sint (a + ucast d) = sint a + int (unat d)"
proof -
  have "a + ucast d = word_of_int (sint a + int (unat d))"
    by simp
  moreover have "sint (word_of_int (sint a + int (unat d)) :: i64) = sint a + int (unat d)"
    using assms by (intro sint_of_int_i64) linarith+
  ultimately show ?thesis by simp
qed

lemma sint_minus_one:
  assumes "0 < sint (a :: i64)"
  shows "sint (a - 1) = sint a - 1"
proof -
  have "a - 1 = word_of_int (sint a - 1)" by simp
  moreover have "sint (word_of_int (sint a - 1) :: i64) = sint a - 1"
    using assms sint_lt [of a] by (intro sint_of_int_i64) simp_all
  ultimately show ?thesis by simp
qed

interpretation wait_group: completion_counter "HandleType_add p" "HandleType_done p"
  "WaitGroup_ready p" "WaitGroup_result p" "\<lambda>m. sint (m p)"
  by unfold_locales
    (auto simp: HandleType_add_def HandleType_done_def WaitGroup_ready_def WaitGroup_result_def
      atomic_defs sint_add_u32 sint_minus_one)

interpretation global_barrier: completion_counter "GlobalBarrier_add p" "GlobalBarrier_done p"
  "GlobalBarrier_ready p" "GlobalBarrier_result p" "\<lambda>m. sint (m p)"
  by unfold_locales
    (auto simp: GlobalBarrier_add_def GlobalBarrier_done_def GlobalBarrier_ready_def
      GlobalBarrier_result_def atomic_defs sint_add_u32 sint_minus_one)

lemma sint_ucast_u32: "sint (ucast (n :: u32) :: i64) = int (unat n)"
  using sint_add_u32 [of 0 n] uint_lt2p [of n] by simp

abbreviation WaitGroup_system :: "u64 \<Rightarrow> rt_mem wg_sys \<Rightarrow> rt_mem wg_sys \<Rightarrow> bool" where
  "WaitGroup_system p \<equiv>
     wg_step (HandleType_add p) (HandleType_done p) (WaitGroup_ready p) (WaitGroup_result p)"

abbreviation GlobalBarrier_system :: "u64 \<Rightarrow> rt_mem wg_sys \<Rightarrow> rt_mem wg_sys \<Rightarrow> bool" where
  "GlobalBarrier_system p \<equiv>
     wg_step (GlobalBarrier_add p) (GlobalBarrier_done p) (GlobalBarrier_ready p) (GlobalBarrier_result p)"

text \<open>
  C25: waiting is safe. After \<open>initialize\<close> with \<open>n\<close> tasks, in every interleaving of announcements
  (nested ones included), completions and the waiter, \<open>WaitGroup::wait\<close> returns only when every announced
  task has signalled, it then returns \<open>Success\<close>, and a waiter with no task outstanding can pass.
\<close>

theorem WaitGroup_wait_safe:
  assumes "WaitGroup_initialize n (Inr p) w m0 = (st, w', m)"
    and "(WaitGroup_system p)\<^sup>*\<^sup>* (wg_start m (unat n)) s"
  shows "st = Success \<and> WaitGroup_getHandle w' = p \<and>
    (\<forall>r. waiter s = Returned r \<longrightarrow> r = Success \<and> owed s = 0) \<and>
    (waiter s = Waiting \<and> owed s = 0 \<longrightarrow> WaitGroup_system p s (s\<lparr>waiter := Passed\<rparr>))"
  using assms wait_group.wait_safe [of p m "unat n" s]
  by (auto simp: WaitGroup_initialize_def WaitGroup_getHandle_def sint_ucast_u32)

text \<open>
  The same safety for \<open>GlobalBarrier\<close>: a wait on a barrier initialized with \<open>n\<close> returns only after
  every announced arrival, with \<open>Success\<close>, and is never blocked with nothing outstanding.
\<close>

theorem GlobalBarrier_wait_safe:
  assumes "GlobalBarrier_initialize n (Inr p) b m0 = (st, b', m)"
    and "(GlobalBarrier_system p)\<^sup>*\<^sup>* (wg_start m (unat n)) s"
  shows "st = Success \<and> b' = p \<and>
    (\<forall>r. waiter s = Returned r \<longrightarrow> r = Success \<and> owed s = 0) \<and>
    (waiter s = Waiting \<and> owed s = 0 \<longrightarrow> GlobalBarrier_system p s (s\<lparr>waiter := Passed\<rparr>))"
  using assms global_barrier.wait_safe [of p m "unat n" s]
  by (auto simp: GlobalBarrier_initialize_def sint_ucast_u32)

text \<open>
  A run of a group that starts with one announced task: the task announces another one, the caller begins to wait, both tasks
  signal, the wait ends and returns.
\<close>

lemma wg_two_task_run:
  assumes "m2 = signal (signal (add 1 m))" "ready m2"
  shows "(wg_step add signal ready result)\<^sup>*\<^sup>* (wg_start m 1) \<lparr>wg_mem = m2, owed = 0, waiter = Returned (result m2)\<rparr>"
proof -
  let ?s = "\<lambda>m n x. \<lparr>wg_mem = m, owed = n :: nat, waiter = x\<rparr>" and ?step = "wg_step add signal ready result"
  let ?m1 = "add 1 m"
  have "?step (?s m 1 Working) (?s ?m1 2 Working)"
    using wg_step.announce [of "?s m 1 Working" 1 add] by (simp flip: numeral_2_eq_2)
  moreover have "?step (?s ?m1 2 Working) (?s ?m1 2 Waiting)"
    using wg_step.start_wait [of "?s ?m1 2 Working"] by simp
  moreover have "?step (?s ?m1 2 Waiting) (?s (signal ?m1) 1 Waiting)"
    using wg_step.finish [of "?s ?m1 2 Waiting" add signal] by simp
  moreover have "?step (?s (signal ?m1) 1 Waiting) (?s m2 0 Waiting)"
    using wg_step.finish [of "?s (signal ?m1) 1 Waiting" add signal] assms(1) by simp
  moreover have "?step (?s m2 0 Waiting) (?s m2 0 Passed)"
    using wg_step.pass [of "?s m2 0 Waiting" ready] assms(2) by simp
  moreover have "?step (?s m2 0 Passed) (?s m2 0 (Returned (result m2)))"
    using wg_step.return [of "?s m2 0 Passed" add signal ready result] by simp
  ultimately show ?thesis
    unfolding wg_start_def by (meson converse_rtranclp_into_rtranclp rtranclp.rtrancl_refl)
qed

theorem WaitGroup_wait_safe_witness:
  "\<exists>w m s. WaitGroup_initialize 1 (Inr 8) \<lparr>wg_count = 0\<rparr> (\<lambda>_. 0) = (Success, w, m) \<and>
     (WaitGroup_system 8)\<^sup>*\<^sup>* (wg_start m 1) s \<and> waiter s = Returned Success \<and> owed s = 0"
proof -
  let ?m = "(\<lambda>_. 0 :: u64)(8 := 1)"
  have i: "WaitGroup_initialize 1 (Inr 8) \<lparr>wg_count = 0\<rparr> (\<lambda>_. 0) = (Success, \<lparr>wg_count = 8\<rparr>, ?m)"
    by (simp add: WaitGroup_initialize_def)
  obtain s r where s: "(WaitGroup_system 8)\<^sup>*\<^sup>* (wg_start ?m 1) s" "waiter s = Returned r"
    using wg_two_task_run [OF refl, of "WaitGroup_ready 8" "HandleType_done 8" "HandleType_add 8" ?m "WaitGroup_result 8"]
    by (fastforce simp: WaitGroup_ready_def HandleType_done_def HandleType_add_def atomic_defs)
  with WaitGroup_wait_safe [OF i, of s] i show ?thesis by auto
qed

theorem GlobalBarrier_wait_safe_witness:
  "\<exists>b m s. GlobalBarrier_initialize 1 (Inr 8) 0 (\<lambda>_. 0) = (Success, b, m) \<and>
     (GlobalBarrier_system 8)\<^sup>*\<^sup>* (wg_start m 1) s \<and> waiter s = Returned Success \<and> owed s = 0"
proof -
  let ?m = "(\<lambda>_. 0 :: u64)(8 := 1)"
  have i: "GlobalBarrier_initialize 1 (Inr 8) 0 (\<lambda>_. 0) = (Success, 8, ?m)"
    by (simp add: GlobalBarrier_initialize_def)
  obtain s r where s: "(GlobalBarrier_system 8)\<^sup>*\<^sup>* (wg_start ?m 1) s" "waiter s = Returned r"
    using wg_two_task_run [OF refl, of "GlobalBarrier_ready 8" "GlobalBarrier_done 8" "GlobalBarrier_add 8" ?m "GlobalBarrier_result 8"]
    by (fastforce simp: GlobalBarrier_ready_def GlobalBarrier_done_def GlobalBarrier_add_def atomic_defs)
  with GlobalBarrier_wait_safe [OF i, of s] i show ?thesis by auto
qed

end
