(* ===== verification/Rt_Align.thy ===== *)
theory Rt_Align
  imports Bit_Manip
begin

unbundle bit_operations_syntax

text \<open>
  \<^verbatim>\<open>pando::align\<close> (\<^verbatim>\<open>pando-rt/src/memory.cpp\<close>), the alignment primitive every memory resource is built on.
  The pointer and the space are in-out parameters, so the model returns the result pointer (0 for
  \<^verbatim>\<open>nullptr\<close>) together with their new values.
\<close>

definition align :: "u64 \<Rightarrow> u64 \<Rightarrow> u64 \<Rightarrow> u64 \<Rightarrow> u64 \<times> u64 \<times> u64" where
  "align alignment bytes ptr space =
     (if space < bytes then (0, ptr, space)
      else
        let alignedUIntPtr = (ptr - 1 + alignment) AND (- alignment);
            difference = alignedUIntPtr - ptr
        in if difference > space - bytes then (0, ptr, space)
           else (alignedUIntPtr, alignedUIntPtr, space - difference))"

text \<open>The reference: the least multiple of the alignment that is not below the pointer.\<close>

definition round_up :: "nat \<Rightarrow> nat \<Rightarrow> nat" where
  "round_up a p = ((p + a - 1) div a) * a"

lemma round_up_props:
  assumes "0 < a"
  shows "a dvd round_up a p" "p \<le> round_up a p" "round_up a p < p + a"
    "a dvd q \<Longrightarrow> p \<le> q \<Longrightarrow> round_up a p \<le> q"
proof -
  let ?m = "p + a - 1"
  have dm: "?m div a * a + ?m mod a = ?m" by simp
  have lt: "?m mod a < a" using assms by simp
  show "a dvd round_up a p" by (simp add: round_up_def)
  show le: "p \<le> round_up a p" using dm lt assms unfolding round_up_def by linarith
  show ub: "round_up a p < p + a" using dm assms unfolding round_up_def by linarith
  assume q: "a dvd q" "p \<le> q"
  then obtain k where k: "q = k * a" by (metis dvd_def mult.commute)
  show "round_up a p \<le> q"
  proof (rule ccontr)
    assume "\<not> round_up a p \<le> q"
    then have "k < ?m div a" using assms by (simp add: round_up_def k)
    then have "(k + 1) * a \<le> round_up a p" unfolding round_up_def by (intro mult_le_mono1) simp
    then show False using ub q k by simp
  qed
qed

lemma round_up_id: "0 < a \<Longrightarrow> a dvd p \<Longrightarrow> round_up a p = p"
  using round_up_props [of a p] by (simp add: eq_iff)

lemma unat_and_neg_exp:
  assumes "k < 64"
  shows "unat ((x :: u64) AND - (2 ^ k)) = unat x div 2 ^ k * 2 ^ k"
proof -
  have "x AND - (2 ^ k) = push_bit k (drop_bit k x)"
    by (rule bit_word_eqI)
      (auto simp: bit_and_iff bit_push_bit_iff bit_drop_bit_eq minus_exp_eq_not_mask bit_not_iff
        bit_mask_iff)
  also have "unat \<dots> = take_bit 64 (push_bit k (drop_bit k (unat x)))"
    by (simp add: unsigned_push_bit_eq unat_drop_bit_eq)
  also have "\<dots> = drop_bit k (unat x) * 2 ^ k"
  proof -
    have "drop_bit k (unat x) * 2 ^ k \<le> unat x" by (simp add: drop_bit_eq_div)
    also have "\<dots> < 2 ^ 64" by simp
    finally show ?thesis by (simp add: push_bit_eq_mult take_bit_nat_eq_self)
  qed
  finally show ?thesis by (simp add: drop_bit_eq_div)
qed

lemma aligned_up_no_wrap:
  assumes "k < 64" "0 < unat ptr" "unat ptr + 2 ^ k - 1 < 2 ^ 64"
  shows "unat ((ptr - 1 + 2 ^ k) AND - (2 ^ k) :: u64) = round_up (2 ^ k) (unat ptr)"
proof -
  have "unat (ptr - 1 + 2 ^ k) = unat ptr + 2 ^ k - 1"
    using assms by (simp add: unat_add_no_wrap unat_sub_no_wrap unat_pow2_u64)
  then show ?thesis by (simp add: unat_and_neg_exp [OF assms(1)] round_up_def)
qed

lemma aligned_up_wrap:
  assumes "k < 64" "2 ^ 64 \<le> unat ptr + 2 ^ k - 1"
  shows "(ptr - 1 + 2 ^ k) AND - (2 ^ k) = (0 :: u64)"
proof -
  have p: "2 ^ k \<le> (2 :: nat) ^ 63" "unat ptr < 2 ^ 64" "0 < unat ptr"
    using assms power_increasing [of k 63 "2 :: nat"] by simp_all
  have "unat (ptr - 1 + 2 ^ k) = (unat (ptr - 1) + unat (2 ^ k :: u64)) mod 2 ^ 64"
    by (simp add: unat_word_ariths(1))
  also have "unat (ptr - 1) + unat (2 ^ k :: u64) = unat ptr + 2 ^ k - 1"
    using p(3) by (simp add: unat_pow2_u64 [OF assms(1)] unat_sub_no_wrap)
  also have "(unat ptr + 2 ^ k - 1) mod 2 ^ 64 = unat ptr + 2 ^ k - 1 - 2 ^ 64"
  proof -
    have "unat ptr + 2 ^ k - 1 - 2 ^ 64 < (2 :: nat) ^ 64"
      using p by (simp del: unat_lt_2p64)
    then show ?thesis by (simp only: le_mod_geq [OF assms(2)] mod_less)
  qed
  finally have "unat (ptr - 1 + 2 ^ k) < 2 ^ k" using p assms(2) by linarith
  then have "unat ((ptr - 1 + 2 ^ k) AND - (2 ^ k) :: u64) = 0"
    by (simp add: unat_and_neg_exp [OF assms(1)])
  then show ?thesis by (simp add: unat_eq_0)
qed

text \<open>What a caller may rely on: success exactly when the aligned block fits in the buffer.\<close>

lemma align_spec_nat:
  assumes k: "k < 64" and al: "alignment = 2 ^ k" and nn: "ptr \<noteq> 0"
    and buf: "unat ptr + unat space < 2 ^ 64"
  shows "align alignment bytes ptr space =
    (if round_up (2 ^ k) (unat ptr) + unat bytes \<le> unat ptr + unat space
     then (word_of_nat (round_up (2 ^ k) (unat ptr)), word_of_nat (round_up (2 ^ k) (unat ptr)),
           word_of_nat (unat ptr + unat space - round_up (2 ^ k) (unat ptr)))
     else (0, ptr, space))"
proof -
  let ?a = "2 ^ k :: nat" and ?r = "round_up (2 ^ k) (unat ptr)"
  let ?al = "(ptr - 1 + alignment) AND - alignment"
  note ru = round_up_props [of ?a "unat ptr"]
  have p0: "0 < unat ptr" using nn by (simp add: unat_gt_0)
  show ?thesis
  proof (cases "space < bytes")
    case True
    then show ?thesis using ru(2) by (simp add: align_def word_less_nat_alt)
  next
    case fits: False
    then have sb: "unat (space - bytes) = unat space - unat bytes"
      by (simp add: unat_sub_no_wrap word_less_nat_alt)
    show ?thesis
    proof (cases "unat ptr + ?a - 1 < 2 ^ 64")
      case True
      then have ur: "unat ?al = ?r" using aligned_up_no_wrap [OF k p0] al by simp
      then have d: "unat (?al - ptr) = ?r - unat ptr" using ru(2) by (simp add: unat_sub_no_wrap)
      have w: "?al = word_of_nat ?r" unfolding ur [symmetric] by simp
      have "space - (?al - ptr) = word_of_nat (unat ptr + unat space - ?r)"
        if "?r + unat bytes \<le> unat ptr + unat space"
        using that d ru(2) by (intro word_of_nat_eqI) (simp add: unat_sub_no_wrap)
      then show ?thesis
        using fits d sb w ru(2) unfolding align_def Let_def
        by (auto simp: word_less_nat_alt)
    next
      case False
      then have z: "?al = 0" using aligned_up_wrap [OF k] al by simp
      have big: "2 ^ 64 \<le> ?r"
      proof -
        have "?a dvd (2 :: nat) ^ 64" using k by (intro le_imp_power_dvd) simp
        then have "2 ^ 64 div ?a * ?a = (2 :: nat) ^ 64" by simp
        moreover have "2 ^ 64 div ?a \<le> (unat ptr + ?a - 1) div ?a" using False by (intro div_le_mono) simp
        ultimately show ?thesis unfolding round_up_def by (metis mult_le_mono1)
      qed
      have "unat (0 - ptr) = 2 ^ 64 - unat ptr"
        using unat_uminus_u64 [OF nn] by simp
      then have "unat (?al - ptr) > unat (space - bytes)" using sb buf by (simp add: z)
      then show ?thesis using fits big buf unfolding align_def Let_def by (simp add: word_less_nat_alt)
    qed
  qed
qed

lemma align_success:
  assumes "k < 64" "alignment = 2 ^ k" "ptr \<noteq> 0" "unat ptr + unat space < 2 ^ 64"
    and "align alignment bytes ptr space = (r, ptr', space')" "r \<noteq> 0"
  shows "ptr' = r \<and> 2 ^ k dvd unat r \<and> unat ptr \<le> unat r \<and> unat bytes \<le> unat space' \<and>
    unat r + unat space' = unat ptr + unat space"
proof -
  let ?r = "round_up (2 ^ k) (unat ptr)"
  have c: "?r + unat bytes \<le> unat ptr + unat space"
    using assms(5,6) by (auto simp: align_spec_nat [OF assms(1-4)] split: if_splits)
  have "unat ptr + unat space - ?r < 2 ^ 64" using assms(4) by simp
  then have u: "unat (word_of_nat ?r :: u64) = ?r"
    "unat (word_of_nat (unat ptr + unat space - ?r) :: u64) = unat ptr + unat space - ?r"
    using c assms(4) by (simp_all del: of_nat_diff of_nat_add)
  have "r = word_of_nat ?r" "ptr' = r" "space' = word_of_nat (unat ptr + unat space - ?r)"
    using assms(5) c by (auto simp: align_spec_nat [OF assms(1-4)])
  then show ?thesis using u c round_up_props [of "2 ^ k" "unat ptr"] by (simp del: of_nat_diff of_nat_add)
qed

text \<open>
  C28: \<open>align\<close> succeeds exactly when the least aligned address at or above the pointer leaves room
  for the requested bytes in the buffer; then it returns that address, moves the pointer there and
  takes the skipped bytes off the space. Otherwise it returns the null pointer and changes neither,
  even where the rounded address wraps around the address space.
\<close>

theorem align_least_fitting:
  assumes "k < 64" "alignment = 2 ^ k" "ptr \<noteq> 0" "unat ptr + unat space < 2 ^ 64"
  shows "if \<exists>q. 2 ^ k dvd q \<and> unat ptr \<le> q \<and> q + unat bytes \<le> unat ptr + unat space
     then \<exists>r space'. align alignment bytes ptr space = (r, r, space') \<and>
       2 ^ k dvd unat r \<and> unat ptr \<le> unat r \<and> unat bytes \<le> unat space' \<and>
       unat r + unat space' = unat ptr + unat space \<and>
       (\<forall>q. 2 ^ k dvd q \<and> unat ptr \<le> q \<longrightarrow> unat r \<le> q)
     else align alignment bytes ptr space = (0, ptr, space)"
proof -
  let ?r = "round_up (2 ^ k) (unat ptr)"
  note ru = round_up_props(1-3) [of "2 ^ k" "unat ptr"] round_up_props(4) [of "2 ^ k" _ "unat ptr"]
  note sp = align_spec_nat [OF assms, of bytes]
  show ?thesis
  proof (cases "?r + unat bytes \<le> unat ptr + unat space")
    case True
    let ?w = "word_of_nat ?r :: u64"
    have w: "unat ?w = ?r" using True assms(4) by simp
    moreover have "?w \<noteq> 0" using ru(2) w assms(3) by (metis le_zero_eq unat_0 unat_eq_0 zero_less_numeral zero_less_power)
    ultimately show ?thesis
      using True sp ru align_success [OF assms, of bytes ?w] by (auto simp del: of_nat_diff of_nat_add)
  next
    case False
    then have "\<not> (\<exists>q. 2 ^ k dvd q \<and> unat ptr \<le> q \<and> q + unat bytes \<le> unat ptr + unat space)"
      using ru(4) by (metis add_le_mono1 order_trans zero_less_numeral zero_less_power)
    then show ?thesis using False sp by auto
  qed
qed

theorem align_least_fitting_witness:
  "\<exists>r s. align 16 8 0x1001 0x100 = (r, r, s) \<and> 16 dvd unat r \<and> unat r + unat s = 0x1101"
proof -
  have "\<exists>q. 2 ^ 4 dvd q \<and> unat (0x1001 :: u64) \<le> q \<and>
      q + unat (8 :: u64) \<le> unat (0x1001 :: u64) + unat (0x100 :: u64)"
    by (intro exI [where x = "0x1010"]) simp
  then show ?thesis
    using align_least_fitting [of 4 16 "0x1001" "0x100" 8] by auto
qed

end
