(* ===== verification/Rt_Resource.thy ===== *)
theory Rt_Resource
  imports Rt_Atomics
begin

text \<open>
  The interface of a memory resource: what the memory layer and the containers above it rely on,
  whichever resource serves a request. \<open>used m\<close> are the bytes the resource does not have to
  give, \<open>region\<close> the bytes it manages, \<open>footprint\<close> the cells it keeps its own state in. A resource returns
  from every request (an allocation that fails returns the null pointer), hands out bytes of its
  region that were not in use, and touches no cell but its own.
\<close>

definition block :: "u64 \<Rightarrow> u64 \<Rightarrow> nat set" where
  "block p n = {unat p ..< unat p + unat n}"

locale memory_resource =
  fixes allocate :: "u64 \<Rightarrow> rt_mem \<Rightarrow> (u64 \<times> rt_mem) option"
    and inv :: "rt_mem \<Rightarrow> bool"
    and used :: "rt_mem \<Rightarrow> nat set"
    and region :: "nat set"
    and footprint :: "u64 set"
  assumes allocate_returns: "inv m \<Longrightarrow> allocate n m \<noteq> None"
    and allocate_inv: "inv m \<Longrightarrow> allocate n m = Some (p, m') \<Longrightarrow> inv m'"
    and allocate_fails: "inv m \<Longrightarrow> allocate n m = Some (0, m') \<Longrightarrow> used m' = used m"
    and allocate_block: "inv m \<Longrightarrow> allocate n m = Some (p, m') \<Longrightarrow> p \<noteq> 0 \<Longrightarrow>
      block p n \<subseteq> region \<and> block p n \<inter> used m = {} \<and> used m \<union> block p n \<subseteq> used m'"
    and allocate_frame: "inv m \<Longrightarrow> allocate n m = Some (p, m') \<Longrightarrow> c \<notin> footprint \<Longrightarrow> m' c = m c"
    and footprint_agree: "inv m \<Longrightarrow> (\<And>c. c \<in> footprint \<Longrightarrow> m' c = m c) \<Longrightarrow> inv m' \<and> used m' = used m"

subsection \<open>Requests and writes of the clients\<close>

datatype rop = Alloc u64 | Free nat | ClientWrite u64 u64

text \<open>
  A run keeps the list of live pointers with the sizes that were asked for. \<open>Free i\<close> gives back the
  \<open>i\<close>-th live pointer; a client write is any store of the program.
\<close>

fun run_rop ::
  "(u64 \<Rightarrow> rt_mem \<Rightarrow> (u64 \<times> rt_mem) option) \<Rightarrow> (u64 \<Rightarrow> rt_mem \<Rightarrow> rt_mem option) \<Rightarrow>
   rop \<Rightarrow> (u64 \<times> u64) list \<times> rt_mem \<Rightarrow> ((u64 \<times> u64) list \<times> rt_mem) option" where
  "run_rop alloc dealloc (Alloc n) (live, m) =
     (case alloc n m of
        None \<Rightarrow> None
      | Some (p, m') \<Rightarrow> Some (if p = 0 then (live, m') else ((p, n) # live, m')))"
| "run_rop alloc dealloc (Free i) (live, m) =
     (if i < length live
      then (case dealloc (fst (live ! i)) m of
              None \<Rightarrow> None
            | Some m' \<Rightarrow> Some (take i live @ drop (Suc i) live, m'))
      else Some (live, m))"
| "run_rop alloc dealloc (ClientWrite c v) (live, m) = Some (live, m(c := v))"

fun run_rops ::
  "(u64 \<Rightarrow> rt_mem \<Rightarrow> (u64 \<times> rt_mem) option) \<Rightarrow> (u64 \<Rightarrow> rt_mem \<Rightarrow> rt_mem option) \<Rightarrow>
   rop list \<Rightarrow> (u64 \<times> u64) list \<times> rt_mem \<Rightarrow> ((u64 \<times> u64) list \<times> rt_mem) option" where
  "run_rops alloc dealloc [] s = Some s"
| "run_rops alloc dealloc (op # ops) s =
     (case run_rop alloc dealloc op s of
        None \<Rightarrow> None
      | Some s' \<Rightarrow> run_rops alloc dealloc ops s')"

definition writes_outside :: "u64 set \<Rightarrow> rop list \<Rightarrow> bool" where
  "writes_outside fp ops \<longleftrightarrow> (\<forall>c v. ClientWrite c v \<in> set ops \<longrightarrow> c \<notin> fp)"

subsection \<open>Requests without frees\<close>

context memory_resource
begin

definition handed_out :: "(u64 \<times> u64) list \<Rightarrow> rt_mem \<Rightarrow> bool" where
  "handed_out live m \<longleftrightarrow>
     inv m \<and> (\<forall>b \<in> set live. block (fst b) (snd b) \<subseteq> region \<inter> used m) \<and>
     sorted_wrt (\<lambda>a b. block (fst a) (snd a) \<inter> block (fst b) (snd b) = {}) live"

lemma handed_out_alloc:
  assumes "handed_out live m"
  shows "\<exists>live' m'. run_rop allocate d (Alloc n) (live, m) = Some (live', m') \<and> handed_out live' m'"
proof -
  have i: "inv m" using assms by (simp add: handed_out_def)
  obtain p m' where a: "allocate n m = Some (p, m')" using allocate_returns [OF i] by fastforce
  show ?thesis
  proof (cases "p = 0")
    case True
    then have "handed_out live m'"
      using assms allocate_inv [OF i a] allocate_fails [OF i] a by (simp add: handed_out_def)
    with a True show ?thesis by simp
  next
    case False
    have old: "\<forall>b \<in> set live. block (fst b) (snd b) \<subseteq> region \<inter> used m"
      using assms by (simp add: handed_out_def)
    have "handed_out ((p, n) # live) m'"
      unfolding handed_out_def
    proof (intro conjI)
      show "inv m'" by (rule allocate_inv [OF i a])
      show "\<forall>b \<in> set ((p, n) # live). block (fst b) (snd b) \<subseteq> region \<inter> used m'"
        using old allocate_block [OF i a False] by simp blast
      have "\<forall>b \<in> set live. block p n \<inter> block (fst b) (snd b) = {}"
        using old allocate_block [OF i a False] by blast
      then show "sorted_wrt (\<lambda>a b. block (fst a) (snd a) \<inter> block (fst b) (snd b) = {}) ((p, n) # live)"
        using assms by (simp add: handed_out_def)
    qed
    with a False show ?thesis by simp
  qed
qed

lemma run_handed_out:
  assumes "handed_out live m" "writes_outside footprint ops" "\<forall>i. Free i \<notin> set ops"
  shows "\<exists>live' m'. run_rops allocate d ops (live, m) = Some (live', m') \<and> handed_out live' m'"
  using assms
proof (induction ops arbitrary: live m)
  case (Cons op ops)
  have "\<exists>live1 m1. run_rop allocate d op (live, m) = Some (live1, m1) \<and> handed_out live1 m1"
  proof (cases op)
    case (Alloc n)
    then show ?thesis using handed_out_alloc [OF Cons.prems(1)] by simp
  next
    case (Free i)
    then show ?thesis using Cons.prems(3) by auto
  next
    case (ClientWrite c v)
    then have "inv (m(c := v)) \<and> used (m(c := v)) = used m"
      using Cons.prems(1,2) by (intro footprint_agree) (auto simp: writes_outside_def handed_out_def)
    then show ?thesis using Cons.prems(1) ClientWrite by (simp add: handed_out_def)
  qed
  then obtain live1 m1 where "run_rop allocate d op (live, m) = Some (live1, m1)" "handed_out live1 m1"
    by blast
  moreover have "writes_outside footprint ops" "\<forall>i. Free i \<notin> set ops"
    using Cons.prems by (auto simp: writes_outside_def)
  ultimately show ?case using Cons.IH [of live1 m1] by simp
qed simp

end

subsection \<open>A resource that also frees\<close>

text \<open>
  \<open>granted p\<close> are the bytes set aside for the pointer \<open>p\<close>, at least those asked for. Freeing a pointer
  that was handed out gives back exactly these.
\<close>

locale freeing_resource = memory_resource +
  fixes deallocate :: "u64 \<Rightarrow> rt_mem \<Rightarrow> rt_mem option"
    and granted :: "u64 \<Rightarrow> nat set"
    and valid :: "u64 \<Rightarrow> bool"
  assumes allocate_granted: "inv m \<Longrightarrow> allocate n m = Some (p, m') \<Longrightarrow> p \<noteq> 0 \<Longrightarrow>
      valid p \<and> granted p \<noteq> {} \<and> block p n \<subseteq> granted p \<and> granted p \<inter> used m = {} \<and> used m' = used m \<union> granted p"
    and deallocate_granted: "inv m \<Longrightarrow> valid p \<Longrightarrow>
      \<exists>m'. deallocate p m = Some m' \<and> inv m' \<and> used m' = used m - granted p \<and>
        (\<forall>c. c \<notin> footprint \<longrightarrow> m' c = m c)"
begin

abbreviation apart :: "u64 \<times> u64 \<Rightarrow> u64 \<times> u64 \<Rightarrow> bool" where
  "apart a b \<equiv> granted (fst a) \<inter> granted (fst b) = {}"

definition live_ok :: "u64 \<times> u64 \<Rightarrow> bool" where
  "live_ok b \<longleftrightarrow> valid (fst b) \<and> granted (fst b) \<noteq> {} \<and> block (fst b) (snd b) \<subseteq> granted (fst b)"

definition live_inv :: "(u64 \<times> u64) list \<Rightarrow> rt_mem \<Rightarrow> bool" where
  "live_inv live m \<longleftrightarrow>
     inv m \<and> used m = (\<Union>b \<in> set live. granted (fst b)) \<and> list_all live_ok live \<and> sorted_wrt apart live"

lemma live_inv_alloc:
  assumes "live_inv live m"
  shows "\<exists>live' m'. run_rop allocate deallocate (Alloc n) (live, m) = Some (live', m') \<and> live_inv live' m'"
proof -
  have i: "inv m" using assms by (simp add: live_inv_def)
  obtain p m' where a: "allocate n m = Some (p, m')" using allocate_returns [OF i] by fastforce
  show ?thesis
  proof (cases "p = 0")
    case True
    then have "live_inv live m'"
      using assms allocate_inv [OF i a] allocate_fails [OF i] a by (simp add: live_inv_def)
    with a True show ?thesis by simp
  next
    case False
    note g = allocate_granted [OF i a False]
    have "list_all (apart (p, n)) live"
      using g assms by (auto simp: live_inv_def list_all_iff)
    then have "live_inv ((p, n) # live) m'"
      using assms allocate_inv [OF i a] g by (auto simp: live_inv_def live_ok_def list_all_iff)
    with a False show ?thesis by simp
  qed
qed

lemma live_inv_free:
  assumes "live_inv live m" "i < length live"
  shows "\<exists>m'. deallocate (fst (live ! i)) m = Some m' \<and> live_inv (take i live @ drop (Suc i) live) m'"
proof -
  let ?b = "live ! i" and ?rest = "take i live @ drop (Suc i) live"
  have split: "live = take i live @ ?b # drop (Suc i) live" using assms(2) by (simp add: id_take_nth_drop)
  have sw: "sorted_wrt apart (take i live @ ?b # drop (Suc i) live)"
    using assms(1) split by (simp add: live_inv_def)
  then have dis: "\<forall>a \<in> set ?rest. granted (fst a) \<inter> granted (fst ?b) = {}"
    by (simp add: sorted_wrt_append Int_commute ball_Un)
  have set: "set live = insert ?b (set ?rest)" by (subst split) simp
  have ok: "live_ok ?b" "list_all live_ok ?rest"
    using assms(1) unfolding live_inv_def list_all_iff set by blast+
  obtain m' where m': "deallocate (fst ?b) m = Some m'" "inv m'" "used m' = used m - granted (fst ?b)"
    using deallocate_granted [of m "fst ?b"] assms(1) ok(1) by (auto simp: live_inv_def live_ok_def)
  have "(\<Union>b \<in> insert ?b (set ?rest). granted (fst b)) - granted (fst ?b) = (\<Union>b \<in> set ?rest. granted (fst b))"
    using dis by blast
  then have "used m' = (\<Union>b \<in> set ?rest. granted (fst b))"
    using m'(3) assms(1) unfolding live_inv_def set by simp
  moreover have "sorted_wrt apart ?rest" using sw by (simp add: sorted_wrt_append)
  ultimately show ?thesis using m' ok(2) unfolding live_inv_def by blast
qed

lemma live_inv_write:
  assumes "live_inv live m" "c \<notin> footprint"
  shows "live_inv live (m(c := v))"
proof -
  have "(m(c := v)) c' = m c'" if "c' \<in> footprint" for c' using that assms(2) by auto
  then have "inv (m(c := v)) \<and> used (m(c := v)) = used m"
    using assms(1) by (intro footprint_agree) (simp_all add: live_inv_def)
  then show ?thesis using assms(1) by (simp add: live_inv_def)
qed

lemma live_inv_step:
  assumes "live_inv live m" "writes_outside footprint [op]"
  shows "\<exists>live' m'. run_rop allocate deallocate op (live, m) = Some (live', m') \<and> live_inv live' m'"
proof (cases op)
  case (Alloc n)
  then show ?thesis using live_inv_alloc [OF assms(1)] by simp
next
  case (Free k)
  then show ?thesis using live_inv_free [OF assms(1), of k] assms(1) by fastforce
next
  case (ClientWrite c v)
  then show ?thesis using live_inv_write [OF assms(1)] assms(2) by (simp add: writes_outside_def)
qed

lemma run_live_inv:
  assumes "live_inv live m" "writes_outside footprint ops"
  shows "\<exists>live' m'. run_rops allocate deallocate ops (live, m) = Some (live', m') \<and> live_inv live' m'"
  using assms
proof (induction ops arbitrary: live m)
  case (Cons op ops)
  have w: "writes_outside footprint [op]" "writes_outside footprint ops"
    using Cons.prems(2) by (auto simp: writes_outside_def)
  obtain live1 m1 where r: "run_rop allocate deallocate op (live, m) = Some (live1, m1)" "live_inv live1 m1"
    using live_inv_step [OF Cons.prems(1) w(1)] by blast
  with Cons.IH [OF r(2) w(2)] show ?case by simp
qed simp

lemma live_inv_empty: "inv m \<Longrightarrow> used m = {} \<Longrightarrow> live_inv [] m"
  by (simp add: live_inv_def)

lemma live_blocks:
  assumes "live_inv live m"
  shows "sorted_wrt (\<lambda>a b. block (fst a) (snd a) \<inter> block (fst b) (snd b) = {}) live \<and>
    (\<Union>b \<in> set live. block (fst b) (snd b)) \<subseteq> used m"
proof -
  have ok: "\<And>b. b \<in> set live \<Longrightarrow> block (fst b) (snd b) \<subseteq> granted (fst b)"
    using assms by (auto simp: live_inv_def list_all_iff live_ok_def)
  have "sorted_wrt apart live" using assms by (simp add: live_inv_def)
  then have "sorted_wrt (\<lambda>a b. block (fst a) (snd a) \<inter> block (fst b) (snd b) = {}) live"
    by (rule sorted_wrt_mono_rel [rotated]) (use ok in blast)
  moreover have "(\<Union>b \<in> set live. block (fst b) (snd b)) \<subseteq> used m"
    using assms ok unfolding live_inv_def by blast
  ultimately show ?thesis by blast
qed

end

end
