(* ===== verification/Bump_Resource.thy ===== *)
theory Bump_Resource
  imports Rt_Align Rt_Resource Rt_Status
begin

text \<open>
  \<^verbatim>\<open>BumpMemoryResource<MinimumAlignment>\<close> (\<^verbatim>\<open>pando-rt/memory/bump_memory_resource.hpp\<close>): a buffer with an offset
  that only grows. The offset and the mutex live in the first cells of the buffer, so they are cells of
  the explicit memory; the constants are the record. The template argument is an argument of
  \<^verbatim>\<open>allocate\<close>.
\<close>

record BumpMemoryResource =
  bp_buffer :: u64
  bp_curOffset :: u64
  bp_mutex :: u64
  bp_capacity :: u64

definition BumpMemoryResource_new ::
  "u64 \<Rightarrow> u64 \<Rightarrow> rt_mem \<Rightarrow> (BumpMemoryResource \<times> rt_mem) or_abort" where
  "BumpMemoryResource_new bufferStart bufferSize m =
     (let (alignedCurrentStart, voidCurrentStart, capacity) = align 8 8 bufferStart bufferSize in
      if alignedCurrentStart = 0 then Inl (PANDO_ABORT ''Insufficient space to store metadata'')
      else
        let curOffset = alignedCurrentStart;
            (alignedMutex, voidMutex, capacity') = align 8 8 (voidCurrentStart + 8) (capacity - 8)
        in if alignedMutex = 0 then Inl (PANDO_ABORT ''Insufficient space to store metadata'')
           else Inr (\<lparr>bp_buffer = voidMutex + 8, bp_curOffset = curOffset, bp_mutex = alignedMutex,
                      bp_capacity = capacity' - 8\<rparr>,
                     InplaceMutex_initialize alignedMutex (atomicStore curOffset 0 m)))"

definition bump_allocate ::
  "u64 \<Rightarrow> BumpMemoryResource \<Rightarrow> u64 \<Rightarrow> rt_mem \<Rightarrow> (u64 \<times> rt_mem) option" where
  "bump_allocate MinimumAlignment r bytes m =
     (case InplaceMutex_lock (bp_mutex r) m of
        None \<Rightarrow> None
      | Some m1 \<Rightarrow>
          let allocOffset = m1 (bp_curOffset r);
              allocationPointer = bp_buffer r + allocOffset;
              (alignedPointer, _, availableBytes) =
                align MinimumAlignment bytes allocationPointer (bp_capacity r - allocOffset);
              m2 = (if alignedPointer \<noteq> 0
                    then m1(bp_curOffset r := bp_capacity r - availableBytes + bytes) else m1)
          in Some (alignedPointer, InplaceMutex_unlock (bp_mutex r) m2))"

definition bump_deallocate :: "BumpMemoryResource \<Rightarrow> u64 \<Rightarrow> u64 \<Rightarrow> rt_mem \<Rightarrow> rt_mem" where
  "bump_deallocate r p bytes m = m"

definition bump_pointerIsOwned :: "BumpMemoryResource \<Rightarrow> u64 \<Rightarrow> bool" where
  "bump_pointerIsOwned r p \<longleftrightarrow> p \<ge> bp_buffer r \<and> p < bp_buffer r + bp_capacity r"

definition bump_computeMetadataSize :: u64 where
  "bump_computeMetadataSize = 8 + 8"

subsection \<open>The resource contract\<close>

definition bump_ok :: "BumpMemoryResource \<Rightarrow> bool" where
  "bump_ok r \<longleftrightarrow> bp_buffer r \<noteq> 0 \<and> bp_curOffset r \<noteq> bp_mutex r \<and>
     unat (bp_curOffset r) + 8 \<le> unat (bp_buffer r) \<and> unat (bp_mutex r) + 8 \<le> unat (bp_buffer r) \<and>
     unat (bp_buffer r) + unat (bp_capacity r) < 2 ^ 64"

definition bump_inv :: "nat \<Rightarrow> BumpMemoryResource \<Rightarrow> rt_mem \<Rightarrow> bool" where
  "bump_inv k r m \<longleftrightarrow> k < 64 \<and> bump_ok r \<and> m (bp_mutex r) = 0 \<and> m (bp_curOffset r) \<le> bp_capacity r"

definition bump_used :: "BumpMemoryResource \<Rightarrow> rt_mem \<Rightarrow> nat set" where
  "bump_used r m = {unat (bp_buffer r) ..< unat (bp_buffer r) + unat (m (bp_curOffset r))}"

definition bump_region :: "BumpMemoryResource \<Rightarrow> nat set" where
  "bump_region r = {unat (bp_buffer r) ..< unat (bp_buffer r) + unat (bp_capacity r)}"

definition bump_footprint :: "BumpMemoryResource \<Rightarrow> u64 set" where
  "bump_footprint r = {bp_curOffset r, bp_mutex r}"

lemma bump_allocate_cases:
  assumes "bump_inv k r m"
  obtains (none) "bump_allocate (2 ^ k) r n m = Some (0, m)"
    | (bumped) p off where "p \<noteq> 0" "bump_allocate (2 ^ k) r n m = Some (p, m(bp_curOffset r := off))"
      "off \<le> bp_capacity r" "2 ^ k dvd unat p"
      "unat (bp_buffer r) + unat (m (bp_curOffset r)) \<le> unat p"
      "unat p + unat n = unat (bp_buffer r) + unat off"
proof -
  have k: "k < 64" and ok: "bump_ok r" and mu: "m (bp_mutex r) = 0" and le: "m (bp_curOffset r) \<le> bp_capacity r"
    using assms by (simp_all add: bump_inv_def)
  let ?o = "m (bp_curOffset r)"
  have lk: "InplaceMutex_lock (bp_mutex r) m = Some (m(bp_mutex r := 1))" using mu by (rule InplaceMutex_lock_free)
  have ne: "bp_curOffset r \<noteq> bp_mutex r" using ok by (simp add: bump_ok_def)
  have le': "unat ?o \<le> unat (bp_capacity r)" using le by (simp add: word_le_nat_alt)
  have pu: "unat (bp_buffer r + ?o) = unat (bp_buffer r) + unat ?o"
    using ok le' by (subst unat_add_no_wrap) (auto simp: bump_ok_def)
  have av: "unat (bp_capacity r - ?o) = unat (bp_capacity r) - unat ?o" using le' by (simp add: unat_sub_no_wrap)
  obtain p q sp where al: "align (2 ^ k) n (bp_buffer r + ?o) (bp_capacity r - ?o) = (p, q, sp)"
    by (metis prod_cases3)
  have run: "bump_allocate (2 ^ k) r n m =
      Some (p, if p \<noteq> 0 then m(bp_curOffset r := bp_capacity r - sp + n) else m)"
  proof -
    have "(m(bp_mutex r := 1))(bp_mutex r := 0) = m" using mu by auto
    moreover have "(m(bp_mutex r := 1, bp_curOffset r := x))(bp_mutex r := 0) = m(bp_curOffset r := x)" for x
      using mu ne by auto
    ultimately show ?thesis
      using ne by (simp add: bump_allocate_def lk Let_def al InplaceMutex_unlock_def atomicStore_def)
  qed
  show thesis
  proof (cases "p = 0")
    case True
    with run show ?thesis by (intro none) simp
  next
    case False
    have nz: "bp_buffer r + ?o \<noteq> 0"
      using pu ok by (metis add_is_0 bump_ok_def unat_0 unat_eq_0)
    have b64: "unat (bp_buffer r + ?o) + unat (bp_capacity r - ?o) < 2 ^ 64"
      using pu av ok le' by (simp add: bump_ok_def)
    note s = align_success [OF k refl nz b64 al False]
    have sp: "unat sp \<le> unat (bp_capacity r)" using s pu av le' by linarith
    have "unat (bp_capacity r) - unat sp + unat n \<le> unat (bp_capacity r)" using s sp by linarith
    then have "unat (bp_capacity r) - unat sp + unat n < 2 ^ 64"
      using order.strict_trans1 [OF _ unat_lt_2p64] by simp
    then have off: "unat (bp_capacity r - sp + n) = unat (bp_capacity r) - unat sp + unat n"
      using sp by (subst unat_add_no_wrap) (simp_all add: unat_sub_no_wrap)
    have e: "unat p + unat n = unat (bp_buffer r) + unat (bp_capacity r - sp + n)"
      using off s pu av le' sp by linarith
    show ?thesis
    proof (rule bumped [OF False])
      show "bump_allocate (2 ^ k) r n m = Some (p, m(bp_curOffset r := bp_capacity r - sp + n))"
        using run False by simp
      show "bp_capacity r - sp + n \<le> bp_capacity r"
        using off s sp unfolding word_le_nat_alt by linarith
    qed (use s pu e in simp_all)
  qed
qed

interpretation bump: memory_resource "bump_allocate (2 ^ k) r" "bump_inv k r" "bump_used r" "bump_region r" "bump_footprint r"
proof
  fix m n p m'
  assume inv: "bump_inv k r m"
  then have ne: "bp_curOffset r \<noteq> bp_mutex r" and le: "m (bp_curOffset r) \<le> bp_capacity r"
    by (simp_all add: bump_inv_def bump_ok_def)
  show "bump_allocate (2 ^ k) r n m \<noteq> None" by (rule bump_allocate_cases [OF inv, of n]) simp_all
  show "bump_inv k r m'" if "bump_allocate (2 ^ k) r n m = Some (p, m')"
    using that inv ne by (rule_tac bump_allocate_cases [OF inv, of n]) (auto simp: bump_inv_def)
  show "bump_used r m' = bump_used r m" if "bump_allocate (2 ^ k) r n m = Some (0, m')"
    using that by (rule_tac bump_allocate_cases [OF inv, of n]) auto
  show "block p n \<subseteq> bump_region r \<and> block p n \<inter> bump_used r m = {} \<and> bump_used r m \<union> block p n \<subseteq> bump_used r m'"
    if "bump_allocate (2 ^ k) r n m = Some (p, m')" "p \<noteq> 0"
    using inv
  proof (cases rule: bump_allocate_cases [of k r m n])
    case (bumped p' off)
    then have "p' = p" "m' = m(bp_curOffset r := off)" using that by simp_all
    with bumped show ?thesis
      by (auto simp: block_def bump_region_def bump_used_def word_le_nat_alt)
  qed (use that in auto)
  show "m' c = m c" if "bump_allocate (2 ^ k) r n m = Some (p, m')" "c \<notin> bump_footprint r" for c
    using that by (rule_tac bump_allocate_cases [OF inv, of n]) (auto simp: bump_footprint_def)
  show "bump_inv k r m' \<and> bump_used r m' = bump_used r m" if "\<And>c. c \<in> bump_footprint r \<Longrightarrow> m' c = m c"
    using inv that [of "bp_curOffset r"] that [of "bp_mutex r"]
    by (simp add: bump_inv_def bump_used_def bump_footprint_def)
qed

subsection \<open>Construction\<close>

lemma align8_success:
  assumes "align 8 8 ptr space = (a, q, sp)" "a \<noteq> 0" "ptr \<noteq> 0" "unat ptr + unat space < 2 ^ 64"
  shows "q = a \<and> 8 dvd unat a \<and> unat ptr \<le> unat a \<and> 8 \<le> unat sp \<and> unat a + unat sp = unat ptr + unat space"
  using align_success [OF _ _ assms(3,4,1,2), of 3] by simp

lemma BumpMemoryResource_new_ok:
  assumes new: "BumpMemoryResource_new start bytes m = Inr (r, m')"
    and s: "start \<noteq> 0" and fits: "unat start + unat bytes < 2 ^ 64"
  shows "bump_ok r" "m' (bp_mutex r) = 0" "m' (bp_curOffset r) = 0"
    "unat start \<le> unat (bp_curOffset r)" "unat start \<le> unat (bp_mutex r)"
    "unat (bp_buffer r) + unat (bp_capacity r) = unat start + unat bytes"
    "\<And>c. c \<noteq> bp_mutex r \<Longrightarrow> c \<noteq> bp_curOffset r \<Longrightarrow> m' c = m c"
proof -
  obtain a q sp where a1: "align 8 8 start bytes = (a, q, sp)" by (metis prod_cases3)
  then have a0: "a \<noteq> 0" using new by (auto simp: BumpMemoryResource_new_def)
  note s1 = align8_success [OF a1 a0 s fits]
  have q: "unat (q + 8) = unat a + 8" using s1 fits by (subst unat_add_no_wrap) simp_all
  have sp: "unat (sp - 8) = unat sp - 8" using s1 by (simp add: unat_sub_no_wrap)
  obtain b q2 sp2 where a2: "align 8 8 (q + 8) (sp - 8) = (b, q2, sp2)" by (metis prod_cases3)
  then have b0: "b \<noteq> 0" using new a1 a0 by (auto simp: BumpMemoryResource_new_def)
  have nz: "q + 8 \<noteq> 0" using q by (metis add_is_0 unat_0 zero_neq_numeral)
  have f2: "unat (q + 8) + unat (sp - 8) < 2 ^ 64" using q sp s1 fits by linarith
  note s2 = align8_success [OF a2 b0 nz f2]
  have r: "r = \<lparr>bp_buffer = b + 8, bp_curOffset = a, bp_mutex = b, bp_capacity = sp2 - 8\<rparr>"
    and m': "m' = m(a := 0, b := 0)"
    using new a1 a2 a0 b0 s2
    by (auto simp: BumpMemoryResource_new_def InplaceMutex_initialize_def atomicStore_def)
  have u: "unat (b + 8) = unat b + 8" "unat (sp2 - 8) = unat sp2 - 8"
    using s2 q sp s1 fits by (subst unat_add_no_wrap, simp_all add: unat_sub_no_wrap)
  have ab: "unat a + 8 \<le> unat b" using s2 q by simp
  then have ne: "a \<noteq> b" by auto
  show "bump_ok r"
    unfolding bump_ok_def r using u ab ne s1 s2 q sp fits
    by (auto simp: unat_eq_0 [symmetric] simp del: unat_eq_0)
  show "m' (bp_mutex r) = 0" "m' (bp_curOffset r) = 0" using ne by (simp_all add: r m')
  show "unat start \<le> unat (bp_curOffset r)" "unat start \<le> unat (bp_mutex r)" using s1 ab by (simp_all add: r)
  show "unat (bp_buffer r) + unat (bp_capacity r) = unat start + unat bytes"
    using u s1 s2 q sp by (simp add: r)
  show "m' c = m c" if "c \<noteq> bp_mutex r" "c \<noteq> bp_curOffset r" for c using that by (simp add: r m')
qed

text \<open>
  C15: the bump resource is a safe allocator. From its constructor on, every sequence of requests and of
  stores of the program outside its two control cells returns; the blocks handed out are pairwise
  disjoint and lie in the buffer, and the two control cells lie in the buffer in front of them.
\<close>

theorem bump_blocks_disjoint:
  assumes "BumpMemoryResource_new start bytes m = Inr (r, m0)"
    and "start \<noteq> 0" "unat start + unat bytes < 2 ^ 64" "k < 64"
    and "writes_outside (bump_footprint r) ops" "\<forall>i. Free i \<notin> set ops"
  shows "\<exists>live m'. run_rops (bump_allocate (2 ^ k) r) d ops ([], m0) = Some (live, m') \<and>
    sorted_wrt (\<lambda>a b. block (fst a) (snd a) \<inter> block (fst b) (snd b) = {}) live \<and>
    (\<forall>b \<in> set live. block (fst b) (snd b) \<subseteq> {unat (bp_buffer r) ..< unat start + unat bytes}) \<and>
    (\<forall>c \<in> bump_footprint r. block c 8 \<subseteq> {unat start ..< unat (bp_buffer r)})"
proof -
  note ok = BumpMemoryResource_new_ok [OF assms(1-3)]
  have "bump.handed_out k r [] m0"
    using ok assms(4) unfolding bump.handed_out_def by (simp add: bump_inv_def)
  from bump.run_handed_out [OF this assms(5,6), of d] obtain live m'
    where run: "run_rops (bump_allocate (2 ^ k) r) d ops ([], m0) = Some (live, m')"
      and h: "bump.handed_out k r live m'" by blast
  have "\<forall>b \<in> set live. block (fst b) (snd b) \<subseteq> bump_region r"
    using h unfolding bump.handed_out_def by blast
  then have "\<forall>b \<in> set live. block (fst b) (snd b) \<subseteq> {unat (bp_buffer r) ..< unat start + unat bytes}"
    using ok(6) by (simp add: bump_region_def)
  moreover have "\<forall>c \<in> bump_footprint r. block c 8 \<subseteq> {unat start ..< unat (bp_buffer r)}"
    using ok(1,4,5) by (auto simp: bump_footprint_def block_def bump_ok_def)
  ultimately show ?thesis using run h unfolding bump.handed_out_def by blast
qed

definition example_bump :: BumpMemoryResource where
  "example_bump = \<lparr>bp_buffer = 0x2010, bp_curOffset = 0x2000, bp_mutex = 0x2008, bp_capacity = 0xF0\<rparr>"

lemma example_bump_new: "BumpMemoryResource_new 0x2000 0x100 m = Inr (example_bump, m(0x2000 := 0, 0x2008 := 0))"
  by (simp add: BumpMemoryResource_new_def align_def Let_def example_bump_def InplaceMutex_initialize_def
      atomicStore_def)

theorem bump_blocks_disjoint_witness:
  "\<exists>live m'. run_rops (bump_allocate (2 ^ 4) example_bump) (\<lambda>_. Some) [Alloc 24, ClientWrite 0x2010 1, Alloc 40]
      ([], (\<lambda>_. 0)(0x2000 := 0, 0x2008 := 0)) = Some (live, m') \<and>
    sorted_wrt (\<lambda>a b. block (fst a) (snd a) \<inter> block (fst b) (snd b) = {}) live"
proof -
  have h: "(0x2000 :: u64) \<noteq> 0" "unat (0x2000 :: u64) + unat (0x100 :: u64) < 2 ^ 64" "(4 :: nat) < 64"
    by simp_all
  have "writes_outside (bump_footprint example_bump) [Alloc 24, ClientWrite 0x2010 1, Alloc 40]"
    "\<forall>i. Free i \<notin> set [Alloc 24, ClientWrite 0x2010 1, Alloc 40]"
    by (simp_all add: writes_outside_def bump_footprint_def example_bump_def)
  from bump_blocks_disjoint [OF example_bump_new h this, of "\<lambda>_. Some"] show ?thesis by blast
qed

end
