(* ===== verification/FreeList_Resource.thy ===== *)
theory FreeList_Resource
  imports Rt_Align Rt_Atomics Rt_Status
begin

text \<open>
  \<^verbatim>\<open>FreeListMemoryResource\<close> (\<^verbatim>\<open>pando-rt/memory/freelist_memory_resource.hpp\<close>): a doubly linked list of freed
  blocks kept in the blocks themselves. A node at address \<open>p\<close> is three cells of the explicit memory:
  its \<^verbatim>\<open>next\<close> and \<^verbatim>\<open>previous\<close> pointers and its \<^verbatim>\<open>blockSize\<close>. The head is a sentinel node. The search loop is
  a partial function, which returns on every well-formed list.
\<close>

record FreeListMemoryResource =
  fl_head :: u64
  fl_mutex :: u64

definition node_next :: "rt_mem \<Rightarrow> u64 \<Rightarrow> u64" where "node_next m p = m p"
definition node_previous :: "rt_mem \<Rightarrow> u64 \<Rightarrow> u64" where "node_previous m p = m (p + 8)"
definition node_blockSize :: "rt_mem \<Rightarrow> u64 \<Rightarrow> u64" where "node_blockSize m p = m (p + 16)"
definition sizeof_FreeListNode :: u64 where "sizeof_FreeListNode = 24"

definition FreeListMemoryResource_new ::
  "u64 \<Rightarrow> u64 \<Rightarrow> rt_mem \<Rightarrow> (FreeListMemoryResource \<times> rt_mem) or_abort" where
  "FreeListMemoryResource_new bufferStart bufferSize m =
     (let (alignedCurrentStart, _, bufferSize1) = align 8 8 bufferStart bufferSize in
      if alignedCurrentStart = 0 then Inl (PANDO_ABORT ''Insufficient space to store metadata'')
      else
        let mutex = alignedCurrentStart;
            bufferSize2 = bufferSize1 - 8
        in if bufferSize2 < sizeof_FreeListNode then Inl (PANDO_ABORT ''Insufficient space to store metadata'')
           else
             let (currentStart, _, _) = align 8 sizeof_FreeListNode (alignedCurrentStart + 8) bufferSize2 in
             if currentStart = 0 then Inl (PANDO_ABORT ''Insufficient space to store metadata'')
             else
               Inr (\<lparr>fl_head = currentStart, fl_mutex = mutex\<rparr>,
                    InplaceMutex_initialize mutex
                      (m(currentStart := 0, currentStart + 8 := 0, currentStart + 16 := 0))))"

partial_function (option) findBestMatchingBlock_from ::
  "rt_mem \<Rightarrow> u64 \<Rightarrow> u64 \<Rightarrow> u64 \<Rightarrow> u64 \<Rightarrow> u64 option" where
  "findBestMatchingBlock_from m bytes current bestNode bestDiff =
     (if current = 0 then Some bestNode
      else
        let blockSize = node_blockSize m current in
        if blockSize > bytes then
          let diff = blockSize - bytes in
          if diff < bestDiff then findBestMatchingBlock_from m bytes (node_next m current) current diff
          else findBestMatchingBlock_from m bytes (node_next m current) bestNode bestDiff
        else if bytes = blockSize then Some current
        else findBestMatchingBlock_from m bytes (node_next m current) bestNode bestDiff)"

definition findBestMatchingBlock :: "FreeListMemoryResource \<Rightarrow> u64 \<Rightarrow> rt_mem \<Rightarrow> u64 option" where
  "findBestMatchingBlock r bytes m =
     findBestMatchingBlock_from m bytes (fl_head r) (fl_head r) 0xFFFFFFFFFFFFFFFF"

definition removeBlockFromList :: "u64 \<Rightarrow> rt_mem \<Rightarrow> rt_mem" where
  "removeBlockFromList blockPtr m =
     (let previous = node_previous m blockPtr;
          next = node_next m blockPtr;
          m1 = (if previous \<noteq> 0 then m(previous := next) else m)
      in if next \<noteq> 0 then m1(next + 8 := previous) else m1)"

definition addBlock :: "FreeListMemoryResource \<Rightarrow> u64 \<Rightarrow> u64 \<Rightarrow> rt_mem \<Rightarrow> rt_mem" where
  "addBlock r nodePtr bytes m =
     (let nextNode = node_next m (fl_head r);
          m1 = (if nextNode \<noteq> 0 then m(nextNode + 8 := nodePtr) else m)
      in m1(nodePtr + 8 := fl_head r, nodePtr := nextNode, nodePtr + 16 := bytes, fl_head r := nodePtr))"

definition freelist_allocate :: "FreeListMemoryResource \<Rightarrow> u64 \<Rightarrow> rt_mem \<Rightarrow> (u64 \<times> rt_mem) option" where
  "freelist_allocate r bytes m =
     (case InplaceMutex_lock (fl_mutex r) m of
        None \<Rightarrow> None
      | Some m1 \<Rightarrow>
          if node_next m1 (fl_head r) \<noteq> 0 then
            (case findBestMatchingBlock r bytes m1 of
               None \<Rightarrow> None
             | Some bestMatchingBlock \<Rightarrow>
                 if bestMatchingBlock \<noteq> fl_head r
                 then Some (bestMatchingBlock,
                            InplaceMutex_unlock (fl_mutex r) (removeBlockFromList bestMatchingBlock m1))
                 else Some (0, InplaceMutex_unlock (fl_mutex r) m1))
          else Some (0, InplaceMutex_unlock (fl_mutex r) m1))"

definition registerFreedBlock ::
  "FreeListMemoryResource \<Rightarrow> u64 \<Rightarrow> u64 \<Rightarrow> rt_mem \<Rightarrow> rt_mem option or_abort" where
  "registerFreedBlock r p bytes m =
     (if p = 0 \<or> bytes < sizeof_FreeListNode
      then Inl (PANDO_ABORT ''Insufficient space to store node metadata'')
      else if p mod 8 \<noteq> 0
      then Inl (PANDO_ABORT ''FreeList required pointer alignment is not maintained'')
      else Inr (case InplaceMutex_lock (fl_mutex r) m of
                  None \<Rightarrow> None
                | Some m1 \<Rightarrow> Some (InplaceMutex_unlock (fl_mutex r) (addBlock r p bytes m1))))"

definition freelist_deallocate ::
  "FreeListMemoryResource \<Rightarrow> u64 \<Rightarrow> u64 \<Rightarrow> rt_mem \<Rightarrow> rt_mem option or_abort" where
  "freelist_deallocate = registerFreedBlock"

definition freelist_pointerIsOwned :: "FreeListMemoryResource \<Rightarrow> u64 \<Rightarrow> bool" where
  "freelist_pointerIsOwned r p = False"

definition freelist_computeMetadataSize :: u64 where
  "freelist_computeMetadataSize = sizeof_FreeListNode + 8"

definition minimumAllowableAllocationSize :: u64 where
  "minimumAllowableAllocationSize = sizeof_FreeListNode"

subsection \<open>List segments\<close>

text \<open>
  \<open>lseg m prev p xs q\<close>: from \<open>p\<close> the memory holds the nodes \<open>xs\<close> (address and block size), whose first
  node points back to \<open>prev\<close> and whose last points on to \<open>q\<close>.
\<close>

fun lseg :: "rt_mem \<Rightarrow> u64 \<Rightarrow> u64 \<Rightarrow> (u64 \<times> u64) list \<Rightarrow> u64 \<Rightarrow> bool" where
  "lseg m prev p [] q \<longleftrightarrow> p = q"
| "lseg m prev p ((a, n) # xs) q \<longleftrightarrow>
     p = a \<and> a \<noteq> 0 \<and> m (a + 8) = prev \<and> m (a + 16) = n \<and> lseg m a (m a) xs q"

definition cells :: "u64 \<times> u64 \<Rightarrow> u64 list" where
  "cells b = [fst b, fst b + 8, fst b + 16]"

definition apart_nodes :: "(u64 \<times> u64) list \<Rightarrow> bool" where
  "apart_nodes xs \<longleftrightarrow> distinct (concat (map cells xs))"

fun lastp :: "u64 \<Rightarrow> (u64 \<times> u64) list \<Rightarrow> u64" where
  "lastp prev [] = prev"
| "lastp prev ((a, n) # xs) = lastp a xs"

lemma lastp_append [simp]: "lastp prev (xs @ (a, n) # ys) = lastp a ys"
  by (induction xs arbitrary: prev) auto

lemma lseg_append:
  "lseg m prev p (xs @ ys) q \<longleftrightarrow> (\<exists>z. lseg m prev p xs z \<and> lseg m (lastp prev xs) z ys q)"
  by (induction m prev p xs q rule: lseg.induct) auto

lemma lseg_frame:
  "(\<And>b c. b \<in> set xs \<Longrightarrow> c \<in> set (cells b) \<Longrightarrow> m' c = m c) \<Longrightarrow> lseg m' prev p xs q = lseg m prev p xs q"
proof (induction m prev p xs q rule: lseg.induct)
  case (2 m prev p a n xs q)
  have "m' a = m a" "m' (a + 8) = m (a + 8)" "m' (a + 16) = m (a + 16)"
    using "2.prems" [of "(a, n)"] by (simp_all add: cells_def)
  moreover have "lseg m' a (m a) xs q = lseg m a (m a) xs q" using 2 by auto
  ultimately show ?case by simp
qed simp

lemma apart_nodes_append:
  "apart_nodes (xs @ ys) \<longleftrightarrow> apart_nodes xs \<and> apart_nodes ys \<and>
     (\<forall>a \<in> set xs. \<forall>b \<in> set ys. set (cells a) \<inter> set (cells b) = {})"
  by (auto simp: apart_nodes_def)

lemma apart_nodes_Cons:
  "apart_nodes (x # xs) \<longleftrightarrow> (\<forall>b \<in> set xs. set (cells x) \<inter> set (cells b) = {}) \<and> apart_nodes xs"
  by (auto simp: apart_nodes_def cells_def)

text \<open>Unlinking a node that has a predecessor.\<close>

lemma remove_node:
  assumes seg: "lseg m prev p (xs @ (b, k) # (a, n) # ys) 0"
    and ap: "apart_nodes (xs @ (b, k) # (a, n) # ys)"
  shows "lseg (removeBlockFromList a m) prev p (xs @ (b, k) # ys) 0"
proof -
  let ?m = "removeBlockFromList a m"
  obtain z where z: "lseg m prev p xs z" "lseg m (lastp prev xs) z ((b, k) # (a, n) # ys) 0"
    using seg by (auto simp: lseg_append)
  then have b: "z = b" "b \<noteq> 0" "m (b + 8) = lastp prev xs" "m (b + 16) = k" "m b = a" "a \<noteq> 0" "m (a + 8) = b"
    and ys: "lseg m a (m a) ys 0" by simp_all
  have m': "?m = (if m a \<noteq> 0 then m(b := m a, m a + 8 := b) else m(b := m a))"
    using b by (simp add: removeBlockFromList_def Let_def node_previous_def node_next_def)
  have apx: "\<And>x c. x \<in> set xs \<Longrightarrow> c \<in> set (cells x) \<Longrightarrow> c \<noteq> b"
    and apy: "\<And>y c. y \<in> set ys \<Longrightarrow> c \<in> set (cells y) \<Longrightarrow> c \<noteq> b"
    using ap by (auto simp: apart_nodes_append apart_nodes_Cons cells_def)
  show ?thesis
  proof (cases ys)
    case Nil
    then have "m a = 0" using ys by simp
    have "lseg ?m prev p xs z" using z(1) by (subst lseg_frame) (auto simp: m' \<open>m a = 0\<close> dest: apx)
    then show ?thesis using b Nil by (auto simp: lseg_append m' \<open>m a = 0\<close>)
  next
    case (Cons y ys')
    then obtain c l where y: "y = (c, l)" by (cases y)
    have c: "m a = c" "c \<noteq> 0" "m (c + 16) = l" "lseg m c (m c) ys' 0" using ys Cons y by simp_all
    have apc: "\<And>x. x \<in> set xs \<Longrightarrow> c + 8 \<notin> set (cells x)" "\<And>x. x \<in> set ys' \<Longrightarrow> c + 8 \<notin> set (cells x)"
      using ap Cons y by (auto simp: apart_nodes_append apart_nodes_Cons cells_def)
    have bc: "b \<noteq> c" "b \<noteq> c + 8" "b \<noteq> c + 16" "b + 8 \<noteq> c + 8" "b + 16 \<noteq> c + 8"
      using ap Cons y by (auto simp: apart_nodes_append apart_nodes_Cons cells_def)
    have "lseg ?m prev p xs z" using z(1) by (subst lseg_frame) (auto simp: m' c(1,2) dest: apx apc)
    moreover have "lseg ?m c (m c) ys' 0"
      using c(4) Cons apy by (subst lseg_frame) (auto simp: m' c(1,2) dest: apc)
    ultimately show ?thesis using b c bc Cons y by (auto simp: lseg_append m')
  qed
qed

text \<open>Linking a node behind the sentinel.\<close>

lemma add_node:
  assumes seg: "lseg m 0 (fl_head r) ((fl_head r, 0) # bs) 0"
    and ap: "apart_nodes ((fl_head r, 0) # (a, n) # bs)" and a: "a \<noteq> 0"
  shows "lseg (addBlock r a n m) 0 (fl_head r) ((fl_head r, 0) # (a, n) # bs) 0"
proof -
  let ?h = "fl_head r" and ?m = "addBlock r a n m"
  have h: "?h \<noteq> 0" "m (?h + 8) = 0" "m (?h + 16) = 0" and bs: "lseg m ?h (m ?h) bs 0" using seg by simp_all
  have m': "?m = (if m ?h \<noteq> 0 then m(m ?h + 8 := a) else m)(a + 8 := ?h, a := m ?h, a + 16 := n, ?h := a)"
    by (simp add: addBlock_def Let_def node_next_def)
  have ha: "?h \<noteq> a" "?h \<noteq> a + 8" "?h \<noteq> a + 16" "?h + 8 \<noteq> a" "?h + 16 \<noteq> a" "?h + 8 \<noteq> a + 16" "?h + 16 \<noteq> a + 8"
    using ap by (auto simp: apart_nodes_Cons cells_def)
  have apb: "\<And>x c. x \<in> set bs \<Longrightarrow> c \<in> set (cells x) \<Longrightarrow> c \<noteq> ?h \<and> c \<noteq> a \<and> c \<noteq> a + 8 \<and> c \<noteq> a + 16"
    using ap by (auto simp: apart_nodes_Cons cells_def)
  show ?thesis
  proof (cases bs)
    case Nil
    then have "m ?h = 0" using bs by simp
    then show ?thesis using Nil h ha a by (auto simp: m')
  next
    case (Cons y ys)
    then obtain c l where y: "y = (c, l)" by (cases y)
    have c: "m ?h = c" "c \<noteq> 0" "m (c + 16) = l" "lseg m c (m c) ys 0" using bs Cons y by simp_all
    have apc: "\<And>x. x \<in> set ys \<Longrightarrow> c + 8 \<notin> set (cells x)"
      and cc: "?h + 8 \<noteq> c + 8" "?h + 16 \<noteq> c + 8" "?h \<noteq> c" "?h \<noteq> c + 8" "?h \<noteq> c + 16"
        "a \<noteq> c" "a \<noteq> c + 8" "a \<noteq> c + 16" "a + 8 \<noteq> c" "a + 8 \<noteq> c + 8" "a + 8 \<noteq> c + 16"
        "a + 16 \<noteq> c" "a + 16 \<noteq> c + 8" "a + 16 \<noteq> c + 16"
      using ap Cons y by (auto simp: apart_nodes_Cons cells_def)
    have "lseg ?m c (m c) ys 0"
      using c(4) apb Cons by (subst lseg_frame) (auto simp: m' c(1,2) dest: apc)
    then show ?thesis using Cons y h ha c cc a by (auto simp: m')
  qed
qed

text \<open>Linking and unlinking touch the cells of nodes of the list only.\<close>

lemma lseg_links:
  "lseg m prev p xs q \<Longrightarrow> (a, n) \<in> set xs \<Longrightarrow> m (a + 8) \<in> insert prev (fst ` set xs) \<and> m a \<in> insert q (fst ` set xs)"
proof (induction m prev p xs q rule: lseg.induct)
  case (2 m prev p b k xs q)
  show ?case
  proof (cases "(a, n) \<in> set xs")
    case True
    with 2 show ?thesis by auto
  next
    case False
    then have "m (a + 8) = prev" "lseg m a (m a) xs q" using 2 by auto
    moreover have "m a \<in> insert q (fst ` set xs)" using calculation(2) by (cases xs) auto
    ultimately show ?thesis by auto
  qed
qed simp

lemma lseg_nonzero: "lseg m prev p xs q \<Longrightarrow> (a, n) \<in> set xs \<Longrightarrow> a \<noteq> 0"
  by (induction m prev p xs q rule: lseg.induct) auto

lemma remove_frame:
  assumes "lseg m 0 p xs 0" "(a, n) \<in> set xs" "c \<notin> set (concat (map cells xs))"
  shows "removeBlockFromList a m c = m c"
proof -
  have c: "\<And>x. x \<in> fst ` set xs \<Longrightarrow> c \<noteq> x \<and> c \<noteq> x + 8" using assms(3) by (auto simp: cells_def)
  have "m (a + 8) \<noteq> 0 \<Longrightarrow> c \<noteq> m (a + 8)" "m a \<noteq> 0 \<Longrightarrow> c \<noteq> m a + 8"
    using lseg_links [OF assms(1,2)] c by blast+
  then show ?thesis by (simp add: removeBlockFromList_def Let_def node_next_def node_previous_def)
qed

lemma add_frame:
  assumes "lseg m 0 (fl_head r) ((fl_head r, 0) # bs) 0" "c \<notin> set (concat (map cells ((fl_head r, 0) # (a, n) # bs)))"
  shows "addBlock r a n m c = m c"
proof -
  have "m (fl_head r) \<noteq> 0 \<Longrightarrow> c \<noteq> m (fl_head r) + 8"
    using assms by (cases bs) (auto simp: cells_def)
  then show ?thesis using assms(2) by (simp add: addBlock_def Let_def node_next_def cells_def)
qed

subsection \<open>The search\<close>

text \<open>
  What the loop returns from a segment, given the best node so far: an exact match, or the closest
  larger block if it beats the best so far, or the best so far.
\<close>

definition find_result :: "(u64 \<times> u64) list \<Rightarrow> u64 \<Rightarrow> u64 \<Rightarrow> u64 \<Rightarrow> u64 \<Rightarrow> bool" where
  "find_result xs bytes best diff x \<longleftrightarrow>
     (x, bytes) \<in> set xs \<or>
     (\<forall>b \<in> set xs. snd b \<noteq> bytes) \<and>
       (x = best \<and> (\<forall>b \<in> set xs. bytes < snd b \<longrightarrow> diff \<le> snd b - bytes) \<or>
        (\<exists>n. (x, n) \<in> set xs \<and> bytes < n \<and> n - bytes < diff \<and>
           (\<forall>b \<in> set xs. bytes < snd b \<longrightarrow> n - bytes \<le> snd b - bytes)))"

lemma findBest_terminates:
  assumes "lseg m prev p xs 0"
  shows "\<exists>x. findBestMatchingBlock_from m bytes p best diff = Some x \<and> find_result xs bytes best diff x"
  using assms
proof (induction xs arbitrary: prev p best diff)
  case Nil
  then show ?case by (simp add: findBestMatchingBlock_from.simps find_result_def)
next
  case (Cons y xs)
  obtain a n where y: "y = (a, n)" by (cases y)
  then have a: "p = a" "a \<noteq> 0" "m (a + 16) = n" "lseg m a (m a) xs 0" using Cons.prems by simp_all
  note unf = findBestMatchingBlock_from.simps [of m bytes a]
  consider (exact) "n = bytes" | (larger) "bytes < n" "n - bytes < diff"
    | (worse) "bytes < n" "diff \<le> n - bytes" | (smaller) "n < bytes"
    by (meson linorder_less_linear not_less)
  then show ?case
  proof cases
    case exact
    then show ?thesis using a y unfolding a(1)
      by (simp add: unf Let_def node_blockSize_def find_result_def)
  next
    case larger
    from Cons.IH [OF a(4), of a "n - bytes"] obtain x
      where x: "findBestMatchingBlock_from m bytes (m a) a (n - bytes) = Some x"
        "find_result xs bytes a (n - bytes) x" by blast
    have "find_result (y # xs) bytes best diff x"
      using x(2) larger y unfolding find_result_def by (auto intro: order.strict_trans)
    then show ?thesis
      using larger a x(1) unfolding a(1) by (simp add: unf Let_def node_blockSize_def node_next_def)
  next
    case worse
    from Cons.IH [OF a(4), of best diff] obtain x
      where x: "findBestMatchingBlock_from m bytes (m a) best diff = Some x"
        "find_result xs bytes best diff x" by blast
    have "find_result (y # xs) bytes best diff x"
      using x(2) worse y unfolding find_result_def by (auto intro: order_trans)
    then show ?thesis
      using worse leD [OF worse(2)] a x(1) unfolding a(1) by (simp add: unf Let_def node_blockSize_def node_next_def)
  next
    case smaller
    from Cons.IH [OF a(4), of best diff] obtain x
      where x: "findBestMatchingBlock_from m bytes (m a) best diff = Some x"
        "find_result xs bytes best diff x" by blast
    have "find_result (y # xs) bytes best diff x"
      using x(2) smaller y unfolding find_result_def by auto
    then show ?thesis
      using smaller less_not_sym [OF smaller] less_imp_neq [OF smaller] a x(1) unfolding a(1) by (simp add: unf Let_def node_blockSize_def node_next_def)
  qed
qed

lemma diff_le_iff:
  assumes "bytes < (a :: u64)" "bytes < b"
  shows "a - bytes \<le> b - bytes \<longleftrightarrow> a \<le> b"
proof -
  have "unat (a - bytes) = unat a - unat bytes" "unat (b - bytes) = unat b - unat bytes"
    using assms by (simp_all add: unat_sub)
  then show ?thesis using assms by (auto simp: word_le_nat_alt word_less_nat_alt)
qed

lemma diff_less_max:
  assumes "0 < bytes" "bytes < (n :: u64)"
  shows "n - bytes < 0xFFFFFFFFFFFFFFFF"
proof -
  have "unat (n - bytes) = unat n - unat bytes" using assms by (simp add: unat_sub)
  moreover have "0 < unat bytes" "unat bytes < unat n" using assms by (simp_all add: word_less_nat_alt)
  moreover have "unat n \<le> 18446744073709551615" using unat_lt_2p64 [of n] by (simp del: unat_lt_2p64)
  ultimately have "unat (n - bytes) < 18446744073709551615" by arith
  then show ?thesis by (simp add: word_less_nat_alt)
qed

subsection \<open>The abstract pool\<close>

text \<open>
  \<open>freelist_rep r bs m\<close>: the memory represents the pool \<open>bs\<close> of free blocks (address and size), behind
  the sentinel, with the mutex free and stored apart from the nodes.
\<close>

definition freelist_rep :: "FreeListMemoryResource \<Rightarrow> (u64 \<times> u64) list \<Rightarrow> rt_mem \<Rightarrow> bool" where
  "freelist_rep r bs m \<longleftrightarrow>
     lseg m 0 (fl_head r) ((fl_head r, 0) # bs) 0 \<and> apart_nodes ((fl_head r, 0) # bs) \<and>
     m (fl_mutex r) = 0 \<and> fl_mutex r \<notin> set (concat (map cells ((fl_head r, 0) # bs))) \<and>
     (\<forall>b \<in> set bs. sizeof_FreeListNode \<le> snd b)"

definition freelist_cells :: "FreeListMemoryResource \<Rightarrow> (u64 \<times> u64) list \<Rightarrow> u64 set" where
  "freelist_cells r bs = insert (fl_mutex r) (set (concat (map cells ((fl_head r, 0) # bs))))"

lemma freelist_rep_agree:
  assumes "freelist_rep r bs m" "\<And>c. c \<in> freelist_cells r bs \<Longrightarrow> m' c = m c"
  shows "freelist_rep r bs m'"
proof -
  let ?L = "(fl_head r, 0) # bs"
  have "lseg m' 0 (fl_head r) ?L 0 = lseg m 0 (fl_head r) ?L 0"
    using assms(2) unfolding freelist_cells_def by (intro lseg_frame) auto
  then show ?thesis using assms unfolding freelist_rep_def freelist_cells_def by simp
qed

text \<open>
  Best fit on the abstract pool: a smallest block that is large enough leaves the pool, or null is
  returned and the pool is kept. A request of 0 bytes always fails: the sentinel, whose size is 0, is an
  exact match.
\<close>

definition best_fit :: "u64 \<Rightarrow> (u64 \<times> u64) list \<Rightarrow> u64 \<times> (u64 \<times> u64) list \<Rightarrow> bool" where
  "best_fit bytes bs res \<longleftrightarrow>
     (if bytes \<noteq> 0 \<and> (\<exists>b \<in> set bs. bytes \<le> snd b)
      then (\<exists>xs n ys. bs = xs @ (fst res, n) # ys \<and> snd res = xs @ ys \<and> bytes \<le> n \<and>
              (\<forall>b \<in> set bs. bytes \<le> snd b \<longrightarrow> n \<le> snd b))
      else res = (0, bs))"

lemma best_fit_cases:
  "best_fit bytes bs (p, bs') \<Longrightarrow> p = 0 \<and> bs' = bs \<or> (\<exists>xs n ys. bs = xs @ (p, n) # ys \<and> bs' = xs @ ys \<and> bytes \<le> n)"
  unfolding best_fit_def by (cases "bytes \<noteq> 0 \<and> (\<exists>b \<in> set bs. bytes \<le> snd b)") (simp, blast, simp)

lemma lseg_mutex: "mx \<notin> set (concat (map cells xs)) \<Longrightarrow> lseg (m(mx := v)) prev p xs q = lseg m prev p xs q"
  by (rule lseg_frame) auto

text \<open>Taking any block of the pool out of it keeps the representation.\<close>

lemma remove_rep:
  assumes "lseg m 0 (fl_head r) ((fl_head r, 0) # xs @ (a, n) # ys) 0"
    and "apart_nodes ((fl_head r, 0) # xs @ (a, n) # ys)"
  shows "lseg (removeBlockFromList a m) 0 (fl_head r) ((fl_head r, 0) # xs @ ys) 0"
    and "apart_nodes ((fl_head r, 0) # xs @ ys)"
proof -
  obtain zs b k where z: "(fl_head r, 0) # xs = zs @ [(b, k)]"
    by (metis list.distinct(1) rev_exhaust surj_pair)
  have e: "(fl_head r, 0) # xs @ l = zs @ (b, k) # l" for l
    using arg_cong [OF z, of "\<lambda>t. t @ l"] by simp
  show "lseg (removeBlockFromList a m) 0 (fl_head r) ((fl_head r, 0) # xs @ ys) 0"
    unfolding e by (rule remove_node) (use assms e in simp_all)
  show "apart_nodes ((fl_head r, 0) # xs @ ys)"
    using assms(2) by (auto simp: apart_nodes_append apart_nodes_Cons)
qed

text \<open>The search over the whole list, the sentinel included, is the abstract best fit.\<close>

lemma find_best_fit:
  assumes f: "find_result ((h, 0) # bs) bytes h 0xFFFFFFFFFFFFFFFF x" and h: "h \<notin> fst ` set bs"
    and nz: "0 \<notin> snd ` set bs"
  shows "if x = h then best_fit bytes bs (0, bs)
    else \<exists>xs n ys. bs = xs @ (x, n) # ys \<and> best_fit bytes bs (x, xs @ ys)"
proof (cases "bytes = 0")
  case True
  moreover have "(x, 0) \<notin> set bs" using nz by force
  ultimately have "x = h" using f by (auto simp: find_result_def)
  then show ?thesis using True by (simp add: best_fit_def)
next
  case False
  then have pos: "0 < bytes" by (simp add: word_neq_0_conv)
  have taken: "\<exists>xs n ys. bs = xs @ (x, n) # ys \<and> best_fit bytes bs (x, xs @ ys)"
    if "(x, n) \<in> set bs" "bytes \<le> n" "\<forall>b \<in> set bs. bytes \<le> snd b \<longrightarrow> n \<le> snd b" for n
  proof -
    from split_list [OF that(1)] obtain xs ys where bs: "bs = xs @ (x, n) # ys" by blast
    have "\<exists>b \<in> set bs. bytes \<le> snd b" using that(1,2) by force
    then have "best_fit bytes bs (x, xs @ ys)"
      using bs that(2,3) False unfolding best_fit_def by auto
    then show ?thesis using bs by blast
  qed
  have xh: "x \<noteq> h" if "(x, n) \<in> set bs" for n using that h by force
  from f pos consider (exact) "(x, bytes) \<in> set bs"
    | (none) "x = h" "\<forall>b \<in> set bs. snd b \<noteq> bytes"
        "\<forall>b \<in> set bs. bytes < snd b \<longrightarrow> 0xFFFFFFFFFFFFFFFF \<le> snd b - bytes"
    | (larger) n where "(x, n) \<in> set bs" "bytes < n" "\<forall>b \<in> set bs. snd b \<noteq> bytes"
        "\<forall>b \<in> set bs. bytes < snd b \<longrightarrow> n - bytes \<le> snd b - bytes"
    unfolding find_result_def by auto
  then show ?thesis
  proof cases
    case exact
    then show ?thesis using taken [of bytes] xh by auto
  next
    case none
    have "\<not> bytes \<le> snd b" if b: "b \<in> set bs" for b
    proof
      assume "bytes \<le> snd b"
      then have "bytes < snd b" using none(2) b by (metis order_le_less)
      then show False using none(3) b diff_less_max [OF pos, of "snd b"] by (meson leD)
    qed
    then show ?thesis using none(1) by (simp add: best_fit_def)
  next
    case larger
    have "\<forall>b \<in> set bs. bytes \<le> snd b \<longrightarrow> n \<le> snd b"
      using larger diff_le_iff [OF larger(2)] by (metis order_le_less)
    then show ?thesis using taken [of n] larger xh by auto
  qed
qed

text \<open>The block that the search returns leaves the list.\<close>

lemma allocate_takes:
  assumes "freelist_rep r (xs @ (x, n) # ys) m" "findBestMatchingBlock r bytes (m(fl_mutex r := 1)) = Some x"
  shows "freelist_allocate r bytes m = Some (x, (removeBlockFromList x (m(fl_mutex r := 1)))(fl_mutex r := 0))"
    "freelist_rep r (xs @ ys) ((removeBlockFromList x (m(fl_mutex r := 1)))(fl_mutex r := 0))"
proof -
  let ?h = "fl_head r" and ?mx = "fl_mutex r" and ?bs = "xs @ (x, n) # ys"
  let ?m1 = "m(?mx := 1)"
  let ?m2 = "removeBlockFromList x ?m1"
  have seg0: "lseg m 0 ?h ((?h, 0) # ?bs) 0" and ap: "apart_nodes ((?h, 0) # ?bs)"
    and mx: "m ?mx = 0" "?mx \<notin> set (concat (map cells ((?h, 0) # ?bs)))"
    and sz: "\<forall>b \<in> set ?bs. sizeof_FreeListNode \<le> snd b"
    using assms(1) unfolding freelist_rep_def by blast+
  have seg: "lseg ?m1 0 ?h ((?h, 0) # ?bs) 0" using lseg_mutex [OF mx(2)] seg0 by blast
  have lock: "InplaceMutex_lock ?mx m = Some ?m1" by (rule InplaceMutex_lock_free) (rule mx)
  have "x \<noteq> ?h" using ap by (auto simp: apart_nodes_Cons cells_def)
  moreover have "?m1 ?h \<noteq> 0" using seg by (cases xs) (auto split: prod.splits)
  ultimately show "freelist_allocate r bytes m = Some (x, ?m2(?mx := 0))"
    using lock assms(2) by (auto simp: freelist_allocate_def node_next_def InplaceMutex_unlock_def atomic_defs)
  note rem = remove_rep [OF seg ap]
  have mx': "?mx \<notin> set (concat (map cells ((?h, 0) # xs @ ys)))" using mx(2) by simp
  have "lseg (?m2(?mx := 0)) 0 ?h ((?h, 0) # xs @ ys) 0" using lseg_mutex [OF mx'] rem(1) by blast
  moreover have "(?m2(?mx := 0)) ?mx = 0" "\<forall>b \<in> set (xs @ ys). sizeof_FreeListNode \<le> snd b"
    using sz by simp_all
  ultimately show "freelist_rep r (xs @ ys) (?m2(?mx := 0))"
    unfolding freelist_rep_def using rem(2) mx' by blast
qed

text \<open>
  A block of exactly the requested size that is first in the list, right behind the sentinel, is what
  the search returns.
\<close>

lemma find_first_exact:
  assumes "lseg m 0 (fl_head r) ((fl_head r, 0) # (p, n) # bs) 0" "n \<noteq> 0"
  shows "findBestMatchingBlock r n m = Some p"
  using assms by (simp add: findBestMatchingBlock_def findBestMatchingBlock_from.simps [of m n "fl_head r"]
      findBestMatchingBlock_from.simps [of m n p] node_blockSize_def node_next_def)

lemma allocate_best_fit:
  assumes "freelist_rep r bs m"
  shows "\<exists>p m' bs'. freelist_allocate r bytes m = Some (p, m') \<and> best_fit bytes bs (p, bs') \<and>
    freelist_rep r bs' m' \<and> (\<forall>c. c \<notin> freelist_cells r bs \<longrightarrow> m' c = m c)"
proof -
  let ?h = "fl_head r" and ?mx = "fl_mutex r"
  let ?m1 = "m(?mx := 1)"
  have seg0: "lseg m 0 ?h ((?h, 0) # bs) 0" and ap: "apart_nodes ((?h, 0) # bs)"
    and mx: "m ?mx = 0" "?mx \<notin> set (concat (map cells ((?h, 0) # bs)))"
    and sz: "\<forall>b \<in> set bs. sizeof_FreeListNode \<le> snd b"
    using assms unfolding freelist_rep_def by blast+
  have seg: "lseg ?m1 0 ?h ((?h, 0) # bs) 0" using lseg_mutex [OF mx(2)] seg0 by blast
  have lock: "InplaceMutex_lock ?mx m = Some ?m1" by (rule InplaceMutex_lock_free) (rule mx)
  have keep: "freelist_rep r bs (?m1(?mx := 0))"
    using assms mx(1) by (simp add: fun_upd_idem)
  from findBest_terminates [OF seg, of bytes ?h "0xFFFFFFFFFFFFFFFF"] obtain x
    where x: "findBestMatchingBlock r bytes ?m1 = Some x"
      "find_result ((?h, 0) # bs) bytes ?h 0xFFFFFFFFFFFFFFFF x"
    by (auto simp: findBestMatchingBlock_def)
  have "?h \<notin> fst ` set bs" "0 \<notin> snd ` set bs"
    using ap sz by (auto simp: apart_nodes_Cons cells_def sizeof_FreeListNode_def)
  note fit = find_best_fit [OF x(2) this]
  show ?thesis
  proof (cases "?m1 ?h = 0 \<or> x = ?h")
    case True
    then have "freelist_allocate r bytes m = Some (0, ?m1(?mx := 0))"
      using lock x by (auto simp: freelist_allocate_def node_next_def InplaceMutex_unlock_def atomic_defs)
    moreover have "best_fit bytes bs (0, bs)"
    proof (cases "x = ?h")
      case False
      then have "bs = []" using True seg by (cases bs) (auto split: prod.splits)
      then show ?thesis by (simp add: best_fit_def)
    qed (use fit in simp)
    moreover have "\<forall>c. c \<notin> freelist_cells r bs \<longrightarrow> (?m1(?mx := 0)) c = m c" by (simp add: freelist_cells_def)
    ultimately show ?thesis using keep by blast
  next
    case False
    then obtain xs n ys where bs: "bs = xs @ (x, n) # ys" "best_fit bytes bs (x, xs @ ys)"
      using fit by auto
    let ?m2 = "removeBlockFromList x ?m1"
    have "freelist_rep r (xs @ ys) (?m2(?mx := 0))" "freelist_allocate r bytes m = Some (x, ?m2(?mx := 0))"
      using allocate_takes [OF assms [unfolded bs(1)] x(1)] by blast+
    moreover have "\<forall>c. c \<notin> freelist_cells r bs \<longrightarrow> (?m2(?mx := 0)) c = m c"
      using remove_frame [OF seg, of x n] bs(1) by (auto simp: freelist_cells_def)
    ultimately show ?thesis using bs(2) by blast
  qed
qed

lemma register_adds_block:
  assumes rep: "freelist_rep r bs m" and ap: "apart_nodes ((fl_head r, 0) # (p, n) # bs)"
    and mxp: "fl_mutex r \<notin> set (cells (p, n))" and p: "p \<noteq> 0" "sizeof_FreeListNode \<le> n" "p mod 8 = 0"
  shows "\<exists>m'. registerFreedBlock r p n m = Inr (Some m') \<and> freelist_rep r ((p, n) # bs) m' \<and>
    (\<forall>c. c \<notin> freelist_cells r ((p, n) # bs) \<longrightarrow> m' c = m c)"
proof -
  let ?h = "fl_head r" and ?mx = "fl_mutex r"
  let ?m1 = "m(?mx := 1)"
  have seg0: "lseg m 0 ?h ((?h, 0) # bs) 0"
    and mx: "m ?mx = 0" "?mx \<notin> set (concat (map cells ((?h, 0) # bs)))"
    and sz: "\<forall>b \<in> set bs. sizeof_FreeListNode \<le> snd b"
    using rep unfolding freelist_rep_def by blast+
  have seg: "lseg ?m1 0 ?h ((?h, 0) # bs) 0" using lseg_mutex [OF mx(2)] seg0 by blast
  let ?m2 = "addBlock r p n ?m1"
  have mx': "?mx \<notin> set (concat (map cells ((?h, 0) # (p, n) # bs)))" using mx(2) mxp by simp
  have "lseg (?m2(?mx := 0)) 0 ?h ((?h, 0) # (p, n) # bs) 0"
    using lseg_mutex [OF mx'] add_node [OF seg ap p(1)] by blast
  moreover have "(?m2(?mx := 0)) ?mx = 0" "\<forall>b \<in> set ((p, n) # bs). sizeof_FreeListNode \<le> snd b"
    using sz p(2) by simp_all
  ultimately have "freelist_rep r ((p, n) # bs) (?m2(?mx := 0))"
    unfolding freelist_rep_def using ap mx' by blast
  moreover have "\<forall>c. c \<notin> freelist_cells r ((p, n) # bs) \<longrightarrow> (?m2(?mx := 0)) c = m c"
    using add_frame [OF seg, of _ p n] by (auto simp: freelist_cells_def)
  moreover have "InplaceMutex_lock ?mx m = Some ?m1" by (rule InplaceMutex_lock_free) (rule mx)
  ultimately show ?thesis
    using p by (auto simp: registerFreedBlock_def InplaceMutex_unlock_def atomic_defs leD)
qed

text \<open>
  C5: the free list refines the abstract best-fit pool. On every memory that represents a pool,
  \<^verbatim>\<open>allocate\<close> returns (the lock is taken and the search loop ends), its result is the best fit for the
  request, and the memory afterwards represents the pool the best fit leaves, with the mutex free.
\<close>

theorem freelist_allocate_refines:
  assumes "freelist_rep r bs m"
  shows "\<exists>p m' bs'. freelist_allocate r bytes m = Some (p, m') \<and> best_fit bytes bs (p, bs') \<and>
    freelist_rep r bs' m'"
  using allocate_best_fit [OF assms, of bytes] by blast

text \<open>The representation of a pool with one block, for the witnesses.\<close>

definition example_freelist :: FreeListMemoryResource where
  "example_freelist = \<lparr>fl_head = 0x2008, fl_mutex = 0x2000\<rparr>"

definition example_pool :: rt_mem where
  "example_pool = (\<lambda>_. 0)(0x2008 := 0x3000, 0x3000 := 0x4000, 0x3008 := 0x2008, 0x3010 := 64,
     0x4008 := 0x3000, 0x4010 := 32)"

lemma example_pool_rep: "freelist_rep example_freelist [(0x3000, 64), (0x4000, 32)] example_pool"
  by (simp add: freelist_rep_def example_freelist_def example_pool_def apart_nodes_def cells_def
      sizeof_FreeListNode_def)

theorem freelist_allocate_refines_witness:
  "\<exists>m'. freelist_allocate example_freelist 24 example_pool = Some (0x4000, m') \<and>
     freelist_rep example_freelist [(0x3000, 64)] m'"
proof -
  have split: "bs' = [(0x3000, 64)] \<and> p = 0x4000"
    if "best_fit 24 [(0x3000, 64), (0x4000, 32)] (p, bs')" for p bs'
    using that by (auto simp: best_fit_def Cons_eq_append_conv)
  from freelist_allocate_refines [OF example_pool_rep, of 24] show ?thesis using split by blast
qed

text \<open>
  C6: what is freed can be allocated again. Freeing an aligned block of at least 24 bytes, which
  overlaps no node of the pool, returns and adds it to the pool; the next request of its size
  returns that block, also when the pool has other blocks of that size, and leaves the pool as before.
\<close>

theorem freelist_free_then_reuse:
  assumes "freelist_rep r bs m" "apart_nodes ((fl_head r, 0) # (p, n) # bs)"
    and "fl_mutex r \<notin> set (cells (p, n))" "p \<noteq> 0" "sizeof_FreeListNode \<le> n" "p mod 8 = 0"
  shows "\<exists>m' m''. freelist_deallocate r p n m = Inr (Some m') \<and> freelist_rep r ((p, n) # bs) m' \<and>
    freelist_allocate r n m' = Some (p, m'') \<and> freelist_rep r bs m''"
proof -
  from register_adds_block [OF assms] obtain m'
    where m': "freelist_deallocate r p n m = Inr (Some m')" "freelist_rep r ((p, n) # bs) m'"
    by (auto simp: freelist_deallocate_def)
  have "lseg (m'(fl_mutex r := 1)) 0 (fl_head r) ((fl_head r, 0) # (p, n) # bs) 0"
    using m'(2) lseg_mutex unfolding freelist_rep_def by blast
  moreover have "n \<noteq> 0" using assms(5) by (auto simp: sizeof_FreeListNode_def)
  ultimately have "findBestMatchingBlock r n (m'(fl_mutex r := 1)) = Some p" by (rule find_first_exact)
  then show ?thesis using m' allocate_takes [of r "[]" p n bs m' n] by auto
qed

theorem freelist_free_then_reuse_witness:
  "\<exists>m' m''. freelist_deallocate example_freelist 0x5000 64 example_pool = Inr (Some m') \<and>
     freelist_allocate example_freelist 64 m' = Some (0x5000, m'') \<and>
     freelist_rep example_freelist [(0x3000, 64), (0x4000, 32)] m''"
proof -
  have "apart_nodes ((fl_head example_freelist, 0) # (0x5000, 64) # [(0x3000, 64), (0x4000, 32)])"
    "fl_mutex example_freelist \<notin> set (cells (0x5000, 64))" "(0x5000 :: u64) \<noteq> 0" "sizeof_FreeListNode \<le> 64"
    "(0x5000 :: u64) mod 8 = 0"
    by (simp_all add: example_freelist_def apart_nodes_def cells_def sizeof_FreeListNode_def)
  from freelist_free_then_reuse [OF example_pool_rep this] show ?thesis by blast
qed

text \<open>The constructor establishes the empty pool, its control cells inside the buffer.\<close>

lemma FreeListMemoryResource_new_rep:
  assumes new: "FreeListMemoryResource_new start bytes m = Inr (r, m')"
    and s: "start \<noteq> 0" and fits: "unat start + unat bytes < 2 ^ 64"
  shows "freelist_rep r [] m'" "unat start \<le> unat (fl_mutex r)"
    "unat (fl_mutex r) + 8 \<le> unat (fl_head r)" "unat (fl_head r) + 24 \<le> unat start + unat bytes"
    "\<And>c. c \<notin> freelist_cells r [] \<Longrightarrow> m' c = m c"
proof -
  obtain a q sp where a1: "align 8 8 start bytes = (a, q, sp)" by (metis prod_cases3)
  then have a0: "a \<noteq> 0" using new by (auto simp: FreeListMemoryResource_new_def)
  have s1: "unat start \<le> unat a \<and> 8 \<le> unat sp \<and> unat a + unat sp = unat start + unat bytes"
    using align_success [OF _ _ s fits a1 a0, of 3] by simp
  have q: "unat (a + 8) = unat a + 8" using s1 fits by (subst unat_add_no_wrap) simp_all
  have sp: "unat (sp - 8) = unat sp - 8" using s1 by (simp add: unat_sub_no_wrap)
  obtain b q2 sp2 where a2: "align 8 24 (a + 8) (sp - 8) = (b, q2, sp2)" by (metis prod_cases3)
  then have b0: "b \<noteq> 0"
    using new a1 a0 by (auto simp: FreeListMemoryResource_new_def sizeof_FreeListNode_def Let_def split: if_splits)
  have nz: "a + 8 \<noteq> 0" using q by (metis add_is_0 unat_0 zero_neq_numeral)
  have f2: "unat (a + 8) + unat (sp - 8) < 2 ^ 64" using q sp s1 fits by linarith
  have s2: "unat (a + 8) \<le> unat b \<and> 24 \<le> unat sp2 \<and> unat b + unat sp2 = unat (a + 8) + unat (sp - 8)"
    using align_success [OF _ _ nz f2 a2 b0, of 3] by simp
  have r: "r = \<lparr>fl_head = b, fl_mutex = a\<rparr>" and m': "m' = m(b := 0, b + 8 := 0, b + 16 := 0, a := 0)"
    using new a1 a2 a0 b0 by (auto simp: FreeListMemoryResource_new_def sizeof_FreeListNode_def
        InplaceMutex_initialize_def atomicStore_def Let_def split: if_splits)
  have u: "unat (b + 8) = unat b + 8" "unat (b + 16) = unat b + 16"
    using s2 q sp s1 fits by (subst unat_add_no_wrap, simp, simp)+
  have "a \<noteq> b" "a \<noteq> b + 8" "a \<noteq> b + 16" "b \<noteq> b + 8" "b \<noteq> b + 16" "b + 8 \<noteq> b + 16"
    using u s2 q by auto
  then show "freelist_rep r [] m'" using b0 by (simp add: freelist_rep_def r m' apart_nodes_def cells_def)
  show "unat start \<le> unat (fl_mutex r)" "unat (fl_mutex r) + 8 \<le> unat (fl_head r)"
    "unat (fl_head r) + 24 \<le> unat start + unat bytes"
    using r s1 s2 q sp by simp_all
  show "m' c = m c" if "c \<notin> freelist_cells r []" for c using that by (simp add: r m' freelist_cells_def cells_def)
qed

end
