(* ===== verification/Slab_Resource.thy ===== *)
theory Slab_Resource
  imports Rt_Align Rt_Atomics Rt_Status "HOL-Library.Signed_Division"
begin

unbundle bit_operations_syntax

text \<open>
  \<^verbatim>\<open>SlabMemoryResource<slabSize>\<close> (\<^verbatim>\<open>pando-rt/memory/slab_memory_resource.hpp\<close>): fixed-size slabs behind a
  header of bitmaps, over the explicit memory. The template argument is a field of the record, since
  the resources of different slab sizes are chained together.

  The compare-and-exchange loops are partial functions: with no other thread running they end at the
  first attempt, which is proved. The pointer of a bitmap and of a slab is computed in units of the
  8-byte bitmap type, as the code does.
\<close>

record SlabMemoryResource =
  sl_slabSize :: u64
  sl_buffer :: u64
  sl_numUserSlabs :: u64
  sl_capacity :: u64
  sl_numBitmapSlabs :: u64
  sl_numBitmaps :: u64
  sl_initState :: u64

datatype InitializationState = Initialized | InProgress | Uninitialized

fun InitializationState_value :: "InitializationState \<Rightarrow> u64" where
  "InitializationState_value Initialized = 0"
| "InitializationState_value InProgress = 1"
| "InitializationState_value Uninitialized = 2"

definition bitmapBits :: u64 where "bitmapBits = 64"
definition fullBitmap :: u64 where "fullBitmap = 0xFFFFFFFFFFFFFFFF"
definition emptyBitmap :: u64 where "emptyBitmap = 0"
definition numLockSlabs :: u64 where "numLockSlabs = 1"

definition nextMultipleOf :: "u64 \<Rightarrow> u64 \<Rightarrow> u64" where
  "nextMultipleOf value multiple = (value + multiple - 1) div multiple"

definition SlabMemoryResource_new ::
  "u64 \<Rightarrow> u64 \<Rightarrow> u64 \<Rightarrow> rt_mem \<Rightarrow> (SlabMemoryResource \<times> rt_mem) or_abort" where
  "SlabMemoryResource_new slabSize bufferStart bufferSize m =
     (if bufferStart mod slabSize \<noteq> 0
      then Inl (PANDO_ABORT ''SlabMemoryResource must be aligned to slabSize boundary'')
      else
        let totalNumSlabs = bufferSize div slabSize in
        if totalNumSlabs < numLockSlabs + 2 then Inl (PANDO_ABORT ''Insufficient number of slabs'')
        else
          let bitmapsPerSlab = slabSize div 8;
              totalNumSlabs = totalNumSlabs - numLockSlabs;
              initializationState = bufferStart;
              m' = atomicStore initializationState (InitializationState_value Uninitialized) m;
              lockSlabBytes = slabSize * numLockSlabs;
              buffer = bufferStart + 8 * (lockSlabBytes div 8);
              bufferSize = bufferSize - lockSlabBytes;
              numUserSlabs = (totalNumSlabs * bitmapBits * bitmapsPerSlab) div (bitmapBits * bitmapsPerSlab + 1);
              numBitmapSlabs = totalNumSlabs - numUserSlabs;
              headerBytes = numBitmapSlabs * slabSize
          in Inr (\<lparr>sl_slabSize = slabSize, sl_buffer = buffer, sl_numUserSlabs = numUserSlabs,
                   sl_capacity = bufferSize - headerBytes, sl_numBitmapSlabs = numBitmapSlabs,
                   sl_numBitmaps = nextMultipleOf numUserSlabs bitmapBits,
                   sl_initState = initializationState\<rparr>, m'))"

definition getUserRegionStart :: "SlabMemoryResource \<Rightarrow> u64" where
  "getUserRegionStart r = sl_buffer r + 8 * (sl_numBitmapSlabs r * sl_slabSize r div 8)"

definition bitmap_ptr :: "SlabMemoryResource \<Rightarrow> u64 \<Rightarrow> u64" where
  "bitmap_ptr r i = sl_buffer r + 8 * i"

definition isUninitialized :: "SlabMemoryResource \<Rightarrow> rt_mem \<Rightarrow> bool" where
  "isUninitialized r m \<longleftrightarrow> atomicLoad (sl_initState r) m \<noteq> InitializationState_value Initialized"

text \<open>\<open>fill_bitmaps r i n v\<close> stores \<open>v\<close> in the \<open>n\<close> bitmaps from index \<open>i\<close> on.\<close>

fun fill_bitmaps :: "SlabMemoryResource \<Rightarrow> nat \<Rightarrow> nat \<Rightarrow> u64 \<Rightarrow> rt_mem \<Rightarrow> rt_mem" where
  "fill_bitmaps r i 0 v m = m"
| "fill_bitmaps r i (Suc n) v m = fill_bitmaps r (Suc i) n v (m(bitmap_ptr r (word_of_nat i) := v))"

partial_function (option) spin_until_initialized :: "SlabMemoryResource \<Rightarrow> rt_mem \<Rightarrow> rt_mem option" where
  "spin_until_initialized r m = (if isUninitialized r m then spin_until_initialized r m else Some m)"

definition initializeControlSlabs :: "SlabMemoryResource \<Rightarrow> rt_mem \<Rightarrow> rt_mem option" where
  "initializeControlSlabs r m =
     (let expected = InitializationState_value Uninitialized;
          desired = InitializationState_value InProgress
      in case atomicCompareExchange (sl_initState r) expected desired m of
        (True, _, m1) \<Rightarrow>
          let headerBytes = sl_numBitmapSlabs r * sl_slabSize r;
              headerBitmaps = headerBytes div 8;
              m2 = fill_bitmaps r 0 (unat (sl_numBitmaps r)) emptyBitmap m1;
              m3 = fill_bitmaps r (unat (sl_numBitmaps r))
                     (unat headerBitmaps - unat (sl_numBitmaps r)) fullBitmap m2;
              lastUsableBits = sl_numUserSlabs r mod bitmapBits;
              m4 = (if lastUsableBits \<noteq> 0
                    then m3(bitmap_ptr r (sl_numBitmaps r - 1) := NOT (push_bit (unat lastUsableBits) 1 - 1))
                    else m3)
          in Some (atomicStore (sl_initState r) (InitializationState_value Initialized) m4)
      | (False, _, m1) \<Rightarrow> spin_until_initialized r m1)"

text \<open>\<^verbatim>\<open>__builtin_ffsll\<close>: one plus the index of the least set bit, 0 for 0.\<close>

definition builtin_ffsll :: "u64 \<Rightarrow> nat" where
  "builtin_ffsll x = (case find (bit x) [0..<64] of None \<Rightarrow> 0 | Some i \<Rightarrow> Suc i)"

partial_function (option) slab_try_bitmap ::
  "SlabMemoryResource \<Rightarrow> u64 \<Rightarrow> u64 \<Rightarrow> rt_mem \<Rightarrow> (u64 option \<times> rt_mem) option" where
  "slab_try_bitmap r i expected m =
     (if expected = fullBitmap then Some (None, m)
      else
        let emptySlot = builtin_ffsll (NOT expected) - 1;
            slabMask = push_bit emptySlot 1;
            desired = expected OR slabMask
        in case atomicCompareExchange (bitmap_ptr r i) expected desired m of
             (success, expected', m') \<Rightarrow>
               if success then
                 let slabOffset = (word_of_nat emptySlot + i * bitmapBits) * sl_slabSize r
                 in Some (Some (getUserRegionStart r + 8 * (slabOffset div 8)), m')
               else slab_try_bitmap r i expected' m')"

text \<open>The loop over the bitmaps from index \<open>i\<close>, \<open>n\<close> of which are left.\<close>

fun slab_scan :: "SlabMemoryResource \<Rightarrow> nat \<Rightarrow> nat \<Rightarrow> rt_mem \<Rightarrow> (u64 \<times> rt_mem) option" where
  "slab_scan r i 0 m = Some (0, m)"
| "slab_scan r i (Suc n) m =
     (case slab_try_bitmap r (word_of_nat i) (atomicLoad (bitmap_ptr r (word_of_nat i)) m) m of
        None \<Rightarrow> None
      | Some (Some p, m') \<Rightarrow> Some (p, m')
      | Some (None, m') \<Rightarrow> slab_scan r (Suc i) n m')"

definition slab_allocate :: "SlabMemoryResource \<Rightarrow> u64 \<Rightarrow> rt_mem \<Rightarrow> (u64 \<times> rt_mem) option" where
  "slab_allocate r bytes m =
     (case (if isUninitialized r m then initializeControlSlabs r m else Some m) of
        None \<Rightarrow> None
      | Some m1 \<Rightarrow>
          if bytes > sl_slabSize r then Some (0, m1)
          else slab_scan r 0 (unat (sl_numBitmaps r)) m1)"

definition slab_pointerIsOwned :: "SlabMemoryResource \<Rightarrow> u64 \<Rightarrow> bool" where
  "slab_pointerIsOwned r p \<longleftrightarrow> p \<ge> sl_buffer r \<and> p < sl_buffer r + 8 * sl_capacity r"

partial_function (option) slab_clear :: "u64 \<Rightarrow> u64 \<Rightarrow> u64 \<Rightarrow> rt_mem \<Rightarrow> rt_mem option" where
  "slab_clear bitmap slabMask expected m =
     (case atomicCompareExchange bitmap expected (expected AND slabMask) m of
        (success, expected', m') \<Rightarrow> if success then Some m' else slab_clear bitmap slabMask expected' m')"

definition slab_deallocate :: "SlabMemoryResource \<Rightarrow> u64 \<Rightarrow> rt_mem \<Rightarrow> rt_mem option" where
  "slab_deallocate r p m =
     (if p = 0 \<or> \<not> slab_pointerIsOwned r p then Some m
      else
        let offset = (p - getUserRegionStart r) div 8;
            slabIndex = offset * 8 div sl_slabSize r;
            bitmapIndex = word_of_int (sint slabIndex sdiv 64);
            bmapRank = word_of_int (sint slabIndex smod 64) :: u64;
            bitmap = bitmap_ptr r bitmapIndex;
            expected = atomicLoad bitmap m;
            slabMask = NOT (push_bit (unat bmapRank) 1)
        in slab_clear bitmap slabMask expected m)"

definition slab_bytesCapacity :: "SlabMemoryResource \<Rightarrow> u64" where
  "slab_bytesCapacity r = sl_capacity r"

subsection \<open>Bits of a bitmap\<close>

lemma full_iff: "x = fullBitmap \<longleftrightarrow> (\<forall>j<64. bit x j)"
proof -
  have m1: "fullBitmap = - 1" by (simp add: fullBitmap_def)
  have "bit fullBitmap j \<longleftrightarrow> j < 64" for j unfolding m1 by (simp add: bit_minus_1_iff)
  then show ?thesis by (auto intro!: bit_word_eqI)
qed

lemma ffsll_not:
  assumes "x \<noteq> fullBitmap"
  obtains e where "builtin_ffsll (NOT x) = Suc e" "e < 64" "\<not> bit x e" "\<forall>j<e. bit x j"
proof -
  have "find (bit (NOT x)) [0..<64] \<noteq> None"
    using assms by (auto simp: find_None_iff full_iff bit_not_iff)
  then obtain e where e: "find (bit (NOT x)) [0..<64] = Some e" by auto
  then have "e < 64 \<and> bit (NOT x) e \<and> (\<forall>j<e. \<not> bit (NOT x) j)"
    by (fastforce simp: find_Some_iff)
  then have "e < 64" "\<not> bit x e" "\<forall>j<e. bit x j" by (auto simp: bit_not_iff)
  with e show ?thesis by (intro that [of e]) (simp_all add: builtin_ffsll_def)
qed

lemma bit_set_slot: "e < 64 \<Longrightarrow> bit ((x :: u64) OR 2 ^ e) j \<longleftrightarrow> bit x j \<or> j = e"
  by (auto simp: bit_or_iff bit_exp_iff)

lemma bit_clear_slot: "bit ((x :: u64) AND NOT (2 ^ e)) j \<longleftrightarrow> bit x j \<and> j \<noteq> e"
  using bit_imp_le_length [of x j] by (auto simp: bit_and_iff bit_not_iff bit_exp_iff)

lemma slab_try_bitmap_solo:
  assumes "m (bitmap_ptr r i) = x"
  shows "slab_try_bitmap r i x m =
    (if x = fullBitmap then Some (None, m)
     else let e = builtin_ffsll (NOT x) - 1 in
       Some (Some (getUserRegionStart r + 8 * ((word_of_nat e + i * bitmapBits) * sl_slabSize r div 8)),
             m(bitmap_ptr r i := x OR push_bit e 1)))"
  using assms by (subst slab_try_bitmap.simps) (simp add: atomic_defs Let_def)

lemma slab_clear_solo: "m b = x \<Longrightarrow> slab_clear b k x m = Some (m(b := x AND k))"
  by (subst slab_clear.simps) (simp add: atomic_defs)

subsection \<open>Geometry\<close>

text \<open>
  The constants of a constructed resource: the bitmaps fit in the header, and the lock slab, the header
  and the user slabs follow each other without wrapping around.
\<close>

definition slab_ok :: "SlabMemoryResource \<Rightarrow> bool" where
  "slab_ok r \<longleftrightarrow>
     (let s = unat (sl_slabSize r); H = unat (sl_numBitmapSlabs r); U = unat (sl_numUserSlabs r) in
      8 dvd s \<and> 0 < s \<and> 0 < H \<and> H \<le> U \<and> U \<le> 8 * H * s \<and>
      unat (sl_numBitmaps r) = (U + 63) div 64 \<and>
      sl_initState r \<noteq> 0 \<and> unat (sl_initState r) + s = unat (sl_buffer r) \<and>
      U * s \<le> unat (sl_capacity r) \<and>
      unat (sl_buffer r) + H * s + 8 * unat (sl_capacity r) < 2 ^ 64)"

text \<open>Slab \<open>k\<close>: its address, its bytes, its bit.\<close>

definition slab_addr :: "SlabMemoryResource \<Rightarrow> nat \<Rightarrow> nat" where
  "slab_addr r k =
     unat (sl_buffer r) + unat (sl_numBitmapSlabs r) * unat (sl_slabSize r) + k * unat (sl_slabSize r)"

definition slab_bytes :: "SlabMemoryResource \<Rightarrow> nat \<Rightarrow> nat set" where
  "slab_bytes r k = {slab_addr r k ..< slab_addr r k + unat (sl_slabSize r)}"

definition slab_bit :: "SlabMemoryResource \<Rightarrow> rt_mem \<Rightarrow> nat \<Rightarrow> bool" where
  "slab_bit r m k = bit (m (bitmap_ptr r (word_of_nat (k div 64)))) (k mod 64)"

abbreviation slS :: "SlabMemoryResource \<Rightarrow> nat" where "slS r \<equiv> unat (sl_slabSize r)"
abbreviation slH :: "SlabMemoryResource \<Rightarrow> nat" where "slH r \<equiv> unat (sl_numBitmapSlabs r)"
abbreviation slU :: "SlabMemoryResource \<Rightarrow> nat" where "slU r \<equiv> unat (sl_numUserSlabs r)"
abbreviation slN :: "SlabMemoryResource \<Rightarrow> nat" where "slN r \<equiv> unat (sl_numBitmaps r)"
abbreviation slB :: "SlabMemoryResource \<Rightarrow> nat" where "slB r \<equiv> slH r * slS r div 8"

lemma slab_geo:
  assumes "slab_ok r"
  shows "8 dvd slS r" "0 < slS r" "0 < slH r" "slU r \<le> 8 * slH r * slS r"
    "slN r = (slU r + 63) div 64" "sl_initState r \<noteq> 0"
    "unat (sl_initState r) + slS r = unat (sl_buffer r)" "slU r * slS r \<le> unat (sl_capacity r)"
    "unat (sl_buffer r) + slH r * slS r + 8 * unat (sl_capacity r) < 2 ^ 64"
    "slH r \<le> slU r"
  using assms by (auto simp: slab_ok_def Let_def)

lemma header_bytes: "slab_ok r \<Longrightarrow> unat (sl_numBitmapSlabs r * sl_slabSize r) = slH r * slS r"
  by (rule unat_mult_no_wrap) (use slab_geo(9) in fastforce)

lemma eight_times_div:
  assumes "8 dvd unat (x :: u64)"
  shows "8 * (x div 8) = x"
proof -
  have "unat (8 * (x div 8)) = 8 * (unat x div 8)"
    by (subst unat_mult_no_wrap) (simp_all add: unat_div, use unat_lt_2p64 [of x] in linarith)
  then show ?thesis using assms by (simp add: u64_eq_iff_unat)
qed

lemma user_region_start:
  assumes "slab_ok r"
  shows "unat (getUserRegionStart r) = unat (sl_buffer r) + slH r * slS r"
proof -
  note geo = slab_geo [OF assms]
  have "8 * (sl_numBitmapSlabs r * sl_slabSize r div 8) = sl_numBitmapSlabs r * sl_slabSize r"
    using geo(1) by (intro eight_times_div) (simp add: header_bytes [OF assms])
  then show ?thesis
    unfolding getUserRegionStart_def using geo(9)
    by (simp add: unat_add_no_wrap header_bytes [OF assms])
qed

lemma header_bitmaps:
  assumes "slab_ok r"
  shows "slN r \<le> slB r" "8 * slB r = slH r * slS r"
proof -
  note geo = slab_geo [OF assms]
  have "8 dvd slH r * slS r" using geo(1) by simp
  then show e: "8 * slB r = slH r * slS r" by simp
  have "slU r \<le> 64 * slB r" using geo(4) e by simp
  then have "(slU r + 63) div 64 \<le> (64 * slB r + 63) div 64" by (intro div_le_mono) simp
  then show "slN r \<le> slB r" using geo(5) by simp
qed

lemma unat_bitmap_ptr:
  assumes "slab_ok r" "i < slB r"
  shows "unat (bitmap_ptr r (word_of_nat i)) = unat (sl_buffer r) + 8 * i"
proof -
  note geo = slab_geo [OF assms(1)]
  have i: "8 * i < slH r * slS r" using assms(2) header_bitmaps(2) [OF assms(1)] by linarith
  then have "i < 2 ^ 64" "8 * i < 2 ^ 64" using geo(9) by linarith+
  then have "unat (8 * word_of_nat i :: u64) = 8 * i" by (subst unat_mult_no_wrap) simp_all
  then show ?thesis
    unfolding bitmap_ptr_def using geo(9) i by (subst unat_add_no_wrap) simp_all
qed

lemma bitmap_ptr_eq_iff:
  assumes "slab_ok r" "i < slB r" "j < slB r"
  shows "bitmap_ptr r (word_of_nat i) = bitmap_ptr r (word_of_nat j) \<longleftrightarrow> i = j"
  using unat_bitmap_ptr assms by (simp add: u64_eq_iff_unat)

lemma bitmap_ptr_not_state:
  assumes "slab_ok r" "i < slB r"
  shows "bitmap_ptr r (word_of_nat i) \<noteq> sl_initState r"
  using unat_bitmap_ptr [OF assms] slab_geo(2,7) [OF assms(1)] by auto

lemma slab_index_bitmap:
  assumes "slab_ok r" "k < 64 * slN r"
  shows "k div 64 < slB r"
  using assms header_bitmaps(1) [OF assms(1)] by linarith

lemma user_slab_bitmap: "slab_ok r \<Longrightarrow> k < slU r \<Longrightarrow> k < 64 * slN r"
  using slab_geo(5) [of r] by linarith

lemma slab_bit_update:
  assumes "slab_ok r" "k < 64 * slN r" "j < 64 * slN r"
    and "\<And>b. bit v b \<longleftrightarrow> (if b = k mod 64 then x else bit (m (bitmap_ptr r (word_of_nat (k div 64)))) b)"
  shows "slab_bit r (m(bitmap_ptr r (word_of_nat (k div 64)) := v)) j \<longleftrightarrow>
    (if j = k then x else slab_bit r m j)"
proof -
  have "k div 64 < slB r" "j div 64 < slB r" using slab_index_bitmap assms by blast+
  then have "bitmap_ptr r (word_of_nat (j div 64)) = bitmap_ptr r (word_of_nat (k div 64)) \<longleftrightarrow> j div 64 = k div 64"
    by (rule bitmap_ptr_eq_iff [OF assms(1), rotated])
  moreover have "j div 64 = k div 64 \<and> j mod 64 = k mod 64 \<longleftrightarrow> j = k"
    by (metis div_mult_mod_eq)
  ultimately show ?thesis using assms(4) by (auto simp: slab_bit_def)
qed

lemma unat_slab_ptr:
  assumes "slab_ok r" "k < slU r"
  shows "unat (getUserRegionStart r + 8 * (word_of_nat k * sl_slabSize r div 8)) = slab_addr r k"
proof -
  note geo = slab_geo [OF assms(1)]
  have "k * slS r + slS r \<le> slU r * slS r" using assms(2) by (metis Suc_leI add.commute mult_Suc mult_le_mono1)
  then have lt: "k * slS r < unat (sl_capacity r)" using geo(2,8) by linarith
  have "k < 2 ^ 64" using order.strict_trans [OF assms(2) unat_lt_2p64] by simp
  then have k: "unat (word_of_nat k * sl_slabSize r) = k * slS r"
    using order.strict_trans [OF lt unat_lt_2p64] by (subst unat_mult_no_wrap) simp_all
  then have e: "8 * (word_of_nat k * sl_slabSize r div 8) = word_of_nat k * sl_slabSize r"
    using geo(1) by (intro eight_times_div) simp
  show ?thesis
    unfolding e using lt geo(9) user_region_start [OF assms(1)]
    by (subst unat_add_no_wrap) (simp_all add: k slab_addr_def)
qed

subsection \<open>Allocation\<close>

definition slab_ptr :: "SlabMemoryResource \<Rightarrow> nat \<Rightarrow> u64" where
  "slab_ptr r k = getUserRegionStart r + 8 * (word_of_nat k * sl_slabSize r div 8)"

definition set_slab :: "SlabMemoryResource \<Rightarrow> nat \<Rightarrow> rt_mem \<Rightarrow> rt_mem" where
  "set_slab r k m =
     (let b = bitmap_ptr r (word_of_nat (k div 64)) in m(b := m b OR push_bit (k mod 64) 1))"

definition clear_slab :: "SlabMemoryResource \<Rightarrow> nat \<Rightarrow> rt_mem \<Rightarrow> rt_mem" where
  "clear_slab r k m =
     (let b = bitmap_ptr r (word_of_nat (k div 64)) in m(b := m b AND NOT (push_bit (k mod 64) 1)))"

lemma slab_bit_set_slab:
  assumes "slab_ok r" "k < 64 * slN r" "j < 64 * slN r"
  shows "slab_bit r (set_slab r k m) j \<longleftrightarrow> slab_bit r m j \<or> j = k"
  unfolding set_slab_def Let_def
  by (subst slab_bit_update [OF assms, where x = True]) (auto simp: bit_set_slot)

lemma slab_bit_clear_slab:
  assumes "slab_ok r" "k < 64 * slN r" "j < 64 * slN r"
  shows "slab_bit r (clear_slab r k m) j \<longleftrightarrow> slab_bit r m j \<and> j \<noteq> k"
  unfolding clear_slab_def Let_def
  by (subst slab_bit_update [OF assms, where x = False]) (auto simp: bit_clear_slot)

text \<open>The scan takes the first clear bit at or after its starting bitmap.\<close>

lemma slab_scan_full:
  assumes "\<forall>k. 64 * i \<le> k \<and> k < 64 * (i + n) \<longrightarrow> slab_bit r m k"
  shows "slab_scan r i n m = Some (0, m)"
  using assms
proof (induction n arbitrary: i)
  case (Suc n)
  have "m (bitmap_ptr r (word_of_nat i)) = fullBitmap"
  proof (unfold full_iff, intro allI impI)
    fix j :: nat
    assume "j < 64"
    then show "bit (m (bitmap_ptr r (word_of_nat i))) j"
      using Suc.prems [rule_format, of "64 * i + j"] by (simp add: slab_bit_def)
  qed
  moreover have "slab_scan r (Suc i) n m = Some (0, m)" using Suc.prems by (intro Suc.IH) simp
  ultimately show ?case by (simp add: atomicLoad_def slab_try_bitmap_solo)
qed simp

lemma slab_scan_first:
  assumes "64 * i \<le> k" "k < 64 * (i + n)" "\<not> slab_bit r m k"
    and "\<forall>j. 64 * i \<le> j \<and> j < k \<longrightarrow> slab_bit r m j"
  shows "slab_scan r i n m = Some (slab_ptr r k, set_slab r k m)"
  using assms
proof (induction n arbitrary: i)
  case (Suc n)
  let ?x = "m (bitmap_ptr r (word_of_nat i))"
  show ?case
  proof (cases "?x = fullBitmap")
    case True
    have "64 * Suc i \<le> k"
    proof (rule ccontr)
      assume "\<not> 64 * Suc i \<le> k"
      then have "k div 64 = i" "k mod 64 < 64" using Suc.prems(1) by simp_all
      then show False using True Suc.prems(3) by (simp add: slab_bit_def full_iff)
    qed
    then have "slab_scan r (Suc i) n m = Some (slab_ptr r k, set_slab r k m)"
      using Suc.prems by (intro Suc.IH) auto
    with True show ?thesis by (simp add: atomicLoad_def slab_try_bitmap_solo)
  next
    case False
    then obtain e where e: "builtin_ffsll (NOT ?x) = Suc e" "e < 64" "\<not> bit ?x e" "\<forall>j<e. bit ?x j"
      by (rule ffsll_not)
    have "\<not> slab_bit r m (64 * i + e)" using e by (simp add: slab_bit_def)
    then have le: "k \<le> 64 * i + e" using Suc.prems(4) by (metis le_add1 not_le)
    then have d: "k div 64 = i" using Suc.prems(1) e(2) by simp
    have "k mod 64 = e"
    proof (rule ccontr)
      assume "k mod 64 \<noteq> e"
      then have "k mod 64 < e" using le d by (metis add_le_cancel_left le_neq_implies_less mult_div_mod_eq)
      then show False using e(4) Suc.prems(3) d by (simp add: slab_bit_def)
    qed
    then have k: "k = 64 * i + e" using d by (metis mult_div_mod_eq)
    then have "(word_of_nat e + word_of_nat i * bitmapBits :: u64) = word_of_nat k"
      by (simp add: bitmapBits_def)
    with False d e(1) k show ?thesis
      by (simp add: atomicLoad_def slab_try_bitmap_solo slab_ptr_def set_slab_def Let_def e(2) add.commute fun_upd_def)
  qed
qed simp

subsection \<open>Initialization\<close>

lemma fill_bitmaps_other:
  "(\<And>j. i \<le> j \<Longrightarrow> j < i + n \<Longrightarrow> a \<noteq> bitmap_ptr r (word_of_nat j)) \<Longrightarrow> fill_bitmaps r i n v m a = m a"
  by (induction n arbitrary: i m) auto

lemma fill_bitmaps_at:
  assumes "slab_ok r" "i + n \<le> slB r" "i \<le> j" "j < i + n"
  shows "fill_bitmaps r i n v m (bitmap_ptr r (word_of_nat j)) = v"
  using assms(2-4)
proof (induction n arbitrary: i m)
  case (Suc n)
  show ?case
  proof (cases "j = i")
    case True
    then have "fill_bitmaps r (Suc i) n v (m(bitmap_ptr r (word_of_nat i) := v)) (bitmap_ptr r (word_of_nat i)) = v"
      using Suc.prems by (subst fill_bitmaps_other) (auto simp: bitmap_ptr_eq_iff [OF assms(1)])
    with True show ?thesis by simp
  qed (use Suc in auto)
qed simp

lemma bit_tail_mask:
  assumes "k < 64"
  shows "bit (NOT (push_bit k 1 - 1) :: u64) j \<longleftrightarrow> k \<le> j \<and> j < 64"
proof -
  have "push_bit k 1 - 1 = (mask k :: u64)" by (simp add: mask_eq_decr_exp)
  then show ?thesis by (auto simp: bit_not_iff bit_mask_iff)
qed

text \<open>The memory after the header has been written by the initializing thread.\<close>

definition header_mem :: "SlabMemoryResource \<Rightarrow> rt_mem \<Rightarrow> rt_mem" where
  "header_mem r m =
     fill_bitmaps r (slN r) (slB r - slN r) fullBitmap
       (fill_bitmaps r 0 (slN r) emptyBitmap (m(sl_initState r := 1)))"

definition initialized_mem :: "SlabMemoryResource \<Rightarrow> rt_mem \<Rightarrow> rt_mem" where
  "initialized_mem r m =
     (if slU r mod 64 \<noteq> 0
      then (header_mem r m)(bitmap_ptr r (word_of_nat (slN r - 1)) := NOT (push_bit (slU r mod 64) 1 - 1))
      else header_mem r m)(sl_initState r := 0)"

lemma ceil_div_64:
  "((u :: nat) + 63) div 64 = (if u mod 64 = 0 then u div 64 else u div 64 + 1)"
proof -
  have "(u + 63) div 64 = u div 64 + (u mod 64 + 63) div 64"
    using div_mult_self3 [of 64 "u div 64" "u mod 64 + 63"] by (simp add: algebra_simps)
  moreover have "(u mod 64 + 63) div 64 = 1" if "u mod 64 \<noteq> 0"
    using that mod_less_divisor [of 64 u] by (intro div_nat_eqI) simp_all
  ultimately show ?thesis by simp
qed

lemma last_bitmap_positive:
  assumes "slab_ok r" "slU r mod 64 \<noteq> 0"
  shows "0 < slN r" "slN r - 1 = slU r div 64"
  using assms(2) slab_geo(5) [OF assms(1)] ceil_div_64 [of "slU r"] by simp_all

lemma initializeControlSlabs_run:
  assumes ok: "slab_ok r" and un: "m (sl_initState r) = 2"
  shows "initializeControlSlabs r m = Some (initialized_mem r m)"
proof -
  have lastw: "unat (sl_numUserSlabs r mod 64) = slU r mod 64" by (simp add: unat_mod)
  have last0: "(sl_numUserSlabs r mod 64 \<noteq> 0) = (slU r mod 64 \<noteq> 0)"
    by (metis lastw unat_eq_0)
  have dec: "sl_numBitmaps r - 1 = word_of_nat (slN r - 1)" if "slU r mod 64 \<noteq> 0"
    using last_bitmap_positive [OF ok that] by (intro word_of_nat_eqI) (simp add: unat_sub_no_wrap)
  have "unat (sl_numBitmapSlabs r * sl_slabSize r div 8) = slB r"
    by (simp add: unat_div header_bytes [OF ok])
  then show ?thesis
    using un last0 dec
    by (simp add: initializeControlSlabs_def atomic_defs Let_def initialized_mem_def header_mem_def
        bitmapBits_def lastw del: push_bit_of_1)
qed

lemma initialized_bitmap:
  assumes ok: "slab_ok r" and i: "i < slN r"
  shows "initialized_mem r m (bitmap_ptr r (word_of_nat i)) =
    (if slU r mod 64 \<noteq> 0 \<and> i = slN r - 1 then NOT (push_bit (slU r mod 64) 1 - 1) else emptyBitmap)"
proof -
  have b: "i < slB r" "slN r - 1 < slB r" using i header_bitmaps(1) [OF ok] by simp_all
  have "header_mem r m (bitmap_ptr r (word_of_nat i)) = emptyBitmap"
    unfolding header_mem_def using i b header_bitmaps(1) [OF ok]
    by (subst fill_bitmaps_other) (auto simp: bitmap_ptr_eq_iff [OF ok] fill_bitmaps_at [OF ok])
  then show ?thesis
    using bitmap_ptr_not_state [OF ok b(1)] bitmap_ptr_eq_iff [OF ok b]
    by (auto simp: initialized_mem_def)
qed

lemma initialized_slab_bit:
  assumes ok: "slab_ok r" and k: "k < 64 * slN r"
  shows "slab_bit r (initialized_mem r m) k \<longleftrightarrow> slU r \<le> k"
proof -
  have d: "k div 64 < slN r" using k by simp
  show ?thesis
  proof (cases "slU r mod 64 \<noteq> 0 \<and> k div 64 = slN r - 1")
    case True
    then have "k div 64 = slU r div 64" using last_bitmap_positive(2) [OF ok] by simp
    then have "slU r \<le> k \<longleftrightarrow> slU r mod 64 \<le> k mod 64"
      by (metis mult_div_mod_eq nat_add_left_cancel_le)
    then show ?thesis using initialized_bitmap [OF ok d] True
      by (simp add: slab_bit_def bit_tail_mask del: push_bit_of_1)
  next
    case False
    then have "k div 64 < slU r div 64"
      using d slab_geo(5) [OF ok] ceil_div_64 [of "slU r"] by (auto split: if_splits)
    then have "k < slU r" by (metis div_le_mono not_le)
    then show ?thesis using initialized_bitmap [OF ok d] False by (auto simp: slab_bit_def emptyBitmap_def)
  qed
qed

definition slab_footprint :: "SlabMemoryResource \<Rightarrow> u64 set" where
  "slab_footprint r = insert (sl_initState r) ((\<lambda>i. bitmap_ptr r (word_of_nat i)) ` {..<slB r})"

lemma initialized_frame:
  assumes "slab_ok r" "a \<notin> slab_footprint r"
  shows "initialized_mem r m a = m a"
proof -
  have a: "a \<noteq> sl_initState r" "\<And>i. i < slB r \<Longrightarrow> a \<noteq> bitmap_ptr r (word_of_nat i)"
    using assms(2) by (auto simp: slab_footprint_def)
  have b: "slN r \<le> slB r" by (rule header_bitmaps(1) [OF assms(1)])
  have "header_mem r m a = m a"
    unfolding header_mem_def using a b by (subst fill_bitmaps_other; simp)+
  moreover have "a \<noteq> bitmap_ptr r (word_of_nat (slN r - 1))" if "slU r mod 64 \<noteq> 0"
    using last_bitmap_positive(1) [OF assms(1) that] b by (intro a(2)) simp
  ultimately show ?thesis using a(1) by (simp add: initialized_mem_def)
qed

end
