(* ===== verification/Slab_Contract.thy ===== *)
theory Slab_Contract
  imports Slab_Resource Rt_Resource
begin

unbundle bit_operations_syntax

text \<open>
  The slab resource satisfies the contract of a freeing memory resource: its invariant, the effect of a
  request and of a free on the set of bytes in use, the cells it touches, and that its constructor
  establishes the invariant. The properties follow by interpretation, and a concrete resource
  shows the flaw of its ownership test.
\<close>

subsection \<open>The resource contract\<close>

text \<open>A resource is uninitialized until its first request, then initialized with the tail bits set.\<close>

definition slab_ready :: "SlabMemoryResource \<Rightarrow> rt_mem \<Rightarrow> bool" where
  "slab_ready r m \<longleftrightarrow>
     m (sl_initState r) = 0 \<and> (\<forall>k. slU r \<le> k \<and> k < 64 * slN r \<longrightarrow> slab_bit r m k)"

definition slab_inv :: "SlabMemoryResource \<Rightarrow> rt_mem \<Rightarrow> bool" where
  "slab_inv r m \<longleftrightarrow> slab_ok r \<and> (m (sl_initState r) = 2 \<or> slab_ready r m)"

definition slab_used :: "SlabMemoryResource \<Rightarrow> rt_mem \<Rightarrow> nat set" where
  "slab_used r m =
     (if m (sl_initState r) = 2 then {}
      else \<Union> (slab_bytes r ` {k. k < slU r \<and> slab_bit r m k}))"

definition slab_region :: "SlabMemoryResource \<Rightarrow> nat set" where
  "slab_region r = {slab_addr r 0 ..< slab_addr r (slU r)}"

text \<open>The memory the scan starts from: the header is written by the first request.\<close>

definition slab_prepared :: "SlabMemoryResource \<Rightarrow> rt_mem \<Rightarrow> rt_mem" where
  "slab_prepared r m = (if m (sl_initState r) = 2 then initialized_mem r m else m)"

lemma slab_prepared_ready:
  assumes "slab_inv r m"
  shows "slab_ready r (slab_prepared r m)" "slab_used r (slab_prepared r m) = slab_used r m"
proof -
  have ok: "slab_ok r" using assms by (simp add: slab_inv_def)
  have st: "initialized_mem r m (sl_initState r) = 0" by (simp add: initialized_mem_def)
  show "slab_ready r (slab_prepared r m)"
    using assms st initialized_slab_bit [OF ok, of _ m]
    by (auto simp: slab_inv_def slab_prepared_def slab_ready_def)
  show "slab_used r (slab_prepared r m) = slab_used r m"
    using st initialized_slab_bit [OF ok user_slab_bitmap [OF ok], of _ m]
    by (auto simp: slab_prepared_def slab_used_def)
qed

lemma slab_allocate_prepared:
  assumes "slab_inv r m"
  shows "slab_allocate r n m =
    (if n > sl_slabSize r then Some (0, slab_prepared r m) else slab_scan r 0 (slN r) (slab_prepared r m))"
  using assms initializeControlSlabs_run [of r m]
  by (auto simp: slab_allocate_def isUninitialized_def atomicLoad_def slab_inv_def slab_ready_def slab_prepared_def)

lemma slab_bit_footprint:
  assumes "slab_ok r" "k < 64 * slN r" "\<And>c. c \<in> slab_footprint r \<Longrightarrow> m' c = m c"
  shows "slab_bit r m' k = slab_bit r m k"
proof -
  have "bitmap_ptr r (word_of_nat (k div 64)) \<in> slab_footprint r"
    using slab_index_bitmap [OF assms(1,2)] by (auto simp: slab_footprint_def)
  then show ?thesis using assms(3) by (simp add: slab_bit_def)
qed

lemma set_slab_ready:
  assumes "slab_ok r" "slab_ready r m" "k < 64 * slN r"
  shows "slab_ready r (set_slab r k m)"
proof -
  have "set_slab r k m (sl_initState r) = m (sl_initState r)"
    using bitmap_ptr_not_state [OF assms(1) slab_index_bitmap [OF assms(1,3)]]
    by (auto simp: set_slab_def Let_def)
  with assms(2) slab_bit_set_slab [OF assms(1,3)] show ?thesis by (auto simp: slab_ready_def)
qed

lemma clear_slab_ready:
  assumes "slab_ok r" "slab_ready r m" "k < slU r"
  shows "slab_ready r (clear_slab r k m)"
proof -
  note k = user_slab_bitmap [OF assms(1,3)]
  have "clear_slab r k m (sl_initState r) = m (sl_initState r)"
    using bitmap_ptr_not_state [OF assms(1) slab_index_bitmap [OF assms(1) k]]
    by (auto simp: clear_slab_def Let_def)
  with assms(2,3) slab_bit_clear_slab [OF assms(1) k] show ?thesis by (auto simp: slab_ready_def)
qed

text \<open>
  A request on a ready memory: the least free slab, or the null pointer when the request is too large
  or no slab is free.
\<close>

lemma slab_scan_cases:
  assumes "slab_ok r" "slab_ready r m"
  shows "(\<forall>k < slU r. slab_bit r m k) \<and> slab_scan r 0 (slN r) m = Some (0, m) \<or>
    (\<exists>k < slU r. \<not> slab_bit r m k \<and> (\<forall>j < k. slab_bit r m j) \<and>
       slab_scan r 0 (slN r) m = Some (slab_ptr r k, set_slab r k m))"
proof (cases "\<forall>k < slU r. slab_bit r m k")
  case True
  then have "\<forall>k. k < 64 * slN r \<longrightarrow> slab_bit r m k"
    using assms(2) unfolding slab_ready_def by (meson not_le)
  then show ?thesis using True slab_scan_full [of 0 "slN r" r m] by simp
next
  case False
  define k where "k = (LEAST k. k < slU r \<and> \<not> slab_bit r m k)"
  have k: "k < slU r" "\<not> slab_bit r m k"
    using False LeastI_ex [of "\<lambda>k. k < slU r \<and> \<not> slab_bit r m k"] by (auto simp: k_def)
  have least: "\<forall>j < k. slab_bit r m j"
  proof (intro allI impI)
    fix j
    assume j: "j < k"
    then show "slab_bit r m j" using not_less_Least [OF j [unfolded k_def]] k(1) by auto
  qed
  have "slab_scan r 0 (slN r) m = Some (slab_ptr r k, set_slab r k m)"
    using k least user_slab_bitmap [OF assms(1) k(1)] by (intro slab_scan_first) simp_all
  with k least show ?thesis by blast
qed

lemma slab_footprint_bitmap:
  "slab_ok r \<Longrightarrow> k < 64 * slN r \<Longrightarrow> bitmap_ptr r (word_of_nat (k div 64)) \<in> slab_footprint r"
  using slab_index_bitmap by (auto simp: slab_footprint_def)

lemma slab_prepared_frame: "slab_inv r m \<Longrightarrow> c \<notin> slab_footprint r \<Longrightarrow> slab_prepared r m c = m c"
  by (simp add: slab_prepared_def initialized_frame slab_inv_def)

lemma slab_ptr_addr: "slab_ok r \<Longrightarrow> k < slU r \<Longrightarrow> unat (slab_ptr r k) = slab_addr r k"
  by (simp add: slab_ptr_def unat_slab_ptr)

lemma slab_addr_pos: "slab_ok r \<Longrightarrow> 0 < slab_addr r k"
  using slab_geo(2,7) [of r] by (simp add: slab_addr_def)

lemma slab_bytes_disjoint: "slab_ok r \<Longrightarrow> j \<noteq> k \<Longrightarrow> slab_bytes r j \<inter> slab_bytes r k = {}"
proof -
  assume "slab_ok r" "j \<noteq> k"
  have "slab_addr r a + slS r \<le> slab_addr r b" if "a < b" for a b
    using mult_le_mono1 [OF Suc_leI [OF that], of "slS r"] by (simp add: slab_addr_def)
  with \<open>j \<noteq> k\<close> show ?thesis by (fastforce simp: slab_bytes_def nat_neq_iff)
qed

lemma slab_bytes_unique:
  "slab_ok r \<Longrightarrow> x \<in> slab_bytes r j \<Longrightarrow> x \<in> slab_bytes r k \<Longrightarrow> j = k"
  using slab_bytes_disjoint by blast

lemma slab_bytes_region: "k < slU r \<Longrightarrow> slab_bytes r k \<subseteq> slab_region r"
  using mult_le_mono1 [of "Suc k" "slU r" "slS r"] by (auto simp: slab_bytes_def slab_region_def slab_addr_def)

lemma slab_used_ready:
  "slab_ready r m \<Longrightarrow> slab_used r m = \<Union> (slab_bytes r ` {k. k < slU r \<and> slab_bit r m k})"
  by (simp add: slab_used_def slab_ready_def)

lemma slab_used_set:
  assumes "slab_ok r" "slab_ready r m" "k < slU r"
  shows "slab_used r (set_slab r k m) = slab_used r m \<union> slab_bytes r k"
proof -
  note k = user_slab_bitmap [OF assms(1,3)]
  have "{j. j < slU r \<and> slab_bit r (set_slab r k m) j} = insert k {j. j < slU r \<and> slab_bit r m j}"
    using slab_bit_set_slab [OF assms(1) k] user_slab_bitmap [OF assms(1)] assms(3) by auto
  then show ?thesis
    using slab_used_ready [OF set_slab_ready [OF assms(1,2) k]] slab_used_ready [OF assms(2)] by auto
qed

lemma slab_used_clear:
  assumes "slab_ok r" "slab_ready r m" "k < slU r"
  shows "slab_used r (clear_slab r k m) = slab_used r m - slab_bytes r k"
proof -
  note k = user_slab_bitmap [OF assms(1,3)]
  have "{j. j < slU r \<and> slab_bit r (clear_slab r k m) j} = {j. j < slU r \<and> slab_bit r m j} - {k}"
    using slab_bit_clear_slab [OF assms(1) k] user_slab_bitmap [OF assms(1)] by auto
  then show ?thesis
    using slab_used_ready [OF clear_slab_ready [OF assms]] slab_used_ready [OF assms(2)]
    by (auto dest: slab_bytes_unique [OF assms(1)])
qed

lemma all_slabs_used:
  assumes "slab_ok r" "slab_ready r m" "\<forall>k < slU r. slab_bit r m k"
  shows "slab_used r m = slab_region r"
proof
  show "slab_used r m \<subseteq> slab_region r"
    using slab_used_ready [OF assms(2)] slab_bytes_region by blast
  show "slab_region r \<subseteq> slab_used r m"
  proof
    fix a
    assume a: "a \<in> slab_region r"
    let ?k = "(a - slab_addr r 0) div slS r"
    have s: "0 < slS r" using slab_geo(2) [OF assms(1)] .
    have "a - slab_addr r 0 < slU r * slS r" using a by (auto simp: slab_region_def slab_addr_def)
    then have k: "?k < slU r" by (simp add: less_mult_imp_div_less)
    have "a - slab_addr r 0 = ?k * slS r + (a - slab_addr r 0) mod slS r" by simp
    moreover have "(a - slab_addr r 0) mod slS r < slS r" using s by simp
    moreover have "slab_addr r 0 \<le> a" using a by (simp add: slab_region_def)
    ultimately have "a \<in> slab_bytes r ?k"
      unfolding slab_bytes_def slab_addr_def atLeastLessThan_iff by linarith
    with k assms(3) show "a \<in> slab_used r m" unfolding slab_used_ready [OF assms(2)] by blast
  qed
qed

text \<open>Everything a caller can see of one request.\<close>

lemma slab_allocate_cases:
  assumes inv: "slab_inv r m"
  obtains (none) m' where "slab_allocate r n m = Some (0, m')" "slab_inv r m'" "slab_used r m' = slab_used r m"
      "n > sl_slabSize r \<or> slab_used r m = slab_region r"
      "\<And>c. c \<notin> slab_footprint r \<Longrightarrow> m' c = m c"
    | (slab) k m' where "k < slU r" "slab_allocate r n m = Some (slab_ptr r k, m')" "n \<le> sl_slabSize r"
      "slab_inv r m'" "slab_bytes r k \<inter> slab_used r m = {}" "slab_used r m' = slab_used r m \<union> slab_bytes r k"
      "\<And>c. c \<notin> slab_footprint r \<Longrightarrow> m' c = m c"
proof -
  let ?m = "slab_prepared r m"
  have ok: "slab_ok r" using inv by (simp add: slab_inv_def)
  note pr = slab_prepared_ready [OF inv] and fr = slab_prepared_frame [OF inv]
  have pinv: "slab_inv r ?m" using pr(1) ok by (simp add: slab_inv_def)
  show thesis
  proof (cases "n > sl_slabSize r")
    case True
    then show ?thesis
      using pinv pr(2) fr by (intro none [of ?m]) (simp_all add: slab_allocate_prepared [OF inv])
  next
    case fits: False
    from slab_scan_cases [OF ok pr(1)] show ?thesis
    proof (elim disjE conjE exE)
      assume "\<forall>k < slU r. slab_bit r ?m k" "slab_scan r 0 (slN r) ?m = Some (0, ?m)"
      then show ?thesis
        using pinv pr(2) fr fits
        by (intro none [of ?m])
          (simp_all add: slab_allocate_prepared [OF inv] all_slabs_used [OF ok pr(1)])
    next
      fix k
      assume k: "k < slU r" "\<not> slab_bit r ?m k"
        "slab_scan r 0 (slN r) ?m = Some (slab_ptr r k, set_slab r k ?m)"
      show ?thesis
      proof (rule slab [of k "set_slab r k ?m"])
        show "slab_allocate r n m = Some (slab_ptr r k, set_slab r k ?m)"
          using fits k(3) by (simp add: slab_allocate_prepared [OF inv])
        show "slab_inv r (set_slab r k ?m)"
          using ok set_slab_ready [OF ok pr(1) user_slab_bitmap [OF ok k(1)]] by (simp add: slab_inv_def)
        show "slab_bytes r k \<inter> slab_used r m = {}"
          unfolding pr(2) [symmetric] slab_used_ready [OF pr(1)]
          using k(2) by (auto dest: slab_bytes_unique [OF ok])
        show "slab_used r (set_slab r k ?m) = slab_used r m \<union> slab_bytes r k"
          using slab_used_set [OF ok pr(1) k(1)] pr(2) by simp
        show "set_slab r k ?m c = m c" if "c \<notin> slab_footprint r" for c
          using that fr slab_footprint_bitmap [OF ok user_slab_bitmap [OF ok k(1)]]
          by (auto simp: set_slab_def Let_def)
      qed (use fits k in simp_all)
    qed
  qed
qed

subsection \<open>Deallocation\<close>

lemma slab_ptr_diff:
  assumes "slab_ok r" "k < slU r"
  shows "unat ((slab_ptr r k - getUserRegionStart r) div 8 * 8 div sl_slabSize r) = k"
proof -
  note geo = slab_geo [OF assms(1)]
  have d: "unat (slab_ptr r k - getUserRegionStart r) = k * slS r"
    using slab_ptr_addr [OF assms] user_region_start [OF assms(1)]
    by (simp add: unat_sub_no_wrap slab_addr_def)
  have "8 * ((slab_ptr r k - getUserRegionStart r) div 8) = slab_ptr r k - getUserRegionStart r"
    using geo(1) d by (intro eight_times_div) simp
  then show ?thesis using d geo(2) by (simp add: unat_div mult.commute)
qed

lemma slab_ptr_owned:
  assumes "slab_ok r" "k < slU r"
  shows "slab_ptr r k \<noteq> 0" "slab_pointerIsOwned r (slab_ptr r k)"
proof -
  note geo = slab_geo [OF assms(1)]
  have a: "unat (slab_ptr r k) = slab_addr r k" by (rule slab_ptr_addr [OF assms])
  then show "slab_ptr r k \<noteq> 0" using slab_addr_pos [OF assms(1), of k] by auto
  have "unat (8 * sl_capacity r) = 8 * unat (sl_capacity r)"
    using geo(9) by (subst unat_mult_no_wrap) simp_all
  then have e: "unat (sl_buffer r + 8 * sl_capacity r) = unat (sl_buffer r) + 8 * unat (sl_capacity r)"
    using geo(9) by (subst unat_add_no_wrap) simp_all
  have "slH r * slS r \<le> unat (sl_capacity r)"
    using mult_le_mono1 [OF geo(10), of "slS r"] geo(8) by linarith
  moreover have "k * slS r + slS r \<le> unat (sl_capacity r)"
    using mult_le_mono1 [OF Suc_leI [OF assms(2)], of "slS r"] geo(8) by simp
  ultimately show "slab_pointerIsOwned r (slab_ptr r k)"
    using geo(2) by (simp add: slab_pointerIsOwned_def word_le_nat_alt word_less_nat_alt a e slab_addr_def)
qed

lemma slab_index_signed:
  assumes "unat (x :: u64) = k" "k < 2 ^ 63"
  shows "word_of_int (sint x sdiv 64) = (word_of_nat (k div 64) :: u64)"
    "unat (word_of_int (sint x smod 64) :: u64) = k mod 64"
proof -
  have "x = word_of_int (int k)" using assms(1) by (metis of_int_of_nat_eq word_of_nat_eqI)
  moreover have "sint (word_of_int (int k) :: u64) = int k"
    using int_less_power [OF assms(2)] by (intro sint_of_int_i64) simp_all
  ultimately have k: "sint x = int k" by simp
  have "int k sdiv 64 = int (k div 64)" "int k smod 64 = int (k mod 64)"
    by (simp_all add: signed_divide_int_def signed_modulo_int_def zdiv_int zmod_int sgn_if)
  with k show "word_of_int (sint x sdiv 64) = (word_of_nat (k div 64) :: u64)"
    "unat (word_of_int (sint x smod 64) :: u64) = k mod 64"
    by (simp_all add: unat_of_nat)
qed

lemma slab_deallocate_run:
  assumes "slab_ok r" "k < slU r"
  shows "slab_deallocate r (slab_ptr r k) m = Some (clear_slab r k m)"
proof -
  note geo = slab_geo [OF assms(1)]
  let ?x = "(slab_ptr r k - getUserRegionStart r) div 8 * 8 div sl_slabSize r"
  have x: "unat ?x = k" by (rule slab_ptr_diff [OF assms])
  have "8 \<le> slS r" using geo(1,2) by (simp add: dvd_imp_le)
  then have "8 * k \<le> slU r * slS r" using assms(2) mult_le_mono [of k "slU r" 8 "slS r"] by simp
  then have "k < 2 ^ 63" using geo(8,9) by simp
  note ix = slab_index_signed [OF x this]
  show ?thesis
    using slab_ptr_owned [OF assms] ix
    by (simp add: slab_deallocate_def Let_def slab_clear_solo atomicLoad_def clear_slab_def del: push_bit_of_1)
qed

definition slab_valid :: "SlabMemoryResource \<Rightarrow> u64 \<Rightarrow> bool" where
  "slab_valid r p \<longleftrightarrow> (\<exists>k < slU r. p = slab_ptr r k)"

definition slab_granted :: "SlabMemoryResource \<Rightarrow> u64 \<Rightarrow> nat set" where
  "slab_granted r p = {unat p ..< unat p + slS r}"

lemma slab_granted_ptr: "slab_ok r \<Longrightarrow> k < slU r \<Longrightarrow> slab_granted r (slab_ptr r k) = slab_bytes r k"
  by (simp add: slab_granted_def slab_bytes_def slab_ptr_addr)

lemma slab_deallocate_ready:
  assumes "slab_inv r m" "slab_valid r p" "slab_ready r m"
  shows "\<exists>m'. slab_deallocate r p m = Some m' \<and> slab_inv r m' \<and>
    slab_used r m' = slab_used r m - slab_granted r p \<and> (\<forall>c. c \<notin> slab_footprint r \<longrightarrow> m' c = m c)"
proof -
  have ok: "slab_ok r" using assms(1) by (simp add: slab_inv_def)
  obtain k where k: "k < slU r" "p = slab_ptr r k" using assms(2) by (auto simp: slab_valid_def)
  have "slab_inv r (clear_slab r k m)"
    using clear_slab_ready [OF ok assms(3) k(1)] ok by (simp add: slab_inv_def)
  moreover have "\<forall>c. c \<notin> slab_footprint r \<longrightarrow> clear_slab r k m c = m c"
    using slab_footprint_bitmap [OF ok user_slab_bitmap [OF ok k(1)]] by (auto simp: clear_slab_def Let_def)
  ultimately show ?thesis
    using slab_deallocate_run [OF ok k(1)] slab_used_clear [OF ok assms(3) k(1)] slab_granted_ptr [OF ok k(1)] k(2)
    by simp
qed

lemma slab_footprint_agree:
  assumes "slab_inv r m" "\<And>c. c \<in> slab_footprint r \<Longrightarrow> m' c = m c"
  shows "slab_inv r m' \<and> slab_used r m' = slab_used r m"
proof -
  have ok: "slab_ok r" using assms(1) by (simp add: slab_inv_def)
  have st: "m' (sl_initState r) = m (sl_initState r)" using assms(2) by (simp add: slab_footprint_def)
  have b: "slab_bit r m' k = slab_bit r m k" if "k < 64 * slN r" for k
    by (rule slab_bit_footprint [OF ok that assms(2)])
  have "slab_ready r m' = slab_ready r m" using st b by (auto simp: slab_ready_def)
  moreover have "{k. k < slU r \<and> slab_bit r m' k} = {k. k < slU r \<and> slab_bit r m k}"
    using b user_slab_bitmap [OF ok] by blast
  ultimately show ?thesis using assms(1) st by (simp add: slab_inv_def slab_used_def)
qed

interpretation slab: memory_resource "slab_allocate r" "slab_inv r" "slab_used r" "slab_region r" "slab_footprint r"
proof
  fix m n p m'
  assume inv: "slab_inv r m"
  then have ok: "slab_ok r" by (simp add: slab_inv_def)
  show "slab_allocate r n m \<noteq> None" by (rule slab_allocate_cases [OF inv, of n]) simp_all
  show "slab_inv r m'" if "slab_allocate r n m = Some (p, m')"
    using that by (rule_tac slab_allocate_cases [OF inv, of n]) auto
  show "slab_used r m' = slab_used r m" if "slab_allocate r n m = Some (0, m')"
    using that slab_ptr_owned [OF ok] by (rule_tac slab_allocate_cases [OF inv, of n]) auto
  show "block p n \<subseteq> slab_region r \<and> block p n \<inter> slab_used r m = {} \<and> slab_used r m \<union> block p n \<subseteq> slab_used r m'"
    if "slab_allocate r n m = Some (p, m')" "p \<noteq> 0"
    using inv
  proof (cases rule: slab_allocate_cases [of r m n])
    case (slab k m1)
    then have "block p n \<subseteq> slab_bytes r k"
      using that slab_ptr_addr [OF ok] by (auto simp: block_def slab_bytes_def word_le_nat_alt)
    then show ?thesis using slab that slab_bytes_region [of k r] by auto
  qed (use that in auto)
  show "m' c = m c" if "slab_allocate r n m = Some (p, m')" "c \<notin> slab_footprint r" for c
    using that by (rule_tac slab_allocate_cases [OF inv, of n]) auto
  show "slab_inv r m' \<and> slab_used r m' = slab_used r m" if "\<And>c. c \<in> slab_footprint r \<Longrightarrow> m' c = m c"
    by (rule slab_footprint_agree [OF inv that])
qed

lemma slab_deallocate_law:
  assumes "slab_inv r m" "slab_valid r p"
  shows "\<exists>m'. slab_deallocate r p m = Some m' \<and> slab_inv r m' \<and>
    slab_used r m' = slab_used r m - slab_granted r p \<and> (\<forall>c. c \<notin> slab_footprint r \<longrightarrow> m' c = m c)"
proof (cases "slab_ready r m")
  case True
  then show ?thesis using slab_deallocate_ready [OF assms] by simp
next
  case False
  then have ok: "slab_ok r" and un: "m (sl_initState r) = 2" using assms(1) by (simp_all add: slab_inv_def)
  obtain k where k: "k < slU r" "p = slab_ptr r k" using assms(2) by (auto simp: slab_valid_def)
  note b = user_slab_bitmap [OF ok k(1)]
  have "clear_slab r k m (sl_initState r) = 2"
    using bitmap_ptr_not_state [OF ok slab_index_bitmap [OF ok b]] un by (auto simp: clear_slab_def Let_def)
  moreover have "\<forall>c. c \<notin> slab_footprint r \<longrightarrow> clear_slab r k m c = m c"
    using slab_footprint_bitmap [OF ok b] by (auto simp: clear_slab_def Let_def)
  ultimately show ?thesis
    using slab_deallocate_run [OF ok k(1)] k(2) ok un by (auto simp: slab_inv_def slab_used_def)
qed

interpretation slab_free: freeing_resource "slab_allocate r" "slab_inv r" "slab_used r" "slab_region r"
  "slab_footprint r" "slab_deallocate r" "slab_granted r" "slab_valid r"
proof
  fix m n p m'
  assume inv: "slab_inv r m"
  then have ok: "slab_ok r" by (simp add: slab_inv_def)
  show "slab_valid r p \<and> slab_granted r p \<noteq> {} \<and> block p n \<subseteq> slab_granted r p \<and>
      slab_granted r p \<inter> slab_used r m = {} \<and> slab_used r m' = slab_used r m \<union> slab_granted r p"
    if "slab_allocate r n m = Some (p, m')" "p \<noteq> 0"
    using inv
  proof (cases rule: slab_allocate_cases [of r m n])
    case (slab k m1)
    then have "slab_valid r p" "slab_granted r p = slab_bytes r k"
      using that slab_granted_ptr [OF ok] by (auto simp: slab_valid_def)
    moreover have "block p n \<subseteq> slab_granted r p"
      using slab by (auto simp: block_def slab_granted_def word_le_nat_alt)
    ultimately show ?thesis using slab that slab_geo(2) [OF ok] by (auto simp: slab_granted_def)
  qed (use that in auto)
  show "\<exists>m'. slab_deallocate r p m = Some m' \<and> slab_inv r m' \<and> slab_used r m' = slab_used r m - slab_granted r p \<and>
      (\<forall>c. c \<notin> slab_footprint r \<longrightarrow> m' c = m c)" if "slab_valid r p"
    by (rule slab_deallocate_law [OF inv that])
qed

subsection \<open>Construction\<close>

lemma slab_counts:
  fixes T s :: nat
  assumes "8 \<le> s" "8 dvd s" "2 \<le> T"
  defines "U \<equiv> T * 64 * (s div 8) div (64 * (s div 8) + 1)"
  shows "0 < T - U" "T - U \<le> U" "U \<le> 8 * (T - U) * s"
proof -
  define B where "B = 64 * (s div 8)"
  have B: "B = 8 * s" "64 \<le> B" using assms(1,2) by (auto simp: B_def elim!: dvdE)
  have U: "U = T * B div (B + 1)" by (simp add: U_def B_def mult.assoc)
  have up: "U * (B + 1) \<le> T * B" unfolding U by (rule div_times_less_eq_dividend)
  have lo: "T * B < (U + 1) * (B + 1)" unfolding U using dividend_less_div_times [of "B + 1" "T * B"] by simp
  have TU: "U < T"
  proof (rule ccontr)
    assume "\<not> U < T"
    then have "T * (B + 1) \<le> U * (B + 1)" by (intro mult_le_mono1) simp
    then show False using up assms(3) by simp
  qed
  then show "0 < T - U" by simp
  have "U * B + U \<le> (T - U) * B + U * B" using up TU by (simp add: algebra_simps flip: add_mult_distrib)
  then show "U \<le> 8 * (T - U) * s" using B by (simp add: mult.commute mult.left_commute)
  show "T - U \<le> U"
  proof (rule ccontr)
    assume "\<not> T - U \<le> U"
    then have "2 * U + 1 \<le> T" by simp
    then have "(2 * U + 1) * B \<le> T * B" by (rule mult_le_mono1)
    then have "2 * U * B + B < U * B + U + B + 1" using lo by (simp add: algebra_simps)
    then have "U * B < U + 1" by (simp add: mult.commute)
    then have "U = 0" using mult_le_mono2 [OF B(2), of U] by linarith
    moreover have "B + 1 \<le> T * B" using mult_le_mono1 [OF assms(3), of B] B(2) by linarith
    then have "0 < U" unfolding U by (simp add: div_greater_zero_iff)
    ultimately show False by simp
  qed
qed


text \<open>The constructor in natural numbers, under a bound that keeps its arithmetic from wrapping.\<close>

lemma slab_new_counts:
  assumes s: "8 dvd unat (slabSize :: u64)" "0 < unat slabSize"
    and q: "3 \<le> unat (bytes :: u64) div unat slabSize" and fits: "9 * unat bytes < 2 ^ 64"
  defines "T \<equiv> unat bytes div unat slabSize - 1"
  defines "U \<equiv> T * 64 * (unat slabSize div 8) div (64 * (unat slabSize div 8) + 1)"
  shows "unat (bytes div slabSize - 1) = T"
    "unat (((bytes div slabSize - 1) * 64 * (slabSize div 8)) div (64 * (slabSize div 8) + 1)) = U"
    "2 \<le> T" "T * unat slabSize + unat slabSize \<le> unat bytes"
proof -
  let ?s = "unat slabSize"
  have e8: "8 * (?s div 8) = ?s" using s by simp
  show T: "unat (bytes div slabSize - 1) = T" using q by (simp add: T_def unat_sub_no_wrap unat_div)
  show T2: "2 \<le> T" using q by (simp add: T_def)
  have "unat bytes div ?s * ?s \<le> unat bytes" by simp
  then show Ts: "T * ?s + ?s \<le> unat bytes" using q by (simp add: T_def diff_mult_distrib)
  have T8: "T * 64 * (?s div 8) = 8 * (T * ?s)"
    by (subst e8 [symmetric]) simp
  have lt: "T * 64 * (?s div 8) < 2 ^ 64" "64 * (?s div 8) < 2 ^ 64"
    using T8 Ts fits e8 by linarith+
  have "0 < ?s div 8" using e8 s(2) by linarith
  then have "T * 64 \<le> T * 64 * (?s div 8)" by simp
  then have "T * 64 < 2 ^ 64" using lt(1) by (rule order.strict_trans1)
  then have "unat ((bytes div slabSize - 1) * 64) = T * 64"
    using T by (subst unat_mult_no_wrap) simp_all
  then have n: "unat ((bytes div slabSize - 1) * 64 * (slabSize div 8)) = T * 64 * (?s div 8)"
    using lt(1) by (subst unat_mult_no_wrap) (simp_all add: unat_div)
  have d: "unat (64 * (slabSize div 8) + 1) = 64 * (?s div 8) + 1"
  proof -
    have "unat (64 * (slabSize div 8)) = 64 * (?s div 8)"
      using lt(2) by (subst unat_mult_no_wrap) (simp_all add: unat_div)
    moreover have "64 * (?s div 8) + 1 < 2 ^ 64" using e8 Ts fits s(2) by linarith
    ultimately show ?thesis by (subst unat_add_no_wrap) simp_all
  qed
  show "unat (((bytes div slabSize - 1) * 64 * (slabSize div 8)) div (64 * (slabSize div 8) + 1)) = U"
    unfolding unat_div n d U_def ..
qed

lemma SlabMemoryResource_new_ok:
  assumes new: "SlabMemoryResource_new slabSize start bytes m = Inr (r, m')"
    and s: "8 dvd unat slabSize" "0 < unat slabSize" "start \<noteq> 0"
    and fits: "unat start + 9 * unat bytes < 2 ^ 64"
  shows "slab_ok r" "m' = m(sl_initState r := 2)" "sl_slabSize r = slabSize" "sl_initState r = start"
    "slab_addr r (slU r) \<le> unat start + unat bytes" "unat slabSize dvd unat start"
proof -
  let ?s = "unat slabSize"
  define Tw where "Tw = bytes div slabSize - 1"
  define Uw where "Uw = (Tw * 64 * (slabSize div 8)) div (64 * (slabSize div 8) + 1)"
  define T where "T = unat bytes div ?s - 1"
  define U where "U = T * 64 * (?s div 8) div (64 * (?s div 8) + 1)"
  have q: "3 \<le> unat bytes div ?s"
    using new by (auto simp: SlabMemoryResource_new_def numLockSlabs_def Let_def word_less_nat_alt unat_div split: if_splits)
  have r: "r = \<lparr>sl_slabSize = slabSize, sl_buffer = start + 8 * (slabSize div 8), sl_numUserSlabs = Uw,
      sl_capacity = bytes - slabSize - (Tw - Uw) * slabSize, sl_numBitmapSlabs = Tw - Uw,
      sl_numBitmaps = (Uw + 64 - 1) div 64, sl_initState = start\<rparr>" and m': "m' = m(start := 2)"
    using new by (auto simp: SlabMemoryResource_new_def numLockSlabs_def bitmapBits_def nextMultipleOf_def
        Let_def Tw_def Uw_def atomic_defs split: if_splits)
  have f9: "9 * unat bytes < 2 ^ 64" using fits by linarith
  note n = slab_new_counts [OF s(1,2) q f9, folded T_def, folded U_def, folded Tw_def, folded Uw_def]
  have "8 \<le> ?s" using s by (simp add: dvd_imp_le)
  note c = slab_counts [OF this s(1) n(3), folded U_def]
  have H: "unat (Tw - Uw) = T - U" using n c(1) by (simp add: unat_sub_no_wrap)
  have prod: "(T - U) * ?s + U * ?s = T * ?s" using c(1) by (simp flip: add_mult_distrib)
  have Hs: "unat ((Tw - Uw) * slabSize) = (T - U) * ?s"
  proof -
    have "(T - U) * ?s < 2 ^ 64" using n(4) prod f9 by linarith
    then show ?thesis using H by (subst unat_mult_no_wrap) simp_all
  qed
  have cap: "unat (bytes - slabSize - (Tw - Uw) * slabSize) = unat bytes - ?s - (T - U) * ?s"
    using Hs n(4) prod by (simp add: unat_sub_no_wrap)
  have buf: "unat (start + 8 * (slabSize div 8)) = unat start + ?s"
    using eight_times_div [OF s(1)] n(4) fits by (simp add: unat_add_no_wrap)
  have "8 * U \<le> U * ?s" "8 * 2 \<le> T * ?s" using \<open>8 \<le> ?s\<close> n(3) mult_le_mono [of 2 T 8 ?s] by simp_all
  then have U64: "U + 64 < 2 ^ 64" using f9 n(4) prod by linarith
  have N: "unat ((Uw + 64 - 1) div 64) = (U + 63) div 64"
    using n(2) U64 by (simp add: unat_div unat_sub_no_wrap unat_add_no_wrap)
  have "U * ?s \<le> unat bytes - ?s - (T - U) * ?s"
    "unat start + ?s + (T - U) * ?s + 8 * (unat bytes - ?s - (T - U) * ?s) < 2 ^ 64"
    using n(4) prod fits by linarith+
  then show "slab_ok r"
    unfolding slab_ok_def r Let_def using s c N by (simp add: H n(2) cap buf)
  show "m' = m(sl_initState r := 2)" "sl_slabSize r = slabSize" "sl_initState r = start"
    by (simp_all add: r m')
  show "slab_addr r (slU r) \<le> unat start + unat bytes"
    using n(4) prod by (simp add: slab_addr_def r buf H n(2))
  show "unat slabSize dvd unat start"
    using new by (auto simp: SlabMemoryResource_new_def unat_eq_0 [symmetric] unat_mod split: if_splits)
qed

lemma slab_ptr_aligned:
  assumes "slab_ok r" "slS r dvd unat (sl_initState r)"
  shows "slS r dvd slab_addr r k"
proof -
  have "slS r dvd unat (sl_buffer r)" using assms(2) slab_geo(7) [OF assms(1)] by (metis dvd_add dvd_refl)
  then show ?thesis by (simp add: slab_addr_def)
qed

lemma slab_region_upper: "slab_addr r 0 \<le> a \<Longrightarrow> a < slab_addr r (slU r) \<Longrightarrow> a \<in> slab_region r"
  by (simp add: slab_region_def)

subsection \<open>Properties\<close>

text \<open>
  C1: the slab resource is a safe allocator. From its constructor on, every sequence of requests, frees of
  live pointers and stores of the program outside the header returns; the blocks handed out and not
  freed are pairwise disjoint, lie in the buffer behind the control slabs, and start on a multiple of
  the slab size.
\<close>

theorem slab_blocks_disjoint:
  assumes "SlabMemoryResource_new slabSize start bytes m = Inr (r, m0)"
    and "8 dvd unat slabSize" "0 < unat slabSize" "start \<noteq> 0" "unat start + 9 * unat bytes < 2 ^ 64"
    and "writes_outside (slab_footprint r) ops"
  shows "\<exists>live m'. run_rops (slab_allocate r) (slab_deallocate r) ops ([], m0) = Some (live, m') \<and>
    sorted_wrt (\<lambda>a b. block (fst a) (snd a) \<inter> block (fst b) (snd b) = {}) live \<and>
    (\<forall>b \<in> set live. block (fst b) (snd b) \<subseteq> {slab_addr r 0 ..< unat start + unat bytes} \<and>
       unat slabSize dvd unat (fst b))"
proof -
  note ok = SlabMemoryResource_new_ok [OF assms(1-5)]
  have "slab_inv r m0" "slab_used r m0 = {}" using ok by (simp_all add: slab_inv_def slab_used_def)
  then obtain live m' where run: "run_rops (slab_allocate r) (slab_deallocate r) ops ([], m0) = Some (live, m')"
    and li: "slab_free.live_inv r live m'"
    using slab_free.run_live_inv [OF slab_free.live_inv_empty assms(6)] by blast
  have "block (fst b) (snd b) \<subseteq> {slab_addr r 0 ..< unat start + unat bytes} \<and> unat slabSize dvd unat (fst b)"
    if "b \<in> set live" for b
  proof -
    have v: "slab_valid r (fst b)" "block (fst b) (snd b) \<subseteq> slab_granted r (fst b)"
      using li that unfolding slab_free.live_inv_def slab_free.live_ok_def list_all_iff by blast+
    then obtain k where k: "k < slU r" "fst b = slab_ptr r k" by (auto simp: slab_valid_def)
    have "block (fst b) (snd b) \<subseteq> slab_region r"
      using v(2) slab_granted_ptr [OF ok(1) k(1)] slab_bytes_region [OF k(1)] k(2) by auto
    then show ?thesis
      using slab_ptr_aligned [OF ok(1), of k] slab_ptr_addr [OF ok(1) k(1)] ok k(2)
      by (force simp: slab_region_def)
  qed
  with run slab_free.live_blocks [OF li] show ?thesis by blast
qed

text \<open>
  C2: the slab resource refuses a request only when it must: after any number of earlier operations, a
  request of at most the slab size returns the null pointer exactly when every slab of the region
  is in use, and a larger one always does.
\<close>

theorem slab_allocate_complete:
  assumes "slab_inv r m"
  shows "\<exists>p m'. slab_allocate r n m = Some (p, m') \<and>
    (p = 0 \<longleftrightarrow> n > sl_slabSize r \<or> slab_used r m = slab_region r)"
proof (rule slab_allocate_cases [OF assms, of n])
  fix m'
  assume "slab_allocate r n m = Some (0, m')" "n > sl_slabSize r \<or> slab_used r m = slab_region r"
  then show ?thesis by blast
next
  fix k m'
  assume a: "k < slU r" "slab_allocate r n m = Some (slab_ptr r k, m')" "n \<le> sl_slabSize r"
    "slab_bytes r k \<inter> slab_used r m = {}"
  have ok: "slab_ok r" using assms by (simp add: slab_inv_def)
  have "slab_bytes r k \<noteq> {}" using slab_geo(2) [OF ok] by (simp add: slab_bytes_def)
  then have "slab_used r m \<noteq> slab_region r" using a(4) slab_bytes_region [OF a(1)] by blast
  then show ?thesis using a slab_ptr_owned(1) [OF ok a(1)] by (auto simp: not_less)
qed

subsection \<open>A concrete resource\<close>

definition example_slab :: SlabMemoryResource where
  "example_slab = \<lparr>sl_slabSize = 8, sl_buffer = 0x1008, sl_numUserSlabs = 14, sl_capacity = 112,
     sl_numBitmapSlabs = 1, sl_numBitmaps = 1, sl_initState = 0x1000\<rparr>"

lemma example_slab_new: "SlabMemoryResource_new 8 0x1000 128 m = Inr (example_slab, m(0x1000 := 2))"
  by (simp add: SlabMemoryResource_new_def numLockSlabs_def bitmapBits_def nextMultipleOf_def Let_def
      atomic_defs example_slab_def)

lemma example_slab_ok: "slab_ok example_slab"
  using SlabMemoryResource_new_ok(1) [OF example_slab_new] by simp

theorem slab_blocks_disjoint_witness:
  "\<exists>live m'. run_rops (slab_allocate example_slab) (slab_deallocate example_slab)
      [Alloc 8, Alloc 4, Free 1, ClientWrite 0x1010 7, Alloc 8] ([], (\<lambda>_. 0)(0x1000 := 2)) = Some (live, m') \<and>
    sorted_wrt (\<lambda>a b. block (fst a) (snd a) \<inter> block (fst b) (snd b) = {}) live"
proof -
  have h: "8 dvd unat (8 :: u64)" "0 < unat (8 :: u64)" "(0x1000 :: u64) \<noteq> 0"
    "unat (0x1000 :: u64) + 9 * unat (128 :: u64) < 2 ^ 64" by simp_all
  have "slab_footprint example_slab = {0x1000, 0x1008}"
    by (auto simp: slab_footprint_def example_slab_def bitmap_ptr_def)
  then have "writes_outside (slab_footprint example_slab)
      [Alloc 8, Alloc 4, Free 1, ClientWrite 0x1010 7, Alloc 8]"
    by (simp add: writes_outside_def)
  from slab_blocks_disjoint [OF example_slab_new h this] show ?thesis by blast
qed

theorem slab_allocate_complete_witness:
  "\<exists>p m'. slab_allocate example_slab 8 ((\<lambda>_. 0)(0x1000 := 2)) = Some (p, m') \<and> p \<noteq> 0"
proof -
  let ?m = "(\<lambda>_. 0)(0x1000 := 2) :: rt_mem"
  have "slab_inv example_slab ?m" using example_slab_ok by (simp add: slab_inv_def example_slab_def)
  moreover have "slab_used example_slab ?m = {}" by (simp add: slab_used_def example_slab_def)
  moreover have "slab_region example_slab \<noteq> {}"
    by (simp add: slab_region_def slab_addr_def example_slab_def)
  moreover have "\<not> (8 > sl_slabSize example_slab)" by (simp add: example_slab_def)
  ultimately show ?thesis using slab_allocate_complete [of example_slab ?m 8] by metis
qed

text \<open>
  The ownership test of the slab resource accepts pointers far behind its region, because the capacity
  in bytes is added to a pointer to 8-byte words. Freeing such a foreign pointer clears a bit of a user slab:
  on the example resource, whose buffer ends at 0x1080, freeing 0x1210 changes the contents of slab 0.
\<close>

theorem slab_foreign_free_corrupts:
  "slab_addr example_slab (slU example_slab) \<le> unat (0x1210 :: u64) \<and>
   slab_pointerIsOwned example_slab 0x1210 \<and>
   (\<exists>m'. slab_deallocate example_slab 0x1210 (\<lambda>_. 7) = Some m' \<and>
      m' (slab_ptr example_slab 0) = 6)"
  by (simp add: slab_addr_def example_slab_def slab_pointerIsOwned_def slab_deallocate_def Let_def
      slab_clear_solo atomicLoad_def getUserRegionStart_def bitmap_ptr_def slab_ptr_def)

end
