(* ===== verification/Memory_Buckets.thy ===== *)
theory Memory_Buckets
  imports Complex_Main Rt_Align Rt_Status Bump_Resource FreeList_Resource Slab_Contract
begin

text \<open>
  How the memory of a node is cut into buckets (\<^verbatim>\<open>pando-rt/src/memory_resources.cpp\<close>): one bucket of slabs per
  block size, one for the free list and the rest for the bump resource. The sizes of the slab buckets
  are shares of the buffer computed in binary floating point; the rounding of that arithmetic is modelled on
  rationals. Constructors return in the sum type, since a bucket that does not fit aborts the program.
\<close>

subsection \<open>Floating point\<close>

function bit_length :: "int \<Rightarrow> int" where
  "bit_length n = (if n \<le> 0 then 0 else 1 + bit_length (n div 2))"
  by pat_completeness auto

termination
  by (relation "measure nat") auto

declare bit_length.simps [simp del]

definition two_pow :: "int \<Rightarrow> rat" where
  "two_pow e = (if 0 \<le> e then 2 ^ nat e else 1 / 2 ^ nat (- e))"

text \<open>The exponent of a positive number, and the nearest number with \<open>prec\<close> significant bits, ties to even.\<close>

definition binary_exponent :: "rat \<Rightarrow> int" where
  "binary_exponent x =
     (let (p, q) = quotient_of x; e = bit_length p - bit_length q
      in if two_pow e \<le> x then e else e - 1)"

definition round_half_even :: "rat \<Rightarrow> int" where
  "round_half_even x =
     (let f = \<lfloor>x\<rfloor>; d = x - of_int f in
      if d < 1 / 2 then f else if 1 / 2 < d then f + 1 else if even f then f else f + 1)"

definition float_round :: "nat \<Rightarrow> rat \<Rightarrow> rat" where
  "float_round prec x =
     (if x \<le> 0 then 0
      else let ulp = two_pow (binary_exponent x - (int prec - 1))
           in of_int (round_half_even (x / ulp)) * ulp)"

abbreviation to_double :: "rat \<Rightarrow> rat" where "to_double \<equiv> float_round 53"
abbreviation to_float :: "rat \<Rightarrow> rat" where "to_float \<equiv> float_round 24"

subsection \<open>Buckets\<close>

record MemoryBucket =
  mb_ratio :: rat
  mb_bytes :: u64
  mb_start :: u64

definition alignStartAndRound ::
  "u64 \<Rightarrow> MemoryBucket \<Rightarrow> MemoryBucket \<Rightarrow> u64 \<Rightarrow> u64 \<Rightarrow> MemoryBucket or_abort" where
  "alignStartAndRound Alignment slabBucket previousBucket bufferStart bufferSize =
     (let maximumAlignedChunks =
            word_of_int \<lfloor>to_double (mb_ratio slabBucket * to_double (of_nat (unat bufferSize)))\<rfloor> div Alignment;
          slabBytes = maximumAlignedChunks * Alignment;
          slabStart = mb_start previousBucket + mb_bytes previousBucket;
          remainingBytes = bufferSize - (mb_start previousBucket - bufferStart);
          (alignmentResult, _, _) = align Alignment slabBytes slabStart remainingBytes
      in if alignmentResult = 0 then Inl (PANDO_ABORT ''Failed to align the a memory bucket'')
         else Inr (slabBucket\<lparr>mb_bytes := slabBytes, mb_start := alignmentResult\<rparr>))"

definition alignof_MaxAlignT :: u64 where "alignof_MaxAlignT = 16"

definition initializeFreeListResourceBucket ::
  "MemoryBucket \<Rightarrow> u64 \<Rightarrow> u64 \<Rightarrow> MemoryBucket or_abort" where
  "initializeFreeListResourceBucket previousBucket bufferStart bufferSize =
     (let flBytes = freelist_computeMetadataSize;
          flRatio = to_double (to_double (of_nat (unat flBytes)) / to_double (of_nat (unat bufferSize)));
          flStart = mb_start previousBucket + mb_bytes previousBucket;
          remainingBytes = bufferSize - (flStart - bufferStart);
          (freeListAlignResult, _, _) = align alignof_MaxAlignT flBytes flStart remainingBytes
      in if freeListAlignResult = 0 then Inl (PANDO_ABORT ''Failed to align the FreeList resource'')
         else Inr \<lparr>mb_ratio = flRatio, mb_bytes = flBytes, mb_start = freeListAlignResult\<rparr>)"

definition initializeBumpResourceBucket ::
  "MemoryBucket \<Rightarrow> u64 \<Rightarrow> u64 \<Rightarrow> MemoryBucket or_abort" where
  "initializeBumpResourceBucket previousBucket bufferStart bufferSize =
     (let bumpStart = mb_start previousBucket + mb_bytes previousBucket;
          bumpMinimumSize = bump_computeMetadataSize;
          (bumpAlignResult, _, remainingBytes) =
            align alignof_MaxAlignT bumpMinimumSize bumpStart (bufferSize - (bumpStart - bufferStart))
      in if bumpAlignResult = 0 \<or> remainingBytes \<le> bumpMinimumSize
         then Inl (PANDO_ABORT ''Main memory resource buckets breakdown is misconfigured'')
         else Inr \<lparr>mb_ratio = to_double (to_double (of_nat (unat remainingBytes)) / to_double (of_nat (unat bufferSize))),
                   mb_bytes = remainingBytes, mb_start = bumpAlignResult\<rparr>)"

text \<open>The constructors run through the buckets in order and stop at the first that aborts.\<close>

record L2SPResourceRatioBreakdown =
  l2b_bucket8 :: MemoryBucket
  l2b_bucket16 :: MemoryBucket
  l2b_bucket32 :: MemoryBucket
  l2b_freeList :: MemoryBucket
  l2b_bump :: MemoryBucket

definition L2SPResourceRatioBreakdown_new :: "u64 \<Rightarrow> u64 \<Rightarrow> L2SPResourceRatioBreakdown or_abort" where
  "L2SPResourceRatioBreakdown_new bufferStart bufferSize =
     (let bucket8 = \<lparr>mb_ratio = to_double 0.2, mb_bytes = 0, mb_start = 0\<rparr>;
          bucket16 = \<lparr>mb_ratio = to_float 0.3, mb_bytes = 0, mb_start = 0\<rparr>;
          bucket32 = \<lparr>mb_ratio = to_double 0.4, mb_bytes = 0, mb_start = 0\<rparr>;
          startBucket = \<lparr>mb_ratio = 0, mb_bytes = 0, mb_start = bufferStart\<rparr>
      in abort_bind (alignStartAndRound 8 bucket8 startBucket bufferStart bufferSize) (\<lambda>b8.
         abort_bind (alignStartAndRound 16 bucket16 b8 bufferStart bufferSize) (\<lambda>b16.
         abort_bind (alignStartAndRound 32 bucket32 b16 bufferStart bufferSize) (\<lambda>b32.
         abort_bind (initializeFreeListResourceBucket b32 bufferStart bufferSize) (\<lambda>fl.
         abort_bind (initializeBumpResourceBucket fl bufferStart bufferSize) (\<lambda>bump.
           Inr \<lparr>l2b_bucket8 = b8, l2b_bucket16 = b16, l2b_bucket32 = b32, l2b_freeList = fl, l2b_bump = bump\<rparr>))))))"

record MainMemoryResourceRatioBreakdown =
  mmb_bucket8 :: MemoryBucket
  mmb_bucket16 :: MemoryBucket
  mmb_bucket32 :: MemoryBucket
  mmb_bucket64 :: MemoryBucket
  mmb_bucket128 :: MemoryBucket
  mmb_freeList :: MemoryBucket
  mmb_bump :: MemoryBucket

definition MainMemoryResourceRatioBreakdown_new :: "u64 \<Rightarrow> u64 \<Rightarrow> MainMemoryResourceRatioBreakdown or_abort" where
  "MainMemoryResourceRatioBreakdown_new bufferStart bufferSize =
     (let bucket8 = \<lparr>mb_ratio = to_float 0.006, mb_bytes = 0, mb_start = 0\<rparr>;
          bucket16 = \<lparr>mb_ratio = to_float 0.006, mb_bytes = 0, mb_start = 0\<rparr>;
          bucket32 = \<lparr>mb_ratio = to_float 0.006, mb_bytes = 0, mb_start = 0\<rparr>;
          bucket64 = \<lparr>mb_ratio = to_float 0.063, mb_bytes = 0, mb_start = 0\<rparr>;
          bucket128 = \<lparr>mb_ratio = to_float 0.031, mb_bytes = 0, mb_start = 0\<rparr>;
          startBucket = \<lparr>mb_ratio = 0, mb_bytes = 0, mb_start = bufferStart\<rparr>
      in abort_bind (alignStartAndRound 8 bucket8 startBucket bufferStart bufferSize) (\<lambda>b8.
         abort_bind (alignStartAndRound 16 bucket16 b8 bufferStart bufferSize) (\<lambda>b16.
         abort_bind (alignStartAndRound 32 bucket32 b16 bufferStart bufferSize) (\<lambda>b32.
         abort_bind (alignStartAndRound 64 bucket64 b32 bufferStart bufferSize) (\<lambda>b64.
         abort_bind (alignStartAndRound 128 bucket128 b64 bufferStart bufferSize) (\<lambda>b128.
         abort_bind (initializeFreeListResourceBucket b128 bufferStart bufferSize) (\<lambda>fl.
         abort_bind (initializeBumpResourceBucket fl bufferStart bufferSize) (\<lambda>bump.
           Inr \<lparr>mmb_bucket8 = b8, mmb_bucket16 = b16, mmb_bucket32 = b32, mmb_bucket64 = b64,
                mmb_bucket128 = b128, mmb_freeList = fl, mmb_bump = bump\<rparr>))))))))"

subsection \<open>Rounding errors\<close>

lemma two_pow_pos [simp]: "0 < two_pow e"
  by (simp add: two_pow_def)

lemma two_pow_powi: "two_pow e = 2 powi e"
  by (simp add: two_pow_def power_int_def field_simps)

lemma two_pow_add: "two_pow (a + b) = two_pow a * two_pow b"
  by (simp add: two_pow_powi power_int_add)

lemma bit_length_bounds:
  assumes "0 < n"
  shows "0 < bit_length n" "two_pow (bit_length n - 1) \<le> of_int n" "of_int n < two_pow (bit_length n)"
proof -
  have "0 < bit_length n \<and> 2 ^ nat (bit_length n - 1) \<le> n \<and> n < 2 ^ nat (bit_length n)"
    using assms
  proof (induction n rule: bit_length.induct)
    case (1 n)
    have b: "bit_length n = 1 + bit_length (n div 2)" using 1(2) by (subst bit_length.simps) simp
    show ?case
    proof (cases "n = 1")
      case True
      then show ?thesis using bit_length.simps [of 1] bit_length.simps [of 0] by simp
    next
      case False
      with 1 have ih: "0 < bit_length (n div 2)" "2 ^ nat (bit_length (n div 2) - 1) \<le> n div 2"
        "n div 2 < 2 ^ nat (bit_length (n div 2))" by simp_all
      then have e: "nat (bit_length n - 1) = Suc (nat (bit_length (n div 2) - 1))"
        "nat (bit_length n) = Suc (nat (bit_length (n div 2)))" using b by linarith+
      have "2 * (n div 2) \<le> n" "n < 2 * (n div 2) + 2" by simp_all
      then show ?thesis using ih b unfolding e power_Suc by linarith
    qed
  qed
  then have l: "0 < bit_length n" "(2 :: int) ^ nat (bit_length n - 1) \<le> n" "n < 2 ^ nat (bit_length n)" by simp_all
  show "0 < bit_length n" by (rule l)
  have "(of_int (2 ^ nat (bit_length n - 1)) :: rat) \<le> of_int n" "(of_int n :: rat) < of_int (2 ^ nat (bit_length n))"
    using l by (simp_all only: of_int_le_iff of_int_less_iff)
  then show "two_pow (bit_length n - 1) \<le> of_int n" "of_int n < two_pow (bit_length n)"
    using l(1) by (simp_all add: two_pow_def)
qed

lemma binary_exponent_le:
  assumes "0 < x"
  shows "two_pow (binary_exponent x) \<le> x"
proof -
  obtain p q where pq: "quotient_of x = (p, q)" by fastforce
  then have x: "x = of_int p / of_int q" and q: "0 < q" by (simp_all add: quotient_of_div quotient_of_denom_pos)
  have p: "0 < p" using assms q unfolding x by (simp add: zero_less_divide_iff)
  let ?e = "bit_length p - bit_length q"
  have "two_pow (?e - 1) * two_pow (bit_length q) = two_pow (bit_length p - 1)"
    by (simp flip: two_pow_add)
  also have "\<dots> \<le> of_int p" by (rule bit_length_bounds [OF p])
  also have "of_int p = x * of_int q" using q by (simp add: x)
  also have "\<dots> \<le> x * two_pow (bit_length q)"
    using bit_length_bounds(3) [OF q] assms by (intro mult_left_mono) simp_all
  finally have "two_pow (?e - 1) \<le> x" by simp
  then show ?thesis by (simp add: binary_exponent_def pq Let_def)
qed

lemma round_half_even_le: "of_int (round_half_even x) \<le> x + 1 / 2"
proof -
  have f: "of_int \<lfloor>x\<rfloor> \<le> x" by simp
  show ?thesis
  proof (cases "round_half_even x = \<lfloor>x\<rfloor>")
    case False
    then have "round_half_even x = \<lfloor>x\<rfloor> + 1" "\<not> x - of_int \<lfloor>x\<rfloor> < 1 / 2"
      by (auto simp: round_half_even_def Let_def split: if_splits)
    then show ?thesis unfolding of_int_add by linarith
  qed (use f in linarith)
qed

text \<open>Rounding enlarges a number by at most one part in a million.\<close>

lemma float_round_le:
  assumes "0 \<le> x" "24 \<le> prec"
  shows "float_round prec x \<le> x * (1 + 1 / 10 ^ 6)"
proof (cases "x = 0")
  case False
  then have x: "0 < x" using assms(1) by simp
  let ?u = "two_pow (binary_exponent x - (int prec - 1))"
  have "?u * two_pow (int prec - 1) = two_pow (binary_exponent x)" by (simp flip: two_pow_add)
  then have "?u * two_pow (int prec - 1) \<le> x" using binary_exponent_le [OF x] by simp
  moreover have "two_pow 23 \<le> two_pow (int prec - 1)"
    using assms(2) unfolding two_pow_powi by (intro power_int_increasing) simp_all
  then have "?u * two_pow 23 \<le> ?u * two_pow (int prec - 1)" by (intro mult_left_mono) (simp_all add: less_imp_le)
  ultimately have u: "?u * 8388608 \<le> x" by (simp add: two_pow_def)
  have "float_round prec x = of_int (round_half_even (x / ?u)) * ?u" using x by (simp add: float_round_def Let_def)
  also have "\<dots> \<le> (x / ?u + 1 / 2) * ?u"
    using round_half_even_le [of "x / ?u"] by (intro mult_right_mono) (simp_all add: less_imp_le)
  also have "\<dots> = x + ?u / 2" by (simp add: algebra_simps less_imp_neq [OF two_pow_pos, symmetric])
  also have "\<dots> \<le> x * (1 + 1 / 10 ^ 6)" using u x by simp
  finally show ?thesis .
qed (simp add: float_round_def)

lemma float_round_nonneg: "0 \<le> float_round prec x"
proof (cases "0 < x")
  case True
  let ?u = "two_pow (binary_exponent x - (int prec - 1))"
  have "0 \<le> x / ?u" using True by (simp add: less_imp_le)
  then have "0 \<le> \<lfloor>x / ?u\<rfloor>" by simp
  then have "0 \<le> round_half_even (x / ?u)" by (simp add: round_half_even_def Let_def)
  then show ?thesis using True by (simp add: float_round_def Let_def less_imp_le)
qed (simp add: float_round_def)

subsection \<open>The layout\<close>

text \<open>A slab bucket gets at most its share of the buffer, with a margin for the rounding.\<close>

definition slab_share :: "rat \<Rightarrow> u64 \<Rightarrow> u64" where
  "slab_share q n = word_of_int \<lfloor>to_double (q * to_double (of_nat (unat n)))\<rfloor>"

lemma slab_share_le:
  assumes "0 \<le> q" "q \<le> 1" "24 \<le> prec"
  shows "of_nat (unat (slab_share (float_round prec q) n)) \<le> q * of_nat (unat n) * (1 + 1 / 10 ^ 5)"
proof -
  let ?c = "1 + 1 / 10 ^ 6 :: rat" and ?q = "float_round prec q" and ?n = "of_nat (unat n) :: rat"
  let ?x = "to_double (?q * to_double ?n)"
  have q: "0 \<le> ?q" "?q \<le> q * ?c" using float_round_nonneg float_round_le [OF assms(1,3)] by simp_all
  have n: "0 \<le> to_double ?n" "to_double ?n \<le> ?n * ?c"
    by (rule float_round_nonneg, rule float_round_le) (rule of_nat_0_le_iff, simp)
  have "?x \<le> ?q * to_double ?n * ?c" using q n by (intro float_round_le) simp_all
  also have "\<dots> \<le> (q * ?c) * (?n * ?c) * ?c"
    using q n assms(1) by (intro mult_right_mono mult_mono) simp_all
  also have "\<dots> = q * ?n * (?c * ?c * ?c)" by (simp add: algebra_simps)
  also have "\<dots> \<le> q * ?n * (1 + 1 / 10 ^ 5)" using assms(1) by (intro mult_left_mono mult_nonneg_nonneg of_nat_0_le_iff) simp_all
  finally have x: "?x \<le> q * ?n * (1 + 1 / 10 ^ 5)" .
  have "0 \<le> ?x" by (rule float_round_nonneg)
  then have f: "0 \<le> \<lfloor>?x\<rfloor>" by simp
  have "unat (word_of_int \<lfloor>?x\<rfloor> :: u64) = nat (\<lfloor>?x\<rfloor> mod 2 ^ 64)"
    by (simp add: unsigned_of_int take_bit_eq_mod)
  also have "\<lfloor>?x\<rfloor> mod 2 ^ 64 \<le> \<lfloor>?x\<rfloor>" using f by (rule zmod_le_nonneg_dividend)
  finally have "unat (slab_share ?q n) \<le> nat \<lfloor>?x\<rfloor>" by (simp add: slab_share_def nat_mono)
  then have "(of_nat (unat (slab_share ?q n)) :: rat) \<le> of_nat (nat \<lfloor>?x\<rfloor>)" by (simp only: of_nat_le_iff)
  also have "\<dots> = of_int \<lfloor>?x\<rfloor>" using f by simp
  also have "\<dots> \<le> ?x" by simp
  finally show ?thesis using x by simp
qed

lemma align_success_round:
  assumes "k < 64" "ptr \<noteq> 0" "unat ptr + unat space < 2 ^ 64"
    and "align (2 ^ k) n ptr space = (r, ptr', space')" "r \<noteq> 0"
  shows "2 ^ k dvd unat r" "unat ptr \<le> unat r" "unat r < unat ptr + 2 ^ k" "unat n \<le> unat space'"
    "unat r + unat space' = unat ptr + unat space"
proof -
  note s = align_success [OF assms(1) refl assms(2,3,4,5)]
  then show "2 ^ k dvd unat r" "unat ptr \<le> unat r" "unat n \<le> unat space'"
    "unat r + unat space' = unat ptr + unat space" by simp_all
  have "r = word_of_nat (round_up (2 ^ k) (unat ptr))"
    using assms(4,5) by (auto simp: align_spec_nat [OF assms(1) refl assms(2,3)] split: if_splits)
  then have "unat r \<le> round_up (2 ^ k) (unat ptr)" using s by (simp add: unat_of_nat)
  also have "\<dots> < unat ptr + 2 ^ k" by (rule round_up_props) simp
  finally show "unat r < unat ptr + 2 ^ k" .
qed

text \<open>
  \<open>bucket_end\<close> is the first byte behind a bucket. Each bucket starts at most its alignment behind the end of
  the previous one, and a slab bucket is not larger than its share.
\<close>

definition bucket_end :: "MemoryBucket \<Rightarrow> nat" where
  "bucket_end b = unat (mb_start b) + unat (mb_bytes b)"

definition bucket_in :: "u64 \<Rightarrow> u64 \<Rightarrow> MemoryBucket \<Rightarrow> bool" where
  "bucket_in s n b \<longleftrightarrow> s \<noteq> 0 \<and> unat s \<le> unat (mb_start b) \<and> bucket_end b \<le> unat s + unat n \<and>
     unat s + 2 * unat n < 2 ^ 64"

lemma bucket_in_sums:
  assumes "bucket_in s n b"
  shows "unat (mb_start b + mb_bytes b) = bucket_end b" "mb_start b + mb_bytes b \<noteq> 0"
    "unat (n - (mb_start b - s)) = unat n - (unat (mb_start b) - unat s)"
    "unat (n - (mb_start b + mb_bytes b - s)) = unat n - (bucket_end b - unat s)"
proof -
  show e: "unat (mb_start b + mb_bytes b) = bucket_end b"
    using assms unat_add_no_wrap [of "mb_start b" "mb_bytes b"] by (simp add: bucket_in_def bucket_end_def)
  have d: "unat (mb_start b - s) = unat (mb_start b) - unat s" "unat (mb_start b + mb_bytes b - s) = bucket_end b - unat s"
    using assms e by (simp_all add: unat_sub_no_wrap bucket_in_def bucket_end_def)
  have le: "unat (mb_start b) - unat s \<le> unat n" "bucket_end b - unat s \<le> unat n"
    using assms unfolding bucket_in_def bucket_end_def by linarith+
  have "0 < bucket_end b" using assms unat_gt_0 [of s] unfolding bucket_in_def bucket_end_def by linarith
  then show "mb_start b + mb_bytes b \<noteq> 0" using e by auto
  show "unat (n - (mb_start b - s)) = unat n - (unat (mb_start b) - unat s)"
    "unat (n - (mb_start b + mb_bytes b - s)) = unat n - (bucket_end b - unat s)"
    using le d by (simp_all only: unat_sub_no_wrap word_le_nat_alt)
qed

lemma alignStartAndRound_layout:
  assumes r: "alignStartAndRound (2 ^ k) b prev s n = Inr b'" and k: "k < 64" and p: "bucket_in s n prev"
  shows "bucket_end prev \<le> unat (mb_start b')" "unat (mb_start b') < bucket_end prev + 2 ^ k"
    "2 ^ k dvd unat (mb_start b')" "unat (mb_bytes b') \<le> unat (slab_share (mb_ratio b) n)"
    "s \<noteq> 0" "unat s \<le> unat (mb_start b')"
proof -
  let ?a = "2 ^ k :: u64"
  let ?ptr = "mb_start prev + mb_bytes prev" and ?sp = "n - (mb_start prev - s)"
  obtain x y z where al: "align ?a (slab_share (mb_ratio b) n div ?a * ?a) ?ptr ?sp = (x, y, z)" by (metis prod_cases3)
  then have x: "x \<noteq> 0" and b': "b' = b\<lparr>mb_bytes := slab_share (mb_ratio b) n div ?a * ?a, mb_start := x\<rparr>"
    using r by (auto simp: alignStartAndRound_def slab_share_def Let_def split: if_splits)
  note u = bucket_in_sums [OF p]
  have "unat ?ptr + unat ?sp < 2 ^ 64" unfolding u(1,3) using p by (simp add: bucket_in_def bucket_end_def)
  note al = align_success_round [OF k u(2) this al x]
  show "bucket_end prev \<le> unat (mb_start b')" "unat (mb_start b') < bucket_end prev + 2 ^ k" "2 ^ k dvd unat (mb_start b')"
    using al(1-3) u(1) by (simp_all add: b')
  then show "s \<noteq> 0" "unat s \<le> unat (mb_start b')" using p by (simp_all add: bucket_in_def bucket_end_def)
  have d: "unat (slab_share (mb_ratio b) n div ?a) = unat (slab_share (mb_ratio b) n) div 2 ^ k"
    using k by (simp add: unat_div unat_pow2_u64)
  have "unat (slab_share (mb_ratio b) n) div 2 ^ k * 2 ^ k < 2 ^ 64"
    using order.strict_trans1 [OF div_times_less_eq_dividend unat_lt_2p64] by simp
  then have "unat (slab_share (mb_ratio b) n div ?a * ?a) = unat (slab_share (mb_ratio b) n) div 2 ^ k * 2 ^ k"
    using unat_mult_no_wrap [of "slab_share (mb_ratio b) n div ?a" ?a] d k by (simp add: unat_pow2_u64)
  then show "unat (mb_bytes b') \<le> unat (slab_share (mb_ratio b) n)" by (simp add: b')
qed

lemma initializeFreeList_layout:
  assumes r: "initializeFreeListResourceBucket prev s n = Inr b'" and p: "bucket_in s n prev"
  shows "bucket_end prev \<le> unat (mb_start b')" "bucket_end b' = unat (mb_start b') + 32" "bucket_in s n b'"
proof -
  let ?ptr = "mb_start prev + mb_bytes prev" and ?sp = "n - (mb_start prev + mb_bytes prev - s)"
  obtain x y z where al: "align (2 ^ 4) 32 ?ptr ?sp = (x, y, z)" by (metis prod_cases3)
  then have x: "x \<noteq> 0" and b': "mb_start b' = x" "mb_bytes b' = 32"
    using r by (auto simp: initializeFreeListResourceBucket_def freelist_computeMetadataSize_def sizeof_FreeListNode_def
        alignof_MaxAlignT_def Let_def split: if_splits)
  note u = bucket_in_sums [OF p]
  have s: "unat ?ptr + unat ?sp < 2 ^ 64" "unat ?ptr + unat ?sp = unat s + unat n" "unat s \<le> bucket_end prev"
    unfolding u(1,4) using p by (simp_all add: bucket_in_def bucket_end_def)
  note al = align_success_round [OF _ u(2) s(1) al x]
  show "bucket_end prev \<le> unat (mb_start b')" "bucket_end b' = unat (mb_start b') + 32"
    using al(2) u(1) by (simp_all add: b' bucket_end_def)
  show "bucket_in s n b'" using al(2,4,5) u(1) s p by (simp add: bucket_in_def bucket_end_def b')
qed

lemma initializeBump_layout:
  assumes r: "initializeBumpResourceBucket prev s n = Inr b'" and p: "bucket_in s n prev"
  shows "bucket_end prev \<le> unat (mb_start b')" "bucket_end b' = unat s + unat n" "s \<noteq> 0" "unat s \<le> unat (mb_start b')"
proof -
  let ?ptr = "mb_start prev + mb_bytes prev" and ?sp = "n - (mb_start prev + mb_bytes prev - s)"
  obtain x y z where al: "align (2 ^ 4) 16 ?ptr ?sp = (x, y, z)" by (metis prod_cases3)
  then have x: "x \<noteq> 0" and b': "mb_start b' = x" "mb_bytes b' = z"
    using r by (auto simp: initializeBumpResourceBucket_def bump_computeMetadataSize_def
        alignof_MaxAlignT_def Let_def split: if_splits)
  note u = bucket_in_sums [OF p]
  have s: "unat ?ptr + unat ?sp < 2 ^ 64" "unat ?ptr + unat ?sp = unat s + unat n" "unat s \<le> bucket_end prev"
    unfolding u(1,4) using p by (simp_all add: bucket_in_def bucket_end_def)
  note al = align_success_round [OF _ u(2) s(1) al x]
  show "bucket_end prev \<le> unat (mb_start b')" "bucket_end b' = unat s + unat n" "unat s \<le> unat (mb_start b')"
    using al(2,5) u(1) s by (simp_all add: b' bucket_end_def)
  show "s \<noteq> 0" using p by (simp add: bucket_in_def)
qed

text \<open>The ends of the slab buckets, measured from the start of the buffer in rationals.\<close>

definition reach_of :: "u64 \<Rightarrow> MemoryBucket \<Rightarrow> rat" where
  "reach_of s b = of_nat (bucket_end b) - of_nat (unat s)"

lemma slab_bucket_reach:
  assumes r: "alignStartAndRound A \<lparr>mb_ratio = float_round prec q, mb_bytes = 0, mb_start = 0\<rparr> prev s n = Inr b'"
    and A: "A = 2 ^ k" "k < 64" and p: "bucket_in s n prev" and q: "0 \<le> q" "q \<le> 1" "24 \<le> prec"
  shows "bucket_end prev \<le> unat (mb_start b')"
    "reach_of s b' \<le> reach_of s prev + 2 ^ k + q * of_nat (unat n) * (1 + 1 / 10 ^ 5)"
proof -
  note l = alignStartAndRound_layout [OF r [unfolded A(1)] A(2) p]
  show "bucket_end prev \<le> unat (mb_start b')" by (rule l)
  have "bucket_end b' \<le> bucket_end prev + 2 ^ k + unat (slab_share (float_round prec q) n)"
    using l(2,4) by (simp add: bucket_end_def)
  then have "(of_nat (bucket_end b') :: rat) \<le>
      of_nat (bucket_end prev + 2 ^ k + unat (slab_share (float_round prec q) n))"
    by (simp only: of_nat_le_iff)
  then show "reach_of s b' \<le> reach_of s prev + 2 ^ k + q * of_nat (unat n) * (1 + 1 / 10 ^ 5)"
    using slab_share_le [OF q, of n] unfolding reach_of_def of_nat_add of_nat_power of_nat_numeral by linarith
qed

lemma bucket_in_reach:
  assumes "bucket_in s n prev" "bucket_end prev \<le> unat (mb_start b)" "reach_of s b \<le> of_nat (unat n)"
  shows "bucket_in s n b"
proof -
  have "(of_nat (bucket_end b) :: rat) \<le> of_nat (unat s + unat n)"
    using assms(3) unfolding reach_of_def of_nat_add by linarith
  then have "bucket_end b \<le> unat s + unat n" by (simp only: of_nat_le_iff)
  then show ?thesis using assms(1,2) by (simp add: bucket_in_def bucket_end_def)
qed

fun in_order :: "nat \<Rightarrow> MemoryBucket list \<Rightarrow> bool" where
  "in_order e [] \<longleftrightarrow> True"
| "in_order e (b # bs) \<longleftrightarrow> e \<le> unat (mb_start b) \<and> in_order (bucket_end b) bs"

lemma empty_bucket_in:
  "s \<noteq> 0 \<Longrightarrow> unat s + 2 * unat n < 2 ^ 64 \<Longrightarrow> bucket_in s n \<lparr>mb_ratio = 0, mb_bytes = 0, mb_start = s\<rparr>"
  by (simp add: bucket_in_def bucket_end_def)

lemma L2SP_layout:
  assumes new: "L2SPResourceRatioBreakdown_new s n = Inr bd"
    and s: "s \<noteq> 0" "unat s + 2 * unat n < 2 ^ 64" "2048 \<le> unat n"
  shows "in_order (unat s) [l2b_bucket8 bd, l2b_bucket16 bd, l2b_bucket32 bd, l2b_freeList bd, l2b_bump bd]"
    "bucket_end (l2b_bump bd) = unat s + unat n" "mb_bytes (l2b_freeList bd) = 32"
proof -
  let ?st = "\<lparr>mb_ratio = 0, mb_bytes = 0, mb_start = s\<rparr>" and ?N = "of_nat (unat n) :: rat"
  obtain b8 b16 b32 fl bp where
    b: "alignStartAndRound 8 \<lparr>mb_ratio = to_double 0.2, mb_bytes = 0, mb_start = 0\<rparr> ?st s n = Inr b8"
      "alignStartAndRound 16 \<lparr>mb_ratio = to_float 0.3, mb_bytes = 0, mb_start = 0\<rparr> b8 s n = Inr b16"
      "alignStartAndRound 32 \<lparr>mb_ratio = to_double 0.4, mb_bytes = 0, mb_start = 0\<rparr> b16 s n = Inr b32"
      "initializeFreeListResourceBucket b32 s n = Inr fl" "initializeBumpResourceBucket fl s n = Inr bp"
    and bd: "bd = \<lparr>l2b_bucket8 = b8, l2b_bucket16 = b16, l2b_bucket32 = b32, l2b_freeList = fl, l2b_bump = bp\<rparr>"
    using new unfolding L2SPResourceRatioBreakdown_new_def Let_def abort_bind_Inr by blast
  have N: "2048 \<le> ?N" using s(3) of_nat_le_iff [of 2048 "unat n", where ?'a = rat] by simp
  note i0 = empty_bucket_in [OF s(1,2)]
  have r0: "reach_of s ?st = 0" by (simp add: reach_of_def bucket_end_def)
  note r8 = slab_bucket_reach [OF b(1) _ _ i0, of 3, simplified]
  have i8: "bucket_in s n b8" using r8 r0 N by (intro bucket_in_reach [OF i0]) simp_all
  note r16 = slab_bucket_reach [OF b(2) _ _ i8, of 4, simplified]
  have i16: "bucket_in s n b16" using r8 r16 r0 N by (intro bucket_in_reach [OF i8]) simp_all
  note r32 = slab_bucket_reach [OF b(3) _ _ i16, of 5, simplified]
  have i32: "bucket_in s n b32" using r8 r16 r32 r0 N by (intro bucket_in_reach [OF i16]) simp_all
  note f = initializeFreeList_layout [OF b(4) i32]
  note p = initializeBump_layout [OF b(5) f(3)]
  show "in_order (unat s) [l2b_bucket8 bd, l2b_bucket16 bd, l2b_bucket32 bd, l2b_freeList bd, l2b_bump bd]"
    "bucket_end (l2b_bump bd) = unat s + unat n"
    using r8 r16 r32 f p by (simp_all add: bd bucket_end_def)
  show "mb_bytes (l2b_freeList bd) = 32" using f(2) by (simp add: bd bucket_end_def u64_eq_iff_unat)
qed

lemma Main_layout:
  assumes new: "MainMemoryResourceRatioBreakdown_new s n = Inr bd"
    and s: "s \<noteq> 0" "unat s + 2 * unat n < 2 ^ 64" "2048 \<le> unat n"
  shows "in_order (unat s) [mmb_bucket8 bd, mmb_bucket16 bd, mmb_bucket32 bd, mmb_bucket64 bd, mmb_bucket128 bd,
      mmb_freeList bd, mmb_bump bd]"
    "bucket_end (mmb_bump bd) = unat s + unat n" "mb_bytes (mmb_freeList bd) = 32"
proof -
  let ?st = "\<lparr>mb_ratio = 0, mb_bytes = 0, mb_start = s\<rparr>" and ?N = "of_nat (unat n) :: rat"
  obtain b8 b16 b32 b64 b128 fl bp where
    b: "alignStartAndRound 8 \<lparr>mb_ratio = to_float 0.006, mb_bytes = 0, mb_start = 0\<rparr> ?st s n = Inr b8"
      "alignStartAndRound 16 \<lparr>mb_ratio = to_float 0.006, mb_bytes = 0, mb_start = 0\<rparr> b8 s n = Inr b16"
      "alignStartAndRound 32 \<lparr>mb_ratio = to_float 0.006, mb_bytes = 0, mb_start = 0\<rparr> b16 s n = Inr b32"
      "alignStartAndRound 64 \<lparr>mb_ratio = to_float 0.063, mb_bytes = 0, mb_start = 0\<rparr> b32 s n = Inr b64"
      "alignStartAndRound 128 \<lparr>mb_ratio = to_float 0.031, mb_bytes = 0, mb_start = 0\<rparr> b64 s n = Inr b128"
      "initializeFreeListResourceBucket b128 s n = Inr fl" "initializeBumpResourceBucket fl s n = Inr bp"
    and bd: "bd = \<lparr>mmb_bucket8 = b8, mmb_bucket16 = b16, mmb_bucket32 = b32, mmb_bucket64 = b64,
      mmb_bucket128 = b128, mmb_freeList = fl, mmb_bump = bp\<rparr>"
    using new unfolding MainMemoryResourceRatioBreakdown_new_def Let_def abort_bind_Inr by blast
  have N: "2048 \<le> ?N" using s(3) of_nat_le_iff [of 2048 "unat n", where ?'a = rat] by simp
  note i0 = empty_bucket_in [OF s(1,2)]
  have r0: "reach_of s ?st = 0" by (simp add: reach_of_def bucket_end_def)
  note r8 = slab_bucket_reach [OF b(1) _ _ i0, of 3, simplified]
  have i8: "bucket_in s n b8" using r8 r0 N by (intro bucket_in_reach [OF i0]) simp_all
  note r16 = slab_bucket_reach [OF b(2) _ _ i8, of 4, simplified]
  have i16: "bucket_in s n b16" using r8 r16 r0 N by (intro bucket_in_reach [OF i8]) simp_all
  note r32 = slab_bucket_reach [OF b(3) _ _ i16, of 5, simplified]
  have i32: "bucket_in s n b32" using r8 r16 r32 r0 N by (intro bucket_in_reach [OF i16]) simp_all
  note r64 = slab_bucket_reach [OF b(4) _ _ i32, of 6, simplified]
  have i64: "bucket_in s n b64" using r8 r16 r32 r64 r0 N by (intro bucket_in_reach [OF i32]) simp_all
  note r128 = slab_bucket_reach [OF b(5) _ _ i64, of 7, simplified]
  have i128: "bucket_in s n b128" using r8 r16 r32 r64 r128 r0 N by (intro bucket_in_reach [OF i64]) simp_all
  note f = initializeFreeList_layout [OF b(6) i128]
  note p = initializeBump_layout [OF b(7) f(3)]
  show "in_order (unat s) [mmb_bucket8 bd, mmb_bucket16 bd, mmb_bucket32 bd, mmb_bucket64 bd, mmb_bucket128 bd,
      mmb_freeList bd, mmb_bump bd]"
    "bucket_end (mmb_bump bd) = unat s + unat n"
    using r8 r16 r32 r64 r128 f p by (simp_all add: bd bucket_end_def)
  show "mb_bytes (mmb_freeList bd) = 32" using f(2) by (simp add: bd bucket_end_def u64_eq_iff_unat)
qed

end
