(* ===== verification/Memory_Tiers.thy ===== *)
theory Memory_Tiers
  imports Memory_Buckets
begin

text \<open>
  The composed memory resources (\<^verbatim>\<open>pando-rt/src/memory_resources.cpp\<close>): slab resources of increasing slab size,
  tried in order, then the bump resource, then the free list, into which freed blocks of the bump
  resource go. This theory holds the chained operations and the invariant of such a composition for any list of
  slab resources; the two classes of the runtime are instances.
\<close>

subsection \<open>The chained operations\<close>

fun chainedTryAllocate :: "u64 \<Rightarrow> SlabMemoryResource list \<Rightarrow> rt_mem \<Rightarrow> (u64 \<times> rt_mem) option" where
  "chainedTryAllocate bytes [] m = Some (0, m)"
| "chainedTryAllocate bytes [allocator] m = slab_allocate allocator bytes m"
| "chainedTryAllocate bytes (first # rest) m =
     (case slab_allocate first bytes m of
        None \<Rightarrow> None
      | Some (ptr, m') \<Rightarrow> if ptr \<noteq> 0 then Some (ptr, m') else chainedTryAllocate bytes rest m')"

fun chainedTryDeallocate :: "u64 \<Rightarrow> SlabMemoryResource list \<Rightarrow> rt_mem \<Rightarrow> rt_mem option" where
  "chainedTryDeallocate p [] m = Some m"
| "chainedTryDeallocate p [allocator] m = slab_deallocate allocator p m"
| "chainedTryDeallocate p (first # rest) m =
     (if slab_pointerIsOwned first p then slab_deallocate first p m else chainedTryDeallocate p rest m)"

definition minimumBumpAllocation :: u64 where
  "minimumBumpAllocation = minimumAllowableAllocationSize"

text \<open>What both classes do behind the slabs, on the result of the chain and on a freed pointer.\<close>

fun allocate_rest ::
  "BumpMemoryResource \<Rightarrow> FreeListMemoryResource \<Rightarrow> u64 \<Rightarrow> u64 \<times> rt_mem \<Rightarrow> (u64 \<times> rt_mem) option" where
  "allocate_rest bump freeList bytes (result, m) =
     (if result = 0 then
        let roundedAllocation = max bytes minimumBumpAllocation in
        (case bump_allocate alignof_MaxAlignT bump roundedAllocation m of
           None \<Rightarrow> None
         | Some (result', m') \<Rightarrow>
             if result' = 0 then freelist_allocate freeList roundedAllocation m' else Some (result', m'))
      else Some (result, m))"

definition deallocate_rest ::
  "BumpMemoryResource \<Rightarrow> FreeListMemoryResource \<Rightarrow> u64 \<Rightarrow> u64 \<Rightarrow> rt_mem \<Rightarrow> rt_mem option or_abort" where
  "deallocate_rest bump freeList p bytes m =
     (if bump_pointerIsOwned bump p
      then registerFreedBlock freeList p (max bytes minimumBumpAllocation) m
      else Inr (Some m))"

text \<open>The composition for any list of slab resources: the chain starts at the first slab size that fits.\<close>

record tiers =
  tr_slabs :: "SlabMemoryResource list"
  tr_freeList :: FreeListMemoryResource
  tr_bump :: BumpMemoryResource

definition chain_for :: "tiers \<Rightarrow> u64 \<Rightarrow> SlabMemoryResource list" where
  "chain_for t n = dropWhile (\<lambda>s. sl_slabSize s < n) (tr_slabs t)"

definition tiers_allocate :: "tiers \<Rightarrow> u64 \<Rightarrow> rt_mem \<Rightarrow> (u64 \<times> rt_mem) option" where
  "tiers_allocate t n m =
     (case chainedTryAllocate n (chain_for t n) m of
        None \<Rightarrow> None
      | Some res \<Rightarrow> allocate_rest (tr_bump t) (tr_freeList t) n res)"

definition tiers_deallocate :: "tiers \<Rightarrow> u64 \<Rightarrow> u64 \<Rightarrow> rt_mem \<Rightarrow> rt_mem option or_abort" where
  "tiers_deallocate t p n m =
     (case chainedTryDeallocate p (chain_for t n) m of
        None \<Rightarrow> Inr None
      | Some m' \<Rightarrow> deallocate_rest (tr_bump t) (tr_freeList t) p n m')"

subsection \<open>Where the parts lie\<close>

definition slab_extent :: "SlabMemoryResource \<Rightarrow> nat set" where
  "slab_extent s = {unat (sl_initState s) ..< slab_addr s (slU s)}"

definition freelist_extent :: "FreeListMemoryResource \<Rightarrow> nat set" where
  "freelist_extent f = {unat (fl_mutex f) ..< unat (fl_head f) + 24}"

definition bump_extent :: "BumpMemoryResource \<Rightarrow> nat set" where
  "bump_extent b = {min (unat (bp_curOffset b)) (unat (bp_mutex b)) ..< unat (bp_buffer b) + unat (bp_capacity b)}"

definition tiers_ok :: "tiers \<Rightarrow> bool" where
  "tiers_ok t \<longleftrightarrow>
     (\<forall>s \<in> set (tr_slabs t). slab_ok s) \<and> bump_ok (tr_bump t) \<and>
     unat (fl_mutex (tr_freeList t)) + 8 \<le> unat (fl_head (tr_freeList t)) \<and>
     unat (fl_head (tr_freeList t)) + 24 < 2 ^ 64 \<and>
     sorted_wrt (\<lambda>a b. sl_slabSize a \<le> sl_slabSize b) (tr_slabs t) \<and>
     sorted_wrt (\<lambda>a b. slab_extent a \<inter> slab_extent b = {}) (tr_slabs t) \<and>
     (\<forall>s \<in> set (tr_slabs t). slab_extent s \<inter> freelist_extent (tr_freeList t) = {} \<and>
        slab_extent s \<inter> bump_extent (tr_bump t) = {}) \<and>
     freelist_extent (tr_freeList t) \<inter> bump_extent (tr_bump t) = {}"

lemma slab_footprint_extent:
  assumes "slab_ok s" "c \<in> slab_footprint s"
  shows "unat c \<in> slab_extent s" "unat c \<notin> slab_region s"
proof -
  note g = slab_geo [OF assms(1)]
  have "unat c < slab_addr s 0 \<and> unat (sl_initState s) \<le> unat c"
  proof (cases "c = sl_initState s")
    case True
    then show ?thesis using g(2,7) by (simp add: slab_addr_def)
  next
    case False
    then obtain i where i: "i < slB s" "c = bitmap_ptr s (word_of_nat i)"
      using assms(2) by (auto simp: slab_footprint_def)
    have "slB s * 8 \<le> slH s * slS s" by (rule div_times_less_eq_dividend)
    then have "8 * i < slH s * slS s" using i(1) by linarith
    then show ?thesis using i unat_bitmap_ptr [OF assms(1) i(1)] g(2,7) by (simp add: slab_addr_def)
  qed
  moreover have "slab_addr s 0 \<le> slab_addr s (slU s)" by (simp add: slab_addr_def)
  ultimately show "unat c \<in> slab_extent s" "unat c \<notin> slab_region s"
    by (auto simp: slab_extent_def slab_region_def)
qed

lemma slab_region_extent: "slab_ok s \<Longrightarrow> slab_region s \<subseteq> slab_extent s"
  using slab_geo(7) [of s] by (auto simp: slab_region_def slab_extent_def slab_addr_def)

lemma slab_used_region:
  assumes "slab_inv s m"
  shows "slab_used s m \<subseteq> slab_region s"
  using slab_bytes_region unfolding slab_used_def by auto

lemma slab_valid_region:
  assumes "slab_ok s" "slab_valid s p"
  shows "unat p \<in> slab_granted s p" "slab_granted s p \<subseteq> slab_region s" "p \<noteq> 0" "slab_pointerIsOwned s p"
proof -
  obtain k where k: "k < slU s" "p = slab_ptr s k" using assms(2) by (auto simp: slab_valid_def)
  show "unat p \<in> slab_granted s p" using slab_geo(2) [OF assms(1)] by (simp add: slab_granted_def)
  show "slab_granted s p \<subseteq> slab_region s"
    using slab_granted_ptr [OF assms(1) k(1)] slab_bytes_region [OF k(1)] k(2) by simp
  show "p \<noteq> 0" "slab_pointerIsOwned s p" using slab_ptr_owned [OF assms(1) k(1)] k(2) by simp_all
qed

lemma bump_footprint_extent:
  assumes "bump_ok b" "c \<in> bump_footprint b"
  shows "unat c \<in> bump_extent b" "unat c \<notin> bump_region b"
  using assms by (auto simp: bump_footprint_def bump_extent_def bump_region_def bump_ok_def)

lemma bump_region_extent: "bump_ok b \<Longrightarrow> bump_region b \<subseteq> bump_extent b"
  by (auto simp: bump_region_def bump_extent_def bump_ok_def)

lemma bump_used_region: "bump_inv k b m \<Longrightarrow> bump_used b m \<subseteq> bump_region b"
  by (auto simp: bump_inv_def bump_used_def bump_region_def word_le_nat_alt)

lemma sorted_wrt_pair:
  assumes "sorted_wrt (\<lambda>a b. f a \<inter> f b = {}) xs" "a \<in> set xs" "b \<in> set xs" "a \<noteq> b"
  shows "f a \<inter> f b = {}"
proof -
  obtain i j where "i < length xs" "j < length xs" "xs ! i = a" "xs ! j = b" "i \<noteq> j"
    using assms(2-4) by (metis in_set_conv_nth)
  then show ?thesis using sorted_wrt_nth_less [OF assms(1)] by (metis Int_commute linorder_neqE_nat)
qed

text \<open>The control cells of the parts are apart.\<close>

lemma tiers_ok_apart:
  assumes "tiers_ok t" "s \<in> set (tr_slabs t)"
  shows "s' \<in> set (tr_slabs t) \<Longrightarrow> s' \<noteq> s \<Longrightarrow> slab_extent s \<inter> slab_extent s' = {}"
    "slab_ok s" "slab_extent s \<inter> freelist_extent (tr_freeList t) = {}" "slab_extent s \<inter> bump_extent (tr_bump t) = {}"
  using assms sorted_wrt_pair [of slab_extent "tr_slabs t" s s'] unfolding tiers_ok_def by blast+

lemma tiers_ok_bump:
  assumes "tiers_ok t"
  shows "bump_ok (tr_bump t)" "freelist_extent (tr_freeList t) \<inter> bump_extent (tr_bump t) = {}"
  using assms unfolding tiers_ok_def by blast+

subsection \<open>A chain of slab resources\<close>

definition slabs_frame :: "SlabMemoryResource list \<Rightarrow> rt_mem \<Rightarrow> rt_mem \<Rightarrow> bool" where
  "slabs_frame ss m m' \<longleftrightarrow> (\<forall>c. c \<notin> (\<Union>s \<in> set ss. slab_footprint s) \<longrightarrow> m' c = m c)"

definition slabs_keep :: "SlabMemoryResource set \<Rightarrow> rt_mem \<Rightarrow> rt_mem \<Rightarrow> bool" where
  "slabs_keep S m m' \<longleftrightarrow> (\<forall>s \<in> S. slab_inv s m' \<and> slab_used s m' = slab_used s m)"

definition slab_grants :: "SlabMemoryResource \<Rightarrow> u64 \<Rightarrow> u64 \<Rightarrow> rt_mem \<Rightarrow> rt_mem \<Rightarrow> bool" where
  "slab_grants s n p m m' \<longleftrightarrow> p \<noteq> 0 \<and> slab_valid s p \<and> n \<le> sl_slabSize s \<and> slab_inv s m' \<and>
     slab_granted s p \<inter> slab_used s m = {} \<and> slab_used s m' = slab_used s m \<union> slab_granted s p"

lemma slab_allocate_grants:
  assumes "slab_inv s m"
  shows "(\<exists>m'. slab_allocate s n m = Some (0, m') \<and> slabs_keep {s} m m' \<and> slabs_frame [s] m m') \<or>
    (\<exists>p m'. slab_allocate s n m = Some (p, m') \<and> slab_grants s n p m m' \<and> slabs_frame [s] m m')"
  using assms
proof (cases rule: slab_allocate_cases [of s m n])
  case (slab k m')
  have ok: "slab_ok s" using assms by (simp add: slab_inv_def)
  have "slab_grants s n (slab_ptr s k) m m'"
    using slab slab_granted_ptr [OF ok slab(1)] slab_ptr_owned(1) [OF ok slab(1)]
    by (auto simp: slab_grants_def slab_valid_def)
  then show ?thesis using slab by (auto simp: slabs_frame_def)
qed (auto simp: slabs_keep_def slabs_frame_def)

lemma slabs_keep_frame:
  assumes "\<forall>s \<in> S. slab_inv s m" "slabs_frame ss m m'"
    and "\<And>s s'. s \<in> S \<Longrightarrow> s' \<in> set ss \<Longrightarrow> slab_footprint s \<inter> slab_footprint s' = {}"
  shows "slabs_keep S m m'"
  unfolding slabs_keep_def
proof
  fix s assume s: "s \<in> S"
  have "m' c = m c" if "c \<in> slab_footprint s" for c
    using assms(2) assms(3) [OF s] that unfolding slabs_frame_def by blast
  then show "slab_inv s m' \<and> slab_used s m' = slab_used s m" using assms(1) s by (intro slab_footprint_agree) auto
qed

lemma slabs_frame_trans:
  "slabs_frame [s] m m1 \<Longrightarrow> slabs_frame ss m1 m2 \<Longrightarrow> slabs_frame (s # ss) m m2"
  by (simp add: slabs_frame_def)

text \<open>A chain refuses the request and keeps every slab in use, or one of its resources grants it.\<close>

lemma chainedTryAllocate_cases:
  assumes "\<forall>s \<in> set ss. slab_inv s m" "sorted_wrt (\<lambda>a b. slab_footprint a \<inter> slab_footprint b = {}) ss"
  shows "(\<exists>m'. chainedTryAllocate n ss m = Some (0, m') \<and> slabs_keep (set ss) m m' \<and> slabs_frame ss m m') \<or>
    (\<exists>s p m'. chainedTryAllocate n ss m = Some (p, m') \<and> s \<in> set ss \<and> slab_grants s n p m m' \<and>
       slabs_keep (set ss - {s}) m m' \<and> slabs_frame ss m m')"
  using assms
proof (induction n ss m rule: chainedTryAllocate.induct)
  case (1 n m)
  then show ?case by (simp add: slabs_keep_def slabs_frame_def)
next
  case (2 n s m)
  then show ?case using slab_allocate_grants [of s m n] by (simp add: slabs_keep_def)
next
  case (3 n s s2 ss m)
  let ?r = "s2 # ss"
  have fp: "\<And>s'. s' \<in> set ?r \<Longrightarrow> slab_footprint s' \<inter> slab_footprint s = {}" using "3.prems"(2) by fastforce
  have inv: "slab_inv s m" "\<forall>s' \<in> set ?r. slab_inv s' m" using "3.prems"(1) by simp_all
  from slab_allocate_grants [OF inv(1), of n] show ?case
  proof (elim disjE exE conjE)
    fix p m1 assume a: "slab_allocate s n m = Some (p, m1)" "slab_grants s n p m m1" "slabs_frame [s] m m1"
    have "slabs_keep (set ?r - {s}) m m1"
      using a(3) inv(2) fp by (intro slabs_keep_frame [of _ _ "[s]"]) auto
    moreover have "slabs_frame (s # ?r) m m1" using a(3) by (simp add: slabs_frame_def)
    moreover have "chainedTryAllocate n (s # ?r) m = Some (p, m1)" using a(1,2) by (simp add: slab_grants_def)
    moreover have "set (s # ?r) - {s} = set ?r - {s}" by auto
    ultimately show ?thesis using a(2) by (metis list.set_intros(1))
  next
    fix m1 assume a: "slab_allocate s n m = Some (0, m1)" "slabs_keep {s} m m1" "slabs_frame [s] m m1"
    have k1: "slabs_keep (set ?r) m m1"
      using a(3) inv(2) fp by (intro slabs_keep_frame [of _ _ "[s]"]) auto
    then have inv1: "\<forall>s' \<in> set ?r. slab_inv s' m1" by (simp add: slabs_keep_def)
    have run: "chainedTryAllocate n (s # ?r) m = chainedTryAllocate n ?r m1" using a(1) by simp
    have keep: "slabs_keep {s} m m2" if "slabs_frame ?r m1 m2" for m2
    proof -
      have "slabs_keep {s} m1 m2"
      proof (rule slabs_keep_frame [OF _ that])
        show "\<forall>u \<in> {s}. slab_inv u m1" using a(2) by (simp add: slabs_keep_def)
        show "slab_footprint u \<inter> slab_footprint s' = {}" if "u \<in> {s}" "s' \<in> set ?r" for u s'
          using fp [OF that(2)] that(1) by blast
      qed
      then show ?thesis using a(2) by (simp add: slabs_keep_def)
    qed
    from "3.IH" [OF a(1) refl] inv1 "3.prems"(2)
    have "(\<exists>m2. chainedTryAllocate n ?r m1 = Some (0, m2) \<and> slabs_keep (set ?r) m1 m2 \<and> slabs_frame ?r m1 m2) \<or>
      (\<exists>s' p m2. chainedTryAllocate n ?r m1 = Some (p, m2) \<and> s' \<in> set ?r \<and> slab_grants s' n p m1 m2 \<and>
         slabs_keep (set ?r - {s'}) m1 m2 \<and> slabs_frame ?r m1 m2)" by simp
    then show ?thesis
    proof (elim disjE exE conjE)
      fix m2 assume b: "chainedTryAllocate n ?r m1 = Some (0, m2)" "slabs_keep (set ?r) m1 m2" "slabs_frame ?r m1 m2"
      have "slabs_keep (set (s # ?r)) m m2" using keep [OF b(3)] b(2) k1 by (simp add: slabs_keep_def)
      then show ?thesis using b slabs_frame_trans [OF a(3) b(3)] run by auto
    next
      fix s' p m2
      assume b: "chainedTryAllocate n ?r m1 = Some (p, m2)" "s' \<in> set ?r" "slab_grants s' n p m1 m2"
        "slabs_keep (set ?r - {s'}) m1 m2" "slabs_frame ?r m1 m2"
      have "slabs_keep (set (s # ?r) - {s'}) m m2" using keep [OF b(5)] b(4) k1 by (auto simp: slabs_keep_def)
      moreover have "slab_grants s' n p m m2" using b(2,3) k1 by (auto simp: slab_grants_def slabs_keep_def)
      ultimately show ?thesis using b(1,2) slabs_frame_trans [OF a(3) b(5)] run by (metis list.set_intros(2))
    qed
  qed
qed

subsection \<open>The invariant\<close>

text \<open>
  A live block is kept with the bytes set aside for it: a slab, or a block of the bump resource of at least 24
  bytes. \<open>pool\<close> are the blocks of the free list, all of them from the bump resource.
\<close>

type_synonym grant = "u64 \<times> u64 \<times> nat set"

abbreviation asked :: "grant \<Rightarrow> u64 \<times> u64" where "asked g \<equiv> (fst g, fst (snd g))"
abbreviation granted_bytes :: "grant \<Rightarrow> nat set" where "granted_bytes g \<equiv> snd (snd g)"

definition in_slab :: "tiers \<Rightarrow> rt_mem \<Rightarrow> grant \<Rightarrow> bool" where
  "in_slab t m g \<longleftrightarrow> (\<exists>s \<in> set (tr_slabs t). slab_valid s (fst g) \<and> fst (snd g) \<le> sl_slabSize s \<and>
     granted_bytes g = slab_granted s (fst g) \<and> granted_bytes g \<subseteq> slab_used s m)"

definition in_bump :: "tiers \<Rightarrow> rt_mem \<Rightarrow> grant \<Rightarrow> bool" where
  "in_bump t m g \<longleftrightarrow> 8 dvd unat (fst g) \<and>
     granted_bytes g = block (fst g) (max (fst (snd g)) minimumBumpAllocation) \<and>
     granted_bytes g \<subseteq> bump_used (tr_bump t) m"

definition claimed :: "grant list \<Rightarrow> (u64 \<times> u64) list \<Rightarrow> nat set list" where
  "claimed gs pool = map granted_bytes gs @ map (\<lambda>b. block (fst b) (snd b)) pool"

abbreviation all_apart :: "nat set list \<Rightarrow> bool" where
  "all_apart \<equiv> sorted_wrt (\<lambda>a b. a \<inter> b = {})"

definition tiers_inv :: "tiers \<Rightarrow> grant list \<Rightarrow> (u64 \<times> u64) list \<Rightarrow> rt_mem \<Rightarrow> bool" where
  "tiers_inv t gs pool m \<longleftrightarrow>
     tiers_ok t \<and> (\<forall>s \<in> set (tr_slabs t). slab_inv s m) \<and> bump_inv 4 (tr_bump t) m \<and>
     freelist_rep (tr_freeList t) pool m \<and> (\<forall>g \<in> set gs. in_slab t m g \<or> in_bump t m g) \<and>
     (\<forall>b \<in> set pool. 8 dvd unat (fst b) \<and> block (fst b) (snd b) \<subseteq> bump_used (tr_bump t) m) \<and>
     all_apart (claimed gs pool)"

lemma all_apart_middle:
  "all_apart (xs @ a # ys) \<longleftrightarrow> (\<forall>b \<in> set (xs @ ys). a \<inter> b = {}) \<and> all_apart (xs @ ys)"
proof -
  have "(\<forall>x \<in> set xs. x \<inter> a = {}) = (\<forall>x \<in> set xs. a \<inter> x = {})" by (simp add: Int_commute)
  then show ?thesis
    by (simp only: sorted_wrt_append sorted_wrt.simps set_append ball_Un list.set ball_simps ball_conj_distrib) argo
qed

lemma claimed_simps:
  "claimed (g # gs) pool = granted_bytes g # claimed gs pool"
  "claimed (xs @ g # ys) pool = map granted_bytes xs @ granted_bytes g # claimed ys pool"
  "map granted_bytes xs @ claimed ys pool = claimed (xs @ ys) pool"
  by (simp_all add: claimed_def)

lemma tiers_invD:
  assumes "tiers_inv t gs pool m"
  shows "tiers_ok t" "s \<in> set (tr_slabs t) \<Longrightarrow> slab_inv s m" "bump_inv 4 (tr_bump t) m"
    "freelist_rep (tr_freeList t) pool m" "g \<in> set gs \<Longrightarrow> in_slab t m g \<or> in_bump t m g"
    "b \<in> set pool \<Longrightarrow> 8 dvd unat (fst b) \<and> block (fst b) (snd b) \<subseteq> bump_used (tr_bump t) m"
    "all_apart (claimed gs pool)"
  using assms unfolding tiers_inv_def by blast+

text \<open>Where the bytes in use lie.\<close>

lemma slab_used_apart:
  assumes "tiers_inv t gs pool m" "s \<in> set (tr_slabs t)"
  shows "slab_region s \<inter> bump_region (tr_bump t) = {}"
    "s' \<in> set (tr_slabs t) \<Longrightarrow> s' \<noteq> s \<Longrightarrow> slab_region s \<inter> slab_region s' = {}"
    "slab_used s m \<subseteq> slab_region s" "bump_used (tr_bump t) m \<subseteq> bump_region (tr_bump t)"
proof -
  note D = tiers_invD [OF assms(1)]
  note A = tiers_ok_apart [OF D(1) assms(2)]
  show "slab_region s \<inter> bump_region (tr_bump t) = {}"
    using A(2,4) slab_region_extent bump_region_extent [OF tiers_ok_bump(1) [OF D(1)]] by blast
  show "slab_region s \<inter> slab_region s' = {}" if "s' \<in> set (tr_slabs t)" "s' \<noteq> s"
    using A(1) [OF that] A(2) tiers_ok_apart(2) [OF D(1) that(1)] slab_region_extent by blast
  show "slab_used s m \<subseteq> slab_region s" by (rule slab_used_region [OF D(2) [OF assms(2)]])
  show "bump_used (tr_bump t) m \<subseteq> bump_region (tr_bump t)" by (rule bump_used_region [OF D(3)])
qed

lemma claimed_where:
  assumes "tiers_inv t gs pool m" "b \<in> set (claimed gs pool)"
  shows "b \<subseteq> bump_used (tr_bump t) m \<or> (\<exists>s \<in> set (tr_slabs t). b \<subseteq> slab_used s m)"
proof -
  note D = tiers_invD [OF assms(1)]
  consider g where "g \<in> set gs" "b = granted_bytes g" | q where "q \<in> set pool" "b = block (fst q) (snd q)"
    using assms(2) unfolding claimed_def by auto
  then show ?thesis
  proof cases
    case 1
    then show ?thesis using D(5) [OF 1(1)] unfolding in_slab_def in_bump_def by blast
  qed (use D(6) in blast)
qed

lemma block_cells:
  assumes "bump_ok r" "24 \<le> unat k" "block p k \<subseteq> bump_region r" "c \<in> set (cells (p, k))"
  shows "unat c \<in> block p k"
proof -
  have "unat p + unat k - 1 \<in> block p k" using assms(2) by (simp add: block_def)
  then have "unat p + unat k - 1 < unat (bp_buffer r) + unat (bp_capacity r)"
    using assms(3) unfolding bump_region_def by fastforce
  moreover have "unat (bp_buffer r) + unat (bp_capacity r) < 2 ^ 64" using assms(1) by (simp add: bump_ok_def)
  ultimately have "unat (p + 8) = unat p + 8" "unat (p + 16) = unat p + 16"
    using assms(2) by (subst unat_add_no_wrap; simp)+
  then show ?thesis using assms(2,4) by (auto simp: cells_def block_def)
qed

lemma pool_cells:
  assumes "tiers_inv t gs pool m" "b \<in> set pool" "c \<in> set (cells b)"
  shows "unat c \<in> block (fst b) (snd b)" "unat c \<in> bump_region (tr_bump t)"
proof -
  note D = tiers_invD [OF assms(1)]
  have sub: "block (fst b) (snd b) \<subseteq> bump_region (tr_bump t)"
    using D(6) [OF assms(2)] bump_used_region [OF D(3)] by blast
  have "24 \<le> unat (snd b)"
    using D(4) assms(2) unfolding freelist_rep_def sizeof_FreeListNode_def by (auto simp: word_le_nat_alt)
  then show "unat c \<in> block (fst b) (snd b)"
    using block_cells [OF tiers_ok_bump(1) [OF D(1)] _ sub] assms(3) by simp
  then show "unat c \<in> bump_region (tr_bump t)" using sub by blast
qed

lemma freelist_cells_where:
  assumes "tiers_inv t gs pool m" "c \<in> freelist_cells (tr_freeList t) pool"
  shows "unat c \<in> freelist_extent (tr_freeList t) \<or> (\<exists>b \<in> set pool. unat c \<in> block (fst b) (snd b)) \<and>
    unat c \<in> bump_region (tr_bump t)"
proof (cases "\<exists>b \<in> set pool. c \<in> set (cells b)")
  case True
  then show ?thesis using pool_cells [OF assms(1)] by blast
next
  case False
  let ?f = "tr_freeList t"
  have g: "unat (fl_mutex ?f) + 8 \<le> unat (fl_head ?f)" "unat (fl_head ?f) + 24 < 2 ^ 64"
    using tiers_invD(1) [OF assms(1)] unfolding tiers_ok_def by blast+
  then have "unat (fl_head ?f + 8) = unat (fl_head ?f) + 8" "unat (fl_head ?f + 16) = unat (fl_head ?f) + 16"
    by (subst unat_add_no_wrap; simp)+
  moreover have "c \<in> {fl_mutex ?f, fl_head ?f, fl_head ?f + 8, fl_head ?f + 16}"
    using False assms(2) by (auto simp: freelist_cells_def cells_def)
  ultimately show ?thesis using g by (auto simp: freelist_extent_def)
qed

text \<open>A change of memory that keeps the control cells keeps the invariant.\<close>

lemma in_slab_mono: "in_slab t m g \<Longrightarrow> (\<And>s. s \<in> set (tr_slabs t) \<Longrightarrow> slab_used s m \<subseteq> slab_used s m') \<Longrightarrow> in_slab t m' g"
  unfolding in_slab_def by blast

lemma in_bump_mono: "in_bump t m g \<Longrightarrow> bump_used (tr_bump t) m \<subseteq> bump_used (tr_bump t) m' \<Longrightarrow> in_bump t m' g"
  unfolding in_bump_def by blast

lemma bump_part_agree:
  assumes "tiers_inv t gs pool m" "\<And>c. unat c \<in> bump_extent (tr_bump t) - bump_region (tr_bump t) \<Longrightarrow> m' c = m c"
  shows "bump_inv 4 (tr_bump t) m'" "bump_used (tr_bump t) m' = bump_used (tr_bump t) m"
proof -
  note D = tiers_invD [OF assms(1)]
  have "m' c = m c" if "c \<in> bump_footprint (tr_bump t)" for c
    using bump_footprint_extent [OF tiers_ok_bump(1) [OF D(1)] that] assms(2) by blast
  then show "bump_inv 4 (tr_bump t) m'" "bump_used (tr_bump t) m' = bump_used (tr_bump t) m"
    using bump.footprint_agree [OF D(3)] by blast+
qed

lemma slabs_part_agree:
  assumes "tiers_inv t gs pool m" "s \<in> set (tr_slabs t)"
    and "\<And>c. unat c \<in> slab_extent s - slab_region s \<Longrightarrow> m' c = m c"
  shows "slab_inv s m'" "slab_used s m' = slab_used s m"
proof -
  note D = tiers_invD [OF assms(1)]
  have "m' c = m c" if "c \<in> slab_footprint s" for c
    using slab_footprint_extent [OF tiers_ok_apart(2) [OF D(1) assms(2)] that] assms(3) by blast
  then show "slab_inv s m'" "slab_used s m' = slab_used s m"
    using slab_footprint_agree [OF D(2) [OF assms(2)]] by blast+
qed

lemma freelist_part_agree:
  assumes "tiers_inv t gs pool m" "\<And>c. unat c \<in> freelist_extent (tr_freeList t) \<Longrightarrow> m' c = m c"
    and "\<And>c b. b \<in> set pool \<Longrightarrow> unat c \<in> block (fst b) (snd b) \<Longrightarrow> m' c = m c"
  shows "freelist_rep (tr_freeList t) pool m'"
  using freelist_cells_where [OF assms(1)] assms(2,3)
  by (intro freelist_rep_agree [OF tiers_invD(4) [OF assms(1)]]) blast

text \<open>The chain.\<close>

lemma chain_for_sub: "set (chain_for t n) \<subseteq> set (tr_slabs t)"
  unfolding chain_for_def by (rule set_dropWhileD [THEN subsetI])

lemma chain_footprints:
  assumes "tiers_ok t"
  shows "sorted_wrt (\<lambda>a b. slab_footprint a \<inter> slab_footprint b = {}) (tr_slabs t)"
proof -
  have "sorted_wrt (\<lambda>a b. slab_extent a \<inter> slab_extent b = {}) (tr_slabs t)" "\<forall>s \<in> set (tr_slabs t). slab_ok s"
    using assms unfolding tiers_ok_def by blast+
  then show ?thesis
    by (elim sorted_wrt_mono_rel [rotated]) (blast dest: slab_footprint_extent(1))
qed

text \<open>A change inside the slab resources keeps the other parts.\<close>

lemma slabs_frame_rest:
  assumes inv: "tiers_inv t gs pool m" and fr: "slabs_frame ss m m'" and ss: "set ss \<subseteq> set (tr_slabs t)"
  shows "bump_inv 4 (tr_bump t) m'" "bump_used (tr_bump t) m' = bump_used (tr_bump t) m"
    "freelist_rep (tr_freeList t) pool m'"
    "s \<in> set (tr_slabs t) \<Longrightarrow> s \<notin> set ss \<Longrightarrow> slab_inv s m' \<and> slab_used s m' = slab_used s m"
proof -
  note D = tiers_invD [OF inv]
  have keep: "m' c = m c" if "\<And>s. s \<in> set ss \<Longrightarrow> unat c \<notin> slab_extent s - slab_region s" for c
  proof -
    have "c \<notin> (\<Union>s \<in> set ss. slab_footprint s)"
      using that ss slab_footprint_extent tiers_ok_apart(2) [OF D(1)] by blast
    then show ?thesis using fr unfolding slabs_frame_def by blast
  qed
  note A = tiers_ok_apart [OF D(1)] and B = tiers_ok_bump [OF D(1)]
  have be: "m' c = m c" if "unat c \<in> bump_extent (tr_bump t)" for c using A(4) ss that by (intro keep) blast
  then show "bump_inv 4 (tr_bump t) m'" "bump_used (tr_bump t) m' = bump_used (tr_bump t) m"
    using bump_part_agree [OF inv] by blast+
  have "block (fst b) (snd b) \<subseteq> bump_extent (tr_bump t)" if "b \<in> set pool" for b
    using D(6) [OF that] bump_used_region [OF D(3)] bump_region_extent [OF B(1)] by blast
  then show "freelist_rep (tr_freeList t) pool m'"
    using A(3) ss be by (intro freelist_part_agree [OF inv]) (blast intro: keep)+
  show "slab_inv s m' \<and> slab_used s m' = slab_used s m" if s: "s \<in> set (tr_slabs t)" "s \<notin> set ss"
  proof -
    have "m' c = m c" if c: "unat c \<in> slab_extent s" for c
    proof (rule keep)
      fix s' assume "s' \<in> set ss"
      then show "unat c \<notin> slab_extent s' - slab_region s'" using A(1) [OF s(1), of s'] c s(2) ss by blast
    qed
    then show ?thesis using slabs_part_agree [OF inv s(1)] by blast
  qed
qed

lemma tiers_chain:
  assumes inv: "tiers_inv t gs pool m"
  shows "(\<exists>m'. chainedTryAllocate n (chain_for t n) m = Some (0, m') \<and> tiers_inv t gs pool m') \<or>
    (\<exists>p m' g. chainedTryAllocate n (chain_for t n) m = Some (p, m') \<and> p \<noteq> 0 \<and> tiers_inv t ((p, n, g) # gs) pool m')"
proof -
  note D = tiers_invD [OF inv]
  let ?ss = "chain_for t n"
  note sub = chain_for_sub [of t n]
  have inv': "\<forall>s \<in> set ?ss. slab_inv s m" using D(2) sub by blast
  have fp: "sorted_wrt (\<lambda>a b. slab_footprint a \<inter> slab_footprint b = {}) ?ss"
    unfolding chain_for_def by (rule sorted_wrt_dropWhile [OF chain_footprints [OF D(1)]])
  from chainedTryAllocate_cases [OF inv' fp, of n] show ?thesis
  proof (elim disjE exE conjE)
    fix m' assume a: "chainedTryAllocate n ?ss m = Some (0, m')" "slabs_keep (set ?ss) m m'" "slabs_frame ?ss m m'"
    note R = slabs_frame_rest [OF inv a(3) sub]
    have k: "slab_inv s m' \<and> slab_used s m' = slab_used s m" if "s \<in> set (tr_slabs t)" for s
      using R(4) [OF that] a(2) unfolding slabs_keep_def by blast
    have "\<forall>g \<in> set gs. in_slab t m' g \<or> in_bump t m' g"
      using D(5) in_slab_mono [of t m _ m'] in_bump_mono [of t m _ m'] k R(2) by blast
    then have "tiers_inv t gs pool m'" unfolding tiers_inv_def using D k R by simp
    then show ?thesis using a(1) by blast
  next
    fix s p m'
    assume a: "chainedTryAllocate n ?ss m = Some (p, m')" "s \<in> set ?ss" "slab_grants s n p m m'"
      "slabs_keep (set ?ss - {s}) m m'" "slabs_frame ?ss m m'"
    note R = slabs_frame_rest [OF inv a(5) sub]
    have s: "s \<in> set (tr_slabs t)" using a(2) sub by blast
    note G = a(3) [unfolded slab_grants_def]
    have k: "slab_inv s' m'" "slab_used s' m \<subseteq> slab_used s' m'" if "s' \<in> set (tr_slabs t)" for s'
      using R(4) [OF that] a(4) G unfolding slabs_keep_def by blast+
    have old: "\<forall>g \<in> set gs. in_slab t m' g \<or> in_bump t m' g"
      using D(5) in_slab_mono [of t m _ m'] in_bump_mono [of t m _ m'] k(2) R(2) by blast
    have new: "in_slab t m' (p, n, slab_granted s p)" using s G unfolding in_slab_def by auto
    have "slab_ok s" by (rule tiers_ok_apart(2) [OF D(1) s])
    then have reg: "slab_granted s p \<subseteq> slab_region s" using slab_valid_region G by blast
    have "slab_granted s p \<inter> b = {}" if "b \<in> set (claimed gs pool)" for b
    proof -
      from claimed_where [OF inv that] show ?thesis
      proof (elim disjE bexE)
        fix s' assume "s' \<in> set (tr_slabs t)" "b \<subseteq> slab_used s' m"
        then show ?thesis
          using reg G slab_used_apart(2) [OF inv s, of s'] slab_used_apart(3) [OF inv, of s'] by (cases "s' = s") blast+
      qed (use reg slab_used_apart(1,4) [OF inv s] in blast)
    qed
    then have "all_apart (claimed ((p, n, slab_granted s p) # gs) pool)"
      using D(7) by (simp add: claimed_simps)
    then have "tiers_inv t ((p, n, slab_granted s p) # gs) pool m'"
      unfolding tiers_inv_def using D k(1) R old new by simp
    then show ?thesis using a(1) G by blast
  qed
qed

text \<open>The bump resource and the free list.\<close>

lemma slabs_agree:
  assumes inv: "tiers_inv t gs pool m"
    and out: "\<And>c. unat c \<notin> freelist_extent (tr_freeList t) \<union> bump_extent (tr_bump t) \<Longrightarrow> m' c = m c"
    and s: "s \<in> set (tr_slabs t)"
  shows "slab_inv s m' \<and> slab_used s m' = slab_used s m"
proof -
  have "m' c = m c" if "unat c \<in> slab_extent s" for c
    using tiers_ok_apart(3,4) [OF tiers_invD(1) [OF inv] s] that by (intro out) blast
  then show ?thesis using slabs_part_agree [OF inv s] by blast
qed

lemma minimum_24: "unat (max n minimumBumpAllocation) = max (unat n) 24"
  by (simp add: minimumBumpAllocation_def minimumAllowableAllocationSize_def sizeof_FreeListNode_def max_def word_le_nat_alt)

lemma tiers_bump:
  assumes inv: "tiers_inv t gs pool m"
  shows "bump_allocate alignof_MaxAlignT (tr_bump t) (max n minimumBumpAllocation) m = Some (0, m) \<or>
    (\<exists>p m' g. bump_allocate alignof_MaxAlignT (tr_bump t) (max n minimumBumpAllocation) m = Some (p, m') \<and> p \<noteq> 0 \<and>
       tiers_inv t ((p, n, g) # gs) pool m')"
proof -
  note D = tiers_invD [OF inv] and B = tiers_ok_bump [OF tiers_invD(1) [OF inv]]
  let ?b = "tr_bump t" and ?n = "max n minimumBumpAllocation"
  have al: "alignof_MaxAlignT = 2 ^ 4" by (simp add: alignof_MaxAlignT_def)
  from D(3) show ?thesis
  proof (cases rule: bump_allocate_cases [of 4 ?b m ?n])
    case (bumped p off)
    let ?m = "m(bp_curOffset ?b := off)" and ?g = "block p ?n"
    note a = bumped(2)
    note law = bump.allocate_block [OF D(3) a bumped(1)] bump.allocate_inv [OF D(3) a]
    have "bp_curOffset ?b \<in> bump_footprint ?b" by (simp add: bump_footprint_def)
    note cur = bump_footprint_extent [OF B(1) this]
    have out: "?m c = m c" if "unat c \<notin> bump_extent ?b - bump_region ?b" for c using that cur by auto
    have sl: "slab_inv s ?m \<and> slab_used s ?m = slab_used s m" if "s \<in> set (tr_slabs t)" for s
      using that by (intro slabs_agree [OF inv out]) blast
    have "block (fst q) (snd q) \<subseteq> bump_region ?b" if "q \<in> set pool" for q
      using D(6) [OF that] bump_used_region [OF D(3)] by blast
    then have fl: "freelist_rep (tr_freeList t) pool ?m"
      using B(2) by (intro freelist_part_agree [OF inv]) (blast intro: out)+
    have "8 dvd unat p" using bumped(4) by (auto elim!: dvdE)
    then have new: "in_bump t ?m (p, n, ?g)" using law(1) unfolding in_bump_def by auto
    have old: "\<forall>g \<in> set gs. in_slab t ?m g \<or> in_bump t ?m g"
      using D(5) in_slab_mono [of t m _ ?m] in_bump_mono [of t m _ ?m] sl law(1) by blast
    have "?g \<inter> b = {}" if "b \<in> set (claimed gs pool)" for b
      using claimed_where [OF inv that] law(1) slab_used_apart(1,3) [OF inv] by blast
    then have "all_apart (claimed ((p, n, ?g) # gs) pool)" using D(7) by (simp add: claimed_simps)
    moreover have "\<forall>b \<in> set pool. 8 dvd unat (fst b) \<and> block (fst b) (snd b) \<subseteq> bump_used ?b ?m"
      using D(6) law(1) by blast
    ultimately have "tiers_inv t ((p, n, ?g) # gs) pool ?m"
      unfolding tiers_inv_def using D(1) law(2) sl fl new old by simp
    then show ?thesis using a bumped(1) unfolding al by blast
  qed (simp add: al)
qed

lemma tiers_freelist:
  assumes inv: "tiers_inv t gs pool m"
  shows "\<exists>p m' pool'. freelist_allocate (tr_freeList t) (max n minimumBumpAllocation) m = Some (p, m') \<and>
    (p = 0 \<and> tiers_inv t gs pool' m' \<or> p \<noteq> 0 \<and> (\<exists>g. tiers_inv t ((p, n, g) # gs) pool' m'))"
proof -
  note D = tiers_invD [OF inv] and B = tiers_ok_bump [OF tiers_invD(1) [OF inv]]
  let ?b = "tr_bump t" and ?n = "max n minimumBumpAllocation" and ?f = "tr_freeList t"
  from allocate_best_fit [OF D(4), of ?n] obtain p m' pool'
    where a: "freelist_allocate ?f ?n m = Some (p, m')" "best_fit ?n pool (p, pool')" "freelist_rep ?f pool' m'"
      "\<forall>c. c \<notin> freelist_cells ?f pool \<longrightarrow> m' c = m c" by blast
  have out: "m' c = m c" if "unat c \<notin> freelist_extent ?f \<union> bump_region ?b" for c
    using a(4) freelist_cells_where [OF inv] that by blast
  have sl: "slab_inv s m' \<and> slab_used s m' = slab_used s m" if "s \<in> set (tr_slabs t)" for s
    using that bump_region_extent [OF B(1)] by (intro slabs_agree [OF inv] out) blast+
  have bp: "bump_inv 4 ?b m'" "bump_used ?b m' = bump_used ?b m"
    using B(2) bump_part_agree [OF inv out] by blast+
  have old: "\<forall>g \<in> set gs. in_slab t m' g \<or> in_bump t m' g"
    using D(5) in_slab_mono [of t m _ m'] in_bump_mono [of t m _ m'] sl bp(2) by blast
  show ?thesis
  proof (cases "p = 0")
    case True
    then have "pool' = pool"
      using best_fit_cases [OF a(2)] D(4) lseg_nonzero unfolding freelist_rep_def by fastforce
    then have "tiers_inv t gs pool m'" unfolding tiers_inv_def using D sl bp a(3) old by simp
    then show ?thesis using a(1) True by blast
  next
    case False
    then obtain xs k ys where s: "pool = xs @ (p, k) # ys" "pool' = xs @ ys" "?n \<le> k"
      using best_fit_cases [OF a(2)] by auto
    let ?g = "block p ?n"
    have sub: "?g \<subseteq> block p k" using s(3) by (auto simp: block_def word_le_nat_alt)
    have "in_bump t m' (p, n, ?g)"
      using D(6) [of "(p, k)"] s(1) sub bp(2) unfolding in_bump_def by auto
    moreover have "all_apart (claimed ((p, n, ?g) # gs) pool')"
    proof -
      have "all_apart ((map granted_bytes gs @ map (\<lambda>b. block (fst b) (snd b)) xs) @ block p k #
          map (\<lambda>b. block (fst b) (snd b)) ys)" using D(7) by (simp add: claimed_def s(1))
      then have "all_apart (claimed gs pool')" "\<forall>b \<in> set (claimed gs pool'). block p k \<inter> b = {}"
        unfolding all_apart_middle by (simp_all add: claimed_def s(2))
      then show ?thesis using sub unfolding claimed_simps sorted_wrt.simps snd_conv by blast
    qed
    ultimately have "tiers_inv t ((p, n, ?g) # gs) pool' m'"
      unfolding tiers_inv_def using D(1,6) sl bp a(3) old s(1,2) by simp
    then show ?thesis using a(1) False by blast
  qed
qed

lemma tiers_alloc:
  assumes inv: "tiers_inv t gs pool m"
  shows "\<exists>p m' pool'. tiers_allocate t n m = Some (p, m') \<and>
    (p = 0 \<and> tiers_inv t gs pool' m' \<or> p \<noteq> 0 \<and> (\<exists>g. tiers_inv t ((p, n, g) # gs) pool' m'))"
  using tiers_chain [OF inv, of n]
proof (elim disjE exE conjE)
  fix m1 assume c: "chainedTryAllocate n (chain_for t n) m = Some (0, m1)" "tiers_inv t gs pool m1"
  from tiers_bump [OF c(2), of n] show ?thesis
  proof (elim disjE exE conjE)
    assume "bump_allocate alignof_MaxAlignT (tr_bump t) (max n minimumBumpAllocation) m1 = Some (0, m1)"
    then show ?thesis using tiers_freelist [OF c(2), of n] c(1) by (simp add: tiers_allocate_def)
  next
    fix p m' g
    assume "bump_allocate alignof_MaxAlignT (tr_bump t) (max n minimumBumpAllocation) m1 = Some (p, m')" "p \<noteq> 0"
      "tiers_inv t ((p, n, g) # gs) pool m'"
    then show ?thesis using c(1) by (auto simp: tiers_allocate_def)
  qed
qed (auto simp: tiers_allocate_def)

subsection \<open>Freeing\<close>

text \<open>
  A free is routed to the first slab resource of the chain that claims the pointer. Since the ownership test
  of the slab resource accepts pointers behind its region, a client obtains the promised behaviour only
  for pointers that no resource claims wrongly.
\<close>

definition routed :: "tiers \<Rightarrow> u64 \<Rightarrow> u64 \<Rightarrow> bool" where
  "routed t n p \<longleftrightarrow>
     (case find (\<lambda>s. slab_pointerIsOwned s p) (chain_for t n) of
        None \<Rightarrow> True
      | Some s \<Rightarrow> unat p \<in> slab_region s)"

lemma chainedTryDeallocate_find:
  "chainedTryDeallocate p ss m =
     (case find (\<lambda>s. slab_pointerIsOwned s p) ss of None \<Rightarrow> Some m | Some s \<Rightarrow> slab_deallocate s p m)"
  by (induction p ss m rule: chainedTryDeallocate.induct) (auto simp: slab_deallocate_def)

lemma bump_owned_region: "bump_ok r \<Longrightarrow> bump_pointerIsOwned r p \<longleftrightarrow> unat p \<in> bump_region r"
  using unat_add_no_wrap [of "bp_buffer r" "bp_capacity r"]
  by (simp add: bump_pointerIsOwned_def bump_region_def bump_ok_def word_le_nat_alt word_less_nat_alt)

lemma free_slab:
  assumes inv: "tiers_inv t (xs @ (p, n, g) # ys) pool m" and g: "in_slab t m (p, n, g)" and ro: "routed t n p"
  shows "\<exists>m'. tiers_deallocate t p n m = Inr (Some m') \<and> tiers_inv t (xs @ ys) pool m'"
proof -
  note D = tiers_invD [OF inv]
  obtain s where s: "s \<in> set (tr_slabs t)" "slab_valid s p" "n \<le> sl_slabSize s" "g = slab_granted s p"
    using g unfolding in_slab_def by auto
  note ok = tiers_ok_apart(2) [OF D(1) s(1)]
  note v = slab_valid_region [OF ok s(2)]
  have "s \<in> set (chain_for t n)"
    using s(1,3) takeWhile_dropWhile_id [of "\<lambda>s. sl_slabSize s < n" "tr_slabs t"] set_takeWhileD
    unfolding chain_for_def by (metis (no_types, lifting) Un_iff not_less set_append)
  then obtain s1 where s1: "find (\<lambda>s. slab_pointerIsOwned s p) (chain_for t n) = Some s1"
    using v(4) by (metis find_None_iff not_None_eq)
  then have "unat p \<in> slab_region s1" using ro by (simp add: routed_def)
  moreover have "s1 \<in> set (tr_slabs t)" using s1 chain_for_sub [of t n] by (auto simp: find_Some_iff)
  ultimately have "s1 = s" using slab_used_apart(2) [OF inv s(1), of s1] v(1,2) by blast
  obtain m' where m': "slab_deallocate s p m = Some m'" "slab_inv s m'" "slab_used s m' = slab_used s m - g"
    "\<forall>c. c \<notin> slab_footprint s \<longrightarrow> m' c = m c"
    using slab_deallocate_law [OF D(2) [OF s(1)] s(2)] s(4) by blast
  have fr: "slabs_frame [s] m m'" using m'(4) by (simp add: slabs_frame_def)
  note R = slabs_frame_rest [OF inv fr, simplified, OF s(1)]
  have "\<not> bump_pointerIsOwned (tr_bump t) p"
    using v(1,2) slab_used_apart(1) [OF inv s(1)] bump_owned_region [OF tiers_ok_bump(1) [OF D(1)]] by blast
  then have run: "tiers_deallocate t p n m = Inr (Some m')"
    using s1 m'(1) \<open>s1 = s\<close> by (simp add: tiers_deallocate_def chainedTryDeallocate_find deallocate_rest_def)
  have ap: "all_apart (claimed (xs @ ys) pool)" "\<forall>b \<in> set (claimed (xs @ ys) pool). g \<inter> b = {}"
    using D(7) unfolding claimed_simps(2) all_apart_middle by (simp_all add: claimed_simps(3))
  have "in_slab t m' h \<or> in_bump t m' h" if h: "h \<in> set (xs @ ys)" for h
  proof -
    have dis: "g \<inter> granted_bytes h = {}" using ap(2) h by (auto simp: claimed_def)
    have "in_slab t m h \<or> in_bump t m h" using D(5) h by auto
    then show ?thesis
    proof
      assume "in_slab t m h"
      then obtain u where u: "u \<in> set (tr_slabs t)" "slab_valid u (fst h)" "fst (snd h) \<le> sl_slabSize u"
        "granted_bytes h = slab_granted u (fst h)" "granted_bytes h \<subseteq> slab_used u m" unfolding in_slab_def by blast
      have "granted_bytes h \<subseteq> slab_used u m'"
        using u(1,5) m'(3) R(4) dis by (cases "u = s") blast+
      then show ?thesis using u unfolding in_slab_def by blast
    qed (use in_bump_mono [of t m h m'] R(2) in blast)
  qed
  moreover have "slab_inv u m'" if "u \<in> set (tr_slabs t)" for u using R(4) that m'(2) by blast
  ultimately have "tiers_inv t (xs @ ys) pool m'"
    unfolding tiers_inv_def using D(1,6) R(1-3) ap(1) by simp
  with run show ?thesis by blast
qed

lemma free_bump:
  assumes inv: "tiers_inv t (xs @ (p, n, g) # ys) pool m" and g: "in_bump t m (p, n, g)" and ro: "routed t n p"
  shows "\<exists>m'. tiers_deallocate t p n m = Inr (Some m') \<and>
    tiers_inv t (xs @ ys) ((p, max n minimumBumpAllocation) # pool) m'"
proof -
  note D = tiers_invD [OF inv] and B = tiers_ok_bump [OF tiers_invD(1) [OF inv]]
  let ?n = "max n minimumBumpAllocation" and ?f = "tr_freeList t" and ?b = "tr_bump t"
  have G: "8 dvd unat p" "g = block p ?n" "g \<subseteq> bump_used ?b m" using g unfolding in_bump_def fst_conv snd_conv by blast+
  have n24: "24 \<le> unat ?n" by (simp add: minimum_24)
  have reg: "block p ?n \<subseteq> bump_region ?b" using G bump_used_region [OF D(3)] by blast
  have pin: "unat p \<in> bump_region ?b" using reg n24 by (auto simp: block_def)
  have "p \<noteq> 0" using pin B(1) unat_gt_0 [of "bp_buffer ?b"] by (auto simp: bump_region_def bump_ok_def)
  have "find (\<lambda>s. slab_pointerIsOwned s p) (chain_for t n) = None"
  proof (rule ccontr)
    assume "\<not> ?thesis"
    then obtain s where s: "find (\<lambda>s. slab_pointerIsOwned s p) (chain_for t n) = Some s" by blast
    then have "s \<in> set (tr_slabs t)" using chain_for_sub [of t n] by (auto simp: find_Some_iff)
    moreover have "unat p \<in> slab_region s" using s ro by (simp add: routed_def)
    ultimately show False using slab_used_apart(1) [OF inv] pin by blast
  qed
  then have run: "tiers_deallocate t p n m = registerFreedBlock ?f p ?n m"
    using pin by (simp add: tiers_deallocate_def chainedTryDeallocate_find deallocate_rest_def bump_owned_region [OF B(1)])
  have cells: "unat c \<in> block p ?n" "unat c \<in> bump_region ?b" if "c \<in> set (cells (p, ?n))" for c
    using block_cells [OF B(1) n24 reg that] reg by blast+
  have ap: "all_apart (claimed (xs @ ys) pool)" "\<forall>b \<in> set (claimed (xs @ ys) pool). g \<inter> b = {}"
    using D(7) unfolding claimed_simps(2) all_apart_middle by (simp_all add: claimed_simps(3))
  have pd: "block p ?n \<inter> block (fst b) (snd b) = {}" if "b \<in> set pool" for b
    using ap(2) that G(2) by (auto simp: claimed_def)
  have fc: "c \<in> freelist_cells ?f pool \<Longrightarrow> c \<notin> set (cells (p, ?n))" for c
    using freelist_cells_where [OF inv] cells pd B(2) bump_region_extent [OF B(1)] by blast
  have apn: "apart_nodes ((fl_head ?f, 0) # (p, ?n) # pool)"
    using D(4) fc unfolding freelist_rep_def apart_nodes_Cons freelist_cells_def by auto
  have mx: "fl_mutex ?f \<notin> set (cells (p, ?n))" by (rule fc) (simp add: freelist_cells_def)
  have sz: "sizeof_FreeListNode \<le> ?n" "p mod 8 = 0"
    using n24 G(1) by (simp_all add: sizeof_FreeListNode_def word_le_nat_alt u64_eq_iff_unat unat_mod)
  obtain m' where m': "registerFreedBlock ?f p ?n m = Inr (Some m')" "freelist_rep ?f ((p, ?n) # pool) m'"
    "\<forall>c. c \<notin> freelist_cells ?f ((p, ?n) # pool) \<longrightarrow> m' c = m c"
    using register_adds_block [OF D(4) apn mx \<open>p \<noteq> 0\<close> sz] by blast
  have "freelist_cells ?f ((p, ?n) # pool) = freelist_cells ?f pool \<union> set (cells (p, ?n))"
    by (auto simp: freelist_cells_def)
  then have out: "m' c = m c" if "unat c \<notin> freelist_extent ?f \<union> bump_region ?b" for c
    using m'(3) freelist_cells_where [OF inv] cells that by blast
  have sl: "slab_inv s m' \<and> slab_used s m' = slab_used s m" if "s \<in> set (tr_slabs t)" for s
    using that bump_region_extent [OF B(1)] by (intro slabs_agree [OF inv] out) blast+
  have bp: "bump_inv 4 ?b m'" "bump_used ?b m' = bump_used ?b m"
    using B(2) bump_part_agree [OF inv out] by blast+
  have "\<forall>h \<in> set (xs @ ys). in_slab t m' h \<or> in_bump t m' h"
    using D(5) in_slab_mono [of t m _ m'] in_bump_mono [of t m _ m'] sl bp(2) by simp blast
  moreover have "all_apart (claimed (xs @ ys) ((p, ?n) # pool))"
  proof -
    have e: "claimed (xs @ ys) ((p, ?n) # pool) =
        map granted_bytes (xs @ ys) @ block p ?n # map (\<lambda>b. block (fst b) (snd b)) pool" by (simp add: claimed_def)
    show ?thesis unfolding e all_apart_middle using ap G(2) by (simp add: claimed_def)
  qed
  moreover have "block p ?n \<subseteq> bump_used ?b m'" using G(2,3) bp(2) by simp
  ultimately have "tiers_inv t (xs @ ys) ((p, ?n) # pool) m'"
    unfolding tiers_inv_def using D(1,6) sl bp m'(2) G(1) by simp
  then show ?thesis using run m'(1) by simp
qed

lemma tiers_free:
  assumes "tiers_inv t (xs @ (p, n, g) # ys) pool m" "routed t n p"
  shows "\<exists>m' pool'. tiers_deallocate t p n m = Inr (Some m') \<and> tiers_inv t (xs @ ys) pool' m'"
  using tiers_invD(5) [OF assms(1), of "(p, n, g)"] free_slab [OF assms(1) _ assms(2)]
    free_bump [OF assms(1) _ assms(2)] by auto

subsection \<open>Stores of the clients\<close>

lemma granted_asked:
  assumes "tiers_inv t gs pool m" "g \<in> set gs"
  shows "block (fst g) (fst (snd g)) \<subseteq> granted_bytes g"
    "granted_bytes g \<subseteq> bump_region (tr_bump t) \<or> (\<exists>s \<in> set (tr_slabs t). granted_bytes g \<subseteq> slab_region s)"
proof -
  note D = tiers_invD [OF assms(1)]
  have m: "unat n \<le> unat (max n minimumBumpAllocation)" for n by (simp add: minimum_24)
  show "block (fst g) (fst (snd g)) \<subseteq> granted_bytes g"
    using D(5) [OF assms(2)]
  proof
    assume "in_slab t m g"
    then show ?thesis unfolding in_slab_def by (auto simp: block_def slab_granted_def word_le_nat_alt)
  next
    assume "in_bump t m g"
    then have "granted_bytes g = block (fst g) (max (fst (snd g)) minimumBumpAllocation)" unfolding in_bump_def by blast
    then show ?thesis using m [of "fst (snd g)"] by (auto simp: block_def)
  qed
  show "granted_bytes g \<subseteq> bump_region (tr_bump t) \<or> (\<exists>s \<in> set (tr_slabs t). granted_bytes g \<subseteq> slab_region s)"
    using D(5) [OF assms(2)] bump_used_region [OF D(3)] slab_used_region [OF D(2)]
    unfolding in_slab_def in_bump_def by blast
qed

lemma granted_bound:
  assumes "tiers_inv t gs pool m"
  shows "x \<in> bump_region (tr_bump t) \<or> (\<exists>s \<in> set (tr_slabs t). x \<in> slab_region s) \<Longrightarrow> x < 2 ^ 64"
proof (elim disjE bexE)
  assume "x \<in> bump_region (tr_bump t)"
  then show ?thesis using tiers_ok_bump(1) [OF tiers_invD(1) [OF assms]] by (simp add: bump_region_def bump_ok_def)
next
  fix s assume s: "s \<in> set (tr_slabs t)" "x \<in> slab_region s"
  note g = slab_geo [OF tiers_ok_apart(2) [OF tiers_invD(1) [OF assms] s(1)]]
  have "x < unat (sl_buffer s) + slH s * slS s + slU s * slS s" using s(2) by (simp add: slab_region_def slab_addr_def)
  then show ?thesis using g(8,9) by linarith
qed

lemma tiers_store:
  assumes inv: "tiers_inv t gs pool m" and g: "g \<in> set gs" and c: "unat c \<in> granted_bytes g"
  shows "tiers_inv t gs pool (m(c := v))"
proof -
  note D = tiers_invD [OF inv] and B = tiers_ok_bump [OF tiers_invD(1) [OF inv]]
  let ?m = "m(c := v)"
  have wh: "unat c \<in> bump_region (tr_bump t) \<or> (\<exists>s \<in> set (tr_slabs t). unat c \<in> slab_region s)"
    using granted_asked(2) [OF inv g] c by blast
  have re: "bump_region (tr_bump t) \<subseteq> bump_extent (tr_bump t)"
    "\<And>s. s \<in> set (tr_slabs t) \<Longrightarrow> slab_region s \<subseteq> slab_extent s"
    using bump_region_extent [OF B(1)] slab_region_extent tiers_ok_apart(2) [OF D(1)] by blast+
  note A = tiers_ok_apart [OF D(1)]
  have nb: "unat c \<notin> bump_extent (tr_bump t) - bump_region (tr_bump t)" using wh A(4) re(2) by blast
  have ns: "unat c \<notin> slab_extent s - slab_region s" if s: "s \<in> set (tr_slabs t)" for s
  proof -
    have "unat c \<notin> slab_extent s" if "u \<in> set (tr_slabs t)" "unat c \<in> slab_region u" "u \<noteq> s" for u
      using A(1) [OF s that(1,3)] re(2) [OF that(1)] that(2) by blast
    then show ?thesis using wh A(4) [OF s] re(1) by blast
  qed
  have nf: "unat c \<notin> freelist_extent (tr_freeList t)" using wh A(3) B(2) re by blast
  have "granted_bytes g \<inter> block (fst b) (snd b) = {}" if b: "b \<in> set pool" for b
  proof -
    obtain xs ys where "gs = xs @ g # ys" using g by (meson split_list)
    then have "\<forall>b \<in> set (claimed (xs @ ys) pool). granted_bytes g \<inter> b = {}"
      using D(7) unfolding claimed_simps(2) all_apart_middle by (simp_all add: claimed_simps(2,3) all_apart_middle)
    then show ?thesis using b by (auto simp: claimed_def)
  qed
  then have fl: "freelist_rep (tr_freeList t) pool ?m"
    using c nf by (intro freelist_part_agree [OF inv]) auto
  have nbm: "?m d = m d" if "unat d \<in> bump_extent (tr_bump t) - bump_region (tr_bump t)" for d using that nb by auto
  have bp: "bump_inv 4 (tr_bump t) ?m" "bump_used (tr_bump t) ?m = bump_used (tr_bump t) m"
    using bump_part_agree [OF inv, of ?m] nbm by blast+
  have eq: "?m d = m d" if "s \<in> set (tr_slabs t)" "unat d \<in> slab_extent s - slab_region s" for d s
    using that ns by auto
  have sl: "slab_inv s ?m" "slab_used s ?m = slab_used s m" if "s \<in> set (tr_slabs t)" for s
    using slabs_part_agree [OF inv that eq [OF that]] by blast+
  have "\<forall>g \<in> set gs. in_slab t ?m g \<or> in_bump t ?m g"
    using D(5) in_slab_mono [of t m _ ?m] in_bump_mono [of t m _ ?m] sl(2) bp(2) by blast
  then show ?thesis unfolding tiers_inv_def using D(1,6,7) sl bp fl by simp
qed

subsection \<open>Runs\<close>

text \<open>
  The states a program can bring a memory resource into: it requests blocks, frees blocks it holds (\<open>may_free\<close> says
  which), and stores 8-byte words inside the blocks it holds.
\<close>

inductive heap_reach ::
  "(u64 \<Rightarrow> rt_mem \<Rightarrow> (u64 \<times> rt_mem) option) \<Rightarrow> (u64 \<Rightarrow> u64 \<Rightarrow> rt_mem \<Rightarrow> rt_mem option or_abort) \<Rightarrow>
   (u64 \<Rightarrow> u64 \<Rightarrow> bool) \<Rightarrow> rt_mem \<Rightarrow> (u64 \<times> u64) list \<Rightarrow> rt_mem \<Rightarrow> bool"
  for alloc dealloc may_free m0 where
  heap_start: "heap_reach alloc dealloc may_free m0 [] m0"
| heap_alloc: "heap_reach alloc dealloc may_free m0 live m \<Longrightarrow> alloc n m = Some (p, m') \<Longrightarrow>
    heap_reach alloc dealloc may_free m0 (if p = 0 then live else (p, n) # live) m'"
| heap_free: "heap_reach alloc dealloc may_free m0 (xs @ (p, n) # ys) m \<Longrightarrow> may_free n p \<Longrightarrow>
    dealloc p n m = Inr (Some m') \<Longrightarrow> heap_reach alloc dealloc may_free m0 (xs @ ys) m'"
| heap_store: "heap_reach alloc dealloc may_free m0 live m \<Longrightarrow> (p, n) \<in> set live \<Longrightarrow>
    unat off + 8 \<le> unat n \<Longrightarrow> heap_reach alloc dealloc may_free m0 live (m(p + off := v))"

lemma map_asked_split:
  assumes "map asked gs = xs @ (p, n) # ys"
  shows "\<exists>us g vs. gs = us @ (p, n, g) # vs \<and> map asked us = xs \<and> map asked vs = ys"
proof -
  define us ws where "us = take (length xs) gs" and "ws = drop (length xs) gs"
  have u: "gs = us @ ws" "xs = map asked us" "(p, n) # ys = map asked ws"
    using arg_cong [OF assms, of "take (length xs)"] arg_cong [OF assms, of "drop (length xs)"]
    by (simp_all add: us_def ws_def take_map drop_map)
  show ?thesis
  proof (cases ws)
    case (Cons h vs)
    obtain q k g where "h = (q, k, g)" by (cases h)
    with Cons u have "gs = us @ (p, n, g) # vs" "map asked us = xs" "map asked vs = ys" by simp_all
    then show ?thesis by blast
  qed (use u in simp)
qed

lemma heap_reach_inv:
  assumes "heap_reach (tiers_allocate t) (tiers_deallocate t) (routed t) m0 live m" "tiers_inv t [] [] m0"
  shows "\<exists>gs pool. live = map asked gs \<and> tiers_inv t gs pool m"
  using assms(1)
proof (induction rule: heap_reach.induct)
  case heap_start
  then show ?case using assms(2) by force
next
  case (heap_alloc live m n p m')
  then obtain gs pool where gs: "live = map asked gs" "tiers_inv t gs pool m" by blast
  from tiers_alloc [OF gs(2), of n] heap_alloc.hyps(2) obtain pool'
    where "p = 0 \<and> tiers_inv t gs pool' m' \<or> p \<noteq> 0 \<and> (\<exists>g. tiers_inv t ((p, n, g) # gs) pool' m')" by auto
  then show ?case
  proof (elim disjE conjE exE)
    fix g assume "p \<noteq> 0" "tiers_inv t ((p, n, g) # gs) pool' m'"
    then show ?thesis using gs(1) by (intro exI [of _ "(p, n, g) # gs"]) auto
  qed (use gs(1) in auto)
next
  case (heap_free xs p n ys m m')
  then obtain gs pool where gs: "xs @ (p, n) # ys = map asked gs" "tiers_inv t gs pool m" by blast
  then obtain us g vs where s: "gs = us @ (p, n, g) # vs" "map asked us = xs" "map asked vs = ys"
    using map_asked_split [of gs xs p n ys] by auto
  from tiers_free [OF gs(2) [unfolded s(1)] heap_free.hyps(2)] heap_free.hyps(3) s(2,3)
  show ?case by (intro exI [of _ "us @ vs"]) auto
next
  case (heap_store live m p n off v)
  then obtain gs pool where gs: "live = map asked gs" "tiers_inv t gs pool m" by blast
  then obtain g where g: "g \<in> set gs" "fst g = p" "fst (snd g) = n" using heap_store.hyps(2) by auto
  have b: "unat p + unat off \<in> block p n" using heap_store.hyps(3) by (simp add: block_def)
  have "unat p + unat off < 2 ^ 64"
    using granted_asked [OF gs(2) g(1)] g(2,3) b granted_bound [OF gs(2)] by blast
  then have "unat (p + off) \<in> granted_bytes g"
    using granted_asked(1) [OF gs(2) g(1)] g(2,3) b by (subst unat_add_no_wrap) auto
  then show ?case using tiers_store [OF gs(2) g(1)] gs(1) by blast
qed

end
