(* ===== verification/Memory_Resources.thy ===== *)
theory Memory_Resources
  imports Memory_Tiers
begin

unbundle bit_operations_syntax

text \<open>
  The two memory resources of a node, \<^verbatim>\<open>L2SPResource\<close> and \<^verbatim>\<open>MainMemoryResource\<close>
  (\<^verbatim>\<open>pando-rt/src/memory_resources.cpp\<close>, \<^verbatim>\<open>pando-rt/memory_resource.hpp\<close>), their constructors and operations, and what a
  program can rely on when it allocates, frees and writes. Both are compositions of slab resources, the bump
  resource and the free list; the interface they share is a locale.
\<close>

subsection \<open>The classes\<close>

record L2SPResource =
  l2_breakdown :: L2SPResourceRatioBreakdown
  l2_bucket8 :: SlabMemoryResource
  l2_bucket16 :: SlabMemoryResource
  l2_bucket32 :: SlabMemoryResource
  l2_freeList :: FreeListMemoryResource
  l2_bump :: BumpMemoryResource

definition slab_in :: "u64 \<Rightarrow> MemoryBucket \<Rightarrow> rt_mem \<Rightarrow> (SlabMemoryResource \<times> rt_mem) or_abort" where
  "slab_in slabSize b m = SlabMemoryResource_new slabSize (mb_start b) (mb_bytes b) m"

definition L2SPResource_new :: "u64 \<Rightarrow> u64 \<Rightarrow> rt_mem \<Rightarrow> (L2SPResource \<times> rt_mem) or_abort" where
  "L2SPResource_new bufferStart bufferSize m =
     abort_bind (L2SPResourceRatioBreakdown_new bufferStart bufferSize) (\<lambda>bd.
     abort_bind (slab_in 8 (l2b_bucket8 bd) m) (\<lambda>(bucket8, m).
     abort_bind (slab_in 16 (l2b_bucket16 bd) m) (\<lambda>(bucket16, m).
     abort_bind (slab_in 32 (l2b_bucket32 bd) m) (\<lambda>(bucket32, m).
     abort_bind (FreeListMemoryResource_new (mb_start (l2b_freeList bd)) (mb_bytes (l2b_freeList bd)) m) (\<lambda>(freeList, m).
     abort_bind (BumpMemoryResource_new (mb_start (l2b_bump bd)) (mb_bytes (l2b_bump bd)) m) (\<lambda>(bump, m).
       Inr (\<lparr>l2_breakdown = bd, l2_bucket8 = bucket8, l2_bucket16 = bucket16, l2_bucket32 = bucket32,
             l2_freeList = freeList, l2_bump = bump\<rparr>, m)))))))"

definition L2SPResource_allocate :: "L2SPResource \<Rightarrow> u64 \<Rightarrow> rt_mem \<Rightarrow> (u64 \<times> rt_mem) option" where
  "L2SPResource_allocate r bytes m =
     (case (if bytes \<le> sl_slabSize (l2_bucket8 r)
            then chainedTryAllocate bytes [l2_bucket8 r, l2_bucket16 r, l2_bucket32 r] m
            else if bytes \<le> sl_slabSize (l2_bucket16 r)
            then chainedTryAllocate bytes [l2_bucket16 r, l2_bucket32 r] m
            else if bytes \<le> sl_slabSize (l2_bucket32 r)
            then chainedTryAllocate bytes [l2_bucket32 r] m
            else Some (0, m)) of
        None \<Rightarrow> None
      | Some res \<Rightarrow> allocate_rest (l2_bump r) (l2_freeList r) bytes res)"

definition L2SPResource_deallocate :: "L2SPResource \<Rightarrow> u64 \<Rightarrow> u64 \<Rightarrow> rt_mem \<Rightarrow> rt_mem option or_abort" where
  "L2SPResource_deallocate r p bytes m =
     (case (if bytes \<le> sl_slabSize (l2_bucket8 r)
            then chainedTryDeallocate p [l2_bucket8 r, l2_bucket16 r, l2_bucket32 r] m
            else if bytes \<le> sl_slabSize (l2_bucket16 r)
            then chainedTryDeallocate p [l2_bucket16 r, l2_bucket32 r] m
            else if bytes \<le> sl_slabSize (l2_bucket32 r)
            then chainedTryDeallocate p [l2_bucket32 r] m
            else Some m) of
        None \<Rightarrow> Inr None
      | Some m' \<Rightarrow> deallocate_rest (l2_bump r) (l2_freeList r) p bytes m')"

record MainMemoryResource =
  mm_breakdown :: MainMemoryResourceRatioBreakdown
  mm_bucket8 :: SlabMemoryResource
  mm_bucket16 :: SlabMemoryResource
  mm_bucket32 :: SlabMemoryResource
  mm_bucket64 :: SlabMemoryResource
  mm_bucket128 :: SlabMemoryResource
  mm_freeList :: FreeListMemoryResource
  mm_bump :: BumpMemoryResource

definition MainMemoryResource_new :: "u64 \<Rightarrow> u64 \<Rightarrow> rt_mem \<Rightarrow> (MainMemoryResource \<times> rt_mem) or_abort" where
  "MainMemoryResource_new bufferStart bufferSize m =
     abort_bind (MainMemoryResourceRatioBreakdown_new bufferStart bufferSize) (\<lambda>bd.
     abort_bind (slab_in 8 (mmb_bucket8 bd) m) (\<lambda>(bucket8, m).
     abort_bind (slab_in 16 (mmb_bucket16 bd) m) (\<lambda>(bucket16, m).
     abort_bind (slab_in 32 (mmb_bucket32 bd) m) (\<lambda>(bucket32, m).
     abort_bind (slab_in 64 (mmb_bucket64 bd) m) (\<lambda>(bucket64, m).
     abort_bind (slab_in 128 (mmb_bucket128 bd) m) (\<lambda>(bucket128, m).
     abort_bind (FreeListMemoryResource_new (mb_start (mmb_freeList bd)) (mb_bytes (mmb_freeList bd)) m) (\<lambda>(freeList, m).
     abort_bind (BumpMemoryResource_new (mb_start (mmb_bump bd)) (mb_bytes (mmb_bump bd)) m) (\<lambda>(bump, m).
       Inr (\<lparr>mm_breakdown = bd, mm_bucket8 = bucket8, mm_bucket16 = bucket16, mm_bucket32 = bucket32,
             mm_bucket64 = bucket64, mm_bucket128 = bucket128, mm_freeList = freeList, mm_bump = bump\<rparr>, m)))))))))"

definition MainMemoryResource_allocate :: "MainMemoryResource \<Rightarrow> u64 \<Rightarrow> rt_mem \<Rightarrow> (u64 \<times> rt_mem) option" where
  "MainMemoryResource_allocate r bytes m =
     (case (if bytes \<le> sl_slabSize (mm_bucket8 r)
            then chainedTryAllocate bytes
                   [mm_bucket8 r, mm_bucket16 r, mm_bucket32 r, mm_bucket64 r, mm_bucket128 r] m
            else if bytes \<le> sl_slabSize (mm_bucket16 r)
            then chainedTryAllocate bytes [mm_bucket16 r, mm_bucket32 r, mm_bucket64 r, mm_bucket128 r] m
            else if bytes \<le> sl_slabSize (mm_bucket32 r)
            then chainedTryAllocate bytes [mm_bucket32 r, mm_bucket64 r, mm_bucket128 r] m
            else if bytes \<le> sl_slabSize (mm_bucket64 r)
            then chainedTryAllocate bytes [mm_bucket64 r, mm_bucket128 r] m
            else if bytes \<le> sl_slabSize (mm_bucket128 r)
            then chainedTryAllocate bytes [mm_bucket128 r] m
            else Some (0, m)) of
        None \<Rightarrow> None
      | Some res \<Rightarrow> allocate_rest (mm_bump r) (mm_freeList r) bytes res)"

definition MainMemoryResource_deallocate ::
  "MainMemoryResource \<Rightarrow> u64 \<Rightarrow> u64 \<Rightarrow> rt_mem \<Rightarrow> rt_mem option or_abort" where
  "MainMemoryResource_deallocate r p bytes m =
     (case (if bytes \<le> sl_slabSize (mm_bucket8 r)
            then chainedTryDeallocate p
                   [mm_bucket8 r, mm_bucket16 r, mm_bucket32 r, mm_bucket64 r, mm_bucket128 r] m
            else if bytes \<le> sl_slabSize (mm_bucket16 r)
            then chainedTryDeallocate p [mm_bucket16 r, mm_bucket32 r, mm_bucket64 r, mm_bucket128 r] m
            else if bytes \<le> sl_slabSize (mm_bucket32 r)
            then chainedTryDeallocate p [mm_bucket32 r, mm_bucket64 r, mm_bucket128 r] m
            else if bytes \<le> sl_slabSize (mm_bucket64 r)
            then chainedTryDeallocate p [mm_bucket64 r, mm_bucket128 r] m
            else if bytes \<le> sl_slabSize (mm_bucket128 r)
            then chainedTryDeallocate p [mm_bucket128 r] m
            else Some m) of
        None \<Rightarrow> Inr None
      | Some m' \<Rightarrow> deallocate_rest (mm_bump r) (mm_freeList r) p bytes m')"

subsection \<open>The shared interface\<close>

text \<open>The blocks a program holds are apart and inside the buffer.\<close>

definition heap_safe :: "u64 \<Rightarrow> u64 \<Rightarrow> (u64 \<times> u64) list \<Rightarrow> bool" where
  "heap_safe bufferStart bufferSize live \<longleftrightarrow>
     sorted_wrt (\<lambda>a b. block (fst a) (snd a) \<inter> block (fst b) (snd b) = {}) live \<and>
     (\<forall>b \<in> set live. block (fst b) (snd b) \<subseteq> {unat bufferStart ..< unat bufferStart + unat bufferSize})"

definition tiers_within :: "tiers \<Rightarrow> u64 \<Rightarrow> u64 \<Rightarrow> bool" where
  "tiers_within t s n \<longleftrightarrow> bump_region (tr_bump t) \<subseteq> {unat s ..< unat s + unat n} \<and>
     (\<forall>u \<in> set (tr_slabs t). slab_region u \<subseteq> {unat s ..< unat s + unat n})"

locale tiered_resource =
  fixes allocate :: "'r \<Rightarrow> u64 \<Rightarrow> rt_mem \<Rightarrow> (u64 \<times> rt_mem) option"
    and deallocate :: "'r \<Rightarrow> u64 \<Rightarrow> u64 \<Rightarrow> rt_mem \<Rightarrow> rt_mem option or_abort"
    and tiers_of :: "'r \<Rightarrow> tiers"
  assumes allocate_tiers: "allocate r n m = tiers_allocate (tiers_of r) n m"
    and deallocate_tiers: "deallocate r p n m = tiers_deallocate (tiers_of r) p n m"
begin

lemma reach_inv:
  assumes "heap_reach (allocate r) (deallocate r) (routed (tiers_of r)) m0 live m" "tiers_inv (tiers_of r) [] [] m0"
  shows "\<exists>gs pool. live = map asked gs \<and> tiers_inv (tiers_of r) gs pool m"
proof -
  have "allocate r = tiers_allocate (tiers_of r)" "deallocate r = tiers_deallocate (tiers_of r)"
    by (simp_all add: fun_eq_iff allocate_tiers deallocate_tiers)
  then show ?thesis using heap_reach_inv [of "tiers_of r" m0 live m] assms by simp
qed

lemma reach_safe:
  assumes "heap_reach (allocate r) (deallocate r) (routed (tiers_of r)) m0 live m" "tiers_inv (tiers_of r) [] [] m0"
    and "tiers_within (tiers_of r) s n"
  shows "heap_safe s n live"
proof -
  obtain gs pool where gs: "live = map asked gs" and inv: "tiers_inv (tiers_of r) gs pool m"
    using reach_inv [OF assms(1,2)] by blast
  note g = granted_asked [OF inv]
  have "sorted_wrt (\<lambda>a b. granted_bytes a \<inter> granted_bytes b = {}) gs"
    using tiers_invD(7) [OF inv] by (simp add: claimed_def sorted_wrt_append sorted_wrt_map)
  then have "sorted_wrt (\<lambda>a b. block (fst a) (fst (snd a)) \<inter> block (fst b) (fst (snd b)) = {}) gs"
    by (rule sorted_wrt_mono_rel [rotated]) (use g(1) in blast)
  moreover have "block (fst b) (fst (snd b)) \<subseteq> {unat s ..< unat s + unat n}" if "b \<in> set gs" for b
    using g [OF that] assms(3) unfolding tiers_within_def by blast
  ultimately show ?thesis unfolding heap_safe_def gs by (auto simp: sorted_wrt_map)
qed

lemma reach_allocate:
  assumes "heap_reach (allocate r) (deallocate r) (routed (tiers_of r)) m0 live m" "tiers_inv (tiers_of r) [] [] m0"
  shows "allocate r k m \<noteq> None"
proof -
  obtain gs pool where inv: "tiers_inv (tiers_of r) gs pool m" using reach_inv [OF assms] by blast
  then show ?thesis using tiers_alloc [OF inv, of k] by (auto simp: allocate_tiers)
qed

lemma reach_free:
  assumes "heap_reach (allocate r) (deallocate r) (routed (tiers_of r)) m0 live m" "tiers_inv (tiers_of r) [] [] m0"
    and "(p, k) \<in> set live" "routed (tiers_of r) k p"
  shows "\<exists>m'. deallocate r p k m = Inr (Some m')"
proof -
  obtain gs pool where gs: "live = map asked gs" and inv: "tiers_inv (tiers_of r) gs pool m"
    using reach_inv [OF assms(1,2)] by blast
  obtain xs ys where "live = xs @ (p, k) # ys" using assms(3) by (meson split_list)
  then obtain us g vs where "gs = us @ (p, k, g) # vs" using gs map_asked_split [of gs xs p k ys] by auto
  then show ?thesis using tiers_free [OF inv [unfolded \<open>gs = _\<close>] assms(4)] by (auto simp: deallocate_tiers)
qed

end

definition L2SP_tiers :: "L2SPResource \<Rightarrow> tiers" where
  "L2SP_tiers r = \<lparr>tr_slabs = [l2_bucket8 r, l2_bucket16 r, l2_bucket32 r], tr_freeList = l2_freeList r,
     tr_bump = l2_bump r\<rparr>"

definition Main_tiers :: "MainMemoryResource \<Rightarrow> tiers" where
  "Main_tiers r = \<lparr>tr_slabs = [mm_bucket8 r, mm_bucket16 r, mm_bucket32 r, mm_bucket64 r, mm_bucket128 r],
     tr_freeList = mm_freeList r, tr_bump = mm_bump r\<rparr>"

lemma L2SP_chain:
  "chain_for (L2SP_tiers r) n =
     (if n \<le> sl_slabSize (l2_bucket8 r) then [l2_bucket8 r, l2_bucket16 r, l2_bucket32 r]
      else if n \<le> sl_slabSize (l2_bucket16 r) then [l2_bucket16 r, l2_bucket32 r]
      else if n \<le> sl_slabSize (l2_bucket32 r) then [l2_bucket32 r] else [])"
  by (auto simp: chain_for_def L2SP_tiers_def)

lemma Main_chain:
  "chain_for (Main_tiers r) n =
     (if n \<le> sl_slabSize (mm_bucket8 r) then [mm_bucket8 r, mm_bucket16 r, mm_bucket32 r, mm_bucket64 r, mm_bucket128 r]
      else if n \<le> sl_slabSize (mm_bucket16 r) then [mm_bucket16 r, mm_bucket32 r, mm_bucket64 r, mm_bucket128 r]
      else if n \<le> sl_slabSize (mm_bucket32 r) then [mm_bucket32 r, mm_bucket64 r, mm_bucket128 r]
      else if n \<le> sl_slabSize (mm_bucket64 r) then [mm_bucket64 r, mm_bucket128 r]
      else if n \<le> sl_slabSize (mm_bucket128 r) then [mm_bucket128 r] else [])"
  by (auto simp: chain_for_def Main_tiers_def)

lemma tiers_of_sel [simp]:
  "tr_bump (L2SP_tiers r) = l2_bump r" "tr_freeList (L2SP_tiers r) = l2_freeList r"
  "tr_bump (Main_tiers r') = mm_bump r'" "tr_freeList (Main_tiers r') = mm_freeList r'"
  by (simp_all add: L2SP_tiers_def Main_tiers_def)

lemmas no_chain = chainedTryAllocate.simps(1) [symmetric] chainedTryDeallocate.simps(1) [symmetric]

interpretation l2sp: tiered_resource L2SPResource_allocate L2SPResource_deallocate L2SP_tiers
proof
  show "L2SPResource_allocate r n m = tiers_allocate (L2SP_tiers r) n m" for r n m
    by (simp only: L2SPResource_allocate_def tiers_allocate_def L2SP_chain tiers_of_sel no_chain(1) [of m n] split: if_split)
      simp
  show "L2SPResource_deallocate r p n m = tiers_deallocate (L2SP_tiers r) p n m" for r p n m
    by (simp only: L2SPResource_deallocate_def tiers_deallocate_def L2SP_chain tiers_of_sel no_chain(2) [of m p] split: if_split)
      simp
qed

interpretation main_mem: tiered_resource MainMemoryResource_allocate MainMemoryResource_deallocate Main_tiers
proof
  show "MainMemoryResource_allocate r n m = tiers_allocate (Main_tiers r) n m" for r n m
    by (simp only: MainMemoryResource_allocate_def tiers_allocate_def Main_chain tiers_of_sel no_chain(1) [of m n] split: if_split)
      simp
  show "MainMemoryResource_deallocate r p n m = tiers_deallocate (Main_tiers r) p n m" for r p n m
    by (simp only: MainMemoryResource_deallocate_def tiers_deallocate_def Main_chain tiers_of_sel no_chain(2) [of m p] split: if_split)
      simp
qed

subsection \<open>Construction\<close>

text \<open>The constructors of the slab members one after the other.\<close>

fun slabs_new :: "(u64 \<times> MemoryBucket) list \<Rightarrow> rt_mem \<Rightarrow> (SlabMemoryResource list \<times> rt_mem) or_abort" where
  "slabs_new [] m = Inr ([], m)"
| "slabs_new ((k, b) # bs) m =
     abort_bind (slab_in k b m) (\<lambda>(s, m). abort_bind (slabs_new bs m) (\<lambda>(ss, m). Inr (s # ss, m)))"

lemma in_order_end:
  "in_order e bs \<Longrightarrow> b \<in> set bs \<Longrightarrow> e \<le> unat (mb_start b) \<and> bucket_end b \<le> bucket_end (last bs)"
proof (induction bs arbitrary: e b)
  case (Cons a bs)
  show ?case
  proof (cases "bs = []")
    case False
    then have l: "last bs \<in> set bs" by simp
    have "bucket_end a \<le> unat (mb_start (last bs))" using Cons.IH [of "bucket_end a"] Cons.prems(1) l by simp
    then have "bucket_end a \<le> bucket_end (last bs)" by (simp add: bucket_end_def)
    moreover have "e \<le> bucket_end a" using Cons.prems(1) by (simp add: bucket_end_def)
    ultimately show ?thesis using Cons.IH [of "bucket_end a" b] Cons.prems False by (cases "b \<in> set bs") force+
  qed (use Cons.prems in simp)
qed simp

text \<open>New slab resources: their extents follow each other in \<open>[e, e')\<close>, and they are untouched.\<close>

definition fresh_slabs :: "nat \<Rightarrow> nat \<Rightarrow> SlabMemoryResource list \<Rightarrow> rt_mem \<Rightarrow> bool" where
  "fresh_slabs e e' ss m \<longleftrightarrow> e \<le> e' \<and>
     (\<forall>s \<in> set ss. slab_ok s \<and> slab_extent s \<subseteq> {e ..< e'} \<and> slab_inv s m \<and> slab_used s m = {}) \<and>
     sorted_wrt (\<lambda>a b. slab_extent a \<inter> slab_extent b = {}) ss"

lemma fresh_slabs_agree:
  assumes "fresh_slabs e e' ss m" "\<And>c. unat c \<in> {e ..< e'} \<Longrightarrow> m' c = m c"
  shows "fresh_slabs e e' ss m'"
proof -
  have "slab_inv s m' \<and> slab_used s m' = slab_used s m" if "s \<in> set ss" for s
    using assms that slab_footprint_extent unfolding fresh_slabs_def by (intro slab_footprint_agree) blast+
  then show ?thesis using assms(1) unfolding fresh_slabs_def by simp
qed

lemma slabs_new_fresh:
  assumes "slabs_new bs m = Inr (ss, m')" "in_order e (map snd bs @ rest)" "0 < e"
    and "\<forall>(k, b) \<in> set bs. 8 dvd unat k \<and> 0 < unat k \<and> unat (mb_start b) + 9 * unat (mb_bytes b) < 2 ^ 64"
  shows "\<exists>e'. fresh_slabs e e' ss m' \<and> in_order e' rest \<and> map sl_slabSize ss = map fst bs \<and>
    (\<forall>c. unat c \<notin> {e ..< e'} \<longrightarrow> m' c = m c)"
  using assms
proof (induction bs arbitrary: e m ss m')
  case Nil
  then show ?case by (auto simp: fresh_slabs_def intro!: exI [of _ e])
next
  case (Cons x bs)
  obtain k b where x: "x = (k, b)" by (cases x)
  obtain s m1 ss' where r: "slab_in k b m = Inr (s, m1)" "slabs_new bs m1 = Inr (ss', m')" "ss = s # ss'"
    using Cons.prems(1) by (auto simp: x abort_bind_Inr)
  have st: "e \<le> unat (mb_start b)" "in_order (bucket_end b) (map snd bs @ rest)" using Cons.prems(2) x by simp_all
  have k: "8 dvd unat k" "0 < unat k" "unat (mb_start b) + 9 * unat (mb_bytes b) < 2 ^ 64"
    using Cons.prems(4) x by auto
  have s0: "mb_start b \<noteq> 0" using st(1) Cons.prems(3) by auto
  note new = SlabMemoryResource_new_ok [OF r(1) [unfolded slab_in_def] k(1,2) s0 k(3)]
  have be: "0 < bucket_end b" "e \<le> bucket_end b" using st(1) Cons.prems(3) by (simp_all add: bucket_end_def)
  from Cons.IH [OF r(2) st(2) be(1)] Cons.prems(4) obtain e' where
    ih: "fresh_slabs (bucket_end b) e' ss' m'" "in_order e' rest" "map sl_slabSize ss' = map fst bs"
      "\<forall>c. unat c \<notin> {bucket_end b ..< e'} \<longrightarrow> m' c = m1 c" by auto
  have le: "bucket_end b \<le> e'" using ih(1) by (simp add: fresh_slabs_def)
  have ex: "slab_extent s \<subseteq> {e ..< bucket_end b}"
    using new(4,5) st(1) by (auto simp: slab_extent_def bucket_end_def)
  have u: "m1 (sl_initState s) = 2" using new(2) by simp
  have "unat (sl_initState s) \<in> slab_extent s"
    by (rule slab_footprint_extent(1) [OF new(1)]) (simp add: slab_footprint_def)
  then have "m' (sl_initState s) = 2" using ih(4) ex u by auto
  then have si: "slab_inv s m'" "slab_used s m' = {}" using new(1) by (simp_all add: slab_inv_def slab_used_def)
  have "fresh_slabs e e' (s # ss') m'"
    using ih(1) ex si new(1) be(2) le unfolding fresh_slabs_def by fastforce
  moreover have "m' c = m c" if "unat c \<notin> {e ..< e'}" for c
    using that ih(4) new(2,4) st(1) be(2) le \<open>unat (sl_initState s) \<in> _\<close> ex by auto
  ultimately show ?case using ih(2,3) new(3) r(3) x by auto
qed

lemma freelist_cells_extent:
  assumes "unat (fl_mutex f) + 8 \<le> unat (fl_head f)" "unat (fl_head f) + 24 < 2 ^ 64" "c \<in> freelist_cells f []"
  shows "unat c \<in> freelist_extent f"
proof -
  have "unat (fl_head f + 8) = unat (fl_head f) + 8" "unat (fl_head f + 16) = unat (fl_head f) + 16"
    using assms(2) by (subst unat_add_no_wrap; simp)+
  then show ?thesis using assms by (auto simp: freelist_cells_def cells_def freelist_extent_def)
qed

lemma tiers_construct:
  assumes sl: "slabs_new bs m = Inr (ss, m1)"
    and fl: "FreeListMemoryResource_new (mb_start bf) (mb_bytes bf) m1 = Inr (f, m2)"
    and bp: "BumpMemoryResource_new (mb_start bb) (mb_bytes bb) m2 = Inr (b, m3)"
    and ord: "in_order (unat s) (map snd bs @ [bf, bb])" "bucket_end bb = unat s + unat n"
    and s: "s \<noteq> 0" "unat s + 10 * unat n < 2 ^ 64"
    and k: "sorted_wrt (\<le>) (map fst bs)" "\<forall>k \<in> set (map fst bs). 8 dvd unat k \<and> 0 < unat k"
  shows "tiers_inv \<lparr>tr_slabs = ss, tr_freeList = f, tr_bump = b\<rparr> [] [] m3"
    "tiers_within \<lparr>tr_slabs = ss, tr_freeList = f, tr_bump = b\<rparr> s n"
proof -
  have in_buf: "unat s \<le> unat (mb_start x) \<and> bucket_end x \<le> unat s + unat n" if "x \<in> set (map snd bs @ [bf, bb])" for x
    using in_order_end [OF ord(1) that] ord(2) by simp
  have "0 < unat s" using s(1) by (simp add: unat_gt_0)
  have "\<forall>(k, x) \<in> set bs. 8 dvd unat k \<and> 0 < unat k \<and> unat (mb_start x) + 9 * unat (mb_bytes x) < 2 ^ 64"
  proof (intro ballI, clarify)
    fix k x assume kx: "(k, x) \<in> set bs"
    then have "x \<in> set (map snd bs @ [bf, bb])" "k \<in> set (map fst bs)" by force+
    then show "8 dvd unat k \<and> 0 < unat k \<and> unat (mb_start x) + 9 * unat (mb_bytes x) < 2 ^ 64"
      using k(2) in_buf [of x] s(2) unfolding bucket_end_def by auto
  qed
  from slabs_new_fresh [OF sl ord(1) \<open>0 < unat s\<close> this] obtain e where
    fs: "fresh_slabs (unat s) e ss m1" and oe: "in_order e [bf, bb]" and sz: "map sl_slabSize ss = map fst bs"
    by blast
  have e: "e \<le> unat (mb_start bf)" "bucket_end bf \<le> unat (mb_start bb)" "unat s \<le> e" using oe fs by (simp_all add: fresh_slabs_def)
  have bf: "mb_start bf \<noteq> 0" "unat (mb_start bf) + unat (mb_bytes bf) < 2 ^ 64"
    using e(1,3) \<open>0 < unat s\<close> in_buf [of bf] s(2) by (auto simp: bucket_end_def)
  note F = FreeListMemoryResource_new_rep [OF fl bf]
  have bb: "mb_start bb \<noteq> 0" "unat (mb_start bb) + unat (mb_bytes bb) < 2 ^ 64"
    using in_buf [of bb] \<open>0 < unat s\<close> s(2) by (auto simp: bucket_end_def)
  note B = BumpMemoryResource_new_ok [OF bp bb]
  have head: "unat (fl_head f) + 24 < 2 ^ 64" using F(4) bf(2) by simp
  have fx: "freelist_extent f \<subseteq> {unat (mb_start bf) ..< bucket_end bf}"
    using F(2,4) by (auto simp: freelist_extent_def bucket_end_def)
  have bx: "bump_extent b \<subseteq> {unat (mb_start bb) ..< unat s + unat n}"
    using B(4,5,6) ord(2) by (auto simp: bump_extent_def bucket_end_def)
  have m2: "m2 c = m1 c" if "unat c \<notin> freelist_extent f" for c
    using F(5) freelist_cells_extent [OF F(3) head] that by blast
  have m3: "m3 c = m2 c" if "unat c \<notin> bump_extent b" for c
    using B(7) [of c] bump_footprint_extent(1) [OF B(1), of c] that by (auto simp: bump_footprint_def)
  have fs3: "fresh_slabs (unat s) e ss m3"
  proof (rule fresh_slabs_agree [OF fs])
    fix c :: u64 assume "unat c \<in> {unat s ..< e}"
    then have "unat c \<notin> freelist_extent f" "unat c \<notin> bump_extent b"
      using fx bx e(1,2) by (auto simp: bucket_end_def)
    then show "m3 c = m1 c" using m2 m3 by simp
  qed
  have rep: "freelist_rep f [] m3"
  proof (rule freelist_rep_agree [OF F(1)])
    fix c assume "c \<in> freelist_cells f []"
    then have "unat c \<in> freelist_extent f" by (rule freelist_cells_extent [OF F(3) head])
    then show "m3 c = m2 c" using fx bx e(2) by (intro m3) fastforce
  qed
  have srt: "sorted_wrt (\<lambda>a b. sl_slabSize a \<le> sl_slabSize b) ss"
    using k(1) unfolding sz [symmetric] sorted_wrt_map .
  have dis: "slab_extent x \<inter> freelist_extent f = {} \<and> slab_extent x \<inter> bump_extent b = {}" if "x \<in> set ss" for x
  proof -
    have "slab_extent x \<subseteq> {unat s ..< e}" using fs that unfolding fresh_slabs_def by blast
    then show ?thesis using fx bx e(1,2) by (fastforce simp: bucket_end_def)
  qed
  have "freelist_extent f \<inter> bump_extent b = {}" using fx bx e(2) by fastforce
  then have "tiers_ok \<lparr>tr_slabs = ss, tr_freeList = f, tr_bump = b\<rparr>"
    unfolding tiers_ok_def using fs dis B(1) F(3) head srt by (simp add: fresh_slabs_def)
  moreover have "bump_inv 4 b m3" using B(1-3) by (simp add: bump_inv_def)
  ultimately show "tiers_inv \<lparr>tr_slabs = ss, tr_freeList = f, tr_bump = b\<rparr> [] [] m3"
    unfolding tiers_inv_def using fs3 rep by (simp add: fresh_slabs_def claimed_def)
  have "unat s \<le> unat (mb_start bb)" "e \<le> unat s + unat n"
    using in_buf [of bb] in_buf [of bf] e(1) by (auto simp: bucket_end_def)
  then show "tiers_within \<lparr>tr_slabs = ss, tr_freeList = f, tr_bump = b\<rparr> s n"
    using bump_region_extent [OF B(1)] bx slab_region_extent fs unfolding tiers_within_def fresh_slabs_def by fastforce
qed

lemma L2SPResource_new_inv:
  assumes new: "L2SPResource_new s n m = Inr (r, m0)"
    and s: "s \<noteq> 0" "unat s + 10 * unat n < 2 ^ 64" "2048 \<le> unat n"
  shows "tiers_inv (L2SP_tiers r) [] [] m0" "tiers_within (L2SP_tiers r) s n"
proof -
  obtain bd b8 b16 b32 f b m1 m2 m3 m4 where
    bd: "L2SPResourceRatioBreakdown_new s n = Inr bd"
    and sl: "slab_in 8 (l2b_bucket8 bd) m = Inr (b8, m1)" "slab_in 16 (l2b_bucket16 bd) m1 = Inr (b16, m2)"
      "slab_in 32 (l2b_bucket32 bd) m2 = Inr (b32, m3)"
    and fl: "FreeListMemoryResource_new (mb_start (l2b_freeList bd)) (mb_bytes (l2b_freeList bd)) m3 = Inr (f, m4)"
    and bp: "BumpMemoryResource_new (mb_start (l2b_bump bd)) (mb_bytes (l2b_bump bd)) m4 = Inr (b, m0)"
    and r: "r = \<lparr>l2_breakdown = bd, l2_bucket8 = b8, l2_bucket16 = b16, l2_bucket32 = b32, l2_freeList = f, l2_bump = b\<rparr>"
    using new by (auto simp: L2SPResource_new_def abort_bind_Inr)
  note lay = L2SP_layout [OF bd s(1) _ s(3)]
  let ?bs = "[(8, l2b_bucket8 bd), (16, l2b_bucket16 bd), (32, l2b_bucket32 bd)]"
  have "slabs_new ?bs m = Inr ([b8, b16, b32], m3)" using sl by (simp add: abort_bind_def)
  note tc = tiers_construct [OF this fl bp, of s n]
  have T: "L2SP_tiers r = \<lparr>tr_slabs = [b8, b16, b32], tr_freeList = f, tr_bump = b\<rparr>" by (simp add: L2SP_tiers_def r)
  show "tiers_inv (L2SP_tiers r) [] [] m0" "tiers_within (L2SP_tiers r) s n"
    unfolding T using lay s by (intro tc; simp)+
qed

lemma MainMemoryResource_new_inv:
  assumes new: "MainMemoryResource_new s n m = Inr (r, m0)"
    and s: "s \<noteq> 0" "unat s + 10 * unat n < 2 ^ 64" "2048 \<le> unat n"
  shows "tiers_inv (Main_tiers r) [] [] m0" "tiers_within (Main_tiers r) s n"
proof -
  obtain bd b8 b16 b32 b64 b128 f b m1 m2 m3 m4 m5 m6 where
    bd: "MainMemoryResourceRatioBreakdown_new s n = Inr bd"
    and sl: "slab_in 8 (mmb_bucket8 bd) m = Inr (b8, m1)" "slab_in 16 (mmb_bucket16 bd) m1 = Inr (b16, m2)"
      "slab_in 32 (mmb_bucket32 bd) m2 = Inr (b32, m3)" "slab_in 64 (mmb_bucket64 bd) m3 = Inr (b64, m4)"
      "slab_in 128 (mmb_bucket128 bd) m4 = Inr (b128, m5)"
    and fl: "FreeListMemoryResource_new (mb_start (mmb_freeList bd)) (mb_bytes (mmb_freeList bd)) m5 = Inr (f, m6)"
    and bp: "BumpMemoryResource_new (mb_start (mmb_bump bd)) (mb_bytes (mmb_bump bd)) m6 = Inr (b, m0)"
    and r: "r = \<lparr>mm_breakdown = bd, mm_bucket8 = b8, mm_bucket16 = b16, mm_bucket32 = b32, mm_bucket64 = b64,
      mm_bucket128 = b128, mm_freeList = f, mm_bump = b\<rparr>"
    using new by (auto simp: MainMemoryResource_new_def abort_bind_Inr)
  note lay = Main_layout [OF bd s(1) _ s(3)]
  let ?bs = "[(8, mmb_bucket8 bd), (16, mmb_bucket16 bd), (32, mmb_bucket32 bd), (64, mmb_bucket64 bd),
    (128, mmb_bucket128 bd)]"
  have "slabs_new ?bs m = Inr ([b8, b16, b32, b64, b128], m5)" using sl by (simp add: abort_bind_def)
  note tc = tiers_construct [OF this fl bp, of s n]
  have T: "Main_tiers r = \<lparr>tr_slabs = [b8, b16, b32, b64, b128], tr_freeList = f, tr_bump = b\<rparr>"
    by (simp add: Main_tiers_def r)
  show "tiers_inv (Main_tiers r) [] [] m0" "tiers_within (Main_tiers r) s n"
    unfolding T using lay s by (intro tc; simp)+
qed

subsection \<open>Properties\<close>

text \<open>
  C3: the L2SP memory resource is a safe allocator. In every state that a program reaches from the constructor by requests
  of any size, by frees that no slab resource claims wrongly and by stores inside the blocks it holds, these
  blocks are pairwise disjoint and inside the buffer, every request returns, and every such free returns without an abort.
\<close>

theorem L2SPResource_safe:
  assumes "L2SPResource_new s n m = Inr (r, m0)" "s \<noteq> 0" "unat s + 10 * unat n < 2 ^ 64" "2048 \<le> unat n"
    and "heap_reach (L2SPResource_allocate r) (L2SPResource_deallocate r) (routed (L2SP_tiers r)) m0 live m'"
  shows "heap_safe s n live \<and> (\<forall>k. L2SPResource_allocate r k m' \<noteq> None) \<and>
    (\<forall>(p, k) \<in> set live. routed (L2SP_tiers r) k p \<longrightarrow> (\<exists>m''. L2SPResource_deallocate r p k m' = Inr (Some m'')))"
  using l2sp.reach_safe [OF assms(5)] l2sp.reach_allocate [OF assms(5)] l2sp.reach_free [OF assms(5)]
    L2SPResource_new_inv [OF assms(1-4)] by blast

text \<open>C4: the main-memory resource, with its five slab sizes, is a safe allocator in the same sense.\<close>

theorem MainMemoryResource_safe:
  assumes "MainMemoryResource_new s n m = Inr (r, m0)" "s \<noteq> 0" "unat s + 10 * unat n < 2 ^ 64" "2048 \<le> unat n"
    and "heap_reach (MainMemoryResource_allocate r) (MainMemoryResource_deallocate r) (routed (Main_tiers r)) m0 live m'"
  shows "heap_safe s n live \<and> (\<forall>k. MainMemoryResource_allocate r k m' \<noteq> None) \<and>
    (\<forall>(p, k) \<in> set live. routed (Main_tiers r) k p \<longrightarrow> (\<exists>m''. MainMemoryResource_deallocate r p k m' = Inr (Some m'')))"
  using main_mem.reach_safe [OF assms(5)] main_mem.reach_allocate [OF assms(5)] main_mem.reach_free [OF assms(5)]
    MainMemoryResource_new_inv [OF assms(1-4)] by blast

subsection \<open>Concrete resources\<close>

definition example_l2sp :: L2SPResource where
  "example_l2sp =
     \<lparr>l2_breakdown =
        \<lparr>l2b_bucket8 = \<lparr>mb_ratio = to_double 0.2, mb_bytes = 408, mb_start = 0x10000\<rparr>,
         l2b_bucket16 = \<lparr>mb_ratio = to_float 0.3, mb_bytes = 608, mb_start = 0x101A0\<rparr>,
         l2b_bucket32 = \<lparr>mb_ratio = to_double 0.4, mb_bytes = 800, mb_start = 0x10400\<rparr>,
         l2b_freeList = \<lparr>mb_ratio = 1 / 64, mb_bytes = 32, mb_start = 0x10720\<rparr>,
         l2b_bump = \<lparr>mb_ratio = 3 / 32, mb_bytes = 192, mb_start = 0x10740\<rparr>\<rparr>,
      l2_bucket8 = \<lparr>sl_slabSize = 8, sl_buffer = 0x10008, sl_numUserSlabs = 49, sl_capacity = 392,
        sl_numBitmapSlabs = 1, sl_numBitmaps = 1, sl_initState = 0x10000\<rparr>,
      l2_bucket16 = \<lparr>sl_slabSize = 16, sl_buffer = 0x101B0, sl_numUserSlabs = 36, sl_capacity = 576,
        sl_numBitmapSlabs = 1, sl_numBitmaps = 1, sl_initState = 0x101A0\<rparr>,
      l2_bucket32 = \<lparr>sl_slabSize = 32, sl_buffer = 0x10420, sl_numUserSlabs = 23, sl_capacity = 736,
        sl_numBitmapSlabs = 1, sl_numBitmaps = 1, sl_initState = 0x10400\<rparr>,
      l2_freeList = \<lparr>fl_head = 0x10728, fl_mutex = 0x10720\<rparr>,
      l2_bump = \<lparr>bp_buffer = 0x10750, bp_curOffset = 0x10740, bp_mutex = 0x10748, bp_capacity = 176\<rparr>\<rparr>"

definition example_l2sp_mem :: rt_mem where
  "example_l2sp_mem = (\<lambda>_. 0)(0x10000 := 2, 0x101A0 := 2, 0x10400 := 2)"

lemma example_shares:
  "\<lfloor>to_double (to_double (1 / 5) * to_double 2048)\<rfloor> = 409" "\<lfloor>to_double (to_float (3 / 10) * to_double 2048)\<rfloor> = 614"
  "\<lfloor>to_double (to_double (2 / 5) * to_double 2048)\<rfloor> = 819" "to_double (to_double 32 / to_double 2048) = 1 / 64"
  "to_double (to_double 192 / to_double 2048) = 3 / 32"
  by code_simp+

lemma example_l2sp_breakdown: "L2SPResourceRatioBreakdown_new 0x10000 2048 = Inr (l2_breakdown example_l2sp)"
  by (simp add: L2SPResourceRatioBreakdown_new_def alignStartAndRound_def initializeFreeListResourceBucket_def
      initializeBumpResourceBucket_def abort_bind_def example_shares align_def Let_def example_l2sp_def
      freelist_computeMetadataSize_def sizeof_FreeListNode_def bump_computeMetadataSize_def alignof_MaxAlignT_def)

lemma example_l2sp_new: "L2SPResource_new 0x10000 2048 (\<lambda>_. 0) = Inr (example_l2sp, example_l2sp_mem)"
  by (simp add: L2SPResource_new_def example_l2sp_breakdown abort_bind_def slab_in_def)
    (simp add: example_l2sp_def example_l2sp_mem_def SlabMemoryResource_new_def numLockSlabs_def bitmapBits_def
      nextMultipleOf_def FreeListMemoryResource_new_def BumpMemoryResource_new_def InplaceMutex_initialize_def
      atomic_defs align_def sizeof_FreeListNode_def Let_def fun_eq_iff)

text \<open>A request of 100 bytes goes to the bump resource, and its free to the free list.\<close>

lemma example_l2sp_alloc:
  "L2SPResource_allocate example_l2sp 100 example_l2sp_mem = Some (0x10750, example_l2sp_mem(0x10740 := 100))"
proof -
  have lk: "InplaceMutex_lock 0x10748 example_l2sp_mem = Some (example_l2sp_mem(0x10748 := 1))"
    by (rule InplaceMutex_lock_free) (simp add: example_l2sp_mem_def)
  show ?thesis
    by (simp add: L2SPResource_allocate_def example_l2sp_def minimumBumpAllocation_def
        minimumAllowableAllocationSize_def sizeof_FreeListNode_def max_def bump_allocate_def lk Let_def
        alignof_MaxAlignT_def align_def InplaceMutex_unlock_def atomic_defs)
      (simp add: example_l2sp_mem_def fun_eq_iff align_def)
qed

theorem L2SPResource_safe_witness:
  "heap_reach (L2SPResource_allocate example_l2sp) (L2SPResource_deallocate example_l2sp) (routed (L2SP_tiers example_l2sp))
     example_l2sp_mem [(0x10750, 100)] (example_l2sp_mem(0x10740 := 100, 0x10758 := 7)) \<and>
   heap_safe 0x10000 2048 [(0x10750, 100)] \<and>
   (\<exists>m''. L2SPResource_deallocate example_l2sp 0x10750 100 (example_l2sp_mem(0x10740 := 100, 0x10758 := 7)) = Inr (Some m''))"
proof -
  let ?reach = "heap_reach (L2SPResource_allocate example_l2sp) (L2SPResource_deallocate example_l2sp)
    (routed (L2SP_tiers example_l2sp)) example_l2sp_mem"
  have "?reach [(0x10750, 100)] (example_l2sp_mem(0x10740 := 100))"
    using heap_alloc [OF heap_start, of "L2SPResource_allocate example_l2sp"] example_l2sp_alloc by fastforce
  then have r: "?reach [(0x10750, 100)] (example_l2sp_mem(0x10740 := 100, 0x10758 := 7))"
    using heap_store [of _ _ _ _ "[(0x10750, 100)]" _ "0x10750" 100 8 7] by fastforce
  have "routed (L2SP_tiers example_l2sp) 100 0x10750"
    by (simp add: routed_def L2SP_chain) (simp add: example_l2sp_def)
  then show ?thesis using L2SPResource_safe [OF example_l2sp_new _ _ _ r] r by simp
qed

definition example_main :: MainMemoryResource where
  "example_main =
     \<lparr>mm_breakdown =
        \<lparr>mmb_bucket8 = \<lparr>mb_ratio = to_float 0.006, mb_bytes = 96, mb_start = 0x10000\<rparr>,
         mmb_bucket16 = \<lparr>mb_ratio = to_float 0.006, mb_bytes = 96, mb_start = 0x10060\<rparr>,
         mmb_bucket32 = \<lparr>mb_ratio = to_float 0.006, mb_bytes = 96, mb_start = 0x100C0\<rparr>,
         mmb_bucket64 = \<lparr>mb_ratio = to_float 0.063, mb_bytes = 1024, mb_start = 0x10140\<rparr>,
         mmb_bucket128 = \<lparr>mb_ratio = to_float 0.031, mb_bytes = 384, mb_start = 0x10580\<rparr>,
         mmb_freeList = \<lparr>mb_ratio = 1 / 512, mb_bytes = 32, mb_start = 0x10700\<rparr>,
         mmb_bump = \<lparr>mb_ratio = 455 / 512, mb_bytes = 14560, mb_start = 0x10720\<rparr>\<rparr>,
      mm_bucket8 = \<lparr>sl_slabSize = 8, sl_buffer = 0x10008, sl_numUserSlabs = 10, sl_capacity = 80,
        sl_numBitmapSlabs = 1, sl_numBitmaps = 1, sl_initState = 0x10000\<rparr>,
      mm_bucket16 = \<lparr>sl_slabSize = 16, sl_buffer = 0x10070, sl_numUserSlabs = 4, sl_capacity = 64,
        sl_numBitmapSlabs = 1, sl_numBitmaps = 1, sl_initState = 0x10060\<rparr>,
      mm_bucket32 = \<lparr>sl_slabSize = 32, sl_buffer = 0x100E0, sl_numUserSlabs = 1, sl_capacity = 32,
        sl_numBitmapSlabs = 1, sl_numBitmaps = 1, sl_initState = 0x100C0\<rparr>,
      mm_bucket64 = \<lparr>sl_slabSize = 64, sl_buffer = 0x10180, sl_numUserSlabs = 14, sl_capacity = 896,
        sl_numBitmapSlabs = 1, sl_numBitmaps = 1, sl_initState = 0x10140\<rparr>,
      mm_bucket128 = \<lparr>sl_slabSize = 128, sl_buffer = 0x10600, sl_numUserSlabs = 1, sl_capacity = 128,
        sl_numBitmapSlabs = 1, sl_numBitmaps = 1, sl_initState = 0x10580\<rparr>,
      mm_freeList = \<lparr>fl_head = 0x10708, fl_mutex = 0x10700\<rparr>,
      mm_bump = \<lparr>bp_buffer = 0x10730, bp_curOffset = 0x10720, bp_mutex = 0x10728, bp_capacity = 14544\<rparr>\<rparr>"

definition example_main_mem :: rt_mem where
  "example_main_mem = (\<lambda>_. 0)(0x10000 := 2, 0x10060 := 2, 0x100C0 := 2, 0x10140 := 2, 0x10580 := 2)"

lemma example_main_shares:
  "\<lfloor>to_double (to_float (3 / 500) * to_double 16384)\<rfloor> = 98" "\<lfloor>to_double (to_float (63 / 1000) * to_double 16384)\<rfloor> = 1032"
  "\<lfloor>to_double (to_float (31 / 1000) * to_double 16384)\<rfloor> = 507" "to_double (to_double 32 / to_double 16384) = 1 / 512"
  "to_double (to_double 14560 / to_double 16384) = 455 / 512"
  by code_simp+

lemma example_main_breakdown: "MainMemoryResourceRatioBreakdown_new 0x10000 16384 = Inr (mm_breakdown example_main)"
  by (simp add: MainMemoryResourceRatioBreakdown_new_def alignStartAndRound_def initializeFreeListResourceBucket_def
      initializeBumpResourceBucket_def abort_bind_def example_main_shares align_def Let_def example_main_def
      freelist_computeMetadataSize_def sizeof_FreeListNode_def bump_computeMetadataSize_def alignof_MaxAlignT_def)

lemma example_main_new: "MainMemoryResource_new 0x10000 16384 (\<lambda>_. 0) = Inr (example_main, example_main_mem)"
  by (simp add: MainMemoryResource_new_def example_main_breakdown abort_bind_def slab_in_def)
    (simp add: example_main_def example_main_mem_def SlabMemoryResource_new_def numLockSlabs_def bitmapBits_def
      nextMultipleOf_def FreeListMemoryResource_new_def BumpMemoryResource_new_def InplaceMutex_initialize_def
      atomic_defs align_def sizeof_FreeListNode_def Let_def fun_eq_iff)

lemma example_main_alloc:
  "MainMemoryResource_allocate example_main 200 example_main_mem = Some (0x10730, example_main_mem(0x10720 := 200))"
proof -
  have lk: "InplaceMutex_lock 0x10728 example_main_mem = Some (example_main_mem(0x10728 := 1))"
    by (rule InplaceMutex_lock_free) (simp add: example_main_mem_def)
  show ?thesis
    by (simp add: MainMemoryResource_allocate_def example_main_def minimumBumpAllocation_def
        minimumAllowableAllocationSize_def sizeof_FreeListNode_def max_def bump_allocate_def lk Let_def
        alignof_MaxAlignT_def align_def InplaceMutex_unlock_def atomic_defs)
      (simp add: example_main_mem_def fun_eq_iff align_def)
qed

theorem MainMemoryResource_safe_witness:
  "heap_safe 0x10000 16384 [(0x10730, 200)] \<and>
   (\<exists>m''. MainMemoryResource_deallocate example_main 0x10730 200 (example_main_mem(0x10720 := 200)) = Inr (Some m''))"
proof -
  have r: "heap_reach (MainMemoryResource_allocate example_main) (MainMemoryResource_deallocate example_main)
      (routed (Main_tiers example_main)) example_main_mem [(0x10730, 200)] (example_main_mem(0x10720 := 200))"
    using heap_alloc [OF heap_start, of "MainMemoryResource_allocate example_main"] example_main_alloc by fastforce
  have "routed (Main_tiers example_main) 200 0x10730"
    by (simp add: routed_def Main_chain) (simp add: example_main_def)
  then show ?thesis using MainMemoryResource_safe [OF example_main_new _ _ _ r] by simp
qed

text \<open>
  A free can be routed to the wrong slab resource. On the L2SP resource built over 2048 bytes, 0x10210 is slab 5 of the 16-byte bucket
  and 0x10010 is slab 0 of the 8-byte bucket. Freeing 0x10210 as a block of 8 bytes, as a program does that got
  it while the 8-byte bucket was full, leaves slab 5 in use and clears a bit of the contents of slab 0.
\<close>

theorem L2SP_misrouted_free:
  "L2SPResource_new 0x10000 2048 (\<lambda>_. 0) = Inr (example_l2sp, example_l2sp_mem) \<and>
   slab_ptr (l2_bucket16 example_l2sp) 5 = 0x10210 \<and> slab_ptr (l2_bucket8 example_l2sp) 0 = 0x10010 \<and>
   L2SPResource_deallocate example_l2sp 0x10210 8 m = Inr (Some (m(0x10010 := m 0x10010 AND NOT 1)))"
  by (intro conjI, rule example_l2sp_new)
    (simp_all add: example_l2sp_def slab_ptr_def getUserRegionStart_def L2SPResource_deallocate_def
      slab_pointerIsOwned_def slab_deallocate_def slab_clear_solo atomicLoad_def bitmap_ptr_def Let_def
      deallocate_rest_def bump_pointerIsOwned_def)

end
