(* ===== verification/Rt_Containers.thy ===== *)
theory Rt_Containers
  imports Address_Translation Rt_Status
begin

text \<open>
  The typed allocation front end (\<^verbatim>\<open>pando-rt/memory/allocate_memory.hpp\<close>) and the containers
  \<^verbatim>\<open>pando::Array\<close> and \<^verbatim>\<open>pando::Vector\<close> (\<^verbatim>\<open>pando-rt/containers/array.hpp\<close>, \<^verbatim>\<open>vector.hpp\<close>) built on it.

  An array is its pointer, its element count, its memory type and the list of the elements stored
  behind the pointer. What the code finds around it is the record \<open>alloc_env\<close>: the calling place, whether
  it runs on the command processor, the local and the remote allocator (a null
  pointer or an error where they fail), whether a remote release can be started, and the indeterminate elements of
  fresh memory. The value-initialized
  element \<^verbatim>\<open>T{}\<close> is \<open>0\<close>.
\<close>

subsection \<open>Typed allocation\<close>

definition memoryTypeOf :: "GlobalAddress \<Rightarrow> MemoryType" where
  "memoryTypeOf ptr = extractMemoryType ptr"

definition localityOf :: "GlobalAddress \<Rightarrow> Place" where
  "localityOf ptr =
     (if ptr = 0 then anyPlace
      else
        let memoryType = extractMemoryType ptr;
            nodeIdx = extractNodeIndex ptr;
            podIdx = (if memoryType \<noteq> MainMem then extractPodIndex ptr else anyPod);
            coreIdx = (if memoryType = L1SP then extractCoreIndex ptr else anyCore)
        in Place nodeIdx podIdx coreIdx)"

record 'a alloc_env =
  getCurrentPlace :: Place
  isOnCP :: bool
  allocateMemoryImpl :: "u64 \<Rightarrow> MemoryType \<Rightarrow> u64"
  executeOnWait_allocate :: "Place \<Rightarrow> u64 \<Rightarrow> MemoryType \<Rightarrow> u64 expected"
  executeOn_deallocate :: "Place \<Rightarrow> u64 \<Rightarrow> u64 \<Rightarrow> Status"
  sizeof_T :: u64
  fresh :: "u64 \<Rightarrow> nat \<Rightarrow> 'a"

definition null_is_BadAlloc :: "u64 expected \<Rightarrow> u64 expected" where
  "null_is_BadAlloc r = (case r of Inl e \<Rightarrow> Inl e | Inr p \<Rightarrow> if p = 0 then Inl BadAlloc else Inr p)"

definition allocateMemory :: "('a, 'b) alloc_env_scheme \<Rightarrow> u64 \<Rightarrow> Place \<Rightarrow> MemoryType \<Rightarrow> u64 expected" where
  "allocateMemory env n place memoryType =
     (let numBytes = n * sizeof_T env in
      case memoryType of
        MainMem \<Rightarrow> null_is_BadAlloc
          (if place_node place = anyNode \<or> place_node place = place_node (getCurrentPlace env)
           then Inr (allocateMemoryImpl env numBytes MainMem)
           else executeOnWait_allocate env place numBytes MainMem)
      | L2SP \<Rightarrow> null_is_BadAlloc
          (let thisPlace = getCurrentPlace env in
           if \<not> isOnCP env \<and> (place_node place = anyNode \<or> place_node thisPlace = place_node place) \<and>
              place_pod thisPlace = place_pod place
           then Inr (allocateMemoryImpl env numBytes L2SP)
           else executeOnWait_allocate env place numBytes L2SP)
      | _ \<Rightarrow> Inl InvalidValue)"

text \<open>
  What \<^verbatim>\<open>deallocateMemory\<close> does: nothing, a local or a remote release of a block, given by its pointer and its bytes, or an abort.
\<close>

datatype release = NoRelease | ReleaseHere u64 u64 | ReleaseAt Place u64 u64

definition deallocateMemory ::
  "('a, 'b) alloc_env_scheme \<Rightarrow> u64 \<Rightarrow> u64 \<Rightarrow> release or_abort" where
  "deallocateMemory env p n =
     (if p = 0 then Inr NoRelease
      else
        let numBytes = n * sizeof_T env; place = localityOf p in
        case memoryTypeOf p of
          MainMem \<Rightarrow>
            if place_node place = place_node (getCurrentPlace env) then Inr (ReleaseHere p numBytes)
            else if executeOn_deallocate env place p numBytes \<noteq> Success then Inl (PANDO_ABORT ''Deallocation failed'')
            else Inr (ReleaseAt place p numBytes)
        | L2SP \<Rightarrow>
            let thisPlace = getCurrentPlace env in
            if \<not> isOnCP env \<and> place_node thisPlace = place_node place \<and> place_pod thisPlace = place_pod place
            then Inr (ReleaseHere p numBytes)
            else if executeOn_deallocate env place p numBytes \<noteq> Success then Inl (PANDO_ABORT ''Deallocation failed'')
            else Inr (ReleaseAt place p numBytes)
        | _ \<Rightarrow> Inl (PANDO_ABORT ''Invalid pointer to deallocate''))"

subsection \<open>Arrays\<close>

record 'a Array =
  ar_data :: u64
  ar_size :: u64
  ar_memoryType :: MemoryType
  ar_elems :: "'a list"

definition Array_empty :: "'a Array" where
  "Array_empty = \<lparr>ar_data = 0, ar_size = 0, ar_memoryType = UnknownMem, ar_elems = []\<rparr>"

definition Array_initialize ::
  "'a alloc_env \<Rightarrow> u64 \<Rightarrow> Place \<Rightarrow> MemoryType \<Rightarrow> Status \<times> 'a Array" where
  "Array_initialize env asize place memoryType =
     (if asize = 0
      then (Success, \<lparr>ar_data = 0, ar_size = 0, ar_memoryType = memoryType, ar_elems = []\<rparr>)
      else case allocateMemory env asize place memoryType of
        Inl e \<Rightarrow> (e, \<lparr>ar_data = 0, ar_size = 0, ar_memoryType = UnknownMem, ar_elems = []\<rparr>)
      | Inr p \<Rightarrow> (Success, \<lparr>ar_data = p, ar_size = asize, ar_memoryType = memoryType,
                            ar_elems = map (fresh env p) [0..<unat asize]\<rparr>))"

text \<open>
  \<^verbatim>\<open>deinitialize\<close> gives the block back and empties the array. The operations that deinitialize arrays return what was released,
  in order, beside their result; an abort in that list is the end of the program.
\<close>

definition Array_deinitialize :: "'a alloc_env \<Rightarrow> 'a Array \<Rightarrow> release or_abort \<times> 'a Array" where
  "Array_deinitialize env a =
     (deallocateMemory env (ar_data a) (ar_size a), \<lparr>ar_data = 0, ar_size = 0, ar_memoryType = UnknownMem, ar_elems = []\<rparr>)"

definition Array_get :: "'a Array \<Rightarrow> u64 \<Rightarrow> 'a" where
  "Array_get a pos = ar_elems a ! unat pos"

definition Array_set :: "'a Array \<Rightarrow> u64 \<Rightarrow> 'a \<Rightarrow> 'a Array" where
  "Array_set a pos v = a\<lparr>ar_elems := (ar_elems a)[unat pos := v]\<rparr>"

definition Array_fill :: "'a Array \<Rightarrow> 'a \<Rightarrow> 'a Array" where
  "Array_fill a v = fold (\<lambda>i b. Array_set b (word_of_nat i) v) [0..<unat (ar_size a)] a"

definition Array_ok :: "'a Array \<Rightarrow> bool" where
  "Array_ok a \<longleftrightarrow> length (ar_elems a) = unat (ar_size a) \<and> (ar_data a = 0 \<longleftrightarrow> ar_size a = 0)"

lemma Array_empty_ok [simp]: "Array_ok Array_empty"
  by (simp add: Array_ok_def Array_empty_def)

lemma Array_deinitialize_ok [simp]: "Array_ok (snd (Array_deinitialize env a))"
  by (simp add: Array_ok_def Array_deinitialize_def)

lemma Array_set_ok [simp]: "Array_ok a \<Longrightarrow> Array_ok (Array_set a i v)"
  by (simp add: Array_ok_def Array_set_def)

lemma allocateMemory_not_null: "allocateMemory env n place mt = Inr p \<Longrightarrow> p \<noteq> 0"
  by (auto simp: allocateMemory_def null_is_BadAlloc_def Let_def split: MemoryType.splits sum.splits if_splits)

text \<open>The error of a failed remote call is never \<^verbatim>\<open>Success\<close>.\<close>

definition env_ok :: "('a, 'b) alloc_env_scheme \<Rightarrow> bool" where
  "env_ok env \<longleftrightarrow> (\<forall>p b t. executeOnWait_allocate env p b t \<noteq> Inl Success)"

lemma allocateMemory_not_Success:
  assumes "env_ok env"
  shows "allocateMemory env n place mt \<noteq> Inl Success"
  using assms by (auto simp: env_ok_def allocateMemory_def null_is_BadAlloc_def Let_def split: MemoryType.splits sum.splits if_splits)

lemma Array_initialize_ok: "Array_ok (snd (Array_initialize env n place mt))"
  by (auto simp: Array_initialize_def Array_ok_def dest: allocateMemory_not_null split: sum.splits)

text \<open>A loop that rewrites every element in place.\<close>

lemma Array_loop_map:
  assumes "Array_ok a"
  shows "fold (\<lambda>i b. Array_set b (word_of_nat i) (f (Array_get b (word_of_nat i)))) [0..<unat (ar_size a)] a
    = a\<lparr>ar_elems := map f (ar_elems a)\<rparr>"
proof -
  have "fold (\<lambda>i b. Array_set b (word_of_nat i) (f (Array_get b (word_of_nat i)))) [0..<k] a
      = a\<lparr>ar_elems := map f (take k (ar_elems a)) @ drop k (ar_elems a)\<rparr>" if "k \<le> length (ar_elems a)" for k
    using that
  proof (induction k)
    case (Suc k)
    have "k < 2 ^ 64" using Suc.prems assms order.strict_trans1 [OF _ unat_lt_2p64 [of "ar_size a"]]
      by (simp add: Array_ok_def del: unat_lt_2p64)
    then show ?case
      using Suc by (simp add: Array_set_def Array_get_def list_update_append Cons_nth_drop_Suc [symmetric]
          take_Suc_conv_app_nth nth_append)
  qed simp
  from this [of "length (ar_elems a)"] assms show ?thesis by (simp add: Array_ok_def)
qed

lemma Array_fill_elems:
  assumes "Array_ok a"
  shows "Array_fill a v = a\<lparr>ar_elems := replicate (length (ar_elems a)) v\<rparr>"
  using Array_loop_map [OF assms, of "\<lambda>_. v"] by (simp add: Array_fill_def map_replicate_const)

lemma Array_fill_ok: "Array_ok a \<Longrightarrow> Array_ok (Array_fill a v)"
  by (simp add: Array_fill_elems) (simp add: Array_ok_def)

end
