(* ===== verification/Rt_Vector.thy ===== *)
theory Rt_Vector
  imports Rt_Containers Bit_Manip
begin

text \<open>
  \<^verbatim>\<open>pando::Vector\<close> (\<^verbatim>\<open>pando-rt/containers/vector.hpp\<close>), and the interface of a container that grows at its
  end, which the vector and \<^verbatim>\<open>galois::Stack\<close> provide. Every operation returns its status and the vector
  afterwards.
\<close>

record 'a Vector =
  v_size :: u64
  v_buf :: "'a Array"

definition Vector_empty :: "'a Vector" where
  "Vector_empty = \<lparr>v_size = 0, v_buf = Array_empty\<rparr>"

definition capacity :: "'a Vector \<Rightarrow> u64" where
  "capacity v = ar_size (v_buf v)"

definition Vector_initialize ::
  "'a :: zero alloc_env \<Rightarrow> u64 \<Rightarrow> Place \<Rightarrow> MemoryType \<Rightarrow> 'a Vector \<Rightarrow> Status \<times> 'a Vector" where
  "Vector_initialize env n place memoryType v =
     (let (status, buf) = Array_initialize env n place memoryType in
      if status = Success then (status, \<lparr>v_size = n, v_buf = Array_fill buf 0\<rparr>)
      else (status, v\<lparr>v_buf := buf\<rparr>))"

definition Vector_deinitialize :: "'a alloc_env \<Rightarrow> 'a Vector \<Rightarrow> release or_abort \<times> 'a Vector" where
  "Vector_deinitialize env v = (let (r, buf) = Array_deinitialize env (v_buf v) in (r, \<lparr>v_size = 0, v_buf = buf\<rparr>))"

text \<open>The element loop of the reallocations: element by element from the old to the new array.\<close>

fun move_elems :: "'a Array \<Rightarrow> 'a Array \<Rightarrow> nat \<Rightarrow> 'a Array" where
  "move_elems old new 0 = new"
| "move_elems old new (Suc i) = Array_set (move_elems old new i) (word_of_nat i) (Array_get old (word_of_nat i))"

definition Vector_reserve :: "'a alloc_env \<Rightarrow> u64 \<Rightarrow> 'a Vector \<Rightarrow> Status \<times> 'a Vector" where
  "Vector_reserve env nextCapacity v =
     (if nextCapacity \<le> capacity v then (Success, v)
      else
        let (status, newArray) = Array_initialize env nextCapacity
              (localityOf (ar_data (v_buf v))) (ar_memoryType (v_buf v))
        in if status \<noteq> Success then (BadAlloc, v)
           else (Success, v\<lparr>v_buf := move_elems (v_buf v) newArray (unat (v_size v))\<rparr>))"

definition growPow2 :: "'a alloc_env \<Rightarrow> u64 \<Rightarrow> 'a Vector \<Rightarrow> Status \<times> 'a Vector" where
  "growPow2 env biggerThan v =
     (if ar_data (v_buf v) = 0 \<and> biggerThan = 0 then Vector_reserve env 1 v
      else if ar_size (v_buf v) \<noteq> 0 \<and> 63 \<le> log2floor (ar_size (v_buf v)) then (StatusOutOfBounds, v)
      else Vector_reserve env (up2 biggerThan) v)"

definition Vector_resize :: "'a alloc_env \<Rightarrow> u64 \<Rightarrow> 'a Vector \<Rightarrow> Status \<times> 'a Vector" where
  "Vector_resize env newSize v =
     (if newSize \<le> capacity v then (Success, v\<lparr>v_size := newSize\<rparr>)
      else let (status, v') = growPow2 env (newSize - 1) v in
           if status \<noteq> Success then (status, v') else (Success, v'\<lparr>v_size := newSize\<rparr>))"

definition Vector_clear :: "'a Vector \<Rightarrow> 'a Vector" where
  "Vector_clear v = v\<lparr>v_size := 0\<rparr>"

definition Vector_get :: "'a Vector \<Rightarrow> u64 \<Rightarrow> 'a" where
  "Vector_get v pos = Array_get (v_buf v) pos"

definition Vector_set :: "'a Vector \<Rightarrow> u64 \<Rightarrow> 'a \<Rightarrow> 'a Vector" where
  "Vector_set v pos x = v\<lparr>v_buf := Array_set (v_buf v) pos x\<rparr>"

definition pushBack :: "'a alloc_env \<Rightarrow> 'a \<Rightarrow> 'a Vector \<Rightarrow> Status \<times> 'a Vector" where
  "pushBack env value v =
     (let (status, v1) = (if v_size v = capacity v then growPow2 env (v_size v) v else (Success, v)) in
      if status \<noteq> Success then (status, v1)
      else (Success, \<lparr>v_size = v_size v1 + 1, v_buf = Array_set (v_buf v1) (v_size v1) value\<rparr>))"

text \<open>\<^verbatim>\<open>bulkMemcpy\<close> of \<open>n\<close> elements to the elements from position \<open>pos\<close> on.\<close>

definition bulk_copy :: "'a Array \<Rightarrow> nat \<Rightarrow> 'a Array \<Rightarrow> nat \<Rightarrow> 'a Array" where
  "bulk_copy src n dst pos = dst\<lparr>ar_elems :=
     take pos (ar_elems dst) @ take n (ar_elems src) @ drop (pos + n) (ar_elems dst)\<rparr>"

definition Vector_assign :: "'a :: zero alloc_env \<Rightarrow> 'a Vector \<Rightarrow> 'a Vector \<Rightarrow> Status \<times> 'a Vector" where
  "Vector_assign env from v =
     (let (err, v1) = Vector_initialize env (v_size from) (getCurrentPlace env) MainMem v in
      if err \<noteq> Success then (err, v1)
      else (Success, v1\<lparr>v_buf := bulk_copy (v_buf from) (unat (v_size from)) (v_buf v1) 0\<rparr>))"

definition Vector_append :: "'a alloc_env \<Rightarrow> 'a Vector \<Rightarrow> 'a Vector \<Rightarrow> Status \<times> 'a Vector" where
  "Vector_append env from v =
     (let originalSize = v_size v;
          (status, v1) = Vector_resize env (originalSize + v_size from) v
      in if status \<noteq> Success then (status, v1)
         else (Success, v1\<lparr>v_buf := bulk_copy (v_buf from) (unat (v_size from)) (v_buf v1) (unat originalSize)\<rparr>))"

subsection \<open>Contents\<close>

definition Vector_ok :: "'a Vector \<Rightarrow> bool" where
  "Vector_ok v \<longleftrightarrow> Array_ok (v_buf v) \<and> v_size v \<le> capacity v"

definition contents :: "'a Vector \<Rightarrow> 'a list" where
  "contents v = take (unat (v_size v)) (ar_elems (v_buf v))"

lemma length_contents: "Vector_ok v \<Longrightarrow> length (contents v) = unat (v_size v)"
  by (simp add: Vector_ok_def Array_ok_def capacity_def contents_def word_le_nat_alt)

lemma move_elems_elems:
  assumes "k \<le> length (ar_elems old)" "k \<le> length (ar_elems new)" "length (ar_elems old) < 2 ^ 64"
  shows "move_elems old new k = new\<lparr>ar_elems := take k (ar_elems old) @ drop k (ar_elems new)\<rparr>"
  using assms
proof (induction k)
  case (Suc k)
  then have "unat (word_of_nat k :: u64) = k" by simp
  then show ?case
    using Suc by (simp add: Array_set_def Array_get_def list_update_append Cons_nth_drop_Suc [symmetric]
        take_Suc_conv_app_nth)
qed simp

lemma Array_ok_length: "Array_ok a \<Longrightarrow> length (ar_elems a) < 2 ^ 64"
  by (simp add: Array_ok_def)

text \<open>The array of a successful reallocation.\<close>

lemma move_elems_ok:
  assumes old: "Array_ok old" and n: "n \<le> ar_size old" "ar_size old < m"
    and init: "Array_initialize env m place mt = (Success, new)"
    and env: "env_ok env"
  shows "Array_ok (move_elems old new (unat n))" "ar_size (move_elems old new (unat n)) = m"
    "take (unat n) (ar_elems (move_elems old new (unat n))) = take (unat n) (ar_elems old)"
proof -
  have new: "Array_ok new" using Array_initialize_ok [of env m place mt] init by simp
  have "allocateMemory env m place mt \<noteq> Inl Success" using env by (rule allocateMemory_not_Success)
  moreover have "m \<noteq> 0" using n(2) by auto
  ultimately have sz: "ar_size new = m" using init by (auto simp: Array_initialize_def split: sum.splits)
  have l: "unat n \<le> length (ar_elems old)" "unat n \<le> length (ar_elems new)"
    using old new n sz by (auto simp: Array_ok_def word_le_nat_alt word_less_nat_alt)
  note eq = move_elems_elems [OF l Array_ok_length [OF old]]
  show "Array_ok (move_elems old new (unat n))" "ar_size (move_elems old new (unat n)) = m"
    "take (unat n) (ar_elems (move_elems old new (unat n))) = take (unat n) (ar_elems old)"
    using l new sz unfolding eq by (simp_all add: Array_ok_def)
qed

lemma Vector_reserve_spec:
  assumes v: "Vector_ok v" and env: "env_ok env" and r: "Vector_reserve env n v = (status, v')"
  shows "Vector_ok v'" "contents v' = contents v" "v_size v' = v_size v"
    "status = Success \<Longrightarrow> n \<le> capacity v' \<and> capacity v \<le> capacity v'" "status \<noteq> Success \<Longrightarrow> v' = v"
proof -
  obtain st new where i: "Array_initialize env n (localityOf (ar_data (v_buf v))) (ar_memoryType (v_buf v)) = (st, new)"
    by fastforce
  consider (same) "v' = v" "status = Success \<longrightarrow> n \<le> capacity v"
    | (moved) "capacity v < n" "st = Success" "status = Success"
        "v' = v\<lparr>v_buf := move_elems (v_buf v) new (unat (v_size v))\<rparr>"
    using r i by (auto simp: Vector_reserve_def not_le split: if_splits)
  then have "Vector_ok v' \<and> contents v' = contents v \<and> v_size v' = v_size v \<and>
    (status = Success \<longrightarrow> n \<le> capacity v' \<and> capacity v \<le> capacity v') \<and> (status \<noteq> Success \<longrightarrow> v' = v)"
  proof cases
    case same
    then show ?thesis using v by auto
  next
    case moved
    then have "Array_initialize env n (localityOf (ar_data (v_buf v))) (ar_memoryType (v_buf v)) = (Success, new)"
      using i by simp
    note mv = move_elems_ok [OF _ _ _ this env]
    have "Array_ok (v_buf v)" "v_size v \<le> ar_size (v_buf v)" "ar_size (v_buf v) < n"
      using v moved(1) by (simp_all add: Vector_ok_def capacity_def)
    then show ?thesis
      using mv moved by (auto simp: Vector_ok_def capacity_def contents_def intro: order_trans less_imp_le)
  qed
  then show "Vector_ok v'" "contents v' = contents v" "v_size v' = v_size v"
    "status = Success \<Longrightarrow> n \<le> capacity v' \<and> capacity v \<le> capacity v'" "status \<noteq> Success \<Longrightarrow> v' = v"
    by simp_all
qed

lemma less_up2: "i \<noteq> 0 \<Longrightarrow> log2floor i < 63 \<Longrightarrow> i < up2 i"
  using log2floor_bounds [of i] unat_up2 [of i] by (simp add: word_less_nat_alt)

lemma log2floor_mono_63: "i \<noteq> 0 \<Longrightarrow> i \<le> j \<Longrightarrow> log2floor j < 63 \<Longrightarrow> log2floor i < 63"
proof -
  assume i: "i \<noteq> 0" and ij: "i \<le> j" and j: "log2floor j < 63"
  have "j \<noteq> 0" using i ij by auto
  have "2 ^ unat (log2floor i) \<le> unat i" using log2floor_bounds [OF i] by simp
  also have "\<dots> \<le> unat j" using ij by (simp add: word_le_nat_alt)
  also have "\<dots> < 2 ^ Suc (unat (log2floor j))" using log2floor_bounds [OF \<open>j \<noteq> 0\<close>] by simp
  finally have "unat (log2floor i) < Suc (unat (log2floor j))" by (rule power_less_imp_less_exp [rotated]) simp
  then show ?thesis using j by (simp add: word_less_nat_alt)
qed

lemma log2floor_less_63:
  assumes "i \<noteq> 0" "i < 2 ^ 63"
  shows "log2floor i < 63"
proof -
  have "2 ^ unat (log2floor i) \<le> unat i" using log2floor_bounds [OF assms(1)] by simp
  also have "\<dots> < 2 ^ 63" using assms(2) unat_pow2_u64 [of 63] by (simp add: word_less_nat_alt)
  finally have "unat (log2floor i) < 63" by (rule power_less_imp_less_exp [rotated]) simp
  then show ?thesis by (simp add: word_less_nat_alt)
qed

lemma growPow2_spec:
  assumes v: "Vector_ok v" and env: "env_ok env" and r: "growPow2 env n v = (status, v')"
    and n: "n \<le> capacity v \<or> n < 2 ^ 63"
  shows "Vector_ok v'" "contents v' = contents v" "v_size v' = v_size v"
    "status = Success \<Longrightarrow> n < capacity v'" "status \<noteq> Success \<Longrightarrow> v' = v"
proof -
  let ?goal = "Vector_ok v' \<and> contents v' = contents v \<and> v_size v' = v_size v \<and>
    (status = Success \<longrightarrow> n < capacity v') \<and> (status \<noteq> Success \<longrightarrow> v' = v)"
  consider (one) "n = 0" "Vector_reserve env 1 v = (status, v')"
    | (top) "status = StatusOutOfBounds" "v' = v"
    | (zero) "n = 0" "capacity v \<noteq> 0" "Vector_reserve env (up2 n) v = (status, v')"
    | (grow) "n \<noteq> 0" "capacity v = 0 \<or> log2floor (capacity v) < 63" "Vector_reserve env (up2 n) v = (status, v')"
    using r n v by (auto simp: growPow2_def capacity_def not_le Vector_ok_def Array_ok_def split: if_splits)
  then have ?goal
  proof cases
    case one
    note rs = Vector_reserve_spec [OF v env one(2)]
    have "status = Success \<Longrightarrow> n < capacity v'"
      using rs(4) one(1) by (auto simp: word_less_nat_alt word_le_nat_alt)
    then show ?thesis using rs by blast
  next
    case top
    then show ?thesis using v by simp
  next
    case zero
    note rs = Vector_reserve_spec [OF v env zero(3)]
    have "status = Success \<Longrightarrow> n < capacity v'"
      using rs(4) zero(1,2) by (metis order.strict_trans2 word_neq_0_conv)
    then show ?thesis using rs by blast
  next
    case grow
    note rs = Vector_reserve_spec [OF v env grow(3)]
    have "log2floor n < 63"
      using grow(1,2) n log2floor_mono_63 [of n "capacity v"] log2floor_less_63 [of n] by auto
    then have "n < up2 n" by (rule less_up2 [OF grow(1)])
    then have "status = Success \<Longrightarrow> n < capacity v'" using rs(4) by (auto intro: order.strict_trans2)
    then show ?thesis using rs by blast
  qed
  then show "Vector_ok v'" "contents v' = contents v" "v_size v' = v_size v"
    "status = Success \<Longrightarrow> n < capacity v'" "status \<noteq> Success \<Longrightarrow> v' = v"
    by simp_all
qed

lemma pushBack_spec:
  assumes v: "Vector_ok v" and env: "env_ok env" and r: "pushBack env x v = (status, v')"
  shows "Vector_ok v'" "contents v' = (if status = Success then contents v @ [x] else contents v)"
    "status \<noteq> Success \<Longrightarrow> v' = v"
proof -
  obtain st v1 where g: "(if v_size v = capacity v then growPow2 env (v_size v) v else (Success, v)) = (st, v1)"
    by fastforce
  have n: "v_size v \<le> capacity v \<or> v_size v < 2 ^ 63" using v by (simp add: Vector_ok_def)
  have v1: "Vector_ok v1 \<and> contents v1 = contents v \<and> v_size v1 = v_size v \<and>
    (st = Success \<longrightarrow> v_size v < capacity v1) \<and> (st \<noteq> Success \<longrightarrow> v1 = v)"
  proof (cases "v_size v = capacity v")
    case True
    then have "growPow2 env (v_size v) v = (st, v1)" using g by simp
    from growPow2_spec [OF v env this n] show ?thesis by blast
  next
    case False
    then show ?thesis using g v by (simp add: Vector_ok_def order_less_le)
  qed
  have "Vector_ok v' \<and> contents v' = (if status = Success then contents v @ [x] else contents v) \<and>
    (status \<noteq> Success \<longrightarrow> v' = v)"
  proof (cases "st = Success")
    case False
    then show ?thesis using r g v v1 by (auto simp: pushBack_def split: if_splits)
  next
    case True
    then have v': "status = Success" "v' = \<lparr>v_size = v_size v1 + 1, v_buf = Array_set (v_buf v1) (v_size v1) x\<rparr>"
      using r g by (auto simp: pushBack_def split: if_splits)
    have less: "unat (v_size v1) < length (ar_elems (v_buf v1))" "v_size v1 < ar_size (v_buf v1)"
      using v1 True by (auto simp: Vector_ok_def Array_ok_def capacity_def word_less_nat_alt)
    have "unat (v_size v1 + 1) = Suc (unat (v_size v1))"
      by (rule unat_plus_one [OF less(2)])
    moreover have "take (unat (v_size v1)) (ar_elems (v_buf v1)) = contents v" using v1 by (auto simp: contents_def)
    ultimately show ?thesis
      using v' v1 less
      by (auto simp: contents_def Array_set_def take_Suc_conv_app_nth Vector_ok_def Array_ok_def capacity_def
          word_le_nat_alt word_less_nat_alt)
  qed
  then show "Vector_ok v'" "contents v' = (if status = Success then contents v @ [x] else contents v)"
    "status \<noteq> Success \<Longrightarrow> v' = v"
    by simp_all
qed

lemma Vector_resize_spec:
  assumes v: "Vector_ok v" and env: "env_ok env" and r: "Vector_resize env n v = (status, v')"
    and n: "n \<le> 2 ^ 63"
  shows "Vector_ok v'" "status = Success \<Longrightarrow> v_size v' = n"
    "status = Success \<Longrightarrow> take (unat (v_size v)) (contents v') = take (unat n) (contents v)"
    "status \<noteq> Success \<Longrightarrow> v' = v"
proof -
  have "Vector_ok v' \<and> (status = Success \<longrightarrow> v_size v' = n \<and>
      take (unat (v_size v)) (contents v') = take (unat n) (contents v)) \<and> (status \<noteq> Success \<longrightarrow> v' = v)"
  proof (cases "n \<le> capacity v")
    case True
    then show ?thesis
      using r v by (auto simp: Vector_resize_def Vector_ok_def contents_def capacity_def min.commute)
  next
    case False
    obtain st v1 where g: "growPow2 env (n - 1) v = (st, v1)" by fastforce
    have n0: "unat (n - 1) = unat n - 1" "0 < unat n"
      using False unat_minus_one_u64 [of n] by (cases "n = 0"; simp add: unat_gt_0)+
    then have n1: "n - 1 < n" by (simp add: word_less_nat_alt)
    then have "n - 1 \<le> capacity v \<or> n - 1 < 2 ^ 63" using n by (auto intro: order.strict_trans2)
    note gs = growPow2_spec [OF v env g this]
    have cap: "n \<le> capacity v1" if "st = Success"
      using gs(4) [OF that] n0 by (simp add: word_less_nat_alt word_le_nat_alt)
    have sz: "v_size v \<le> n" using v False by (auto simp: Vector_ok_def intro: order_trans)
    have "v' = (if st = Success then v1\<lparr>v_size := n\<rparr> else v1)" "status = st"
      using r g False by (auto simp: Vector_resize_def split: if_splits)
    then show ?thesis
      using gs cap sz length_contents [OF v]
      by (auto simp: Vector_ok_def contents_def capacity_def word_le_nat_alt min_def)
  qed
  then show "Vector_ok v'" "status = Success \<Longrightarrow> v_size v' = n"
    "status = Success \<Longrightarrow> take (unat (v_size v)) (contents v') = take (unat n) (contents v)"
    "status \<noteq> Success \<Longrightarrow> v' = v"
    by simp_all
qed

subsection \<open>Containers that grow at the end\<close>

text \<open>
  The interface: \<open>push\<close> either appends to the contents or fails and leaves the container as it was. Pushing
  a list element by element, up to the first failure, appends a prefix of the list, and all of it
  exactly when every status is \<^verbatim>\<open>Success\<close>.
\<close>

fun push_all :: "('x \<Rightarrow> 's \<Rightarrow> Status \<times> 's) \<Rightarrow> 'x list \<Rightarrow> 's \<Rightarrow> Status \<times> 's" where
  "push_all push [] s = (Success, s)"
| "push_all push (x # xs) s =
     (let (status, s') = push x s in if status \<noteq> Success then (status, s') else push_all push xs s')"

locale growable =
  fixes inv :: "'s \<Rightarrow> bool" and elems :: "'s \<Rightarrow> 'x list" and push :: "'x \<Rightarrow> 's \<Rightarrow> Status \<times> 's"
  assumes push_inv: "inv s \<Longrightarrow> push x s = (status, s') \<Longrightarrow> inv s'"
    and push_ok: "inv s \<Longrightarrow> push x s = (Success, s') \<Longrightarrow> elems s' = elems s @ [x]"
    and push_fail: "inv s \<Longrightarrow> push x s = (status, s') \<Longrightarrow> status \<noteq> Success \<Longrightarrow> elems s' = elems s"
begin

lemma push_all_prefix:
  "inv s \<Longrightarrow> push_all push xs s = (status, s') \<Longrightarrow>
     inv s' \<and> (\<exists>k \<le> length xs. elems s' = elems s @ take k xs \<and> (status = Success \<longleftrightarrow> k = length xs))"
proof (induction xs arbitrary: s)
  case (Cons x xs)
  obtain st s1 where p: "push x s = (st, s1)" by fastforce
  show ?case
  proof (cases "st = Success")
    case True
    then have "push_all push xs s1 = (status, s')" using Cons.prems p by simp
    from Cons.IH [OF push_inv [OF Cons.prems(1) p] this] obtain k
      where "inv s'" "k \<le> length xs" "elems s' = elems s1 @ take k xs" "status = Success \<longleftrightarrow> k = length xs" by blast
    moreover have "elems s1 = elems s @ [x]" using push_ok Cons.prems(1) p True by blast
    ultimately show ?thesis by (auto intro!: exI [of _ "Suc k"])
  next
    case False
    then show ?thesis
      using Cons.prems p push_inv push_fail by (auto intro!: exI [of _ 0])
  qed
qed auto

end

interpretation vec: growable "\<lambda>v. Vector_ok v \<and> env_ok env" contents "pushBack env" for env :: "'a alloc_env"
  by unfold_locales (use pushBack_spec in fastforce)+

subsection \<open>Allocation that never fails\<close>

definition alloc_total :: "('a, 'b) alloc_env_scheme \<Rightarrow> bool" where
  "alloc_total env \<longleftrightarrow> (\<forall>p b t. allocateMemoryImpl env b t \<noteq> 0 \<and>
     (\<exists>q. executeOnWait_allocate env p b t = Inr q \<and> q \<noteq> 0))"

lemma alloc_total_env_ok: "alloc_total env \<Longrightarrow> env_ok env"
  unfolding alloc_total_def env_ok_def by (metis Inl_Inr_False)

lemma alloc_total_allocates:
  assumes "alloc_total env" "mt = MainMem \<or> mt = L2SP"
  shows "\<exists>q. allocateMemory env n place mt = Inr q"
proof -
  have l: "allocateMemoryImpl env (n * sizeof_T env) mt \<noteq> 0" using assms(1) by (simp add: alloc_total_def)
  obtain q where q: "executeOnWait_allocate env place (n * sizeof_T env) mt = Inr q" "q \<noteq> 0"
    using assms(1) unfolding alloc_total_def by blast
  show ?thesis using assms(2) l q by (auto simp: allocateMemory_def null_is_BadAlloc_def Let_def)
qed

lemma Vector_reserve_total:
  assumes "alloc_total env" "ar_memoryType (v_buf v) = MainMem \<or> ar_memoryType (v_buf v) = L2SP"
  shows "\<exists>v'. Vector_reserve env n v = (Success, v') \<and> ar_memoryType (v_buf v') = ar_memoryType (v_buf v)"
proof (cases "n \<le> capacity v")
  case True
  then show ?thesis by (simp add: Vector_reserve_def)
next
  case False
  then have n: "n \<noteq> 0" by auto
  from alloc_total_allocates [OF assms, of n "localityOf (ar_data (v_buf v))"] obtain q
    where q: "allocateMemory env n (localityOf (ar_data (v_buf v))) (ar_memoryType (v_buf v)) = Inr q" by blast
  have mt: "ar_memoryType (move_elems old new k) = ar_memoryType new" for old new :: "'a Array" and k
    by (induction k) (simp_all add: Array_set_def)
  show ?thesis using False n q by (simp add: Vector_reserve_def Array_initialize_def mt)
qed

lemma pushBack_total:
  assumes "alloc_total env" "ar_memoryType (v_buf v) = MainMem \<or> ar_memoryType (v_buf v) = L2SP"
    and "v_size v < 2 ^ 63" "Vector_ok v"
  shows "\<exists>v'. pushBack env x v = (Success, v') \<and> ar_memoryType (v_buf v') = ar_memoryType (v_buf v) \<and>
    v_size v' = v_size v + 1"
proof (cases "v_size v = capacity v")
  case True
  have "ar_size (v_buf v) \<noteq> 0 \<longrightarrow> \<not> 63 \<le> log2floor (ar_size (v_buf v))"
    using assms(3) True log2floor_less_63 [of "ar_size (v_buf v)"] by (auto simp: capacity_def)
  then have "\<exists>m. growPow2 env (v_size v) v = Vector_reserve env m v" by (auto simp: growPow2_def)
  with Vector_reserve_total [OF assms(1,2)] obtain m v1 where v1: "growPow2 env (v_size v) v = (Success, v1)"
    "Vector_reserve env m v = (Success, v1)" "ar_memoryType (v_buf v1) = ar_memoryType (v_buf v)" by metis
  moreover have "v_size v1 = v_size v"
    using Vector_reserve_spec(3) [OF assms(4) alloc_total_env_ok [OF assms(1)] v1(2)] .
  ultimately show ?thesis using True by (simp add: pushBack_def Array_set_def)
next
  case False
  then show ?thesis by (simp add: pushBack_def Array_set_def)
qed

lemma push_all_total:
  assumes "alloc_total env" "ar_memoryType (v_buf v) = MainMem \<or> ar_memoryType (v_buf v) = L2SP"
    and "unat (v_size v) + length xs \<le> 2 ^ 63" "Vector_ok v"
  shows "fst (push_all (pushBack env) xs v) = Success"
  using assms
proof (induction xs arbitrary: v)
  case (Cons x xs)
  have small: "unat (v_size v) < 2 ^ 63" using Cons.prems(3) by simp
  then have "v_size v < 2 ^ 63" using unat_pow2_u64 [of 63] by (simp add: word_less_nat_alt)
  from pushBack_total [OF Cons.prems(1,2) this Cons.prems(4), of x] obtain v'
    where v': "pushBack env x v = (Success, v')" "ar_memoryType (v_buf v') = ar_memoryType (v_buf v)"
      "v_size v' = v_size v + 1" by blast
  have "unat (v_size v') = unat (v_size v) + 1"
    using small v'(3) unat_add_no_wrap [of "v_size v" 1] by simp
  then have "fst (push_all (pushBack env) xs v') = Success"
    using Cons.IH [OF Cons.prems(1)] Cons.prems v' pushBack_spec(1) [OF Cons.prems(4) alloc_total_env_ok [OF Cons.prems(1)] v'(1)]
    by simp
  then show ?case using v'(1) by simp
qed simp

lemma Vector_initialize_contents:
  assumes "Vector_initialize env n place mt v = (Success, v0)" "env_ok env"
  shows "Vector_ok v0" "contents v0 = replicate (unat n) 0" "v_size v0 = n" "ar_memoryType (v_buf v0) = mt"
proof -
  obtain buf where b: "Array_initialize env n place mt = (Success, buf)"
    and v0: "v0 = \<lparr>v_size = n, v_buf = Array_fill buf 0\<rparr>"
    using assms(1) by (auto simp: Vector_initialize_def split: if_splits prod.splits)
  have ok: "Array_ok buf" using Array_initialize_ok [of env n place mt] b by simp
  have "ar_size buf = n" "ar_memoryType buf = mt"
    using b allocateMemory_not_Success [OF assms(2)] by (auto simp: Array_initialize_def split: if_splits sum.splits)
  then show "Vector_ok v0" "contents v0 = replicate (unat n) 0" "v_size v0 = n" "ar_memoryType (v_buf v0) = mt"
    using ok v0 Array_fill_ok [OF ok, of 0] unfolding Array_fill_elems [OF ok]
    by (simp_all add: Vector_ok_def contents_def capacity_def Array_ok_def)
qed

text \<open>
  C14: a vector is a list that grows at its end. After a successful \<^verbatim>\<open>initialize\<close> of \<open>n\<close> elements,
  pushing elements up to the first failure leaves exactly the \<open>n\<close> initial elements followed by the elements pushed
  before the failure, whatever reallocations took place; and nothing fails as long as the allocator
  serves every request and the vector stays at or below \<open>2 ^ 63\<close> elements.
\<close>

theorem Vector_refines_list:
  assumes "Vector_initialize env n place mt v = (Success, v0)" "env_ok env"
  shows "(\<exists>k \<le> length xs. contents (snd (push_all (pushBack env) xs v0)) = replicate (unat n) 0 @ take k xs \<and>
      (fst (push_all (pushBack env) xs v0) = Success \<longleftrightarrow> k = length xs)) \<and>
    (alloc_total env \<and> (mt = MainMem \<or> mt = L2SP) \<and> unat n + length xs \<le> 2 ^ 63 \<longrightarrow>
      fst (push_all (pushBack env) xs v0) = Success)"
proof
  note v0 = Vector_initialize_contents [OF assms]
  obtain status v' where r: "push_all (pushBack env) xs v0 = (status, v')" by fastforce
  from vec.push_all_prefix [OF _ r] v0 assms(2) r
  show "\<exists>k \<le> length xs. contents (snd (push_all (pushBack env) xs v0)) = replicate (unat n) 0 @ take k xs \<and>
    (fst (push_all (pushBack env) xs v0) = Success \<longleftrightarrow> k = length xs)" by simp
  show "alloc_total env \<and> (mt = MainMem \<or> mt = L2SP) \<and> unat n + length xs \<le> 2 ^ 63 \<longrightarrow>
      fst (push_all (pushBack env) xs v0) = Success"
    using push_all_total [of env v0 xs] v0 by auto
qed

text \<open>An environment that always allocates, at one address, for the witnesses.\<close>

definition example_env :: "nat alloc_env" where
  "example_env = \<lparr>getCurrentPlace = Place (NodeIndex 0) anyPod anyCore, isOnCP = False,
     allocateMemoryImpl = (\<lambda>_ _. 0x1000), executeOnWait_allocate = (\<lambda>_ _ _. Inr 0x1000), executeOn_deallocate = (\<lambda>_ _ _. Success), sizeof_T = 8,
     fresh = (\<lambda>_ _. 0)\<rparr>"

lemma example_env_total: "alloc_total example_env" "env_ok example_env"
  by (simp_all add: alloc_total_def env_ok_def example_env_def)

theorem Vector_refines_list_witness:
  "\<exists>v0. Vector_initialize example_env 1 anyPlace MainMem Vector_empty = (Success, v0) \<and>
     contents (snd (push_all (pushBack example_env) [7, 8, 9] v0)) = [0, 7, 8, 9]"
proof -
  obtain v0 where v0: "Vector_initialize example_env 1 anyPlace MainMem Vector_empty = (Success, v0)"
    by (simp add: Vector_initialize_def Array_initialize_def allocateMemory_def null_is_BadAlloc_def
        example_env_def anyPlace_def)
  note t = Vector_refines_list [OF v0 example_env_total(2), of "[7, 8, 9]"]
  have small: "unat (1 :: u64) + length [7, 8, 9 :: nat] \<le> 2 ^ 63" by simp
  then have "fst (push_all (pushBack example_env) [7, 8, 9] v0) = Success"
    using t example_env_total(1) by blast
  then have "contents (snd (push_all (pushBack example_env) [7, 8, 9] v0)) = replicate (unat (1 :: u64)) 0 @ [7, 8, 9]"
    using t by auto
  moreover have "replicate (unat (1 :: u64)) (0 :: nat) @ [7, 8, 9] = [0, 7, 8, 9]" by simp
  ultimately show ?thesis using v0 by metis
qed

text \<open>
  \<^verbatim>\<open>append\<close> adds the elements of the other vector behind the own ones, or fails and changes
  nothing, for up to \<open>2 ^ 63\<close> elements together.
\<close>

theorem Vector_append_contents:
  assumes "Vector_ok v" "Vector_ok from" "env_ok env" "unat (v_size v) + unat (v_size from) \<le> 2 ^ 63"
  shows "case Vector_append env from v of
    (status, v') \<Rightarrow> Vector_ok v' \<and> (if status = Success then contents v' = contents v @ contents from else v' = v)"
proof -
  obtain status v1 where r: "Vector_resize env (v_size v + v_size from) v = (status, v1)" by fastforce
  have sum: "unat (v_size v + v_size from) = unat (v_size v) + unat (v_size from)"
    using assms(4) by (simp add: unat_add_no_wrap)
  then have "v_size v + v_size from \<le> 2 ^ 63" using assms(4) unat_pow2_u64 [of 63] by (simp add: word_le_nat_alt)
  note rs = Vector_resize_spec [OF assms(1,3) r this]
  show ?thesis
  proof (cases "status = Success")
    case True
    let ?n = "unat (v_size v)" and ?k = "unat (v_size from)" and ?es = "ar_elems (v_buf v1)"
    have len: "?n + ?k \<le> length ?es" "?k \<le> length (ar_elems (v_buf from))"
      "?n \<le> length (ar_elems (v_buf v))"
      using rs(1) rs(2) [OF True] assms(1,2) sum
      by (auto simp: Vector_ok_def Array_ok_def capacity_def word_le_nat_alt)
    have "take ?n ?es = contents v"
      using rs(3) [OF True] rs(2) [OF True] sum length_contents [OF assms(1)] by (simp add: contents_def)
    then show ?thesis
      using r True rs(1) rs(2) [OF True] len sum
      by (simp add: Vector_append_def bulk_copy_def contents_def Vector_ok_def Array_ok_def capacity_def Let_def)
  next
    case False
    then show ?thesis using r rs assms(1) by (simp add: Vector_append_def)
  qed
qed

definition example_vector :: "'a list \<Rightarrow> 'a Vector" where
  "example_vector xs = \<lparr>v_size = word_of_nat (length xs), v_buf = \<lparr>ar_data = (if xs = [] then 0 else 0x1000),
     ar_size = word_of_nat (length xs), ar_memoryType = MainMem, ar_elems = xs\<rparr>\<rparr>"

theorem Vector_append_contents_witness:
  "case Vector_append example_env (example_vector [3, 4]) (example_vector [1, 2]) of
     (status, v') \<Rightarrow> if status = Success then contents v' = [1, 2, 3, 4] else v' = example_vector [1, 2]"
proof -
  have "Vector_ok (example_vector [1, 2])" "Vector_ok (example_vector [3, 4])"
    "unat (v_size (example_vector [1, 2])) + unat (v_size (example_vector [3, 4])) \<le> 2 ^ 63"
    by (simp_all add: Vector_ok_def Array_ok_def capacity_def example_vector_def)
  from Vector_append_contents [OF this(1,2) example_env_total(2) this(3)] show ?thesis
    by (auto simp: contents_def example_vector_def split: if_splits)
qed

text \<open>
  A vector that was never initialized cannot grow. Its buffer has no memory type, so the
  allocation front end rejects the request and \<^verbatim>\<open>pushBack\<close>, \<^verbatim>\<open>reserve\<close> and \<^verbatim>\<open>resize\<close> to one or more
  elements return \<^verbatim>\<open>BadAlloc\<close>, whatever the allocator does.
\<close>

theorem Vector_uninitialized_fails:
  "pushBack env x Vector_empty = (BadAlloc, Vector_empty) \<and>
   (n = 0 \<or> Vector_reserve env n Vector_empty = (BadAlloc, Vector_empty))"
  by (simp add: pushBack_def growPow2_def Vector_reserve_def Vector_empty_def Array_empty_def capacity_def
      Array_initialize_def allocateMemory_def word_neq_0_conv [symmetric])

end
