(* ===== verification/Galois_Stack.thy ===== *)
theory Galois_Stack
  imports Rt_Vector
begin

text \<open>
  \<^verbatim>\<open>galois::Stack\<close> (\<^verbatim>\<open>pando-lib-galois/containers/stack.hpp\<close>): a growing array used from its end. It provides
  the interface of growing containers, and \<^verbatim>\<open>pop\<close> returns what was pushed last.
\<close>

record 'a Stack =
  st_size :: u64
  st_buf :: "'a Array"

definition Stack_reserve :: "'a alloc_env \<Rightarrow> u64 \<Rightarrow> 'a Stack \<Rightarrow> Status \<times> 'a Stack" where
  "Stack_reserve env nextCapacity s =
     (if nextCapacity \<le> ar_size (st_buf s) then (Success, s)
      else
        let (status, newArray) = Array_initialize env nextCapacity
              (localityOf (ar_data (st_buf s))) (ar_memoryType (st_buf s))
        in if status \<noteq> Success then (status, s)
           else (Success, s\<lparr>st_buf := move_elems (st_buf s) newArray (unat (st_size s))\<rparr>))"

definition Stack_grow :: "'a alloc_env \<Rightarrow> 'a Stack \<Rightarrow> Status \<times> 'a Stack" where
  "Stack_grow env s =
     (if ar_data (st_buf s) = 0 then (NotInit, s) else Stack_reserve env (ar_size (st_buf s) * 2) s)"

definition Stack_initialize :: "'a alloc_env \<Rightarrow> u64 \<Rightarrow> Place \<Rightarrow> MemoryType \<Rightarrow> Status \<times> 'a Stack" where
  "Stack_initialize env n place memoryType =
     (let n1 = (if n < 1 then 1 else n); (status, buf) = Array_initialize env n1 place memoryType
      in (status, \<lparr>st_size = 0, st_buf = buf\<rparr>))"

definition Stack_deinitialize :: "'a alloc_env \<Rightarrow> 'a Stack \<Rightarrow> release or_abort \<times> 'a Stack" where
  "Stack_deinitialize env s = (let (r, buf) = Array_deinitialize env (st_buf s) in (r, \<lparr>st_size = 0, st_buf = buf\<rparr>))"

definition Stack_empty :: "'a Stack \<Rightarrow> bool" where
  "Stack_empty s \<longleftrightarrow> st_size s = 0"

definition emplace :: "'a alloc_env \<Rightarrow> 'a \<Rightarrow> 'a Stack \<Rightarrow> Status \<times> 'a Stack" where
  "emplace env elt s =
     (let (err, s1) = (if ar_size (st_buf s) \<le> st_size s then Stack_grow env s else (Success, s)) in
      if err \<noteq> Success then (err, s1)
      else (Success, \<lparr>st_size = st_size s1 + 1, st_buf = Array_set (st_buf s1) (st_size s1) elt\<rparr>))"

definition pop :: "'a Stack \<Rightarrow> (Status + 'a) \<times> 'a Stack" where
  "pop s =
     (if Stack_empty s then (Inl StatusOutOfBounds, s)
      else (Inr (Array_get (st_buf s) (st_size s - 1)), s\<lparr>st_size := st_size s - 1\<rparr>))"

text \<open>The stack is well formed and its capacity can still be doubled.\<close>

definition Stack_ok :: "'a Stack \<Rightarrow> bool" where
  "Stack_ok s \<longleftrightarrow> Array_ok (st_buf s) \<and> st_size s \<le> ar_size (st_buf s)"

definition stack_list :: "'a Stack \<Rightarrow> 'a list" where
  "stack_list s = take (unat (st_size s)) (ar_elems (st_buf s))"

lemma unat_double:
  assumes "(x :: u64) < 2 ^ 63"
  shows "unat (x * 2) = 2 * unat x"
proof -
  have "unat x < 2 ^ 63" using assms unat_pow2_u64 [of 63] by (simp add: word_less_nat_alt)
  then show ?thesis using unat_mult_no_wrap [of x 2] by simp
qed

lemma Stack_grow_spec:
  assumes s: "Stack_ok s" and env: "env_ok env" and cap: "ar_size (st_buf s) < 2 ^ 63"
    and r: "Stack_grow env s = (status, s')"
  shows "Stack_ok s' \<and> stack_list s' = stack_list s \<and> st_size s' = st_size s \<and>
    (status = Success \<longrightarrow> st_size s < ar_size (st_buf s')) \<and> (status \<noteq> Success \<longrightarrow> s' = s)"
proof (cases "status = Success")
  case False
  then show ?thesis using r s
    by (auto simp: Stack_grow_def Stack_reserve_def split: if_splits prod.splits)
next
  case True
  let ?n = "ar_size (st_buf s) * 2"
  have nz: "ar_size (st_buf s) \<noteq> 0" using True r s by (auto simp: Stack_grow_def Stack_ok_def Array_ok_def split: if_splits)
  have n: "ar_size (st_buf s) < ?n" using unat_double [OF cap] nz by (simp add: word_less_nat_alt unat_gt_0)
  obtain new where i: "Array_initialize env ?n (localityOf (ar_data (st_buf s))) (ar_memoryType (st_buf s)) = (Success, new)"
    and s': "s' = s\<lparr>st_buf := move_elems (st_buf s) new (unat (st_size s))\<rparr>"
    using True r n by (auto simp: Stack_grow_def Stack_reserve_def split: if_splits prod.splits)
  have "Array_ok (st_buf s)" "st_size s \<le> ar_size (st_buf s)" using s by (simp_all add: Stack_ok_def)
  note mv = move_elems_ok [OF this n i env]
  then show ?thesis using True s' s n
    by (auto simp: Stack_ok_def stack_list_def intro: order_trans less_imp_le order.strict_trans1)
qed

lemma emplace_spec:
  assumes s: "Stack_ok s" and env: "env_ok env" and cap: "ar_size (st_buf s) < 2 ^ 63"
    and r: "emplace env x s = (status, s')"
  shows "Stack_ok s' \<and> stack_list s' = (if status = Success then stack_list s @ [x] else stack_list s) \<and>
    (status \<noteq> Success \<longrightarrow> s' = s)"
proof -
  obtain st s1 where g: "(if ar_size (st_buf s) \<le> st_size s then Stack_grow env s else (Success, s)) = (st, s1)"
    by fastforce
  have s1: "Stack_ok s1 \<and> stack_list s1 = stack_list s \<and> st_size s1 = st_size s \<and>
    (st = Success \<longrightarrow> st_size s < ar_size (st_buf s1)) \<and> (st \<noteq> Success \<longrightarrow> s1 = s)"
  proof (cases "ar_size (st_buf s) \<le> st_size s")
    case True
    then have "Stack_grow env s = (st, s1)" using g by simp
    from Stack_grow_spec [OF s env cap this] show ?thesis by blast
  next
    case False
    then show ?thesis using g s by simp
  qed
  show ?thesis
  proof (cases "st = Success")
    case False
    then show ?thesis using r g s s1 by (auto simp: emplace_def split: if_splits)
  next
    case True
    then have s': "status = Success" "s' = \<lparr>st_size = st_size s1 + 1, st_buf = Array_set (st_buf s1) (st_size s1) x\<rparr>"
      using r g by (auto simp: emplace_def split: if_splits)
    have less: "st_size s1 < ar_size (st_buf s1)" using s1 True by simp
    moreover have "unat (st_size s1) < length (ar_elems (st_buf s1))"
      using s1 less by (auto simp: Stack_ok_def Array_ok_def word_less_nat_alt)
    moreover have "take (unat (st_size s1)) (ar_elems (st_buf s1)) = stack_list s" using s1 by (auto simp: stack_list_def)
    ultimately show ?thesis
      using s' s1 unat_plus_one [OF less]
      by (auto simp: stack_list_def Array_set_def take_Suc_conv_app_nth Stack_ok_def Array_ok_def
          word_le_nat_alt word_less_nat_alt)
  qed
qed

text \<open>No environment can serve a request of \<open>2 ^ 63\<close> elements; then the capacity stays below \<open>2 ^ 63\<close>.\<close>

definition env_bounded :: "('a, 'b) alloc_env_scheme \<Rightarrow> bool" where
  "env_bounded env \<longleftrightarrow> (\<forall>n place mt p. allocateMemory env n place mt = Inr p \<longrightarrow> n < 2 ^ 63)"

lemma ar_size_move_elems [simp]: "ar_size (move_elems old new k) = ar_size new"
  by (induction k) (simp_all add: Array_set_def)

lemma Array_initialize_bounded:
  assumes "env_bounded env" "Array_initialize env n place mt = (status, a)"
  shows "ar_size a < 2 ^ 63"
proof (cases "allocateMemory env n place mt")
  case (Inr p)
  then have "n < 2 ^ 63" using assms(1) unfolding env_bounded_def by blast
  then show ?thesis using assms(2) Inr by (auto simp: Array_initialize_def split: if_splits)
qed (use assms(2) in \<open>auto simp: Array_initialize_def split: if_splits\<close>)

lemma emplace_bounded:
  assumes "env_bounded env" "ar_size (st_buf s) < 2 ^ 63" "emplace env x s = (status, s')"
  shows "ar_size (st_buf s') < 2 ^ 63"
  using assms Array_initialize_bounded [OF assms(1)]
  by (auto simp: emplace_def Stack_grow_def Stack_reserve_def Array_set_def split: if_splits prod.splits)

interpretation stk: growable
  "\<lambda>s. Stack_ok s \<and> ar_size (st_buf s) < 2 ^ 63 \<and> env_ok env \<and> env_bounded env" stack_list "emplace env"
  for env :: "'a alloc_env"
proof
  fix s s' :: "'a Stack" and x status
  assume i: "Stack_ok s \<and> ar_size (st_buf s) < 2 ^ 63 \<and> env_ok env \<and> env_bounded env"
  then have i': "Stack_ok s" "env_ok env" "ar_size (st_buf s) < 2 ^ 63" "env_bounded env" by blast+
  show "Stack_ok s' \<and> ar_size (st_buf s') < 2 ^ 63 \<and> env_ok env \<and> env_bounded env"
    if r: "emplace env x s = (status, s')"
    using i emplace_spec [OF i'(1-3) r] emplace_bounded [OF i'(4,3) r] by blast
  show "stack_list s' = stack_list s @ [x]" if r: "emplace env x s = (Success, s')"
    using emplace_spec [OF i'(1-3) r] by simp
  show "stack_list s' = stack_list s" if r: "emplace env x s = (status, s')" "status \<noteq> Success"
    using emplace_spec [OF i'(1-3) r(1)] r(2) by simp
qed

fun pop_n :: "nat \<Rightarrow> 'a Stack \<Rightarrow> 'a list \<times> 'a Stack" where
  "pop_n 0 s = ([], s)"
| "pop_n (Suc k) s =
     (case pop s of (Inl e, s') \<Rightarrow> ([], s') | (Inr x, s') \<Rightarrow> (let (xs, s'') = pop_n k s' in (x # xs, s'')))"

lemma pop_last:
  assumes "Stack_ok s" "stack_list s = xs @ [x]"
  shows "\<exists>s'. pop s = (Inr x, s') \<and> Stack_ok s' \<and> stack_list s' = xs"
proof -
  have l: "unat (st_size s) \<le> length (ar_elems (st_buf s))"
    using assms(1) by (simp add: Stack_ok_def Array_ok_def word_le_nat_alt)
  then have len: "unat (st_size s) = Suc (length xs)" using arg_cong [OF assms(2), of length] by (simp add: stack_list_def)
  then have "st_size s \<noteq> 0" by auto
  then have m: "unat (st_size s - 1) = length xs" using unat_minus_one_u64 [of "st_size s"] len by simp
  have "ar_elems (st_buf s) ! length xs = (xs @ [x]) ! length xs"
    using assms(2) len unfolding stack_list_def by (metis lessI nth_take)
  moreover have "take (length xs) (ar_elems (st_buf s)) = xs"
    using arg_cong [OF assms(2), of "take (length xs)"] len by (simp add: stack_list_def)
  moreover have "st_size s - 1 \<le> ar_size (st_buf s)"
    using m len assms(1) by (simp add: Stack_ok_def word_le_nat_alt)
  ultimately show ?thesis
    using \<open>st_size s \<noteq> 0\<close> m assms(1) by (simp add: pop_def Stack_empty_def Array_get_def stack_list_def Stack_ok_def)
qed

lemma pop_n_rev:
  "Stack_ok s \<Longrightarrow> stack_list s = xs \<Longrightarrow> \<exists>s'. pop_n (length xs) s = (rev xs, s') \<and> Stack_ok s' \<and> stack_list s' = []"
proof (induction xs arbitrary: s rule: rev_induct)
  case (snoc x xs)
  from pop_last [OF snoc.prems] obtain s1 where "pop s = (Inr x, s1)" "Stack_ok s1" "stack_list s1 = xs" by blast
  with snoc.IH [of s1] show ?case by auto
qed auto

text \<open>
  C34: the stack is last in, first out. After a successful \<^verbatim>\<open>initialize\<close>, pushing a list with every
  status \<^verbatim>\<open>Success\<close> (through any number of reallocations) and popping as many elements returns the
  list reversed; the stack is empty then, and a further \<^verbatim>\<open>pop\<close> returns \<^verbatim>\<open>OutOfBounds\<close>.
\<close>

theorem Stack_lifo:
  assumes "Stack_initialize env n place mt = (Success, s0)" "env_ok env" "env_bounded env"
    and "push_all (emplace env) xs s0 = (Success, s)"
  shows "\<exists>s'. pop_n (length xs) s = (rev xs, s') \<and> Stack_empty s' \<and> pop s' = (Inl StatusOutOfBounds, s')"
proof -
  let ?n = "if n < 1 then 1 else n"
  obtain buf where b: "Array_initialize env ?n place mt = (Success, buf)" and s0: "s0 = \<lparr>st_size = 0, st_buf = buf\<rparr>"
    using assms(1) by (auto simp: Stack_initialize_def Let_def split: prod.splits)
  have "Array_ok buf" using Array_initialize_ok [of env ?n place mt] b by simp
  then have "Stack_ok s0 \<and> ar_size (st_buf s0) < 2 ^ 63 \<and> env_ok env \<and> env_bounded env" "stack_list s0 = []"
    using s0 assms(2,3) Array_initialize_bounded [OF assms(3) b] by (simp_all add: Stack_ok_def stack_list_def)
  with stk.push_all_prefix [OF _ assms(4)] have "Stack_ok s" "stack_list s = xs" by auto
  from pop_n_rev [OF this] obtain s' where s': "pop_n (length xs) s = (rev xs, s')" "Stack_ok s'" "stack_list s' = []"
    by blast
  have "unat (st_size s') = 0"
    using s'(2,3) by (auto simp: stack_list_def Stack_ok_def Array_ok_def word_le_nat_alt)
  then have "Stack_empty s'" by (simp add: Stack_empty_def unat_eq_0)
  with s'(1) show ?thesis by (auto simp: pop_def)
qed

definition example_bounded :: "nat alloc_env" where
  "example_bounded = example_env\<lparr>sizeof_T := 1, allocateMemoryImpl := (\<lambda>b _. if b < 256 then 0x1000 else 0),
     executeOnWait_allocate := (\<lambda>_ _ _. Inl BadAlloc)\<rparr>"

lemma example_bounded_bounded: "env_bounded example_bounded"
proof -
  have "n < 256" if "allocateMemory example_bounded n place mt = Inr p" for n place mt p
    using that by (auto simp: allocateMemory_def null_is_BadAlloc_def example_bounded_def example_env_def Let_def
        split: MemoryType.splits if_splits sum.splits)
  moreover have "(256 :: u64) < 2 ^ 63" by simp
  ultimately show ?thesis unfolding env_bounded_def by (meson order.strict_trans)
qed

theorem Stack_lifo_witness:
  "\<exists>s0 s s'. Stack_initialize example_bounded 1 anyPlace MainMem = (Success, s0) \<and>
     push_all (emplace example_bounded) [5, 6, 7] s0 = (Success, s) \<and> pop_n 3 s = ([7, 6, 5], s')"
proof -
  let ?i = "Stack_initialize example_bounded 1 anyPlace MainMem"
  have "fst ?i = Success" "fst (push_all (emplace example_bounded) [5, 6, 7] (snd ?i)) = Success" by code_simp+
  then obtain s0 s where s0: "?i = (Success, s0)" and s: "push_all (emplace example_bounded) [5, 6, 7] s0 = (Success, s)"
    by (metis prod.collapse)
  have "env_ok example_bounded" by (simp add: env_ok_def example_bounded_def)
  from Stack_lifo [OF s0 this example_bounded_bounded s] show ?thesis using s0 s by (auto simp: numeral_3_eq_3)
qed

end
