(* ===== verification/Hash_Probe.thy ===== *)
theory Hash_Probe
  imports Bit_Manip
begin

text \<open>
  The probe sequence of \<^verbatim>\<open>galois::HashTable\<close> (\<^verbatim>\<open>pando-lib-galois/containers/hashtable.hpp\<close>): the
  function \<^verbatim>\<open>polynomial\<close> on 64-bit words, and the number theory behind it. Its values are the triangular
  numbers, and modulo a power of two the first \<open>2 ^ n\<close> of them are all different, so that the
  sequence visits every slot.
\<close>

definition polynomial :: "u64 \<Rightarrow> u64 \<Rightarrow> u64" where
  "polynomial i cap =
     (let inner = (if i mod 2 \<noteq> 0 then drop_bit 1 (i + 1) * i else drop_bit 1 i * (i + 1)) in inner mod cap)"

definition triangle :: "nat \<Rightarrow> nat" where
  "triangle i = i * (i + 1) div 2"

lemma two_triangle: "2 * triangle i = i * (i + 1)"
  by (simp add: triangle_def)

lemma triangle_factors: "triangle i = (if odd i then (i + 1) div 2 * i else i div 2 * (i + 1))"
proof -
  have "2 * triangle i = 2 * (if odd i then (i + 1) div 2 * i else i div 2 * (i + 1))"
    by (auto simp: two_triangle elim!: evenE oddE)
  then show ?thesis by simp
qed

lemma mod_add_left_cancel:
  fixes a b h m :: nat
  assumes "(h + a) mod m = (h + b) mod m"
  shows "a mod m = b mod m"
proof -
  have *: "x mod m = y mod m" if "(h + x) mod m = (h + y) mod m" "y \<le> x" for x y
    using that by (simp add: mod_eq_dvd_iff_nat)
  show ?thesis using *[of a b] *[of b a] assms by (cases "b \<le> a") auto
qed

lemma power_dvd_mult_odd:
  fixes a b :: nat
  assumes "2 ^ n dvd a * b" "odd a"
  shows "2 ^ n dvd b"
  using assms by (simp add: coprime_dvd_mult_right_iff)

text \<open>The triangular numbers are injective modulo a power of two.\<close>

lemma triangle_inj:
  assumes "i < 2 ^ n" "j < 2 ^ n" "triangle i mod 2 ^ n = triangle j mod 2 ^ n"
  shows "i = j"
proof -
  have *: "a = b" if ab: "b \<le> a" "a < 2 ^ n" "triangle a mod 2 ^ n = triangle b mod 2 ^ n" for a b
  proof (rule ccontr)
    assume "a \<noteq> b"
    with ab have "b < a" by simp
    then obtain d where d: "a = b + d" "0 < d" by (metis less_imp_add_positive)
    have tri: "triangle b \<le> triangle a" using ab(1) unfolding triangle_def by (intro div_le_mono mult_le_mono) simp_all
    then have "2 ^ n dvd triangle a - triangle b" using ab(3) by (metis mod_eq_dvd_iff_nat)
    then have "2 * 2 ^ n dvd 2 * (triangle a - triangle b)" by simp
    moreover have "2 * (triangle a - triangle b) = d * (2 * b + d + 1)"
      using d two_triangle [of a] two_triangle [of b] by (simp add: diff_mult_distrib2 algebra_simps)
    ultimately have dv: "2 ^ Suc n dvd d * (2 * b + d + 1)" by simp
    have small: "d < 2 ^ Suc n" "2 * b + d + 1 < 2 ^ Suc n" using d ab(2) by auto
    show False
    proof (cases "odd d")
      case True
      from power_dvd_mult_odd [OF dv True] small(2) show False by (auto dest: dvd_imp_le)
    next
      case False
      then have "odd (2 * b + d + 1)" by simp
      from power_dvd_mult_odd [OF _ this, of "Suc n" d] dv small(1) d(2) show False
        by (auto simp: mult.commute dest: dvd_imp_le)
    qed
  qed
  show ?thesis
  proof (cases "j \<le> i")
    case True
    then show ?thesis using *[OF _ assms(1,3)] by blast
  next
    case False
    then show ?thesis using *[OF _ assms(2) assms(3) [symmetric]] by simp
  qed
qed

definition probe_pos :: "nat \<Rightarrow> nat \<Rightarrow> nat \<Rightarrow> nat" where
  "probe_pos c h j = (h + triangle j) mod c"

lemma probe_pos_0: "h < c \<Longrightarrow> probe_pos c h 0 = h"
  by (simp add: probe_pos_def triangle_def)

lemma probe_pos_less:
  assumes "x < c"
  shows "probe_pos c h i < c"
proof -
  have "0 < c" using assms by simp
  then show ?thesis unfolding probe_pos_def by (rule mod_less_divisor)
qed

lemma probe_pos_inj:
  assumes "c = 2 ^ n" "i < c" "j < c" "probe_pos c h i = probe_pos c h j"
  shows "i = j"
proof -
  have "triangle i mod 2 ^ n = triangle j mod 2 ^ n"
    using assms(1,4) unfolding probe_pos_def by (blast dest: mod_add_left_cancel)
  then show ?thesis using triangle_inj assms(1-3) by blast
qed

lemma probe_covers:
  assumes "c = 2 ^ n" "x < c"
  shows "\<exists>j < c. probe_pos c h j = x"
proof -
  have "inj_on (probe_pos c h) {..<c}" using probe_pos_inj [OF assms(1)] by (auto simp: inj_on_def)
  moreover have "probe_pos c h ` {..<c} \<subseteq> {..<c}" using assms by (auto simp: probe_pos_def)
  ultimately have "probe_pos c h ` {..<c} = {..<c}" by (simp add: endo_inj_surj)
  then show ?thesis using assms(2) by (metis imageE lessThan_iff)
qed

subsection \<open>The word computation\<close>

lemma unat_polynomial:
  assumes "n < 64" "unat i < 2 ^ 64 - 1"
  shows "unat (polynomial i (2 ^ n)) = triangle (unat i) mod 2 ^ n"
proof -
  have i1: "unat (i + 1) = unat i + 1" using assms(2) unat_add_no_wrap [of i 1] by simp
  have d: "(2 :: nat) ^ n dvd 2 ^ 64" using assms(1) by (intro le_imp_power_dvd) simp
  have odd: "i mod 2 \<noteq> 0 \<longleftrightarrow> odd (unat i)"
    using unat_mod [of i 2] by (auto simp: odd_iff_mod_2_eq_one unat_eq_0 [symmetric] simp del: unat_eq_0)
  have mul: "unat (x * y) = (unat x * unat y) mod 2 ^ 64" for x y :: u64 by (simp add: unat_word_ariths)
  have half: "unat (drop_bit 1 x) = unat x div 2" for x :: u64 using unat_div [of x 2] by (simp add: drop_bit_Suc)
  have inner: "unat (if i mod 2 \<noteq> 0 then drop_bit 1 (i + 1) * i else drop_bit 1 i * (i + 1))
      = triangle (unat i) mod 2 ^ 64"
    unfolding odd triangle_factors by (cases "odd (unat i)") (simp_all only: mul half i1 if_True if_False not_True_eq_False not_False_eq_True)
  show ?thesis
    unfolding polynomial_def Let_def unat_mod inner unat_pow2_u64 [OF assms(1)]
    using mod_mod_cancel [OF d] by simp
qed

end
