(* ===== verification/Hash_Table.thy ===== *)
theory Hash_Table
  imports Complex_Main Hash_Probe Rt_Vector
begin

text \<open>
  \<^verbatim>\<open>galois::HashTable\<close> (\<^verbatim>\<open>pando-lib-galois/containers/hashtable.hpp\<close>): open addressing with quadratic
  probing over a \<^verbatim>\<open>pando::Array\<close> of entries. The hash function of the key type is a parameter. The probe loop
  is a partial function: \<open>None\<close> means that it never ends. Load factors are exact rationals; the quotient
  the code computes in single precision has that value for power-of-two capacities and fewer than
  \<open>2 ^ 24\<close> entries.
\<close>

record ('k, 'v) Entry =
  e_key :: 'k
  e_value :: 'v
  e_occupied :: bool

definition Entry_new :: "('k :: zero, 'v :: zero) Entry" where
  "Entry_new = \<lparr>e_key = 0, e_value = 0, e_occupied = False\<rparr>"

record ('k, 'v) HashTable =
  h_size :: u64
  h_buffer :: "('k, 'v) Entry Array"
  maxLoadFactor :: rat

definition float_0_8 :: rat where "float_0_8 = 13421773 / 16777216"
definition double_0_001 :: rat where "double_0_001 = 1152921504606847 / 1152921504606846976"

definition HashTable_new :: "('k, 'v) HashTable" where
  "HashTable_new = \<lparr>h_size = 0, h_buffer = Array_empty, maxLoadFactor = float_0_8\<rparr>"

definition HashTable_new_load :: "rat \<Rightarrow> ('k, 'v) HashTable" where
  "HashTable_new_load maxLoad =
     \<lparr>h_size = 0, h_buffer = Array_empty,
      maxLoadFactor = (if maxLoad > 1 then float_0_8 else if maxLoad < double_0_001 then float_0_8 else maxLoad)\<rparr>"

definition hashIndex :: "('k \<Rightarrow> u64) \<Rightarrow> 'k \<Rightarrow> u64 \<Rightarrow> u64" where
  "hashIndex hash key n = hash key mod n"

partial_function (option) probe_from ::
  "('k, 'v) Entry Array \<Rightarrow> 'k \<Rightarrow> u64 \<Rightarrow> u64 \<Rightarrow> u64 \<Rightarrow> u64 option" where
  "probe_from buf key h i idx =
     (let e = Array_get buf idx in
      if e_occupied e \<and> e_key e \<noteq> key
      then probe_from buf key h (i + 1) ((h + polynomial i (ar_size buf)) mod ar_size buf)
      else Some idx)"

declare probe_from.simps [code]

definition probe :: "('k \<Rightarrow> u64) \<Rightarrow> ('k, 'v) Entry Array \<Rightarrow> 'k \<Rightarrow> u64 option" where
  "probe hash buf key = (let h = hashIndex hash key (ar_size buf) in probe_from buf key h 1 h)"

definition bufferInsert ::
  "('k \<Rightarrow> u64) \<Rightarrow> ('k, 'v) Entry Array \<Rightarrow> 'k \<Rightarrow> 'v \<Rightarrow> (bool \<times> ('k, 'v) Entry Array) option" where
  "bufferInsert hash buf key value =
     (case probe hash buf key of
        None \<Rightarrow> None
      | Some idx \<Rightarrow>
          Some (e_occupied (Array_get buf idx),
                Array_set buf idx \<lparr>e_key = key, e_value = value, e_occupied = True\<rparr>))"

definition HashTable_initialize ::
  "('k :: zero, 'v :: zero) Entry alloc_env \<Rightarrow> u64 \<Rightarrow> Place \<Rightarrow> MemoryType \<Rightarrow> ('k, 'v) HashTable
     \<Rightarrow> Status \<times> ('k, 'v) HashTable" where
  "HashTable_initialize env cap place memType t =
     (let cap1 = (if cap < 8 \<and> cap \<noteq> 0 then 8 else cap);
          pow2 = (cap1 AND (cap1 - 1) = 0);
          (status, buf) = Array_initialize env (if pow2 then cap1 else up2 cap1) place memType
      in (status, t\<lparr>h_buffer := (if status = Success then Array_fill buf Entry_new else buf)\<rparr>))"

definition HashTable_deinitialize ::
  "('k, 'v) Entry alloc_env \<Rightarrow> ('k, 'v) HashTable \<Rightarrow> release or_abort \<times> ('k, 'v) HashTable" where
  "HashTable_deinitialize env t =
     (let (r, buf) = Array_deinitialize env (h_buffer t) in (r, t\<lparr>h_buffer := buf, h_size := 0\<rparr>))"

text \<open>The rehash loop of \<^verbatim>\<open>resize\<close>, over the remaining old entries.\<close>

fun rehash ::
  "('k \<Rightarrow> u64) \<Rightarrow> ('k, 'v) Entry list \<Rightarrow> ('k, 'v) Entry Array \<Rightarrow> (Status \<times> ('k, 'v) Entry Array) option" where
  "rehash hash [] newBuffer = Some (Success, newBuffer)"
| "rehash hash (e # es) newBuffer =
     (if e_occupied e then
        (case bufferInsert hash newBuffer (e_key e) (e_value e) of
           None \<Rightarrow> None
         | Some (inserted, newBuffer') \<Rightarrow>
             if inserted then Some (Error, newBuffer') else rehash hash es newBuffer')
      else rehash hash es newBuffer)"

definition HashTable_resize ::
  "('k :: zero, 'v :: zero) Entry alloc_env \<Rightarrow> ('k \<Rightarrow> u64) \<Rightarrow> u64 \<Rightarrow> ('k, 'v) HashTable
     \<Rightarrow> (Status \<times> ('k, 'v) HashTable) option" where
  "HashTable_resize env hash cap t =
     (if cap \<le> ar_size (h_buffer t) then Some (Success, t)
      else
        let memType = (if ar_data (h_buffer t) = 0 then MainMem else memoryTypeOf (ar_data (h_buffer t)));
            (status, newBuffer) = Array_initialize env cap (localityOf (ar_data (h_buffer t))) memType
        in if status \<noteq> Success then Some (BadAlloc, t)
           else
             (case rehash hash (map (Array_get (h_buffer t) \<circ> word_of_nat) [0..<unat (ar_size (h_buffer t))])
                     (Array_fill newBuffer Entry_new) of
                None \<Rightarrow> None
              | Some (st, newBuffer') \<Rightarrow>
                  if st \<noteq> Success then Some (st, t)
                  else Some (Success, t\<lparr>h_buffer := newBuffer'\<rparr>)))"

definition nextCapacity :: "('k, 'v) HashTable \<Rightarrow> u64" where
  "nextCapacity t = (if ar_size (h_buffer t) = 0 then 8 else ar_size (h_buffer t) * 2)"

definition loadFactor :: "('k, 'v) HashTable \<Rightarrow> rat" where
  "loadFactor t = of_nat (unat (h_size t)) / of_nat (unat (ar_size (h_buffer t)))"

definition HashTable_get :: "('k \<Rightarrow> u64) \<Rightarrow> 'k \<Rightarrow> ('k, 'v) HashTable \<Rightarrow> 'v option option" where
  "HashTable_get hash key t =
     (if ar_size (h_buffer t) = 0 then Some None
      else case probe hash (h_buffer t) key of
        None \<Rightarrow> None
      | Some idx \<Rightarrow>
          let e = Array_get (h_buffer t) idx in
          Some (if e_occupied e \<and> e_key e = key then Some (e_value e) else None))"

definition HashTable_contains :: "('k \<Rightarrow> u64) \<Rightarrow> 'k \<Rightarrow> ('k, 'v) HashTable \<Rightarrow> bool option" where
  "HashTable_contains hash key t =
     (if ar_size (h_buffer t) = 0 then Some False
      else case probe hash (h_buffer t) key of
        None \<Rightarrow> None
      | Some idx \<Rightarrow> let e = Array_get (h_buffer t) idx in Some (e_occupied e \<and> e_key e = key))"

definition HashTable_put ::
  "('k :: zero, 'v :: zero) Entry alloc_env \<Rightarrow> ('k \<Rightarrow> u64) \<Rightarrow> 'k \<Rightarrow> 'v \<Rightarrow> ('k, 'v) HashTable
     \<Rightarrow> (Status \<times> ('k, 'v) HashTable) option" where
  "HashTable_put env hash key value t =
     (case (if ar_size (h_buffer t) = 0 \<or> maxLoadFactor t \<le> loadFactor t
            then HashTable_resize env hash (nextCapacity t) t else Some (Success, t)) of
        None \<Rightarrow> None
      | Some (status, t1) \<Rightarrow>
          if status \<noteq> Success then Some (status, t1)
          else
            (case bufferInsert hash (h_buffer t1) key value of
               None \<Rightarrow> None
             | Some (wasOccupied, buf) \<Rightarrow>
                 Some (Success, t1\<lparr>h_buffer := buf,
                                   h_size := (if wasOccupied then h_size t1 else h_size t1 + 1)\<rparr>)))"

definition HashTable_clear :: "('k, 'v) HashTable \<Rightarrow> ('k, 'v) HashTable" where
  "HashTable_clear t = t\<lparr>h_size := 0, h_buffer :=
     fold (\<lambda>i b. Array_set b (word_of_nat i) (Array_get b (word_of_nat i)\<lparr>e_occupied := False\<rparr>))
       [0..<unat (ar_size (h_buffer t))] (h_buffer t)\<rparr>"

subsection \<open>Slots\<close>

text \<open>
  On the list of entries: a slot \<open>hits\<close> a key when the probe loop stops there, and \<open>slot_of\<close> is the slot in
  which the probe of a key ends.
\<close>

definition hits :: "('k, 'v) Entry list \<Rightarrow> 'k \<Rightarrow> nat \<Rightarrow> bool" where
  "hits es k x \<longleftrightarrow> \<not> (e_occupied (es ! x) \<and> e_key (es ! x) \<noteq> k)"

definition home :: "('k \<Rightarrow> u64) \<Rightarrow> ('k, 'v) Entry list \<Rightarrow> 'k \<Rightarrow> nat" where
  "home hash es k = unat (hash k) mod length es"

definition slot_of :: "('k \<Rightarrow> u64) \<Rightarrow> ('k, 'v) Entry list \<Rightarrow> 'k \<Rightarrow> nat \<Rightarrow> bool" where
  "slot_of hash es k x \<longleftrightarrow> (\<exists>j < length es. probe_pos (length es) (home hash es k) j = x \<and> hits es k x \<and>
     (\<forall>i < j. \<not> hits es k (probe_pos (length es) (home hash es k) i)))"

lemma slot_of_unique: "slot_of hash es k x \<Longrightarrow> slot_of hash es k y \<Longrightarrow> x = y"
  unfolding slot_of_def by (metis linorder_neqE_nat)

lemma slot_of_hits: "slot_of hash es k x \<Longrightarrow> hits es k x"
  by (auto simp: slot_of_def)

lemma slot_of_bound: "slot_of hash es k x \<Longrightarrow> x < length es"
  unfolding slot_of_def probe_pos_def by (metis gr_implies_not0 mod_less_divisor neq0_conv)

lemma slot_of_exists:
  assumes "length es = 2 ^ n" "x < length es" "hits es k x"
  shows "\<exists>y. slot_of hash es k y"
proof -
  let ?p = "probe_pos (length es) (home hash es k)"
  obtain j where j: "j < length es" "hits es k (?p j)" using probe_covers [OF assms(1,2)] assms(3) by metis
  define l where "l = (LEAST j. hits es k (?p j))"
  have "hits es k (?p l)" "l \<le> j" "\<forall>i < l. \<not> hits es k (?p i)"
    unfolding l_def using j(2) by (auto intro: LeastI Least_le dest: not_less_Least)
  then have "slot_of hash es k (?p l)" using j(1) unfolding slot_of_def by (auto intro!: exI [of _ l])
  then show ?thesis ..
qed

definition buffer_ok :: "nat \<Rightarrow> ('k, 'v) Entry Array \<Rightarrow> bool" where
  "buffer_ok n buf \<longleftrightarrow> Array_ok buf \<and> length (ar_elems buf) = 2 ^ n \<and> n < 64"

lemma buffer_ok_size: "buffer_ok n buf \<Longrightarrow> ar_size buf = 2 ^ n"
  by (simp add: buffer_ok_def Array_ok_def u64_eq_iff_unat unat_pow2_u64)

text \<open>One round of the loop moves to the next position of the sequence.\<close>

lemma next_position:
  assumes ok: "buffer_ok n buf" and h: "unat h < 2 ^ n" and i: "unat i < 2 ^ 64 - 1"
  shows "unat ((h + polynomial i (ar_size buf)) mod ar_size buf) = probe_pos (2 ^ n) (unat h) (unat i)"
proof -
  have n: "n < 64" using ok by (simp add: buffer_ok_def)
  have p: "unat (polynomial i (2 ^ n)) = triangle (unat i) mod 2 ^ n" by (rule unat_polynomial [OF n i])
  have "(2 :: nat) ^ n \<le> 2 ^ 63" using n by (intro power_increasing) simp_all
  moreover have "unat h + triangle (unat i) mod 2 ^ n < 2 ^ n + 2 ^ n"
    by (intro add_strict_mono h mod_less_divisor) simp
  ultimately have "unat h + unat (polynomial i (2 ^ n)) < 2 ^ 64" using p by simp
  then show ?thesis
    unfolding buffer_ok_size [OF ok] unat_mod unat_pow2_u64 [OF n]
    by (simp add: unat_add_no_wrap p probe_pos_def mod_add_right_eq)
qed

lemma probe_from_slot:
  assumes ok: "buffer_ok n buf" and h: "unat h < 2 ^ n"
    and stop: "hits (ar_elems buf) key (probe_pos (2 ^ n) (unat h) l)" and l: "l < 2 ^ n"
    and go: "\<forall>i < l. \<not> hits (ar_elems buf) key (probe_pos (2 ^ n) (unat h) i)"
  shows "j \<le> l \<Longrightarrow> unat i = j + 1 \<Longrightarrow> unat idx = probe_pos (2 ^ n) (unat h) j \<Longrightarrow>
    probe_from buf key h i idx = Some (word_of_nat (probe_pos (2 ^ n) (unat h) l))"
proof (induction "l - j" arbitrary: j i idx)
  case 0
  then have "j = l" by simp
  then have "idx = word_of_nat (probe_pos (2 ^ n) (unat h) l)" using 0 by (simp add: word_of_nat_eqI)
  then show ?case
    using stop 0 \<open>j = l\<close> by (subst probe_from.simps) (auto simp: hits_def Array_get_def Let_def)
next
  case (Suc d)
  then have jl: "j < l" by simp
  have "(2 :: nat) ^ n \<le> 2 ^ 63" using ok by (intro power_increasing) (simp_all add: buffer_ok_def)
  then have i: "unat i < 2 ^ 64 - 1" using Suc.prems jl l by simp
  let ?idx = "(h + polynomial i (ar_size buf)) mod ar_size buf"
  have "unat ?idx = probe_pos (2 ^ n) (unat h) (j + 1)" using next_position [OF ok h i] Suc.prems by simp
  moreover have "unat (i + 1) = (j + 1) + 1" using i Suc.prems unat_add_no_wrap [of i 1] by simp
  ultimately have "probe_from buf key h (i + 1) ?idx = Some (word_of_nat (probe_pos (2 ^ n) (unat h) l))"
    using Suc.hyps(1) [of "j + 1" "i + 1" ?idx] Suc.hyps(2) jl by simp
  moreover have "\<not> hits (ar_elems buf) key (unat idx)" using go jl Suc.prems by simp
  ultimately show ?case
    by (subst probe_from.simps) (auto simp: hits_def Array_get_def Let_def)
qed

lemma probe_slot:
  assumes ok: "buffer_ok n buf" and s: "slot_of hash (ar_elems buf) key x"
  shows "probe hash buf key = Some (word_of_nat x)"
proof -
  let ?es = "ar_elems buf" and ?h = "hashIndex hash key (ar_size buf)"
  have len: "length ?es = 2 ^ n" and n: "n < 64" using ok by (simp_all add: buffer_ok_def)
  have h: "unat ?h = home hash ?es key"
    by (simp add: hashIndex_def home_def unat_mod buffer_ok_size [OF ok] unat_pow2_u64 [OF n] len)
  then have hb: "unat ?h < 2 ^ n" by (simp add: home_def len)
  from s obtain l where l: "l < 2 ^ n" "probe_pos (2 ^ n) (unat ?h) l = x" "hits ?es key x"
    "\<forall>i < l. \<not> hits ?es key (probe_pos (2 ^ n) (unat ?h) i)"
    unfolding slot_of_def len h [symmetric] by blast
  have "probe_from buf key ?h 1 ?h = Some (word_of_nat (probe_pos (2 ^ n) (unat ?h) l))"
    by (rule probe_from_slot [OF ok hb _ l(1) l(4), of 0]) (use l hb in \<open>simp_all add: probe_pos_0\<close>)
  then show ?thesis using l(2) by (simp add: probe_def)
qed

end
