(* ===== verification/Hash_Table_Map.thy ===== *)
theory Hash_Table_Map
  imports Hash_Table
begin

text \<open>
  The hash table implements a finite map. \<open>ht_map\<close> reads the map off the entries; every operation is related
  to the operation on maps, through insertion, rehashing and the load limit that keeps a slot free.
\<close>

definition ht_map :: "('k, 'v) Entry list \<Rightarrow> 'k \<rightharpoonup> 'v" where
  "ht_map es = map_of (map (\<lambda>e. (e_key e, e_value e)) (filter e_occupied es))"

definition load :: "('k, 'v) Entry list \<Rightarrow> nat" where
  "load es = length (filter e_occupied es)"

text \<open>Every entry sits in the slot its key probes to.\<close>

definition keys_ok :: "('k \<Rightarrow> u64) \<Rightarrow> ('k, 'v) Entry list \<Rightarrow> bool" where
  "keys_ok hash es \<longleftrightarrow> (\<forall>x < length es. e_occupied (es ! x) \<longrightarrow> slot_of hash es (e_key (es ! x)) x)"

lemma keys_unique:
  assumes "keys_ok hash es" "x < length es" "y < length es" "e_occupied (es ! x)" "e_occupied (es ! y)"
    and "e_key (es ! x) = e_key (es ! y)"
  shows "x = y"
  using assms slot_of_unique unfolding keys_ok_def by metis

lemma distinct_keys:
  assumes "keys_ok hash es"
  shows "distinct (map e_key (filter e_occupied es))"
proof -
  have "inj_on (\<lambda>x. e_key (es ! x)) {x. x < length es \<and> e_occupied (es ! x)}"
    using keys_unique [OF assms] by (auto simp: inj_on_def)
  moreover have f: "filter e_occupied es = map ((!) es) (filter (e_occupied \<circ> (!) es) [0..<length es])"
    using filter_map [of e_occupied "(!) es" "[0..<length es]"] by (simp only: map_nth)
  ultimately show ?thesis unfolding f map_map distinct_map by (simp add: inj_on_def)
qed

lemma ht_map_Some:
  assumes "keys_ok hash es"
  shows "ht_map es k = Some v \<longleftrightarrow>
    (\<exists>x < length es. e_occupied (es ! x) \<and> e_key (es ! x) = k \<and> e_value (es ! x) = v)"
proof -
  have "distinct (map fst (map (\<lambda>e. (e_key e, e_value e)) (filter e_occupied es)))"
    using distinct_keys [OF assms] by (simp add: comp_def)
  from map_of_eq_Some_iff [OF this] show ?thesis
    unfolding ht_map_def by (auto simp: in_set_conv_nth)
qed

lemma ht_map_slot:
  assumes ok: "keys_ok hash es" and s: "slot_of hash es k x"
  shows "ht_map es k = (if e_occupied (es ! x) \<and> e_key (es ! x) = k then Some (e_value (es ! x)) else None)"
proof (cases "e_occupied (es ! x) \<and> e_key (es ! x) = k")
  case True
  then show ?thesis using ht_map_Some [OF ok] slot_of_bound [OF s] by auto
next
  case False
  have "ht_map es k \<noteq> Some v" for v
  proof
    assume "ht_map es k = Some v"
    then obtain y where y: "y < length es" "e_occupied (es ! y)" "e_key (es ! y) = k"
      using ht_map_Some [OF ok] by blast
    then have "slot_of hash es k y" using ok unfolding keys_ok_def by blast
    with s have "x = y" by (rule slot_of_unique)
    then show False using False y by blast
  qed
  then show ?thesis using False by (cases "ht_map es k") auto
qed

subsection \<open>Insertion\<close>

definition put_entry :: "('k, 'v) Entry list \<Rightarrow> nat \<Rightarrow> 'k \<Rightarrow> 'v \<Rightarrow> ('k, 'v) Entry list" where
  "put_entry es x k v = es[x := \<lparr>e_key = k, e_value = v, e_occupied = True\<rparr>]"

lemma put_entry_simps [simp]: "length (put_entry es x k v) = length es"
  "home hash (put_entry es x k v) = home hash es"
  by (simp_all add: put_entry_def home_def fun_eq_iff)

lemma put_entry_slot_of_other:
  assumes s: "slot_of hash es k' y" and xy: "x \<noteq> y" and k: "k' \<noteq> k" and x: "x < length es"
  shows "slot_of hash (put_entry es x k v) k' y"
proof -
  have "hits (put_entry es x k v) k' z \<longleftrightarrow> z \<noteq> x \<and> hits es k' z" if "z < length es" for z
    using that x k by (auto simp: hits_def put_entry_def nth_list_update)
  moreover have "probe_pos (length es) h i < length es" for h i by (rule probe_pos_less [OF x])
  ultimately show ?thesis using s xy unfolding slot_of_def by (auto split: if_splits)
qed

lemma put_entry_slot_of_same:
  assumes s: "slot_of hash es k x"
  shows "slot_of hash (put_entry es x k v) k x"
proof -
  have x: "x < length es" by (rule slot_of_bound [OF s])
  have "hits (put_entry es x k v) k z \<longleftrightarrow> z = x \<or> hits es k z" if "z < length es" for z
    using that x by (auto simp: hits_def put_entry_def nth_list_update)
  moreover have "probe_pos (length es) h i < length es" for h i by (rule probe_pos_less [OF x])
  ultimately show ?thesis using s unfolding slot_of_def by (metis put_entry_simps)
qed

lemma put_entry_keys_ok:
  assumes ok: "keys_ok hash es" and s: "slot_of hash es k x"
  shows "keys_ok hash (put_entry es x k v)"
  unfolding keys_ok_def
proof (intro allI impI)
  fix y
  let ?es = "put_entry es x k v"
  assume y: "y < length ?es" "e_occupied (?es ! y)"
  show "slot_of hash ?es (e_key (?es ! y)) y"
  proof (cases "x = y")
    case True
    then show ?thesis using put_entry_slot_of_same [OF s] slot_of_bound [OF s] by (simp add: put_entry_def)
  next
    case False
    then have e: "?es ! y = es ! y" by (simp add: put_entry_def)
    have sy: "slot_of hash es (e_key (es ! y)) y" using ok y e by (simp add: keys_ok_def)
    then have "e_key (es ! y) \<noteq> k" using slot_of_unique [OF s] False by metis
    from put_entry_slot_of_other [OF sy False this slot_of_bound [OF s]] show ?thesis by (simp add: e)
  qed
qed

lemma put_entry_map:
  assumes ok: "keys_ok hash es" and s: "slot_of hash es k x"
  shows "ht_map (put_entry es x k v) = (ht_map es)(k \<mapsto> v)"
proof
  fix k'
  let ?es = "put_entry es x k v"
  note ok' = put_entry_keys_ok [OF ok s, of v]
  have x: "x < length es" by (rule slot_of_bound [OF s])
  show "ht_map ?es k' = ((ht_map es)(k \<mapsto> v)) k'"
  proof (cases "k' = k")
    case True
    then show ?thesis using ht_map_slot [OF ok' put_entry_slot_of_same [OF s]] x by (simp add: put_entry_def)
  next
    case False
    have x': "\<not> (e_occupied (es ! x) \<and> e_key (es ! x) = k')" using slot_of_hits [OF s] False by (auto simp: hits_def)
    have "ht_map ?es k' = Some w \<longleftrightarrow> ht_map es k' = Some w" for w
      unfolding ht_map_Some [OF ok'] ht_map_Some [OF ok] using False x x'
      by (auto simp: put_entry_def nth_list_update split: if_splits)
    then show ?thesis using False by (metis fun_upd_other not_Some_eq)
  qed
qed

lemma load_card: "load es = card {x. x < length es \<and> e_occupied (es ! x)}"
  by (simp add: load_def length_filter_conv_card)

lemma put_entry_load:
  assumes "x < length es"
  shows "load (put_entry es x k v) = (if e_occupied (es ! x) then load es else Suc (load es))"
proof -
  have "{y. y < length es \<and> e_occupied (put_entry es x k v ! y)} = insert x {y. y < length es \<and> e_occupied (es ! y)}"
    using assms by (auto simp: put_entry_def nth_list_update)
  then show ?thesis using assms by (auto simp: load_card insert_absorb)
qed

lemma load_less_free: "load es < length es \<Longrightarrow> \<exists>x < length es. \<not> e_occupied (es ! x)"
  by (metis filter_True in_set_conv_nth load_def nat_neq_iff)

lemma free_slot_of:
  assumes "length es = 2 ^ n" "load es < length es"
  shows "\<exists>x. slot_of hash es k x"
proof -
  obtain x where "x < length es" "\<not> e_occupied (es ! x)" using load_less_free [OF assms(2)] by blast
  then show ?thesis using slot_of_exists [OF assms(1)] by (metis hits_def)
qed

lemma bufferInsert_spec:
  assumes ok: "buffer_ok n buf" and keys: "keys_ok hash (ar_elems buf)" and free: "load (ar_elems buf) < 2 ^ n"
  shows "\<exists>was buf'. bufferInsert hash buf k v = Some (was, buf') \<and> (was \<longleftrightarrow> k \<in> dom (ht_map (ar_elems buf))) \<and>
    buffer_ok n buf' \<and> keys_ok hash (ar_elems buf') \<and> ht_map (ar_elems buf') = (ht_map (ar_elems buf))(k \<mapsto> v) \<and>
    load (ar_elems buf') = (if was then load (ar_elems buf) else Suc (load (ar_elems buf)))"
proof -
  let ?es = "ar_elems buf"
  have len: "length ?es = 2 ^ n" and n: "n < 64" using ok by (simp_all add: buffer_ok_def)
  obtain x where s: "slot_of hash ?es k x" using free_slot_of [OF len, of hash k] free len by auto
  have x: "x < length ?es" by (rule slot_of_bound [OF s])
  also have "\<dots> < 2 ^ 64" using n by (simp only: len) (rule power_strict_increasing, simp_all)
  finally have u: "unat (word_of_nat x :: u64) = x" by simp
  have "e_occupied (?es ! x) \<longleftrightarrow> k \<in> dom (ht_map ?es)"
    using ht_map_slot [OF keys s] slot_of_hits [OF s] by (auto simp: hits_def split: if_splits)
  moreover have "bufferInsert hash buf k v = Some (e_occupied (?es ! x), buf\<lparr>ar_elems := put_entry ?es x k v\<rparr>)"
    by (simp add: bufferInsert_def probe_slot [OF ok s] Array_get_def Array_set_def u put_entry_def)
  moreover have "buffer_ok n (buf\<lparr>ar_elems := put_entry ?es x k v\<rparr>)" using ok by (simp add: buffer_ok_def Array_ok_def)
  ultimately show ?thesis
    using put_entry_keys_ok [OF keys s] put_entry_map [OF keys s] put_entry_load [OF x] by auto
qed

lemma ht_map_Cons:
  "ht_map (e # es) = (if e_occupied e then (ht_map es)(e_key e \<mapsto> e_value e) else ht_map es)"
  by (simp add: ht_map_def)

lemma dom_ht_map: "dom (ht_map es) = e_key ` {e \<in> set es. e_occupied e}"
  by (auto simp: ht_map_def dom_map_of_conv_image_fst image_image)

lemma rehash_spec:
  assumes "buffer_ok n buf" "keys_ok hash (ar_elems buf)" "load (ar_elems buf) + load es < 2 ^ n"
    and "distinct (map e_key (filter e_occupied es))" "dom (ht_map es) \<inter> dom (ht_map (ar_elems buf)) = {}"
  shows "\<exists>buf'. rehash hash es buf = Some (Success, buf') \<and> buffer_ok n buf' \<and> keys_ok hash (ar_elems buf') \<and>
    ht_map (ar_elems buf') = ht_map (ar_elems buf) ++ ht_map es \<and>
    load (ar_elems buf') = load (ar_elems buf) + load es"
  using assms
proof (induction es arbitrary: buf)
  case Nil
  then show ?case by (simp add: load_def ht_map_def)
next
  case (Cons e es)
  show ?case
  proof (cases "e_occupied e")
    case False
    then show ?thesis using Cons by (simp add: load_def ht_map_Cons)
  next
    case True
    let ?k = "e_key e"
    have load: "load (ar_elems buf) < 2 ^ n" "load (e # es) = Suc (load es)"
      using Cons.prems(3) True by (simp_all add: load_def)
    have new: "?k \<notin> dom (ht_map (ar_elems buf))" and notin: "?k \<notin> dom (ht_map es)"
      using Cons.prems(4,5) True by (auto simp: ht_map_Cons dom_ht_map)
    from bufferInsert_spec [OF Cons.prems(1,2) load(1), of ?k "e_value e"] new obtain buf1 where
      b: "bufferInsert hash buf ?k (e_value e) = Some (False, buf1)" "buffer_ok n buf1" "keys_ok hash (ar_elems buf1)"
        "ht_map (ar_elems buf1) = (ht_map (ar_elems buf))(?k \<mapsto> e_value e)" "load (ar_elems buf1) = Suc (load (ar_elems buf))"
      by auto
    have "dom (ht_map (e # es)) = insert ?k (dom (ht_map es))" using True by (simp add: ht_map_Cons)
    then have "dom (ht_map es) \<inter> dom (ht_map (ar_elems buf1)) = {}"
      using Cons.prems(5) notin unfolding b(4) by (auto simp del: domIff)
    moreover have "load (ar_elems buf1) + load es < 2 ^ n" "distinct (map e_key (filter e_occupied es))"
      using Cons.prems load b True by simp_all
    ultimately have "load (ar_elems buf1) + load es < 2 ^ n" "distinct (map e_key (filter e_occupied es))"
      "dom (ht_map es) \<inter> dom (ht_map (ar_elems buf1)) = {}" by blast+
    from Cons.IH [OF b(2,3) this] obtain buf' where "rehash hash es buf1 = Some (Success, buf')" "buffer_ok n buf'"
      "keys_ok hash (ar_elems buf')" "ht_map (ar_elems buf') = ht_map (ar_elems buf1) ++ ht_map es"
      "load (ar_elems buf') = load (ar_elems buf1) + load es" by blast
    moreover have "(ht_map (ar_elems buf))(?k \<mapsto> e_value e) ++ ht_map es = ht_map (ar_elems buf) ++ (ht_map es)(?k \<mapsto> e_value e)"
      using notin by (simp add: map_add_upd_left map_add_upd)
    moreover have hc: "ht_map (e # es) = (ht_map es)(?k \<mapsto> e_value e)" unfolding ht_map_Cons using True by (rule if_P)
    ultimately have "ht_map (ar_elems buf') = ht_map (ar_elems buf) ++ ht_map (e # es)"
      "rehash hash (e # es) buf = Some (Success, buf')" "buffer_ok n buf'" "keys_ok hash (ar_elems buf')"
      "load (ar_elems buf') = load (ar_elems buf) + load (e # es)"
      using True b(1,5) load by (simp_all only: hc b(4)) simp_all
    then show ?thesis by blast
  qed
qed

subsection \<open>The table invariant\<close>

text \<open>
  A well-formed table: uninitialized and empty, or a power of two of at least eight slots, with every
  entry in its slot, the size field right and a slot free. The load limit is at most 7/8, and no more
  than \<open>2 ^ 24\<close> slots are in use.
\<close>

definition table_ok :: "('k \<Rightarrow> u64) \<Rightarrow> ('k, 'v) HashTable \<Rightarrow> bool" where
  "table_ok hash t \<longleftrightarrow> maxLoadFactor t \<le> 7 / 8 \<and> Array_ok (h_buffer t) \<and>
     unat (h_size t) = load (ar_elems (h_buffer t)) \<and>
     (ar_size (h_buffer t) = 0 \<or>
      (\<exists>n. 3 \<le> n \<and> n \<le> 24 \<and> buffer_ok n (h_buffer t) \<and> keys_ok hash (ar_elems (h_buffer t)) \<and>
         load (ar_elems (h_buffer t)) < 2 ^ n))"

definition entries_bounded :: "('a, 'b) alloc_env_scheme \<Rightarrow> bool" where
  "entries_bounded env \<longleftrightarrow> (\<forall>n place mt p. allocateMemory env n place mt = Inr p \<longrightarrow> n \<le> 2 ^ 24)"

abbreviation table_map :: "('k, 'v) HashTable \<Rightarrow> 'k \<rightharpoonup> 'v" where
  "table_map t \<equiv> ht_map (ar_elems (h_buffer t))"

lemma Array_ok_empty: "Array_ok a \<Longrightarrow> ar_size a = 0 \<Longrightarrow> ar_elems a = []"
  by (simp add: Array_ok_def)

lemma get_spec:
  assumes "table_ok hash t"
  shows "HashTable_get hash k t = Some (table_map t k)"
proof (cases "ar_size (h_buffer t) = 0")
  case True
  then show ?thesis using assms by (simp add: HashTable_get_def table_ok_def Array_ok_empty ht_map_def)
next
  case False
  then obtain n where n: "n \<le> 24" "buffer_ok n (h_buffer t)" "keys_ok hash (ar_elems (h_buffer t))"
    "load (ar_elems (h_buffer t)) < 2 ^ n" using assms by (auto simp: table_ok_def)
  then have len: "length (ar_elems (h_buffer t)) = 2 ^ n" by (simp add: buffer_ok_def)
  then obtain x where s: "slot_of hash (ar_elems (h_buffer t)) k x" using free_slot_of [OF len, of hash k] n(4) by auto
  have "x < 2 ^ n" using slot_of_bound [OF s] len by simp
  also have "(2 :: nat) ^ n \<le> 2 ^ 24" using n(1) by (intro power_increasing) simp_all
  finally have u: "unat (word_of_nat x :: u64) = x" by simp
  show ?thesis
    using False by (simp add: HashTable_get_def probe_slot [OF n(2) s] Array_get_def u ht_map_slot [OF n(3) s] Let_def)
qed

lemma contains_get: "HashTable_contains hash k t = map_option (\<lambda>r. r \<noteq> None) (HashTable_get hash k t)"
  by (simp add: HashTable_contains_def HashTable_get_def Let_def split: option.splits)

text \<open>A fresh buffer of a power of two of slots.\<close>

lemma filled_buffer:
  assumes i: "Array_initialize env c place mt = (Success, new)" and env: "env_ok env"
    and c: "unat c = 2 ^ n" "n < 64"
  shows "buffer_ok n (Array_fill new Entry_new)" "keys_ok hash (ar_elems (Array_fill new Entry_new))"
    "ht_map (ar_elems (Array_fill new Entry_new)) = Map.empty" "load (ar_elems (Array_fill new Entry_new)) = 0"
proof -
  have ok: "Array_ok new" using Array_initialize_ok [of env c place mt] i by simp
  have "c \<noteq> 0" using c by auto
  then have sz: "ar_size new = c"
    using i allocateMemory_not_Success [OF env] by (auto simp: Array_initialize_def split: sum.splits)
  have es: "ar_elems (Array_fill new Entry_new) = replicate (2 ^ n) Entry_new"
    using ok sz c by (simp add: Array_fill_elems Array_ok_def)
  then show "buffer_ok n (Array_fill new Entry_new)"
    using Array_fill_ok [OF ok] c by (simp add: buffer_ok_def)
  show "keys_ok hash (ar_elems (Array_fill new Entry_new))"
    "ht_map (ar_elems (Array_fill new Entry_new)) = Map.empty" "load (ar_elems (Array_fill new Entry_new)) = 0"
    unfolding es by (simp_all add: keys_ok_def ht_map_def load_def Entry_new_def)
qed

lemma clear_spec:
  assumes "table_ok hash t"
  shows "table_ok hash (HashTable_clear t)" "table_map (HashTable_clear t) = Map.empty"
proof -
  have ok: "Array_ok (h_buffer t)" using assms by (simp add: table_ok_def)
  have es: "h_buffer (HashTable_clear t) = (h_buffer t)\<lparr>ar_elems := map (\<lambda>e. e\<lparr>e_occupied := False\<rparr>) (ar_elems (h_buffer t))\<rparr>"
    using Array_loop_map [OF ok] by (simp add: HashTable_clear_def)
  have none: "filter e_occupied (map (\<lambda>e. e\<lparr>e_occupied := False\<rparr>) es) = []" for es :: "('a, 'b) Entry list"
    by (simp add: filter_empty_conv)
  show "table_map (HashTable_clear t) = Map.empty" by (simp add: es ht_map_def none)
  show "table_ok hash (HashTable_clear t)"
    using assms by (auto simp: table_ok_def es load_def none buffer_ok_def Array_ok_def keys_ok_def)
      (auto simp: HashTable_clear_def)
qed

lemma entries_read:
  assumes "Array_ok buf"
  shows "map (Array_get buf \<circ> word_of_nat) [0..<unat (ar_size buf)] = ar_elems buf"
proof -
  have "map (Array_get buf \<circ> word_of_nat) [0..<length (ar_elems buf)] = map ((!) (ar_elems buf)) [0..<length (ar_elems buf)]"
    using Array_ok_length [OF assms] by (intro map_cong) (auto simp: Array_get_def)
  then show ?thesis using assms by (simp add: map_nth Array_ok_def)
qed

lemma next_capacity_room:
  assumes "table_ok hash t"
  shows "\<exists>n. 3 \<le> n \<and> n \<le> 25 \<and> unat (nextCapacity t) = 2 ^ n \<and> length (ar_elems (h_buffer t)) < 2 ^ n \<and>
    Suc (load (ar_elems (h_buffer t))) < 2 ^ n \<and> distinct (map e_key (filter e_occupied (ar_elems (h_buffer t))))"
proof (cases "ar_size (h_buffer t) = 0")
  case True
  then have "ar_elems (h_buffer t) = []" using assms by (simp add: table_ok_def Array_ok_empty)
  then show ?thesis using True by (intro exI [of _ 3]) (simp add: nextCapacity_def load_def)
next
  case False
  then obtain n where n: "3 \<le> n" "n \<le> 24" "buffer_ok n (h_buffer t)" "keys_ok hash (ar_elems (h_buffer t))"
    "load (ar_elems (h_buffer t)) < 2 ^ n" using assms by (auto simp: table_ok_def)
  have sz: "unat (ar_size (h_buffer t)) = 2 ^ n" using n(3) by (simp add: buffer_ok_def Array_ok_def)
  also have "(2 :: nat) ^ n \<le> 2 ^ 24" using n(2) by (intro power_increasing) simp_all
  finally have "unat (ar_size (h_buffer t) * 2) = 2 * unat (ar_size (h_buffer t))"
    using unat_mult_no_wrap [of "ar_size (h_buffer t)" 2] by simp
  then have "unat (nextCapacity t) = 2 ^ Suc n" using False sz by (simp add: nextCapacity_def)
  moreover have "(2 :: nat) ^ 3 \<le> 2 ^ n" using n(1) by (intro power_increasing) simp_all
  ultimately show ?thesis
    using n distinct_keys [OF n(4)] by (intro exI [of _ "Suc n"]) (simp add: buffer_ok_def)
qed

text \<open>Growing the table keeps its map and leaves room for the next entry.\<close>

lemma resize_spec:
  assumes t: "table_ok hash t" and env: "env_ok env" "entries_bounded env"
  shows "\<exists>status t'. HashTable_resize env hash (nextCapacity t) t = Some (status, t') \<and>
    (if status = Success
     then table_map t' = table_map t \<and> h_size t' = h_size t \<and> maxLoadFactor t' = maxLoadFactor t \<and>
       Array_ok (h_buffer t') \<and>
       (\<exists>n. 3 \<le> n \<and> n \<le> 24 \<and> buffer_ok n (h_buffer t') \<and> keys_ok hash (ar_elems (h_buffer t')) \<and>
          load (ar_elems (h_buffer t')) = load (ar_elems (h_buffer t)) \<and> Suc (load (ar_elems (h_buffer t'))) < 2 ^ n)
     else t' = t)"
proof -
  let ?b = "h_buffer t" and ?c = "nextCapacity t"
  let ?mt = "if ar_data ?b = 0 then MainMem else memoryTypeOf (ar_data ?b)"
  have ok: "Array_ok ?b" using t by (simp add: table_ok_def)
  obtain n where n: "3 \<le> n" "n \<le> 25" "unat ?c = 2 ^ n" "length (ar_elems ?b) < 2 ^ n"
    "Suc (load (ar_elems ?b)) < 2 ^ n" "distinct (map e_key (filter e_occupied (ar_elems ?b)))"
    using next_capacity_room [OF t] by blast
  have "\<not> ?c \<le> ar_size ?b" using n(3,4) ok by (simp add: word_le_nat_alt Array_ok_def)
  obtain st new where i: "Array_initialize env ?c (localityOf (ar_data ?b)) ?mt = (st, new)" by fastforce
  show ?thesis
  proof (cases "st = Success")
    case False
    then show ?thesis using i \<open>\<not> ?c \<le> ar_size ?b\<close> by (simp add: HashTable_resize_def Let_def)
  next
    case True
    have c0: "?c \<noteq> 0" using n(3) by auto
    have "?c \<le> 2 ^ 24"
      using i True c0 env(2) allocateMemory_not_Success [OF env(1)] unfolding entries_bounded_def Array_initialize_def
      by (auto split: if_splits sum.splits)
    then have "unat ?c \<le> 2 ^ 24" by (simp add: word_le_nat_alt)
    then have n24: "n \<le> 24" unfolding n(3) by (rule power_le_imp_le_exp [rotated]) simp
    let ?new = "Array_fill new Entry_new"
    have "n < 64" using n24 by simp
    note f = filled_buffer [OF i [unfolded True] env(1) n(3) this]
    have room: "load (ar_elems ?new) + load (ar_elems ?b) < 2 ^ n" using f(4) n(5) by simp
    have dj: "dom (ht_map (ar_elems ?b)) \<inter> dom (ht_map (ar_elems ?new)) = {}" using f(3) by simp
    from rehash_spec [OF f(1,2) room n(6) dj] f(3,4) obtain buf' where
      b: "rehash hash (ar_elems ?b) ?new = Some (Success, buf')" "buffer_ok n buf'" "keys_ok hash (ar_elems buf')"
        "ht_map (ar_elems buf') = ht_map (ar_elems ?b)" "load (ar_elems buf') = load (ar_elems ?b)"
      by auto
    have "HashTable_resize env hash ?c t = Some (Success, t\<lparr>h_buffer := buf'\<rparr>)"
      using i True \<open>\<not> ?c \<le> ar_size ?b\<close> b(1) by (simp add: HashTable_resize_def Let_def entries_read [OF ok])
    then show ?thesis using b n n24 by (auto simp: buffer_ok_def)
  qed
qed

text \<open>Below the load limit at least two slots are free.\<close>

lemma room_below_load:
  assumes t: "table_ok hash t" and ok: "buffer_ok n (h_buffer t)" "3 \<le> n" and l: "\<not> maxLoadFactor t \<le> loadFactor t"
  shows "Suc (load (ar_elems (h_buffer t))) < 2 ^ n"
proof -
  let ?l = "load (ar_elems (h_buffer t))"
  have "unat (ar_size (h_buffer t)) = 2 ^ n" "unat (h_size t) = ?l" and max: "maxLoadFactor t \<le> 7 / 8"
    using t ok by (simp_all add: buffer_ok_def Array_ok_def table_ok_def)
  then have "loadFactor t = of_nat ?l / 2 ^ n" by (simp add: loadFactor_def)
  then have "of_nat ?l / 2 ^ n < (7 / 8 :: rat)" using l max by (metis not_le order.strict_trans2)
  then have "(of_nat (8 * ?l) :: rat) < of_nat (7 * 2 ^ n)" by (simp add: divide_less_eq)
  then have "8 * ?l < 7 * 2 ^ n" by (simp only: of_nat_less_iff)
  moreover have "(2 :: nat) ^ 3 \<le> 2 ^ n" using ok(2) by (intro power_increasing) simp_all
  ultimately show ?thesis by simp
qed

lemma put_spec:
  assumes t: "table_ok hash t" and env: "env_ok env" "entries_bounded env"
  shows "\<exists>status t'. HashTable_put env hash k v t = Some (status, t') \<and> table_ok hash t' \<and>
    table_map t' = (if status = Success then (table_map t)(k \<mapsto> v) else table_map t)"
proof -
  let ?grow = "ar_size (h_buffer t) = 0 \<or> maxLoadFactor t \<le> loadFactor t"
  let ?first = "if ?grow then HashTable_resize env hash (nextCapacity t) t else Some (Success, t)"
  have "\<exists>status t1. ?first = Some (status, t1) \<and>
    (if status = Success
     then table_map t1 = table_map t \<and> h_size t1 = h_size t \<and> maxLoadFactor t1 = maxLoadFactor t \<and>
       Array_ok (h_buffer t1) \<and>
       (\<exists>n. 3 \<le> n \<and> n \<le> 24 \<and> buffer_ok n (h_buffer t1) \<and> keys_ok hash (ar_elems (h_buffer t1)) \<and>
          load (ar_elems (h_buffer t1)) = load (ar_elems (h_buffer t)) \<and> Suc (load (ar_elems (h_buffer t1))) < 2 ^ n)
     else t1 = t)"
  proof (cases ?grow)
    case True
    from resize_spec [OF t env] show ?thesis unfolding if_P [OF True] .
  next
    case False
    then obtain n where n: "3 \<le> n" "n \<le> 24" "buffer_ok n (h_buffer t)" "keys_ok hash (ar_elems (h_buffer t))"
      using t by (auto simp: table_ok_def)
    have "Suc (load (ar_elems (h_buffer t))) < 2 ^ n" by (rule room_below_load [OF t n(3,1)]) (use False in simp)
    then show ?thesis using False n t by (auto simp: table_ok_def)
  qed
  then obtain status t1 where f: "?first = Some (status, t1)" and
    t1: "if status = Success
     then table_map t1 = table_map t \<and> h_size t1 = h_size t \<and> maxLoadFactor t1 = maxLoadFactor t \<and>
       Array_ok (h_buffer t1) \<and>
       (\<exists>n. 3 \<le> n \<and> n \<le> 24 \<and> buffer_ok n (h_buffer t1) \<and> keys_ok hash (ar_elems (h_buffer t1)) \<and>
          load (ar_elems (h_buffer t1)) = load (ar_elems (h_buffer t)) \<and> Suc (load (ar_elems (h_buffer t1))) < 2 ^ n)
     else t1 = t" by blast
  show ?thesis
  proof (cases "status = Success")
    case False
    then have "HashTable_put env hash k v t = Some (status, t)" using f t1 by (simp add: HashTable_put_def)
    then show ?thesis using t False by simp
  next
    case True
    then obtain n where n: "3 \<le> n" "n \<le> 24" "buffer_ok n (h_buffer t1)" "keys_ok hash (ar_elems (h_buffer t1))"
      "load (ar_elems (h_buffer t1)) = load (ar_elems (h_buffer t))" "Suc (load (ar_elems (h_buffer t1))) < 2 ^ n"
      and m: "table_map t1 = table_map t" "h_size t1 = h_size t" "maxLoadFactor t1 = maxLoadFactor t"
      using t1 by auto
    have "load (ar_elems (h_buffer t1)) < 2 ^ n" using n(6) by simp
    from bufferInsert_spec [OF n(3,4) this, of k v] obtain was buf where
      b: "bufferInsert hash (h_buffer t1) k v = Some (was, buf)" "buffer_ok n buf" "keys_ok hash (ar_elems buf)"
        "ht_map (ar_elems buf) = (table_map t)(k \<mapsto> v)"
        "load (ar_elems buf) = (if was then load (ar_elems (h_buffer t)) else Suc (load (ar_elems (h_buffer t))))"
      using m(1) n(5) by auto
    let ?t' = "t1\<lparr>h_buffer := buf, h_size := (if was then h_size t1 else h_size t1 + 1)\<rparr>"
    have r: "HashTable_put env hash k v t = Some (Success, ?t')" using f True b(1) by (simp add: HashTable_put_def)
    have sz: "unat (h_size t) = load (ar_elems (h_buffer t))" using t by (simp add: table_ok_def)
    have "(2 :: nat) ^ n \<le> 2 ^ 24" using n(2) by (intro power_increasing) simp_all
    then have "unat (h_size t + 1) = Suc (unat (h_size t))"
      using sz n(5,6) unat_add_no_wrap [of "h_size t" 1] by simp
    then have "table_ok hash ?t'"
      using b n sz m t by (auto simp: table_ok_def buffer_ok_def)
    then show ?thesis using r b(4) by auto
  qed
qed

subsection \<open>The interface of a map\<close>

text \<open>
  A map with a fallible update: lookups return what the abstract map holds, and an update returns, with
  the updated map or, on failure, the old one. A sequence of updates stops at the first failure.
\<close>

fun put_all ::
  "('k \<Rightarrow> 'v \<Rightarrow> 's \<Rightarrow> (Status \<times> 's) option) \<Rightarrow> ('k \<times> 'v) list \<Rightarrow> 's \<Rightarrow> (Status \<times> 's) option" where
  "put_all put [] s = Some (Success, s)"
| "put_all put (kv # kvs) s =
     (case put (fst kv) (snd kv) s of
        None \<Rightarrow> None
      | Some (status, s') \<Rightarrow> if status \<noteq> Success then Some (status, s') else put_all put kvs s')"

locale fallible_map =
  fixes inv :: "'s \<Rightarrow> bool" and amap :: "'s \<Rightarrow> 'k \<rightharpoonup> 'v"
    and get :: "'k \<Rightarrow> 's \<Rightarrow> 'v option option" and put :: "'k \<Rightarrow> 'v \<Rightarrow> 's \<Rightarrow> (Status \<times> 's) option"
  assumes get_amap: "inv s \<Longrightarrow> get k s = Some (amap s k)"
    and put_amap: "inv s \<Longrightarrow> \<exists>status s'. put k v s = Some (status, s') \<and> inv s' \<and>
      amap s' = (if status = Success then (amap s)(k \<mapsto> v) else amap s)"
begin

lemma put_all_amap:
  "inv s \<Longrightarrow> \<exists>status s' n. put_all put kvs s = Some (status, s') \<and> inv s' \<and> n \<le> length kvs \<and>
     (status = Success \<longleftrightarrow> n = length kvs) \<and> amap s' = amap s ++ map_of (rev (take n kvs))"
proof (induction kvs arbitrary: s)
  case (Cons kv kvs)
  obtain k v where kv: "kv = (k, v)" by fastforce
  from put_amap [OF Cons.prems, of k v] obtain status s1 where
    p: "put k v s = Some (status, s1)" "inv s1" "amap s1 = (if status = Success then (amap s)(k \<mapsto> v) else amap s)"
    by blast
  show ?case
  proof (cases "status = Success")
    case True
    from Cons.IH [OF p(2)] obtain st s' n where r: "put_all put kvs s1 = Some (st, s')" "inv s'" "n \<le> length kvs"
      "st = Success \<longleftrightarrow> n = length kvs" "amap s' = amap s1 ++ map_of (rev (take n kvs))" by blast
    have "amap s' = amap s ++ map_of (rev (take (Suc n) (kv # kvs)))"
      using r(5) p(3) True kv by (auto simp: map_add_def fun_eq_iff split: option.splits)
    then show ?thesis using r p True kv by (intro exI [of _ st] exI [of _ s'] exI [of _ "Suc n"]) auto
  next
    case False
    then show ?thesis using p kv by (intro exI [of _ status] exI [of _ s1] exI [of _ 0]) auto
  qed
qed auto

lemma put_all_get:
  assumes "inv s"
  shows "\<exists>status s' n. put_all put kvs s = Some (status, s') \<and> n \<le> length kvs \<and>
    (status = Success \<longleftrightarrow> n = length kvs) \<and> (\<forall>k. get k s' = Some ((amap s ++ map_of (rev (take n kvs))) k))"
  using put_all_amap [OF assms, of kvs] get_amap by metis

end

interpretation ht: fallible_map "\<lambda>t. table_ok hash t \<and> env_ok env \<and> entries_bounded env" table_map
  "HashTable_get hash" "HashTable_put env hash"
  for hash :: "'k :: zero \<Rightarrow> u64" and env :: "('k, 'v :: zero) Entry alloc_env"
proof
  fix t :: "('k, 'v) HashTable" and k v
  assume "table_ok hash t \<and> env_ok env \<and> entries_bounded env"
  then have i: "table_ok hash t" "env_ok env" "entries_bounded env" by blast+
  show "HashTable_get hash k t = Some (table_map t k)" by (rule get_spec [OF i(1)])
  show "\<exists>status t'. HashTable_put env hash k v t = Some (status, t') \<and>
      (table_ok hash t' \<and> env_ok env \<and> entries_bounded env) \<and>
      table_map t' = (if status = Success then (table_map t)(k \<mapsto> v) else table_map t)"
    using put_spec [OF i, of k v] i(2,3) by blast
qed

end
