(* ===== verification/Hash_Table_Props.thy ===== *)
theory Hash_Table_Props
  imports Hash_Table_Map
begin

text \<open>
  Properties of \<^verbatim>\<open>galois::HashTable\<close>: from \<^verbatim>\<open>initialize\<close> on it is a finite map; its iterator visits exactly the
  entries; and a load limit above 7/8 lets it fill up, after which a lookup of an absent key never returns.
\<close>

subsection \<open>Initialization\<close>

lemma bit_of_range:
  assumes "2 ^ m \<le> unat (x :: u64)" "unat x < 2 ^ Suc m"
  shows "bit x m"
proof -
  have "unat x div 2 ^ m = 1" using assms by (intro div_nat_eqI) simp_all
  then have "bit (unat x) m" by (simp add: bit_iff_odd)
  then show ?thesis by (simp add: bit_unsigned_iff)
qed

lemma and_minus_one_power:
  assumes "c \<noteq> 0" "c AND (c - 1) = (0 :: u64)"
  shows "\<exists>n < 64. unat c = 2 ^ n"
proof -
  let ?m = "unat (log2floor c)"
  note b = log2floor_bounds [OF assms(1)]
  have m: "?m < 64" using unat_log2floor [OF assms(1)] by simp
  have "unat c = 2 ^ ?m"
  proof (rule ccontr)
    assume "unat c \<noteq> 2 ^ ?m"
    then have "2 ^ ?m \<le> unat (c - 1)" "unat (c - 1) < 2 ^ Suc ?m"
      using b unat_minus_one_u64 [OF assms(1)] by auto
    then have "bit (c - 1) ?m" by (rule bit_of_range)
    moreover have "bit c ?m" using b by (blast intro: bit_of_range)
    ultimately have "bit (c AND (c - 1)) ?m" by (simp add: bit_and_iff)
    then show False using assms(2) by simp
  qed
  then show ?thesis using m by blast
qed

lemma initial_capacity:
  assumes c: "c = (if cap1 AND (cap1 - 1) = 0 then cap1 else up2 cap1)"
    and cap1: "cap1 = (if cap < 8 \<and> cap \<noteq> 0 then 8 else cap)" and nz: "c \<noteq> 0"
  shows "\<exists>n. 3 \<le> n \<and> n < 64 \<and> unat c = 2 ^ n"
proof -
  have big: "cap1 \<noteq> 0 \<Longrightarrow> 8 \<le> unat cap1" using cap1 by (auto simp: word_less_nat_alt split: if_splits)
  have up: "unat (up2 cap1) = 2 ^ Suc (unat (log2floor cap1)) \<and> Suc (unat (log2floor cap1)) < 64"
    if "cap1 \<noteq> 0" "up2 cap1 \<noteq> 0"
  proof -
    have "unat (log2floor cap1) \<le> 63" using unat_log2floor [OF that(1)] by simp
    moreover have "unat (log2floor cap1) \<noteq> 63"
      using that(2) by (auto simp: up2_def push_bit_of_1)
    ultimately show ?thesis using unat_up2 [OF that(1)] by simp
  qed
  obtain n where n: "n < 64" "unat c = 2 ^ n" "8 \<le> unat c"
  proof (cases "cap1 AND (cap1 - 1) = 0")
    case True
    then have "c = cap1" using c by simp
    then show ?thesis using that and_minus_one_power [of cap1] True nz big by metis
  next
    case False
    then have "c = up2 cap1" "cap1 \<noteq> 0" using c by auto
    moreover have "unat cap1 < 2 ^ Suc (unat (log2floor cap1))" using log2floor_bounds [OF \<open>cap1 \<noteq> 0\<close>] by simp
    ultimately show ?thesis using that up nz big by (metis less_imp_le order_trans)
  qed
  have "(2 :: nat) ^ 3 \<le> 2 ^ n" using n by simp
  then have "3 \<le> n" by (rule power_le_imp_le_exp [rotated]) simp
  then show ?thesis using n by blast
qed

lemma initialize_ok:
  assumes init: "HashTable_initialize env cap place mt HashTable_new = (Success, t)"
    and env: "env_ok env" "entries_bounded env"
  shows "table_ok hash t" "table_map t = Map.empty"
proof -
  let ?cap1 = "if cap < 8 \<and> cap \<noteq> 0 then 8 else cap"
  let ?c = "if ?cap1 AND (?cap1 - 1) = 0 then ?cap1 else up2 ?cap1"
  obtain st buf where i: "Array_initialize env ?c place mt = (st, buf)" by fastforce
  then have i': "Array_initialize env ?c place mt = (Success, buf)"
    and t: "t = HashTable_new\<lparr>h_buffer := Array_fill buf Entry_new\<rparr>"
    using init by (auto simp: HashTable_initialize_def Let_def)
  have ok: "Array_ok buf" using Array_initialize_ok [of env ?c place mt] i by simp
  have "table_ok hash t \<and> table_map t = Map.empty"
  proof (cases "?c = 0")
    case True
    then have "buf = \<lparr>ar_data = 0, ar_size = 0, ar_memoryType = mt, ar_elems = []\<rparr>"
      using i' by (simp add: Array_initialize_def)
    then show ?thesis
      by (simp add: t table_ok_def HashTable_new_def float_0_8_def Array_fill_def Array_ok_def load_def ht_map_def)
  next
    case False
    obtain n where n: "3 \<le> n" "n < 64" "unat ?c = 2 ^ n" using initial_capacity [OF refl refl False] by blast
    have "?c \<le> 2 ^ 24"
      using i' False env(2) allocateMemory_not_Success [OF env(1)] unfolding entries_bounded_def Array_initialize_def
      by (auto split: if_splits sum.splits)
    then have "unat ?c \<le> 2 ^ 24" by (simp add: word_le_nat_alt)
    then have n24: "n \<le> 24" unfolding n(3) by (rule power_le_imp_le_exp [rotated]) simp
    note f = filled_buffer [OF i' env(1) n(3,2)]
    show ?thesis
      using f n n24 by (auto simp: t table_ok_def HashTable_new_def float_0_8_def buffer_ok_def)
  qed
  then show "table_ok hash t" "table_map t = Map.empty" by simp_all
qed

text \<open>
  C7: the hash table is a finite map. After a successful \<^verbatim>\<open>initialize\<close> of a table with the default load
  limit, every sequence of \<^verbatim>\<open>put\<close> calls returns, up to the first one that reports a failure, and then
  \<^verbatim>\<open>get\<close> returns for every key exactly the value of the last successful \<^verbatim>\<open>put\<close> of that key, and nothing for
  all other keys, through collisions, overwriting and rehashing, whatever the hash function.
\<close>

theorem HashTable_is_map:
  assumes "HashTable_initialize env cap place mt HashTable_new = (Success, t)" "env_ok env" "entries_bounded env"
  shows "\<exists>status t' n. put_all (HashTable_put env hash) kvs t = Some (status, t') \<and> n \<le> length kvs \<and>
    (status = Success \<longleftrightarrow> n = length kvs) \<and>
    (\<forall>k. HashTable_get hash k t' = Some (map_of (rev (take n kvs)) k))"
  using ht.put_all_get [of hash t env kvs] initialize_ok [OF assms] assms(2,3) by simp

text \<open>An environment with room for at most 64 entries, at one address of node 0.\<close>

definition example_table_env :: "(u64, nat) Entry alloc_env" where
  "example_table_env = \<lparr>getCurrentPlace = Place (NodeIndex 0) anyPod anyCore, isOnCP = False,
     allocateMemoryImpl = (\<lambda>b _. if b \<le> 64 then encodeMainAddress (NodeIndex 0) 0x1000 else 0),
     executeOnWait_allocate = (\<lambda>_ _ _. Inl BadAlloc), executeOn_deallocate = (\<lambda>_ _ _. Success), sizeof_T = 1, fresh = (\<lambda>_ _. Entry_new)\<rparr>"

lemma example_table_env_ok: "env_ok example_table_env" "entries_bounded example_table_env"
proof -
  show "env_ok example_table_env" by (simp add: env_ok_def example_table_env_def)
  have "n \<le> 64" if "allocateMemory example_table_env n place mt = Inr p" for n place mt p
    using that by (auto simp: allocateMemory_def null_is_BadAlloc_def example_table_env_def Let_def
        split: MemoryType.splits if_splits sum.splits)
  moreover have "(64 :: u64) \<le> 2 ^ 24" by simp
  ultimately show "entries_bounded example_table_env" unfolding entries_bounded_def by (meson order_trans)
qed

theorem HashTable_is_map_witness:
  "\<exists>t'. put_all (HashTable_put example_table_env (\<lambda>k. k)) [(1, 10), (9, 20), (1, 30)]
       (snd (HashTable_initialize example_table_env 5 anyPlace MainMem HashTable_new)) = Some (Success, t') \<and>
     HashTable_get (\<lambda>k. k) 1 t' = Some (Some 30) \<and> HashTable_get (\<lambda>k. k) 9 t' = Some (Some 20) \<and>
     HashTable_get (\<lambda>k. k) 17 t' = Some None"
proof -
  let ?i = "HashTable_initialize example_table_env 5 anyPlace MainMem HashTable_new"
    and ?kvs = "[(1, 10), (9, 20), (1, 30)] :: (u64 \<times> nat) list"
  have "fst ?i = Success" by code_simp
  then have i: "?i = (Success, snd ?i)" by (metis prod.collapse)
  have ok: "map_option fst (put_all (HashTable_put example_table_env (\<lambda>k. k)) ?kvs (snd ?i)) = Some Success" by code_simp
  from HashTable_is_map [OF i example_table_env_ok, of "\<lambda>k. k" ?kvs] obtain status t' n where
    r: "put_all (HashTable_put example_table_env (\<lambda>k. k)) ?kvs (snd ?i) = Some (status, t')"
      "status = Success \<longleftrightarrow> n = length ?kvs" "\<forall>k. HashTable_get (\<lambda>k. k) k t' = Some (map_of (rev (take n ?kvs)) k)"
    by blast
  then have "status = Success" "n = length ?kvs" using ok by auto
  then show ?thesis using r by auto
qed

subsection \<open>A full table\<close>

definition full_without :: "('k, 'v) Entry Array \<Rightarrow> 'k \<Rightarrow> bool" where
  "full_without buf key \<longleftrightarrow> ar_size buf \<noteq> 0 \<and>
     (\<forall>x < unat (ar_size buf). e_occupied (ar_elems buf ! x) \<and> e_key (ar_elems buf ! x) \<noteq> key)"

lemma probe_from_full:
  assumes "full_without buf key" "unat idx < unat (ar_size buf)"
  shows "probe_from buf key h i idx = None"
proof (cases "probe_from buf key h i idx")
  case (Some y)
  let ?P = "\<lambda>buf key h i idx y. \<not> (full_without buf key \<and> unat idx < unat (ar_size buf))"
  have "?P buf key h i idx y"
  proof (rule probe_from.raw_induct [OF _ Some, where P = ?P])
    fix p :: "('a, 'b) Entry Array \<Rightarrow> 'a \<Rightarrow> u64 \<Rightarrow> u64 \<Rightarrow> u64 \<Rightarrow> u64 option" and buf key h i idx y
    assume IH: "\<And>buf key h i idx y. p buf key h i idx = Some y \<Longrightarrow> ?P buf key h i idx y"
      and r: "(let e = Array_get buf idx in if e_occupied e \<and> e_key e \<noteq> key
            then p buf key h (i + 1) ((h + polynomial i (ar_size buf)) mod ar_size buf) else Some idx) = Some y"
    show "?P buf key h i idx y"
    proof
      assume f: "full_without buf key \<and> unat idx < unat (ar_size buf)"
      then have "p buf key h (i + 1) ((h + polynomial i (ar_size buf)) mod ar_size buf) = Some y"
        using r by (simp add: full_without_def Array_get_def Let_def)
      moreover have "unat (z mod ar_size buf) < unat (ar_size buf)" for z
        using f by (simp add: unat_mod unat_gt_0 full_without_def)
      ultimately show False using IH f by blast
    qed
  qed
  then show ?thesis using assms by blast
qed simp

lemma full_get_diverges:
  assumes "full_without (h_buffer t) key"
  shows "HashTable_get hash key t = None"
proof -
  have nz: "ar_size (h_buffer t) \<noteq> 0" using assms by (simp add: full_without_def)
  then have "unat (hashIndex hash key (ar_size (h_buffer t))) < unat (ar_size (h_buffer t))"
    by (simp add: hashIndex_def unat_mod unat_gt_0)
  from probe_from_full [OF assms this] show ?thesis using nz by (simp add: HashTable_get_def probe_def)
qed

text \<open>
  C39: with the largest load limit the constructor accepts, 1.0, eight insertions into a table of eight slots
  all succeed and fill it, and then the lookup of an absent key never returns: the probe loop finds
  neither the key nor a free slot.
\<close>

theorem HashTable_full_lookup_diverges:
  "\<exists>t. put_all (HashTable_put example_table_env (\<lambda>k. k)) [(0, 0), (1, 0), (2, 0), (3, 0), (4, 0), (5, 0), (6, 0), (7, 0)]
       (snd (HashTable_initialize example_table_env 8 anyPlace MainMem (HashTable_new_load 1))) = Some (Success, t) \<and>
     (\<forall>k. 8 \<le> k \<longrightarrow> HashTable_get (\<lambda>k. k) k t = None)"
proof -
  let ?t0 = "snd (HashTable_initialize example_table_env 8 anyPlace MainMem (HashTable_new_load 1))"
    and ?kvs = "[(0, 0), (1, 0), (2, 0), (3, 0), (4, 0), (5, 0), (6, 0), (7, 0)] :: (u64 \<times> nat) list"
  have ok: "map_option fst (put_all (HashTable_put example_table_env (\<lambda>k. k)) ?kvs ?t0) = Some Success" by code_simp
  have es: "map_option (\<lambda>r. (ar_size (h_buffer (snd r)), map (\<lambda>e. (e_occupied e, e_key e)) (ar_elems (h_buffer (snd r)))))
      (put_all (HashTable_put example_table_env (\<lambda>k. k)) ?kvs ?t0)
    = Some (8, [(True, 0), (True, 1), (True, 2), (True, 3), (True, 4), (True, 5), (True, 6), (True, 7)])" by code_simp
  from ok obtain t where t: "put_all (HashTable_put example_table_env (\<lambda>k. k)) ?kvs ?t0 = Some (Success, t)" by auto
  then have sz: "ar_size (h_buffer t) = 8" and m: "map (\<lambda>e. (e_occupied e, e_key e)) (ar_elems (h_buffer t))
      = [(True, 0), (True, 1), (True, 2), (True, 3), (True, 4), (True, 5), (True, 6), (True, 7)]" using es by simp_all
  have "list_all (\<lambda>p. fst p \<and> snd p < 8) (map (\<lambda>e. (e_occupied e, e_key e)) (ar_elems (h_buffer t)))"
    unfolding m by simp
  moreover have "length (ar_elems (h_buffer t)) = 8" using arg_cong [OF m, of length] by simp
  ultimately have "e_occupied (ar_elems (h_buffer t) ! x) \<and> e_key (ar_elems (h_buffer t) ! x) < 8" if "x < 8" for x
    using that by (simp add: list_all_iff)
  then have "full_without (h_buffer t) k" if "8 \<le> k" for k
    using that sz unfolding full_without_def by (auto dest: leD)
  then have "\<forall>k. 8 \<le> k \<longrightarrow> HashTable_get (\<lambda>k. k) k t = None" by (intro allI impI full_get_diverges)
  with t show ?thesis by (intro exI [of _ t] conjI)
qed

theorem HashTable_full_lookup_diverges_witness:
  "\<exists>t. put_all (HashTable_put example_table_env (\<lambda>k. k)) [(0, 0), (1, 0), (2, 0), (3, 0), (4, 0), (5, 0), (6, 0), (7, 0)]
       (snd (HashTable_initialize example_table_env 8 anyPlace MainMem (HashTable_new_load 1))) = Some (Success, t) \<and>
     HashTable_get (\<lambda>k. k) 8 t = None"
proof -
  from HashTable_full_lookup_diverges obtain t where
    t: "put_all (HashTable_put example_table_env (\<lambda>k. k)) [(0, 0), (1, 0), (2, 0), (3, 0), (4, 0), (5, 0), (6, 0), (7, 0)]
       (snd (HashTable_initialize example_table_env 8 anyPlace MainMem (HashTable_new_load 1))) = Some (Success, t)"
    and k: "\<forall>k. 8 \<le> k \<longrightarrow> HashTable_get (\<lambda>k. k) k t = None"
    by (elim exE conjE)
  have "HashTable_get (\<lambda>k. k) 8 t = None" by (rule mp [OF spec [OF k] order_refl])
  with t show ?thesis by (intro exI [of _ t] conjI)
qed

subsection \<open>Iteration\<close>

text \<open>
  Iterators are positions in the array of entries. The guards compare with the end position before they use
  the entry, so that the entry the code reads at the end position has no influence.
\<close>

function it_skip :: "('k, 'v) Entry list \<Rightarrow> nat \<Rightarrow> nat" where
  "it_skip es i = (if i < length es \<and> \<not> e_occupied (es ! i) then it_skip es (i + 1) else i)"
  by auto
termination by (relation "measure (\<lambda>(es, i). length es - i)") auto

declare it_skip.simps [simp del]

definition HashTable_begin :: "('k, 'v) HashTable \<Rightarrow> nat" where
  "HashTable_begin t = it_skip (ar_elems (h_buffer t)) 0"

definition HashTable_end :: "('k, 'v) HashTable \<Rightarrow> nat" where
  "HashTable_end t = length (ar_elems (h_buffer t))"

definition Iterator_inc :: "('k, 'v) HashTable \<Rightarrow> nat \<Rightarrow> nat" where
  "Iterator_inc t i = it_skip (ar_elems (h_buffer t)) (i + 1)"

fun it_back :: "('k, 'v) Entry list \<Rightarrow> nat \<Rightarrow> nat" where
  "it_back es 0 = 0"
| "it_back es (Suc i) = (if e_occupied (es ! Suc i) then Suc i else it_back es i)"

definition Iterator_dec :: "('k, 'v) HashTable \<Rightarrow> nat \<Rightarrow> nat" where
  "Iterator_dec t i = it_back (ar_elems (h_buffer t)) (i - 1)"

lemma it_skip_ge: "i \<le> it_skip es i"
proof (induction es i rule: it_skip.induct)
  case (1 es i)
  then show ?case by (subst it_skip.simps) auto
qed

text \<open>A range-based loop over the table, collecting the entries.\<close>

function iterate_from :: "('k, 'v) HashTable \<Rightarrow> nat \<Rightarrow> ('k, 'v) Entry list" where
  "iterate_from t i =
     (if i < HashTable_end t then (ar_elems (h_buffer t) ! i) # iterate_from t (Iterator_inc t i) else [])"
  by auto
termination
proof (relation "measure (\<lambda>(t, i). HashTable_end t - i)")
  fix t :: "('k, 'v) HashTable" and i
  assume "i < HashTable_end t"
  then show "((t, Iterator_inc t i), t, i) \<in> measure (\<lambda>(t, i). HashTable_end t - i)"
    using it_skip_ge [of "i + 1" "ar_elems (h_buffer t)"] by (auto simp: Iterator_inc_def HashTable_end_def)
qed simp

declare iterate_from.simps [simp del]

lemma filter_drop_skip:
  "filter e_occupied (drop (it_skip es i) es) = filter e_occupied (drop i es) \<and>
     (it_skip es i < length es \<longrightarrow> e_occupied (es ! it_skip es i))"
proof (induction es i rule: it_skip.induct)
  case (1 es i)
  show ?case
  proof (cases "i < length es \<and> \<not> e_occupied (es ! i)")
    case True
    then have "filter e_occupied (drop i es) = filter e_occupied (drop (i + 1) es)"
      using Cons_nth_drop_Suc [of i es] by (metis Suc_eq_plus1 filter.simps(2))
    then show ?thesis using True 1 by (simp add: it_skip.simps [of es i])
  next
    case False
    then show ?thesis by (subst (1 2 3) it_skip.simps) auto
  qed
qed

lemma iterate_from_filter:
  "(i < HashTable_end t \<longrightarrow> e_occupied (ar_elems (h_buffer t) ! i)) \<Longrightarrow>
     iterate_from t i = filter e_occupied (drop i (ar_elems (h_buffer t)))"
proof (induction t i rule: iterate_from.induct)
  case (1 t i)
  let ?es = "ar_elems (h_buffer t)"
  show ?case
  proof (cases "i < HashTable_end t")
    case True
    note skip = filter_drop_skip [of ?es "i + 1"]
    have "iterate_from t (Iterator_inc t i) = filter e_occupied (drop (Iterator_inc t i) ?es)"
      using 1(1) [OF True] skip by (simp add: Iterator_inc_def HashTable_end_def)
    also have "\<dots> = filter e_occupied (drop (i + 1) ?es)" using skip by (simp add: Iterator_inc_def)
    finally show ?thesis
      using True 1(2) Cons_nth_drop_Suc [of i ?es] by (simp add: iterate_from.simps [of t i] HashTable_end_def)
        (metis filter.simps(2))
  next
    case False
    then show ?thesis by (simp add: iterate_from.simps [of t i] HashTable_end_def)
  qed
qed

lemma iterate_begin: "iterate_from t (HashTable_begin t) = filter e_occupied (ar_elems (h_buffer t))"
  using iterate_from_filter [of "HashTable_begin t" t] filter_drop_skip [of "ar_elems (h_buffer t)" 0]
  by (simp add: HashTable_begin_def HashTable_end_def)

text \<open>
  C38: iterating over a table from \<^verbatim>\<open>begin\<close> to \<^verbatim>\<open>end\<close> ends, after initialization and any number of
  \<^verbatim>\<open>put\<close> calls, and visits as many entries as \<^verbatim>\<open>size\<close> reports, no key twice, and exactly the associations that
  \<^verbatim>\<open>get\<close> returns.
\<close>

theorem HashTable_iterates_map:
  assumes "HashTable_initialize env cap place mt HashTable_new = (Success, t0)" "env_ok env" "entries_bounded env"
    and "put_all (HashTable_put env hash) kvs t0 = Some (status, t)"
  shows "length (iterate_from t (HashTable_begin t)) = unat (h_size t) \<and>
    distinct (map e_key (iterate_from t (HashTable_begin t))) \<and>
    (\<forall>k v. HashTable_get hash k t = Some (Some v) \<longleftrightarrow>
       (\<exists>e \<in> set (iterate_from t (HashTable_begin t)). e_key e = k \<and> e_value e = v))"
proof -
  have ok: "table_ok hash t"
    using ht.put_all_amap [of hash t0 env kvs] initialize_ok(1) [OF assms(1-3)] assms(2-4) by auto
  have d: "distinct (map e_key (filter e_occupied (ar_elems (h_buffer t))))"
    using ok distinct_keys Array_ok_empty [of "h_buffer t"] by (auto simp: table_ok_def)
  then have "distinct (map fst (map (\<lambda>e. (e_key e, e_value e)) (filter e_occupied (ar_elems (h_buffer t)))))"
    by (simp add: comp_def)
  from map_of_eq_Some_iff [OF this] have
    "table_map t k = Some v \<longleftrightarrow> (\<exists>e \<in> set (filter e_occupied (ar_elems (h_buffer t))). e_key e = k \<and> e_value e = v)" for k v
    unfolding ht_map_def by auto
  moreover have "length (filter e_occupied (ar_elems (h_buffer t))) = unat (h_size t)"
    using ok by (simp add: table_ok_def load_def)
  ultimately show ?thesis using d get_spec [OF ok] unfolding iterate_begin by simp
qed

theorem HashTable_iterates_map_witness:
  "\<exists>t. put_all (HashTable_put example_table_env (\<lambda>k. k)) [(1, 10), (9, 20), (1, 30)]
       (snd (HashTable_initialize example_table_env 5 anyPlace MainMem HashTable_new)) = Some (Success, t) \<and>
     length (iterate_from t (HashTable_begin t)) = unat (h_size t) \<and>
     distinct (map e_key (iterate_from t (HashTable_begin t)))"
proof -
  let ?i = "HashTable_initialize example_table_env 5 anyPlace MainMem HashTable_new"
    and ?kvs = "[(1, 10), (9, 20), (1, 30)] :: (u64 \<times> nat) list"
  have "fst ?i = Success" by code_simp
  then have i: "?i = (Success, snd ?i)" by (metis prod.collapse)
  have ok: "map_option fst (put_all (HashTable_put example_table_env (\<lambda>k. k)) ?kvs (snd ?i)) = Some Success" by code_simp
  then obtain t where t: "put_all (HashTable_put example_table_env (\<lambda>k. k)) ?kvs (snd ?i) = Some (Success, t)" by auto
  from HashTable_iterates_map [OF i example_table_env_ok t] t show ?thesis by (intro exI [of _ t]) simp
qed

end
