(* ===== verification/Merge_Sort.thy ===== *)
theory Merge_Sort
  imports Rt_Vector "HOL-Library.Multiset"
begin

text \<open>
  The iterative merge sort of \<^verbatim>\<open>pando-lib-galois/sorts/merge_sort.hpp\<close>. A vector is the list of its elements,
  read and written by index. Positions keep their machine width: \<^verbatim>\<open>merge\<close> compares signed 64-bit positions,
  \<^verbatim>\<open>merge_sort_n\<close> unsigned ones. All loops are partial functions, shown to return for up to \<open>2 ^ 61\<close> elements.
\<close>

subsection \<open>The code\<close>

partial_function (option) merge_both ::
  "('a \<Rightarrow> 'a \<Rightarrow> bool) \<Rightarrow> 'a list \<Rightarrow> 'a list \<Rightarrow> i64 \<Rightarrow> i64 \<Rightarrow> i64 \<Rightarrow> i64 \<Rightarrow> u64
     \<Rightarrow> ('a list \<times> i64 \<times> i64 \<times> u64) option" where
  "merge_both cmp arr temp l1 r1 l2 r2 index =
     (if sint l1 \<le> sint r1 \<and> sint l2 \<le> sint r2 then
        if \<not> cmp (arr ! unat l1) (arr ! unat l2)
        then merge_both cmp arr (temp[unat index := arr ! unat l1]) (l1 + 1) r1 l2 r2 (index + 1)
        else merge_both cmp arr (temp[unat index := arr ! unat l2]) l1 r1 (l2 + 1) r2 (index + 1)
      else Some (temp, l1, l2, index))"

partial_function (option) copy_rest ::
  "'a list \<Rightarrow> 'a list \<Rightarrow> i64 \<Rightarrow> i64 \<Rightarrow> u64 \<Rightarrow> ('a list \<times> u64) option" where
  "copy_rest arr temp l r index =
     (if sint l \<le> sint r then copy_rest arr (temp[unat index := arr ! unat l]) (l + 1) r (index + 1)
      else Some (temp, index))"

definition merge_from ::
  "('a \<Rightarrow> 'a \<Rightarrow> bool) \<Rightarrow> 'a list \<Rightarrow> 'a list \<Rightarrow> i64 \<Rightarrow> i64 \<Rightarrow> i64 \<Rightarrow> i64 \<Rightarrow> u64 \<Rightarrow> 'a list option" where
  "merge_from cmp arr temp l1 r1 l2 r2 index =
     (case merge_both cmp arr temp l1 r1 l2 r2 index of
        None \<Rightarrow> None
      | Some (temp1, l1', l2', index1) \<Rightarrow>
          (case copy_rest arr temp1 l1' r1 index1 of
             None \<Rightarrow> None
           | Some (temp2, index2) \<Rightarrow>
               (case copy_rest arr temp2 l2' r2 index2 of
                  None \<Rightarrow> None
                | Some (temp3, _) \<Rightarrow> Some temp3)))"

definition galois_merge ::
  "('a \<Rightarrow> 'a \<Rightarrow> bool) \<Rightarrow> 'a list \<Rightarrow> 'a list \<Rightarrow> i64 \<Rightarrow> i64 \<Rightarrow> i64 \<Rightarrow> i64 \<Rightarrow> 'a list option" where
  "galois_merge cmp arr temp l1 r1 l2 r2 = merge_from cmp arr temp l1 r1 l2 r2 l1"

partial_function (option) copy_back :: "'a list \<Rightarrow> u64 \<Rightarrow> u64 \<Rightarrow> 'a list \<Rightarrow> 'a list option" where
  "copy_back temp j r2 arr =
     (if j \<le> r2 then copy_back temp (j + 1) r2 (arr[unat j := temp ! unat j]) else Some arr)"

partial_function (option) merge_pass ::
  "('a \<Rightarrow> 'a \<Rightarrow> bool) \<Rightarrow> u64 \<Rightarrow> u64 \<Rightarrow> u64 \<Rightarrow> 'a list \<Rightarrow> 'a list \<Rightarrow> ('a list \<times> 'a list) option" where
  "merge_pass cmp n len i temp arr =
     (if i < n then
        let l1 = i; r1 = i + len - 1; l2 = i + len; r2 = min (n - 1) (i + 2 * len - 1) in
        if l2 > n then Some (temp, arr)
        else
          (case galois_merge cmp arr temp l1 r1 l2 r2 of
             None \<Rightarrow> None
           | Some temp1 \<Rightarrow>
               (case copy_back temp1 l1 r2 arr of
                  None \<Rightarrow> None
                | Some arr1 \<Rightarrow> merge_pass cmp n len (i + 2 * len) temp1 arr1))
      else Some (temp, arr))"

partial_function (option) merge_passes ::
  "('a \<Rightarrow> 'a \<Rightarrow> bool) \<Rightarrow> u64 \<Rightarrow> u64 \<Rightarrow> 'a list \<Rightarrow> 'a list \<Rightarrow> 'a list option" where
  "merge_passes cmp n len temp arr =
     (if len < n then
        (case merge_pass cmp n len 0 temp arr of
           None \<Rightarrow> None
         | Some (temp1, arr1) \<Rightarrow> merge_passes cmp n (len * 2) temp1 arr1)
      else Some arr)"

text \<open>\<^verbatim>\<open>PANDO_CHECK\<close> ends the program with the status of a failed allocation of the temporary vector.\<close>

definition merge_sort_n ::
  "'a :: zero alloc_env \<Rightarrow> 'a list \<Rightarrow> ('a \<Rightarrow> 'a \<Rightarrow> bool) \<Rightarrow> u64 \<Rightarrow> (Status + 'a list) option" where
  "merge_sort_n env arr cmp n =
     (let (status, temp) = Vector_initialize env n (getCurrentPlace env) MainMem Vector_empty in
      if status \<noteq> Success then Some (Inl status)
      else map_option Inr (merge_passes cmp n 1 (contents temp) arr))"

definition merge_sort ::
  "'a :: zero alloc_env \<Rightarrow> 'a list \<Rightarrow> ('a \<Rightarrow> 'a \<Rightarrow> bool) \<Rightarrow> (Status + 'a list) option" where
  "merge_sort env arr cmp = merge_sort_n env arr cmp (word_of_nat (length arr))"

subsection \<open>The functional merge\<close>

fun merge_lists :: "('a \<Rightarrow> 'a \<Rightarrow> bool) \<Rightarrow> 'a list \<Rightarrow> 'a list \<Rightarrow> 'a list" where
  "merge_lists cmp (x # xs) (y # ys) =
     (if \<not> cmp x y then x # merge_lists cmp xs (y # ys) else y # merge_lists cmp (x # xs) ys)"
| "merge_lists cmp [] ys = ys"
| "merge_lists cmp xs [] = xs"

lemma merge_lists_Nil [simp]: "merge_lists cmp xs [] = xs"
  by (cases xs) auto

lemma mset_merge_lists [simp]: "mset (merge_lists cmp xs ys) = mset xs + mset ys"
  by (induction cmp xs ys rule: merge_lists.induct) auto

lemma set_merge_lists [simp]: "set (merge_lists cmp xs ys) = set xs \<union> set ys"
  by (metis mset_merge_lists set_mset_mset set_mset_union)

lemma length_merge_lists [simp]: "length (merge_lists cmp xs ys) = length xs + length ys"
  by (metis mset_merge_lists size_mset size_union)

text \<open>\<open>cmp x y\<close> says that \<open>y\<close> belongs strictly before \<open>x\<close>.\<close>

definition before :: "('a \<Rightarrow> 'a \<Rightarrow> bool) \<Rightarrow> 'a \<Rightarrow> 'a \<Rightarrow> bool" where
  "before cmp x y \<longleftrightarrow> \<not> cmp x y"

definition weak_order :: "('a \<Rightarrow> 'a \<Rightarrow> bool) \<Rightarrow> bool" where
  "weak_order cmp \<longleftrightarrow> (\<forall>x y. cmp x y \<longrightarrow> \<not> cmp y x) \<and> (\<forall>x y z. \<not> cmp x y \<and> \<not> cmp y z \<longrightarrow> \<not> cmp x z)"

lemma sorted_merge_lists:
  assumes "weak_order cmp"
  shows "sorted_wrt (before cmp) xs \<Longrightarrow> sorted_wrt (before cmp) ys \<Longrightarrow>
    sorted_wrt (before cmp) (merge_lists cmp xs ys)"
  using assms
proof (induction cmp xs ys rule: merge_lists.induct)
  case (1 cmp x xs y ys)
  have tr: "\<not> cmp a c" if "\<not> cmp a b" "\<not> cmp b c" for a b c using 1(5) that unfolding weak_order_def by blast
  have as: "\<not> cmp b a" if "cmp a b" for a b using 1(5) that unfolding weak_order_def by blast
  show ?case using 1 by (auto simp: before_def dest: tr as)
qed auto

subsection \<open>The loops of merge\<close>

lemma sint_small:
  assumes "unat (w :: i64) < 2 ^ 63"
  shows "sint w = int (unat w)"
proof -
  have "sint (word_of_int (int (unat w)) :: i64) = int (unat w)"
    by (rule sint_of_int_i64 [OF order_trans [OF _ of_nat_0_le_iff] int_less_power [OF assms]]) simp
  then show ?thesis by simp
qed

text \<open>\<open>pos l a\<close>: the position \<open>l\<close> stands for the index \<open>a\<close>, far from the end of its range.\<close>

definition pos :: "u64 \<Rightarrow> nat \<Rightarrow> bool" where
  "pos l a \<longleftrightarrow> unat l = a \<and> a < 2 ^ 62"

lemma pos_step: "pos l a \<Longrightarrow> a < 2 ^ 62 - 1 \<Longrightarrow> pos (l + 1) (Suc a)"
  using unat_add_no_wrap [of l 1] by (simp add: pos_def)

lemma pos_sint: "pos l a \<Longrightarrow> sint l = int a"
  using sint_small [of l] by (simp add: pos_def)

lemma copy_rest_spec:
  assumes "pos l a" "pos index k" "sint r = int b - 1" "b \<le> length arr" "k + (b - a) \<le> length temp"
    and "length arr < 2 ^ 62" "length temp < 2 ^ 62"
  shows "\<exists>j. copy_rest arr temp l r index = Some (overwrite temp k (segment a b arr), j) \<and> pos j (k + (b - a))"
  using assms
proof (induction "b - a" arbitrary: l index a k temp)
  case 0
  then show ?case
    using pos_sint [OF 0(2)] by (subst copy_rest.simps) auto
next
  case (Suc m)
  then have ab: "a < b" by simp
  have steps: "pos (l + 1) (Suc a)" "pos (index + 1) (Suc k)"
    using Suc.prems ab by (auto intro!: pos_step)
  have "\<exists>j. copy_rest arr (temp[k := arr ! a]) (l + 1) r (index + 1)
      = Some (overwrite (temp[k := arr ! a]) (Suc k) (segment (Suc a) b arr), j) \<and> pos j (Suc k + (b - Suc a))"
    by (rule Suc.hyps(1)) (use Suc steps ab in simp_all)
  moreover have "overwrite (temp[k := arr ! a]) (Suc k) (segment (Suc a) b arr) = overwrite temp k (segment a b arr)"
    using Suc.prems ab by (simp add: overwrite_update segment_Cons)
  moreover have "copy_rest arr temp l r index = copy_rest arr (temp[k := arr ! a]) (l + 1) r (index + 1)"
    using Suc.prems ab pos_sint [OF Suc.prems(1)] by (subst copy_rest.simps) (simp add: pos_def)
  ultimately show ?case using ab by (simp add: Suc_diff_Suc)
qed

lemma merge_from_step:
  assumes "sint l1 \<le> sint r1" "sint l2 \<le> sint r2"
  shows "merge_from cmp arr temp l1 r1 l2 r2 index =
    (if \<not> cmp (arr ! unat l1) (arr ! unat l2)
     then merge_from cmp arr (temp[unat index := arr ! unat l1]) (l1 + 1) r1 l2 r2 (index + 1)
     else merge_from cmp arr (temp[unat index := arr ! unat l2]) l1 r1 (l2 + 1) r2 (index + 1))"
  unfolding merge_from_def using assms by (subst merge_both.simps) simp

lemma merge_from_spec:
  assumes "pos l1 a" "pos l2 c" "pos index k" "sint r1 = int b - 1" "sint r2 = int d - 1"
    and "b \<le> length arr" "d \<le> length arr" "k + (b - a) + (d - c) \<le> length temp"
    and "length arr < 2 ^ 62" "length temp < 2 ^ 62"
  shows "merge_from cmp arr temp l1 r1 l2 r2 index =
    Some (overwrite temp k (merge_lists cmp (segment a b arr) (segment c d arr)))"
  using assms
proof (induction "(b - a) + (d - c)" arbitrary: l1 l2 index a c k temp rule: less_induct)
  case less
  show ?case
  proof (cases "a < b \<and> c < d")
    case True
    have sl: "segment a b arr = arr ! a # segment (Suc a) b arr" "segment c d arr = arr ! c # segment (Suc c) d arr"
      using True less.prems by (simp_all add: segment_Cons)
    have u: "unat l1 = a" "unat l2 = c" "unat index = k" using less.prems by (simp_all add: pos_def)
    have cond: "sint l1 \<le> sint r1" "sint l2 \<le> sint r2"
      using True less.prems pos_sint [OF less.prems(1)] pos_sint [OF less.prems(2)] by simp_all
    have p: "pos (l1 + 1) (Suc a)" "pos (l2 + 1) (Suc c)" "pos (index + 1) (Suc k)"
      using True less.prems by (auto intro!: pos_step)
    have "0 < b - a" using True by simp
    then have "k < k + (b - a) + (d - c)" by arith
    then have k: "k < length temp" using less.prems(8) by (rule order.strict_trans2)
    have left: "merge_from cmp arr (temp[k := arr ! a]) (l1 + 1) r1 l2 r2 (index + 1)
        = Some (overwrite (temp[k := arr ! a]) (Suc k) (merge_lists cmp (segment (Suc a) b arr) (segment c d arr)))"
      by (rule less.hyps) (use True less.prems p in auto)
    have right: "merge_from cmp arr (temp[k := arr ! c]) l1 r1 (l2 + 1) r2 (index + 1)
        = Some (overwrite (temp[k := arr ! c]) (Suc k) (merge_lists cmp (segment a b arr) (segment (Suc c) d arr)))"
      by (rule less.hyps) (use True less.prems p in auto)
    show ?thesis
      unfolding merge_from_step [OF cond] u left right overwrite_update [OF k] sl by simp
  next
    case False
    then have stop: "\<not> (sint l1 \<le> sint r1 \<and> sint l2 \<le> sint r2)"
      using less.prems pos_sint [OF less.prems(1)] pos_sint [OF less.prems(2)] by auto
    have both: "merge_both cmp arr temp l1 r1 l2 r2 index = Some (temp, l1, l2, index)"
      by (subst merge_both.simps) (rule if_not_P [OF stop])
    have "k + (b - a) \<le> length temp" using less.prems by simp
    from copy_rest_spec [OF less.prems(1,3,4,6) this less.prems(9,10)] obtain j where
      j: "copy_rest arr temp l1 r1 index = Some (overwrite temp k (segment a b arr), j)" "pos j (k + (b - a))" by blast
    have len: "length (overwrite temp k (segment a b arr)) = length temp"
      using less.prems by simp
    from copy_rest_spec [OF less.prems(2) j(2) less.prems(5,7), of "overwrite temp k (segment a b arr)"] less.prems len obtain j2
      where j2: "copy_rest arr (overwrite temp k (segment a b arr)) l2 r2 j
        = Some (overwrite (overwrite temp k (segment a b arr)) (k + (b - a)) (segment c d arr), j2)" by auto
    have "overwrite (overwrite temp k (segment a b arr)) (k + (b - a)) (segment c d arr)
        = overwrite temp k (merge_lists cmp (segment a b arr) (segment c d arr))"
      using False by (cases "a < b") simp_all
    then show ?thesis using both j(1) j2 by (simp add: merge_from_def)
  qed
qed

text \<open>A merge of the adjacent runs \<open>[a, b)\<close> and \<open>[b, d)\<close>, copied back.\<close>

lemma copy_back_spec:
  assumes "pos j a" "unat r2 = d - 1" "0 < d" "d \<le> length arr" "d \<le> length temp" "length temp < 2 ^ 62"
  shows "copy_back temp j r2 arr = Some (overwrite arr a (segment a d temp))"
  using assms
proof (induction "d - a" arbitrary: j a arr)
  case 0
  then have "\<not> j \<le> r2" "segment a d temp = []" by (simp_all add: pos_def word_le_nat_alt)
  then show ?case by (subst copy_back.simps) simp
next
  case (Suc m)
  then have ad: "a < d" by simp
  have "copy_back temp (j + 1) r2 (arr[a := temp ! a]) = Some (overwrite (arr[a := temp ! a]) (Suc a) (segment (Suc a) d temp))"
    by (rule Suc.hyps(1)) (use Suc ad pos_step [OF Suc.prems(1)] in simp_all)
  moreover have "j \<le> r2" "unat j = a" using Suc.prems ad by (auto simp: pos_def word_le_nat_alt)
  then have "copy_back temp j r2 arr = copy_back temp (j + 1) r2 (arr[a := temp ! a])"
    by (subst copy_back.simps) simp
  ultimately show ?case using Suc.prems ad by (simp add: overwrite_update segment_Cons)
qed

lemma segment_overwrite:
  "a + length xs \<le> length temp \<Longrightarrow> segment a (a + length xs) (overwrite temp a xs) = xs"
  by (simp add: segment_def overwrite_def)

text \<open>One pass over a list, merging neighbouring runs of length \<open>len\<close>.\<close>

function pass_list :: "('a \<Rightarrow> 'a \<Rightarrow> bool) \<Rightarrow> nat \<Rightarrow> 'a list \<Rightarrow> 'a list" where
  "pass_list cmp len xs =
     (if len = 0 \<or> length xs \<le> len then xs
      else merge_lists cmp (take len xs) (take len (drop len xs)) @ pass_list cmp len (drop (2 * len) xs))"
  by auto
termination by (relation "measure (\<lambda>(cmp, len, xs). length xs)") auto

declare pass_list.simps [simp del]

lemma length_pass_list [simp]: "length (pass_list cmp len xs) = length xs"
proof (induction cmp len xs rule: pass_list.induct)
  case (1 cmp len xs)
  then show ?case by (subst pass_list.simps) (auto simp: min_def)
qed

lemma mset_pass_list [simp]: "mset (pass_list cmp len xs) = mset xs"
proof (induction cmp len xs rule: pass_list.induct)
  case (1 cmp len xs)
  have "mset xs = mset (take len xs) + mset (take len (drop len xs)) + mset (drop (2 * len) xs)"
    by (metis append_take_drop_id drop_drop mset_append mult_2 union_assoc)
  then show ?case using 1 by (subst pass_list.simps) auto
qed

lemma pass_list_segment:
  assumes "0 < m" "a + m \<le> k" "k \<le> length arr"
  shows "pass_list cmp m (segment a k arr) =
    merge_lists cmp (segment a (a + m) arr) (segment (a + m) (min k (a + 2 * m)) arr) @ pass_list cmp m (segment (a + 2 * m) k arr)"
proof (cases "a + m = k")
  case True
  have "pass_list cmp m [] = []" by (simp add: pass_list.simps)
  then show ?thesis using True assms by (subst pass_list.simps) simp
next
  case False
  have "min m (k - (a + m)) = min k (a + 2 * m) - (a + m)" by arith
  then have "take m (drop m (segment a k arr)) = segment (a + m) (min k (a + 2 * m)) arr"
    by (simp add: segment_def drop_take add.commute)
  moreover have "take m (segment a k arr) = segment a (a + m) arr" "drop (2 * m) (segment a k arr) = segment (a + 2 * m) k arr"
    using assms by (simp_all add: segment_def drop_take add.commute add.left_commute min_def)
  ultimately have "take m (segment a k arr) = segment a (a + m) arr" "drop (2 * m) (segment a k arr) = segment (a + 2 * m) k arr"
    "take m (drop m (segment a k arr)) = segment (a + m) (min k (a + 2 * m)) arr" by simp_all
  moreover have "\<not> k - a \<le> m" using False assms by arith
  ultimately show ?thesis using assms by (subst pass_list.simps) simp
qed

lemma overwrite_pieces:
  assumes "a + length xs \<le> length arr"
  shows "take (a + length xs) (overwrite arr a xs) = take a arr @ xs"
    and "a + length xs \<le> b \<Longrightarrow> drop b (overwrite arr a xs) = drop b arr"
    and "a + length xs \<le> b \<Longrightarrow> segment b c (overwrite arr a xs) = segment b c arr"
proof -
  show "take (a + length xs) (overwrite arr a xs) = take a arr @ xs" using assms by (simp add: overwrite_def)
  show d: "drop b (overwrite arr a xs) = drop b arr" if "a + length xs \<le> b" for b
    using assms that by (simp add: overwrite_def)
  show "segment b c (overwrite arr a xs) = segment b c arr" if "a + length xs \<le> b" for b c
    using d [OF that] by (simp add: segment_def)
qed

lemma pos_add: "pos l a \<Longrightarrow> unat w = m \<Longrightarrow> a + m < 2 ^ 62 \<Longrightarrow> pos (l + w) (a + m)"
  using unat_add_no_wrap [of l w] by (simp add: pos_def)

lemma pos_pred: "pos l a \<Longrightarrow> 0 < a \<Longrightarrow> unat (l - 1) = a - 1 \<and> sint (l - 1) = int a - 1"
proof -
  assume l: "pos l a" and a: "0 < a"
  have "l \<noteq> 0" using l a by (auto simp: pos_def)
  then have "unat (l - 1) = a - 1" using unat_minus_one_u64 [of l] l by (simp add: pos_def)
  moreover have "a - 1 < 2 ^ 63" using l unfolding pos_def by (intro order.strict_trans1 [of "a - 1" a "2 ^ 63"]) auto
  ultimately have "unat (l - 1) = a - 1" "sint (l - 1) = int (a - 1)" using sint_small [of "l - 1"] by simp_all
  then show ?thesis using a by (simp add: of_nat_diff)
qed

lemma merge_pass_spec:
  assumes "pos i a" "unat len = m" "0 < m" "pos n k" "k \<le> length arr" "length temp = k"
    and "length arr < 2 ^ 60" "m < 2 ^ 60" "a < k + 2 * m"
  shows "\<exists>temp'. length temp' = k \<and> merge_pass cmp n len i temp arr =
    Some (temp', take (min a k) arr @ pass_list cmp m (segment a k arr) @ drop k arr)"
  using assms
proof (induction "k - a" arbitrary: i a arr temp rule: less_induct)
  case less
  have u: "unat i = a" "unat n = k" using less.prems by (simp_all add: pos_def)
  have Nil: "pass_list cmp m [] = []" by (simp add: pass_list.simps)
  consider (stop) "k \<le> a" | (break) "a < k" "k < a + m" | (merge) "a < k" "a + m \<le> k" by linarith
  then show ?case
  proof cases
    case stop
    then have "\<not> i < n" using u by (simp add: word_less_nat_alt)
    then show ?thesis using stop less.prems Nil by (subst merge_pass.simps) simp
  next
    case break
    have "pos (i + len) (a + m)" using less.prems break by (intro pos_add) simp_all
    then have "i < n" "n < i + len" using u break by (simp_all add: word_less_nat_alt pos_def)
    moreover have "pass_list cmp m (segment a k arr) = segment a k arr" using break less.prems by (subst pass_list.simps) (simp add: Nil)
    moreover have "take a arr @ segment a k arr @ drop k arr = arr"
      using break by (simp add: segment_def) (metis append_assoc append_take_drop_id le_add_diff_inverse less_imp_le take_add)
    ultimately show ?thesis using break less.prems by (subst merge_pass.simps) (simp add: Let_def)
  next
    case merge
    let ?d = "min k (a + 2 * m)"
    have l2: "pos (i + len) (a + m)" using less.prems merge by (intro pos_add) simp_all
    have "unat (2 * len) = 2 * m" using less.prems unat_mult_no_wrap [of 2 len] by simp
    then have i2: "pos (i + 2 * len) (a + 2 * m)" using less.prems merge by (intro pos_add) simp_all
    have cond: "i < n" "\<not> n < i + len" using u merge l2 by (simp_all add: word_less_nat_alt pos_def)
    have r1: "sint (i + len - 1) = int (a + m) - 1" using pos_pred [OF l2] less.prems by simp
    have "unat (min (n - 1) (i + 2 * len - 1)) = ?d - 1 \<and> sint (min (n - 1) (i + 2 * len - 1)) = int ?d - 1"
      using pos_pred [OF i2] pos_pred [OF less.prems(4)] less.prems merge by (auto simp: min_def word_le_nat_alt)
    then have r2: "unat (min (n - 1) (i + 2 * len - 1)) = ?d - 1" "sint (min (n - 1) (i + 2 * len - 1)) = int ?d - 1" by simp_all
    let ?M = "merge_lists cmp (segment a (a + m) arr) (segment (a + m) ?d arr)"
    have M: "a + length ?M = ?d" using merge less.prems by simp
    let ?temp = "overwrite temp a ?M" and ?arr = "overwrite arr a ?M"
    have g: "galois_merge cmp arr temp i (i + len - 1) (i + len) (min (n - 1) (i + 2 * len - 1)) = Some ?temp"
      unfolding galois_merge_def
      by (rule merge_from_spec [OF less.prems(1) l2 less.prems(1) r1 r2(2)]) (use merge less.prems in auto)
    have sl: "segment a ?d ?temp = ?M" using segment_overwrite [of a ?M temp] M less.prems by simp
    have c: "copy_back ?temp i (min (n - 1) (i + 2 * len - 1)) arr = Some ?arr"
      using copy_back_spec [OF less.prems(1) r2(1), of arr ?temp] sl M merge less.prems by simp
    have "\<exists>temp'. length temp' = k \<and> merge_pass cmp n len (i + 2 * len) ?temp ?arr =
        Some (temp', take (min (a + 2 * m) k) ?arr @ pass_list cmp m (segment (a + 2 * m) k ?arr) @ drop k ?arr)"
      by (rule less.hyps) (use merge less.prems i2 M in simp_all)
    moreover have "take (min (a + 2 * m) k) ?arr @ pass_list cmp m (segment (a + 2 * m) k ?arr) @ drop k ?arr
        = take (min a k) arr @ pass_list cmp m (segment a k arr) @ drop k arr"
    proof -
      have le: "a + length ?M \<le> length arr" using M less.prems by simp
      have "take (min (a + 2 * m) k) ?arr = take a arr @ ?M"
        using overwrite_pieces(1) [OF le] M by (simp add: min.commute)
      moreover have "segment (a + 2 * m) k ?arr = segment (a + 2 * m) k arr" "drop k ?arr = drop k arr"
        using overwrite_pieces(2,3) [OF le] M by simp_all
      ultimately show ?thesis using pass_list_segment [of m a k arr cmp] less.prems merge by simp
    qed
    moreover have "merge_pass cmp n len i temp arr = merge_pass cmp n len (i + 2 * len) ?temp ?arr"
      using cond g c by (subst merge_pass.simps) (simp add: Let_def)
    ultimately show ?thesis by simp
  qed
qed

subsection \<open>Sortedness\<close>

text \<open>Every aligned run of length \<open>len\<close> is sorted.\<close>

definition runs_sorted :: "('a \<Rightarrow> 'a \<Rightarrow> bool) \<Rightarrow> nat \<Rightarrow> 'a list \<Rightarrow> bool" where
  "runs_sorted cmp len xs \<longleftrightarrow> (\<forall>j. sorted_wrt (before cmp) (take len (drop (j * len) xs)))"

lemma runs_sorted_drop:
  assumes "runs_sorted cmp m xs"
  shows "runs_sorted cmp m (drop (i * m) xs)"
  unfolding runs_sorted_def
proof
  fix j
  have "drop (j * m) (drop (i * m) xs) = drop ((j + i) * m) xs" by (simp add: add_mult_distrib)
  then show "sorted_wrt (before cmp) (take m (drop (j * m) (drop (i * m) xs)))"
    using assms unfolding runs_sorted_def by simp
qed

lemma runs_sorted_append:
  assumes "sorted_wrt (before cmp) ys" "runs_sorted cmp m zs" "length ys = m \<or> length ys \<le> m \<and> zs = []" "0 < m"
  shows "runs_sorted cmp m (ys @ zs)"
  unfolding runs_sorted_def
proof
  fix j
  show "sorted_wrt (before cmp) (take m (drop (j * m) (ys @ zs)))"
  proof (cases j)
    case 0
    then show ?thesis using assms by (auto simp: sorted_wrt_take)
  next
    case (Suc i)
    then have "m \<le> j * m" by simp
    then have "length ys \<le> j * m" using assms(3) by (auto intro: order_trans)
    then have "drop (j * m) (ys @ zs) = drop (j * m - length ys) zs" by simp
    moreover have "j * m - m = i * m" using Suc by simp
    ultimately have "drop (j * m) (ys @ zs) = drop (i * m) zs" using assms(3) by auto
    then show ?thesis using assms(2) unfolding runs_sorted_def by simp
  qed
qed

lemma pass_list_sorted:
  assumes "weak_order cmp" "0 < len"
  shows "runs_sorted cmp len xs \<Longrightarrow> runs_sorted cmp (2 * len) (pass_list cmp len xs)"
  using assms
proof (induction cmp len xs rule: pass_list.induct)
  case (1 cmp len xs)
  have first: "sorted_wrt (before cmp) (take len xs)" using 1(2) unfolding runs_sorted_def by (metis drop0 mult_0)
  show ?case
  proof (cases "length xs \<le> len")
    case True
    have "runs_sorted cmp (2 * len) []" by (simp add: runs_sorted_def)
    from runs_sorted_append [OF first this] True 1(4) show ?thesis by (subst pass_list.simps) simp
  next
    case False
    have second: "sorted_wrt (before cmp) (take len (drop len xs))" using 1(2) unfolding runs_sorted_def by (metis mult_1)
    have "runs_sorted cmp len (drop (2 * len) xs)" by (rule runs_sorted_drop [OF 1(2)])
    with 1(1) False 1(3,4) have rest: "runs_sorted cmp (2 * len) (pass_list cmp len (drop (2 * len) xs))" by simp
    have "runs_sorted cmp (2 * len) (merge_lists cmp (take len xs) (take len (drop len xs)) @ pass_list cmp len (drop (2 * len) xs))"
    proof (rule runs_sorted_append [OF sorted_merge_lists [OF 1(3) first second] rest])
      show "length (merge_lists cmp (take len xs) (take len (drop len xs))) = 2 * len \<or>
        length (merge_lists cmp (take len xs) (take len (drop len xs))) \<le> 2 * len \<and> pass_list cmp len (drop (2 * len) xs) = []"
        using False by (auto simp: min_def pass_list.simps)
    qed (use 1(4) in simp)
    then show ?thesis using False 1(4) by (subst pass_list.simps) simp
  qed
qed

lemma merge_passes_spec:
  assumes "weak_order cmp" "unat len = m" "0 < m" "pos n k" "k \<le> length arr" "length temp = k" "length arr < 2 ^ 60"
    and "runs_sorted cmp m (take k arr)" "m < 2 ^ 61"
  shows "\<exists>ys. merge_passes cmp n len temp arr = Some (ys @ drop k arr) \<and> mset ys = mset (take k arr) \<and>
    sorted_wrt (before cmp) ys"
  using assms
proof (induction "k - m" arbitrary: len m arr temp rule: less_induct)
  case less
  have n: "unat n = k" using less.prems by (simp add: pos_def)
  show ?case
  proof (cases "m < k")
    case False
    then have "\<not> len < n" using less.prems n by (simp add: word_less_nat_alt)
    moreover have "sorted_wrt (before cmp) (take k arr)"
      using less.prems(8) False unfolding runs_sorted_def by (metis drop0 mult_0 nat_le_linear not_less take_all_iff take_take min.absorb2)
    ultimately show ?thesis by (intro exI [of _ "take k arr"]) (subst merge_passes.simps, simp)
  next
    case True
    have "m < 2 ^ 60" using True less.prems by simp
    from merge_pass_spec [of 0 0 len m n k arr temp cmp] less.prems True this obtain temp' where
      t: "length temp' = k" "merge_pass cmp n len 0 temp arr = Some (temp', pass_list cmp m (take k arr) @ drop k arr)"
      by (auto simp: pos_def segment_def)
    let ?arr = "pass_list cmp m (take k arr) @ drop k arr"
    have len: "length ?arr = length arr" "take k ?arr = pass_list cmp m (take k arr)" "drop k ?arr = drop k arr"
      using less.prems(5) by simp_all
    have l2: "unat (len * 2) = 2 * m" using less.prems unat_mult_no_wrap [of len 2] \<open>m < 2 ^ 60\<close> by simp
    have "\<exists>ys. merge_passes cmp n (len * 2) temp' ?arr = Some (ys @ drop k ?arr) \<and> mset ys = mset (take k ?arr) \<and>
        sorted_wrt (before cmp) ys"
    proof (rule less.hyps)
      show "runs_sorted cmp (2 * m) (take k ?arr)"
        unfolding len(2) by (rule pass_list_sorted [OF less.prems(1,3,8)])
    qed (use True less.prems t(1) l2 len(1) \<open>m < 2 ^ 60\<close> in simp_all)
    moreover have "merge_passes cmp n len temp arr = merge_passes cmp n (len * 2) temp' ?arr"
      using True less.prems n t(2) by (subst merge_passes.simps) (simp add: word_less_nat_alt)
    ultimately show ?thesis unfolding len(2,3) by simp
  qed
qed

lemma runs_sorted_1: "runs_sorted cmp 1 xs"
proof -
  have "sorted_wrt (before cmp) (take 1 ys)" for ys :: "'a list" by (cases ys) simp_all
  then show ?thesis by (simp add: runs_sorted_def)
qed

text \<open>
  C13: merge sort sorts. For a comparator that is a strict weak order, when the temporary vector can be
  allocated, \<^verbatim>\<open>merge_sort_n\<close> returns, the first \<open>n\<close> elements are a permutation of the old ones in which no
  element is followed by one that belongs before it, and all later elements are unchanged. When the allocation
  fails, it ends with that status.
\<close>

theorem merge_sort_n_sorts:
  assumes "weak_order cmp" "env_ok env" "unat n \<le> length arr" "length arr < 2 ^ 60"
  shows "case fst (Vector_initialize env n (getCurrentPlace env) MainMem Vector_empty) of
      Success \<Rightarrow> \<exists>ys. merge_sort_n env arr cmp n = Some (Inr (ys @ drop (unat n) arr)) \<and>
        mset ys = mset (take (unat n) arr) \<and> sorted_wrt (before cmp) ys
    | e \<Rightarrow> merge_sort_n env arr cmp n = Some (Inl e)"
proof -
  obtain status temp where v: "Vector_initialize env n (getCurrentPlace env) MainMem Vector_empty = (status, temp)"
    by fastforce
  show ?thesis
  proof (cases "status = Success")
    case True
    have "length (contents temp) = unat n"
      using Vector_initialize_contents(2) [OF v [unfolded True] assms(2)] by simp
    moreover have "pos n (unat n)" using assms(3,4) by (simp add: pos_def)
    ultimately have "\<exists>ys. merge_passes cmp n 1 (contents temp) arr = Some (ys @ drop (unat n) arr) \<and>
        mset ys = mset (take (unat n) arr) \<and> sorted_wrt (before cmp) ys"
      by (intro merge_passes_spec [OF assms(1), of 1 1]) (use assms runs_sorted_1 in simp_all)
    then show ?thesis using True v by (auto simp: merge_sort_n_def)
  next
    case False
    then show ?thesis using v by (auto simp: merge_sort_n_def split: Status.splits)
  qed
qed

theorem merge_sort_n_sorts_witness:
  "\<exists>ys. merge_sort_n example_env [3, 1, 2, 0] (\<lambda>x y. y < x) 3 = Some (Inr (ys @ [0])) \<and>
     mset ys = mset [3, 1, 2] \<and> sorted_wrt (\<lambda>x y. \<not> y < x) ys"
proof -
  have w: "weak_order (\<lambda>x y :: nat. y < x)" by (auto simp: weak_order_def)
  have "fst (Vector_initialize example_env 3 (getCurrentPlace example_env) MainMem Vector_empty) = Success" by code_simp
  with merge_sort_n_sorts [OF w example_env_total(2), of 3 "[3, 1, 2, 0]"] show ?thesis
    by (simp add: before_def [abs_def])
qed

end
