(* ===== verification/Prefix_Sum.thy ===== *)
theory Prefix_Sum
  imports Pando_Prelude
begin

text \<open>
  The two-level parallel prefix sum (\<^verbatim>\<open>pando-lib-galois/utility/prefix_sum.hpp\<close>) and the waterfall lock that
  orders its threads (\<^verbatim>\<open>pando-lib-galois/sync/waterfall_lock.hpp\<close>). Thread \<open>w\<close> of \<open>nt\<close> sums its own segment, thread
  0 then walks over the totals in \<^verbatim>\<open>paste\<close>, and in the last phase every thread adds the total in front
  of its segment, thread 0 taking the segment behind the last one. The threads run interleaved: a step of
  the system is one phase of a thread, or one round of the walk of thread 0, enabled when the lock it waits on has
  the awaited value. A phase with the lock signal that ends it is one step: the code writes first and signals last, and
  the cells that a phase writes belong to its thread until the signal, so interleavings inside a phase are not
  distinguished, and neither is the order of its writes and its signal.
\<close>

subsection \<open>The phases\<close>

definition serial_pfxsum ::
  "bool \<Rightarrow> ('a \<Rightarrow> 'b) \<Rightarrow> ('a \<Rightarrow> 'b \<Rightarrow> 'b) \<Rightarrow> 'a list \<Rightarrow> 'b list \<Rightarrow> u64 \<Rightarrow> u64 \<Rightarrow> u64 \<Rightarrow> 'b list" where
  "serial_pfxsum combine tr scan src dst src_offset dst_offset ns =
     (let dst1 = (if \<not> combine then dst[unat (dst_offset + 0) := tr (src ! unat (src_offset + 0))] else dst) in
      fold (\<lambda>i d. d[unat (dst_offset + word_of_nat i) :=
               scan (src ! unat (src_offset + word_of_nat i)) (d ! unat (dst_offset + word_of_nat i - 1))])
        [1..<unat ns] dst1)"

record split =
  phase0_ind :: u64
  phase0_sz :: u64
  phase2_ind :: u64
  phase2_sz :: u64

definition pfxsum_split :: "u64 \<Rightarrow> u64 \<Rightarrow> u64 \<Rightarrow> split" where
  "pfxsum_split ns nt wf_id =
     (let div_sz = ns div (nt + 1);
          bigs = ns mod (nt + 1);
          mid = drop_bit 1 nt;
          is_mid = (mid = wf_id);
          phase0_sz = (if is_mid then div_sz + bigs else div_sz);
          phase0_ind = (if wf_id \<le> mid then div_sz * wf_id else bigs + div_sz * wf_id);
          phase2_sz = phase0_sz;
          phase2_ind = (if wf_id \<noteq> 0 then phase0_ind else ns - div_sz)
      in \<lparr>phase0_ind = phase0_ind, phase0_sz = phase0_sz, phase2_ind = phase2_ind, phase2_sz = phase2_sz\<rparr>)"

definition wfl_done :: "u32 \<Rightarrow> nat \<Rightarrow> u32 list \<Rightarrow> u32 list" where
  "wfl_done val num lock = lock[num := val]"

definition wfl_passes :: "u32 \<Rightarrow> nat \<Rightarrow> u32 list \<Rightarrow> bool" where
  "wfl_passes val num lock \<longleftrightarrow> lock ! num = val"

definition wfl_reset :: "u32 list \<Rightarrow> u32 list" where
  "wfl_reset lock = map (\<lambda>_. 0) lock"

datatype pfx_pc = AtPhase0 | AtPhase1 | Leading nat | AtPhase2 | Finished

record 'b pfx_state =
  px_dst :: "'b list"
  px_paste :: "'b list"
  px_lock :: "u32 list"
  px_pc :: "pfx_pc list"

definition phase_0 ::
  "('a \<Rightarrow> 'b) \<Rightarrow> ('a \<Rightarrow> 'b \<Rightarrow> 'b) \<Rightarrow> 'a list \<Rightarrow> split \<Rightarrow> nat \<Rightarrow> 'b pfx_state \<Rightarrow> 'b pfx_state" where
  "phase_0 transmute scan_op src sp w s =
     (let dst = serial_pfxsum False transmute scan_op src (px_dst s) (phase0_ind sp) (phase0_ind sp) (phase0_sz sp)
      in s\<lparr>px_dst := dst,
           px_paste := (px_paste s)[w := dst ! unat (phase0_ind sp + phase0_sz sp - 1)],
           px_lock := wfl_done 1 w (px_lock s)\<rparr>)"

definition phase_1_begin :: "'b pfx_state \<Rightarrow> 'b pfx_state" where
  "phase_1_begin s = s\<lparr>px_lock := wfl_done 2 0 (px_lock s), px_paste := (px_paste s)[0 := px_paste s ! 0]\<rparr>"

definition phase_1_round :: "('b \<Rightarrow> 'b \<Rightarrow> 'b) \<Rightarrow> nat \<Rightarrow> 'b pfx_state \<Rightarrow> 'b pfx_state" where
  "phase_1_round combiner i s =
     s\<lparr>px_paste := (px_paste s)[i := combiner (px_paste s ! i) (px_paste s ! (i - 1))],
       px_lock := wfl_done 2 i (px_lock s)\<rparr>"

definition phase_2 ::
  "('a \<Rightarrow> 'b) \<Rightarrow> ('a \<Rightarrow> 'b \<Rightarrow> 'b) \<Rightarrow> ('b \<Rightarrow> 'b \<Rightarrow> 'b) \<Rightarrow> 'a list \<Rightarrow> split \<Rightarrow> u64 \<Rightarrow> nat \<Rightarrow> 'b pfx_state \<Rightarrow> 'b pfx_state" where
  "phase_2 transmute scan_op combiner src sp nt w s =
     (let phase1_val = px_paste s ! (if w \<noteq> 0 then w - 1 else unat (nt - 1)); off = phase2_ind sp in
      if w = 0
      then s\<lparr>px_dst := serial_pfxsum True transmute scan_op src
              ((px_dst s)[unat (off + 0) := scan_op (src ! unat (off + 0)) phase1_val]) off off (phase2_sz sp)\<rparr>
      else s\<lparr>px_dst := fold (\<lambda>i d. d[unat (off + word_of_nat i) := combiner phase1_val (d ! unat (off + word_of_nat i))])
              [0..<unat (phase2_sz sp)] (px_dst s)\<rparr>)"

text \<open>The steps of \<^verbatim>\<open>parallel_pfxsum_work\<close> in all threads.\<close>

inductive pfx_step ::
  "('a \<Rightarrow> 'b) \<Rightarrow> ('a \<Rightarrow> 'b \<Rightarrow> 'b) \<Rightarrow> ('b \<Rightarrow> 'b \<Rightarrow> 'b) \<Rightarrow> 'a list \<Rightarrow> u64 \<Rightarrow> u64 \<Rightarrow> 'b pfx_state \<Rightarrow> 'b pfx_state \<Rightarrow> bool"
  for transmute scan_op combiner src ns nt where
  step_phase_0: "w < unat nt \<Longrightarrow> px_pc s ! w = AtPhase0 \<Longrightarrow>
    pfx_step transmute scan_op combiner src ns nt s
      ((phase_0 transmute scan_op src (pfxsum_split ns nt (word_of_nat w)) w s)\<lparr>px_pc := (px_pc s)[w := AtPhase1]\<rparr>)"
| step_lead: "0 < unat nt \<Longrightarrow> px_pc s ! 0 = AtPhase1 \<Longrightarrow>
    pfx_step transmute scan_op combiner src ns nt s ((phase_1_begin s)\<lparr>px_pc := (px_pc s)[0 := Leading 1]\<rparr>)"
| step_round: "px_pc s ! 0 = Leading i \<Longrightarrow> i < unat nt \<Longrightarrow> wfl_passes 1 i (px_lock s) \<Longrightarrow>
    pfx_step transmute scan_op combiner src ns nt s
      ((phase_1_round combiner i s)\<lparr>px_pc := (px_pc s)[0 := Leading (i + 1)]\<rparr>)"
| step_led: "px_pc s ! 0 = Leading i \<Longrightarrow> \<not> i < unat nt \<Longrightarrow>
    pfx_step transmute scan_op combiner src ns nt s (s\<lparr>px_pc := (px_pc s)[0 := AtPhase2]\<rparr>)"
| step_pass: "0 < w \<Longrightarrow> w < unat nt \<Longrightarrow> px_pc s ! w = AtPhase1 \<Longrightarrow> wfl_passes 2 (w - 1) (px_lock s) \<Longrightarrow>
    pfx_step transmute scan_op combiner src ns nt s (s\<lparr>px_pc := (px_pc s)[w := AtPhase2]\<rparr>)"
| step_phase_2: "w < unat nt \<Longrightarrow> px_pc s ! w = AtPhase2 \<Longrightarrow>
    pfx_step transmute scan_op combiner src ns nt s
      ((phase_2 transmute scan_op combiner src (pfxsum_split ns nt (word_of_nat w)) nt w s)
        \<lparr>px_pc := (px_pc s)[w := Finished]\<rparr>)"

text \<open>
  \<^verbatim>\<open>computePrefixSum\<close>: the number of threads it starts, and the state they start from. A second argument of 0
  in the division is outside the range of the dimension.
\<close>

definition pfx_workers :: "u64 \<Rightarrow> u64 \<Rightarrow> u64 \<Rightarrow> u64" where
  "pfx_workers paste_size ns threadDims =
     (let workPerThread = ns div (paste_size + 1) in
      if workPerThread \<le> 10 then paste_size div threadDims else paste_size)"

definition pfx_start :: "'b list \<Rightarrow> 'b list \<Rightarrow> u64 \<Rightarrow> 'b pfx_state" where
  "pfx_start dst paste nt =
     \<lparr>px_dst = dst, px_paste = paste, px_lock = wfl_reset (map (\<lambda>_. 0) paste),
      px_pc = replicate (unat nt) AtPhase0\<rparr>"

text \<open>The instance that computes edge offsets (\<^verbatim>\<open>dist_array_csr.hpp\<close>).\<close>

definition transmute :: "u64 \<Rightarrow> u64" where "transmute p = p"
definition scan_op :: "u64 \<Rightarrow> u64 \<Rightarrow> u64" where "scan_op p l = p + l"
definition combiner :: "u64 \<Rightarrow> u64 \<Rightarrow> u64" where "combiner f s = f + s"

subsection \<open>The segments\<close>

text \<open>Segment \<open>w\<close> of \<open>n\<close> elements split for \<open>t\<close> threads, as natural numbers.\<close>

definition seg_start :: "nat \<Rightarrow> nat \<Rightarrow> nat \<Rightarrow> nat" where
  "seg_start n t w = n div (t + 1) * w + (if w \<le> t div 2 then 0 else n mod (t + 1))"

lemma seg_start_0 [simp]: "seg_start n t 0 = 0"
  by (simp add: seg_start_def)

lemma seg_start_Suc:
  "seg_start n t (Suc w) = seg_start n t w + (if t div 2 = w then n div (t + 1) + n mod (t + 1) else n div (t + 1))"
  by (simp add: seg_start_def algebra_simps)

lemma seg_start_mono: "v \<le> w \<Longrightarrow> seg_start n t v \<le> seg_start n t w"
  by (rule lift_Suc_mono_le [of "seg_start n t"]) (simp_all add: seg_start_Suc)

lemma seg_start_last:
  assumes "0 < t"
  shows "seg_start n t t + n div (t + 1) = n"
proof -
  have "seg_start n t t = n div (t + 1) * t + n mod (t + 1)" using assms by (simp add: seg_start_def)
  then show ?thesis using div_mult_mod_eq [of n "t + 1"] by (simp add: algebra_simps)
qed

lemma pfxsum_split_nat:
  fixes ns :: u64
  assumes t: "0 < unat nt" "unat nt < 2 ^ 63" and w: "w < unat nt"
  defines "sp \<equiv> pfxsum_split ns nt (word_of_nat w)"
  shows "unat (phase0_ind sp) = seg_start (unat ns) (unat nt) w"
    "unat (phase0_ind sp) + unat (phase0_sz sp) = seg_start (unat ns) (unat nt) (Suc w)"
    "unat (phase2_ind sp) = (if w \<noteq> 0 then unat (phase0_ind sp) else unat ns - unat ns div (unat nt + 1))"
    "phase2_sz sp = phase0_sz sp" "unat (phase0_ind sp) + unat (phase0_sz sp) \<le> unat ns"
proof -
  let ?n = "unat ns" and ?t = "unat nt"
  let ?d = "?n div (?t + 1)" and ?b = "?n mod (?t + 1)"
  have nt1: "unat (nt + 1) = ?t + 1" using t(2) unat_add_no_wrap [of nt 1] by simp
  have dv: "unat (ns div (nt + 1)) = ?d" "unat (ns mod (nt + 1)) = ?b" by (simp_all only: unat_div unat_mod nt1)
  have mid: "unat (drop_bit 1 nt) = ?t div 2" using unat_div [of nt 2] by (simp add: drop_bit_Suc)
  have ww: "unat (word_of_nat w :: u64) = w" using w t(2) by simp
  have le: "seg_start ?n ?t (Suc w) \<le> ?n"
    using seg_start_mono [of "Suc w" ?t ?n ?t] seg_start_last [OF t(1), of ?n] w by simp
  have small: "seg_start ?n ?t w \<le> ?n" "?d * w \<le> ?n" "?d + ?b \<le> ?n"
    using le div_mult_mod_eq [of ?n "?t + 1"] by (simp_all add: seg_start_def seg_start_Suc split: if_splits)
  have lt: "x \<le> ?n \<Longrightarrow> x < 2 ^ 64" for x using order.strict_trans1 [OF _ unat_lt_2p64 [of ns]] by simp
  have dw: "unat (ns div (nt + 1) * word_of_nat w) = ?d * w"
    using unat_mult_no_wrap [of "ns div (nt + 1)" "word_of_nat w"] dv ww lt [OF small(2)] by simp
  have cmp: "word_of_nat w \<le> drop_bit 1 nt \<longleftrightarrow> w \<le> ?t div 2" "drop_bit 1 nt = word_of_nat w \<longleftrightarrow> ?t div 2 = w"
    by (simp_all only: word_le_nat_alt u64_eq_iff_unat mid ww)
  note cmp = cmp cmp [unfolded One_nat_def]
  show ind: "unat (phase0_ind sp) = seg_start ?n ?t w"
  proof (cases "w \<le> ?t div 2")
    case True
    then show ?thesis by (simp add: sp_def pfxsum_split_def Let_def cmp dw seg_start_def)
  next
    case False
    then have "?b + ?d * w < 2 ^ 64" using lt [OF small(1)] by (simp add: seg_start_def)
    then have "unat (ns mod (nt + 1) + ns div (nt + 1) * word_of_nat w) = ?b + ?d * w"
      using unat_add_no_wrap [of "ns mod (nt + 1)" "ns div (nt + 1) * word_of_nat w"] dw dv by simp
    then show ?thesis using False by (simp add: sp_def pfxsum_split_def Let_def cmp seg_start_def)
  qed
  have "unat (ns div (nt + 1) + ns mod (nt + 1)) = ?d + ?b"
    using unat_add_no_wrap [of "ns div (nt + 1)" "ns mod (nt + 1)"] dv lt [OF small(3)] by simp
  then have "unat (phase0_sz sp) = (if ?t div 2 = w then ?d + ?b else ?d)"
    by (simp add: sp_def pfxsum_split_def Let_def cmp dv)
  then show end': "unat (phase0_ind sp) + unat (phase0_sz sp) = seg_start ?n ?t (Suc w)"
    by (simp add: ind seg_start_Suc)
  show "unat (phase0_ind sp) + unat (phase0_sz sp) \<le> ?n" using end' le by simp
  show "phase2_sz sp = phase0_sz sp" by (simp add: sp_def pfxsum_split_def Let_def)
  have "unat (ns - ns div (nt + 1)) = ?n - ?d" using unat_sub_no_wrap [of "ns div (nt + 1)" ns] dv by simp
  moreover have "(word_of_nat w = (0 :: u64)) \<longleftrightarrow> w = 0" by (simp only: u64_eq_iff_unat ww unat_0)
  ultimately show "unat (phase2_ind sp) = (if w \<noteq> 0 then unat (phase0_ind sp) else ?n - ?d)"
    by (simp add: sp_def pfxsum_split_def Let_def)
qed

subsection \<open>The serial loops\<close>

primrec run_sum :: "('a \<Rightarrow> 'b) \<Rightarrow> ('a \<Rightarrow> 'b \<Rightarrow> 'b) \<Rightarrow> 'a list \<Rightarrow> nat \<Rightarrow> nat \<Rightarrow> 'b" where
  "run_sum tr sc src a 0 = tr (src ! a)"
| "run_sum tr sc src a (Suc n) = sc (src ! (a + Suc n)) (run_sum tr sc src a n)"

lemma off_index: "unat off + n < 2 ^ 64 \<Longrightarrow> unat (off + word_of_nat n :: u64) = unat off + n"
  using unat_add_no_wrap [of off "word_of_nat n"] by simp

lemma serial_loop:
  fixes off :: u64
  assumes len: "unat off + n \<le> length d" "length d < 2 ^ 64" and f0: "d ! unat off = f 0"
    and fS: "\<And>j. Suc j < n \<Longrightarrow> sc (src ! (unat off + Suc j)) (f j) = f (Suc j)"
    and d': "d' = fold (\<lambda>i d. d[unat (off + word_of_nat i) :=
        sc (src ! unat (off + word_of_nat i)) (d ! unat (off + word_of_nat i - 1))]) [1..<n] d"
  shows "length d' = length d" "\<And>j. j < n \<Longrightarrow> d' ! (unat off + j) = f j"
    "\<And>i. i < unat off \<or> unat off + n \<le> i \<Longrightarrow> d' ! i = d ! i"
proof -
  let ?g = "\<lambda>i d. d[unat (off + word_of_nat i) :=
        sc (src ! unat (off + word_of_nat i)) (d ! unat (off + word_of_nat i - 1))]"
  have main: "length (fold ?g [1..<k] d) = length d \<and> (\<forall>j < k. fold ?g [1..<k] d ! (unat off + j) = f j) \<and>
      (\<forall>i. i < unat off \<or> unat off + k \<le> i \<longrightarrow> fold ?g [1..<k] d ! i = d ! i)" if "k \<le> n" "0 < k" for k
    using that
  proof (induction k)
    case (Suc k)
    show ?case
    proof (cases "k = 0")
      case True
      then show ?thesis using f0 by simp
    next
      case False
      have i: "unat (off + word_of_nat k) = unat off + k" using Suc.prems len by (intro off_index) simp
      then have "off + word_of_nat k \<noteq> 0" using False by (metis add_is_0 unat_0)
      then have i1: "unat (off + word_of_nat k - 1) = unat off + (k - 1)" using i False by (simp add: unat_minus_one_u64)
      obtain k' where k': "k = Suc k'" using False by (cases k) auto
      have "fold ?g [1..<Suc k] d = ?g k (fold ?g [1..<k] d)" using False by simp
      then show ?thesis
        using Suc False fS [of k'] len unfolding i i1 by (auto simp: k' nth_list_update less_Suc_eq)
    qed
  qed simp
  show "length d' = length d"
    using main [of n] d' by (cases "n = 0") auto
  show "d' ! (unat off + j) = f j" if "j < n" for j using main [of n] d' that by auto
  show "d' ! i = d ! i" if "i < unat off \<or> unat off + n \<le> i" for i using main [of n] d' that by (cases "n = 0") auto
qed

lemma combine_loop:
  fixes off :: u64
  assumes len: "unat off + n \<le> length d" "length d < 2 ^ 64"
    and d': "d' = fold (\<lambda>i d. d[unat (off + word_of_nat i) := g (d ! unat (off + word_of_nat i))]) [0..<n] d"
  shows "length d' = length d" "\<And>j. j < n \<Longrightarrow> d' ! (unat off + j) = g (d ! (unat off + j))"
    "\<And>i. i < unat off \<or> unat off + n \<le> i \<Longrightarrow> d' ! i = d ! i"
proof -
  let ?h = "\<lambda>i d. d[unat (off + word_of_nat i) := g (d ! unat (off + word_of_nat i))]"
  have main: "length (fold ?h [0..<k] d) = length d \<and> (\<forall>j < k. fold ?h [0..<k] d ! (unat off + j) = g (d ! (unat off + j))) \<and>
      (\<forall>i. i < unat off \<or> unat off + k \<le> i \<longrightarrow> fold ?h [0..<k] d ! i = d ! i)" if "k \<le> n" for k
    using that
  proof (induction k)
    case (Suc k)
    have i: "unat (off + word_of_nat k) = unat off + k" using Suc.prems len by (intro off_index) simp
    have "fold ?h [0..<Suc k] d = ?h k (fold ?h [0..<k] d)" by simp
    then show ?case using Suc len unfolding i by (auto simp: nth_list_update less_Suc_eq)
  qed simp
  show "length d' = length d" "\<And>j. j < n \<Longrightarrow> d' ! (unat off + j) = g (d ! (unat off + j))"
    "\<And>i. i < unat off \<or> unat off + n \<le> i \<Longrightarrow> d' ! i = d ! i"
    using main [of n] unfolding d' by blast+
qed

subsection \<open>The contract of the operations\<close>

text \<open>What the phases rely on: \<open>scan_op\<close> combines the transmuted element, and the combiner is associative and commutative.\<close>

locale prefix_ops =
  fixes tr :: "'a \<Rightarrow> 'b" and sc :: "'a \<Rightarrow> 'b \<Rightarrow> 'b" and co :: "'b \<Rightarrow> 'b \<Rightarrow> 'b"
  assumes scan: "sc x y = co (tr x) y"
    and assoc: "co (co p q) r = co p (co q r)"
    and comm: "co p q = co q p"
begin

lemma left_comm: "co p (co q r) = co q (co p r)"
  by (metis assoc comm)

lemma run_sum_join:
  assumes "0 < a"
  shows "co (run_sum tr sc src 0 (a - 1)) (run_sum tr sc src a n) = run_sum tr sc src 0 (a + n)"
proof (induction n)
  case 0
  obtain b where "a = Suc b" using assms by (cases a) auto
  then show ?case using comm by (simp add: scan)
next
  case (Suc n)
  let ?x = "src ! (a + Suc n)" and ?p = "run_sum tr sc src 0 (a - 1)" and ?l = "run_sum tr sc src a n"
  have "co ?p (run_sum tr sc src a (Suc n)) = sc ?x (co ?p ?l)"
    unfolding run_sum.simps scan [of ?x] by (rule left_comm)
  also have "\<dots> = run_sum tr sc src 0 (a + Suc n)" unfolding Suc by simp
  finally show ?case .
qed

end

interpretation edge_offsets: prefix_ops transmute scan_op combiner
  by unfold_locales (simp_all add: transmute_def scan_op_def combiner_def ac_simps)

subsection \<open>The invariant\<close>

definition pfx_sizes :: "u64 \<Rightarrow> u64 \<Rightarrow> bool" where
  "pfx_sizes ns nt \<longleftrightarrow> 2 \<le> unat nt \<and> unat nt < 2 ^ 63 \<and> unat nt + 1 \<le> unat ns"

text \<open>
  Of a thread: before phase 0 its lock is 0; after it its segment holds the sums of the segment, and after its
  phase 2 (for all but thread 0) the sums from the beginning; its paste cell holds the total of its segment
  while its lock is 1 and the total from the beginning once it is 2.
\<close>

definition thread_ok ::
  "('a \<Rightarrow> 'b) \<Rightarrow> ('a \<Rightarrow> 'b \<Rightarrow> 'b) \<Rightarrow> 'a list \<Rightarrow> nat \<Rightarrow> nat \<Rightarrow> 'b pfx_state \<Rightarrow> nat \<Rightarrow> bool" where
  "thread_ok tr sc src n t s w \<longleftrightarrow>
     (let a = seg_start n t w; e = seg_start n t (Suc w); pc = px_pc s ! w; lk = px_lock s ! w in
      (if pc = AtPhase0 then lk = 0
       else (lk = 1 \<or> lk = 2) \<and>
         (\<forall>j < e - a. px_dst s ! (a + j) =
            (if w \<noteq> 0 \<and> pc = Finished then run_sum tr sc src 0 (a + j) else run_sum tr sc src a j))) \<and>
      (lk = 1 \<longrightarrow> px_paste s ! w = run_sum tr sc src a (e - a - 1)) \<and>
      (lk = 2 \<longrightarrow> px_paste s ! w = run_sum tr sc src 0 (e - 1)) \<and>
      (w \<noteq> 0 \<longrightarrow> (\<forall>i. pc \<noteq> Leading i) \<and> (pc = AtPhase2 \<or> pc = Finished \<longrightarrow> px_lock s ! (w - 1) = 2)))"

definition leader_ok :: "nat \<Rightarrow> 'b pfx_state \<Rightarrow> bool" where
  "leader_ok t s \<longleftrightarrow>
     (case px_pc s ! 0 of
        AtPhase0 \<Rightarrow> \<forall>w < t. px_lock s ! w \<noteq> 2
      | AtPhase1 \<Rightarrow> \<forall>w < t. px_lock s ! w \<noteq> 2
      | Leading i \<Rightarrow> 1 \<le> i \<and> i \<le> t \<and> (\<forall>w < t. px_lock s ! w = 2 \<longleftrightarrow> w < i)
      | _ \<Rightarrow> \<forall>w < t. px_lock s ! w = 2)"

definition tail_ok ::
  "('a \<Rightarrow> 'b) \<Rightarrow> ('a \<Rightarrow> 'b \<Rightarrow> 'b) \<Rightarrow> 'a list \<Rightarrow> nat \<Rightarrow> nat \<Rightarrow> 'b pfx_state \<Rightarrow> bool" where
  "tail_ok tr sc src n t s \<longleftrightarrow>
     (px_pc s ! 0 = Finished \<longrightarrow> (\<forall>i. seg_start n t t \<le> i \<and> i < n \<longrightarrow> px_dst s ! i = run_sum tr sc src 0 i))"

definition pfx_inv ::
  "('a \<Rightarrow> 'b) \<Rightarrow> ('a \<Rightarrow> 'b \<Rightarrow> 'b) \<Rightarrow> 'a list \<Rightarrow> nat \<Rightarrow> nat \<Rightarrow> 'b pfx_state \<Rightarrow> bool" where
  "pfx_inv tr sc src n t s \<longleftrightarrow>
     n \<le> length (px_dst s) \<and> length (px_dst s) < 2 ^ 64 \<and> t \<le> length (px_paste s) \<and>
     t \<le> length (px_lock s) \<and> length (px_pc s) = t \<and>
     (\<forall>w < t. thread_ok tr sc src n t s w) \<and> leader_ok t s \<and> tail_ok tr sc src n t s"

text \<open>A thread is not affected by changes outside its segment, its cells and the lock in front of it.\<close>

lemma thread_ok_cong:
  assumes "thread_ok tr sc src n t s v"
    and "\<And>i. seg_start n t v \<le> i \<Longrightarrow> i < seg_start n t (Suc v) \<Longrightarrow> px_dst s' ! i = px_dst s ! i"
    and "px_pc s' ! v = px_pc s ! v" "px_lock s' ! v = px_lock s ! v" "px_paste s' ! v = px_paste s ! v"
    and "v \<noteq> 0 \<Longrightarrow> px_lock s ! (v - 1) = 2 \<Longrightarrow> px_lock s' ! (v - 1) = 2"
  shows "thread_ok tr sc src n t s' v"
  using assms(1) unfolding thread_ok_def Let_def assms(3-5) using assms(2,6) by auto

lemma segments_disjoint:
  assumes "v \<noteq> w" "seg_start n t v \<le> i" "i < seg_start n t (Suc v)"
  shows "i < seg_start n t w \<or> seg_start n t (Suc w) \<le> i"
proof (cases "v < w")
  case True
  then show ?thesis using assms seg_start_mono [of "Suc v" w n t] by simp
next
  case False
  then show ?thesis using assms seg_start_mono [of "Suc w" v n t] by simp
qed

lemma seg_start_pos:
  assumes "pfx_sizes ns nt" "0 < w"
  shows "0 < seg_start (unat ns) (unat nt) w"
proof -
  have "1 \<le> unat ns div (unat nt + 1)" using assms(1) by (simp add: pfx_sizes_def div_greater_zero_iff Suc_le_eq)
  then show ?thesis using assms(2) by (simp add: seg_start_def)
qed

lemma seg_nonempty:
  assumes "pfx_sizes ns nt"
  shows "seg_start (unat ns) (unat nt) w < seg_start (unat ns) (unat nt) (Suc w)"
proof -
  have "1 \<le> unat ns div (unat nt + 1)" using assms by (simp add: pfx_sizes_def div_greater_zero_iff Suc_le_eq)
  then show ?thesis by (auto simp: seg_start_Suc)
qed

lemma inv_phase_0:
  assumes inv: "pfx_inv tr sc src (unat ns) (unat nt) s" and sz: "pfx_sizes ns nt"
    and w: "w < unat nt" "px_pc s ! w = AtPhase0"
  shows "pfx_inv tr sc src (unat ns) (unat nt)
    ((phase_0 tr sc src (pfxsum_split ns nt (word_of_nat w)) w s)\<lparr>px_pc := (px_pc s)[w := AtPhase1]\<rparr>)"
proof -
  let ?n = "unat ns" and ?t = "unat nt" and ?sp = "pfxsum_split ns nt (word_of_nat w)"
  let ?a = "seg_start ?n ?t w" and ?e = "seg_start ?n ?t (Suc w)"
  have t: "0 < ?t" "?t < 2 ^ 63" using sz by (simp_all add: pfx_sizes_def)
  note sp = pfxsum_split_nat [OF t w(1), of ns]
  have ae: "?a < ?e" by (rule seg_nonempty [OF sz])
  have szl: "unat (phase0_sz ?sp) = ?e - ?a" using sp(1,2) by simp
  have dl: "?n \<le> length (px_dst s)" "length (px_dst s) < 2 ^ 64" using inv by (simp_all add: pfx_inv_def)
  define d0 where "d0 = (px_dst s)[?a := tr (src ! ?a)]"
  define d where "d = serial_pfxsum False tr sc src (px_dst s) (phase0_ind ?sp) (phase0_ind ?sp) (phase0_sz ?sp)"
  have "d = fold (\<lambda>i d. d[unat (phase0_ind ?sp + word_of_nat i) :=
      sc (src ! unat (phase0_ind ?sp + word_of_nat i)) (d ! unat (phase0_ind ?sp + word_of_nat i - 1))]) [1..<?e - ?a] d0"
    by (simp add: d_def d0_def serial_pfxsum_def sp(1) szl)
  from serial_loop [OF _ _ _ _ this, of "run_sum tr sc src ?a"]
  have d: "length d = length (px_dst s)" "\<And>j. j < ?e - ?a \<Longrightarrow> d ! (?a + j) = run_sum tr sc src ?a j"
    "\<And>i. i < ?a \<or> ?e \<le> i \<Longrightarrow> d ! i = px_dst s ! i"
    using dl sp ae by (auto simp: d0_def nth_list_update)
  have "unat (phase0_ind ?sp + phase0_sz ?sp) = ?e"
    using unat_add_no_wrap [of "phase0_ind ?sp" "phase0_sz ?sp"] sp(2,5) order.strict_trans1 [OF _ unat_lt_2p64 [of ns]] by simp
  then have "unat (phase0_ind ?sp + phase0_sz ?sp - 1) = ?e - 1"
    using unat_minus_one_u64 [of "phase0_ind ?sp + phase0_sz ?sp"] ae by (metis less_nat_zero_code unat_0)
  then have last: "d ! unat (phase0_ind ?sp + phase0_sz ?sp - 1) = run_sum tr sc src ?a (?e - ?a - 1)"
    using d(2) [of "?e - ?a - 1"] ae by simp
  let ?s = "(phase_0 tr sc src ?sp w s)\<lparr>px_pc := (px_pc s)[w := AtPhase1]\<rparr>"
  have s': "px_dst ?s = d" "px_paste ?s = (px_paste s)[w := run_sum tr sc src ?a (?e - ?a - 1)]"
    "px_lock ?s = (px_lock s)[w := 1]" "px_pc ?s = (px_pc s)[w := AtPhase1]"
    using last by (simp_all add: phase_0_def Let_def d_def wfl_done_def)
  have lens: "?t \<le> length (px_paste s)" "?t \<le> length (px_lock s)" "length (px_pc s) = ?t" using inv by (simp_all add: pfx_inv_def)
  have "thread_ok tr sc src ?n ?t s w" using inv w(1) by (simp add: pfx_inv_def)
  then have lk: "px_lock s ! w = 0" using w(2) by (simp add: thread_ok_def Let_def)
  have "thread_ok tr sc src ?n ?t ?s v" if v: "v < ?t" for v
  proof (cases "v = w")
    case True
    then show ?thesis using d(2) w lens by (simp add: thread_ok_def Let_def s')
  next
    case False
    show ?thesis
    proof (rule thread_ok_cong [of _ _ _ _ _ s])
      show "thread_ok tr sc src ?n ?t s v" using inv v by (simp add: pfx_inv_def)
      show "px_dst ?s ! i = px_dst s ! i" if "seg_start ?n ?t v \<le> i" "i < seg_start ?n ?t (Suc v)" for i
        unfolding s' using segments_disjoint [OF False that] d(3) by blast
      show "px_lock ?s ! (v - 1) = 2" if "px_lock s ! (v - 1) = 2"
        unfolding s' using that lk by (cases "v - 1 = w") auto
    qed (use False in \<open>simp_all add: s'\<close>)
  qed
  moreover have "leader_ok ?t ?s"
  proof -
    have same: "px_lock ?s ! v = 2 \<longleftrightarrow> px_lock s ! v = 2" if "v < ?t" for v
      unfolding s' using lk lens that by (cases "v = w") auto
    have l: "leader_ok ?t s" using inv by (simp add: pfx_inv_def)
    show ?thesis
    proof (cases "w = 0")
      case True
      then have "px_pc ?s ! 0 = AtPhase1" "px_pc s ! 0 = AtPhase0" using s'(4) w lens by simp_all
      then show ?thesis using l same by (simp add: leader_ok_def)
    next
      case False
      then have "px_pc ?s ! 0 = px_pc s ! 0" using s'(4) by simp
      then show ?thesis using l same by (simp add: leader_ok_def split: pfx_pc.splits)
    qed
  qed
  moreover have "tail_ok tr sc src ?n ?t ?s"
  proof -
    have "?e \<le> seg_start ?n ?t ?t" using seg_start_mono [of "Suc w" ?t] w by simp
    moreover have "tail_ok tr sc src ?n ?t s" using inv by (simp add: pfx_inv_def)
    moreover have "px_pc ?s ! 0 = Finished \<Longrightarrow> px_pc s ! 0 = Finished" unfolding s' using w lens by (cases "w = 0") auto
    ultimately show ?thesis using d(3) by (auto simp: tail_ok_def s')
  qed
  ultimately show ?thesis using lens dl d(1) by (simp add: pfx_inv_def s')
qed

subsection \<open>The other steps\<close>

lemma phase_1_simps [simp]:
  "px_dst (phase_1_begin s) = px_dst s" "px_paste (phase_1_begin s) = px_paste s"
  "px_lock (phase_1_begin s) = (px_lock s)[0 := 2]" "px_dst (phase_1_round co i s) = px_dst s"
  "px_paste (phase_1_round co i s) = (px_paste s)[i := co (px_paste s ! i) (px_paste s ! (i - 1))]"
  "px_lock (phase_1_round co i s) = (px_lock s)[i := 2]"
  by (simp_all add: phase_1_begin_def phase_1_round_def wfl_done_def)

lemma inv_lead:
  assumes inv: "pfx_inv tr sc src n t s" and t: "0 < t" and w: "px_pc s ! 0 = AtPhase1"
  shows "pfx_inv tr sc src n t ((phase_1_begin s)\<lparr>px_pc := (px_pc s)[0 := Leading 1]\<rparr>)"
proof -
  let ?s = "(phase_1_begin s)\<lparr>px_pc := (px_pc s)[0 := Leading 1]\<rparr>"
  have lens: "t \<le> length (px_lock s)" "length (px_pc s) = t" using inv by (simp_all add: pfx_inv_def)
  have s': "px_dst ?s = px_dst s" "px_paste ?s = px_paste s" "px_lock ?s = (px_lock s)[0 := 2]"
    "px_pc ?s = (px_pc s)[0 := Leading 1]"
    by simp_all
  have no2: "\<forall>v < t. px_lock s ! v \<noteq> 2" using inv w by (simp add: pfx_inv_def leader_ok_def)
  have t0: "thread_ok tr sc src n t s 0" using inv t by (simp add: pfx_inv_def)
  have "thread_ok tr sc src n t ?s v" if v: "v < t" for v
  proof (cases "v = 0")
    case True
    have "0 < length (px_lock s)" by (rule order.strict_trans2 [OF t lens(1)])
    then show ?thesis using True t0 no2 t w lens by (auto simp: thread_ok_def Let_def s')
  next
    case False
    show ?thesis
    proof (rule thread_ok_cong [of _ _ _ _ _ s])
      show "thread_ok tr sc src n t s v" using inv v by (simp add: pfx_inv_def)
      show "px_lock ?s ! (v - 1) = 2" if "px_lock s ! (v - 1) = 2"
        unfolding s' using that order.strict_trans2 [OF t lens(1)] by (cases "v - 1 = 0") auto
    qed (use False in \<open>simp_all add: s'\<close>)
  qed
  moreover have "leader_ok t ?s"
    using no2 lens t order.strict_trans2 [OF t lens(1)] by (auto simp: leader_ok_def s' nth_list_update)
  moreover have "tail_ok tr sc src n t ?s" using lens t by (simp add: tail_ok_def s')
  ultimately show ?thesis using inv by (simp add: pfx_inv_def s')
qed

lemma inv_led:
  assumes inv: "pfx_inv tr sc src n t s" and w: "px_pc s ! 0 = Leading i" "\<not> i < t" and t: "0 < t"
  shows "pfx_inv tr sc src n t (s\<lparr>px_pc := (px_pc s)[0 := AtPhase2]\<rparr>)"
proof -
  have lens: "length (px_pc s) = t" using inv by (simp add: pfx_inv_def)
  have "thread_ok tr sc src n t (s\<lparr>px_pc := (px_pc s)[0 := AtPhase2]\<rparr>) v" if v: "v < t" for v
    using inv v w t lens by (cases "v = 0") (auto simp: pfx_inv_def thread_ok_def Let_def)
  moreover have "leader_ok t (s\<lparr>px_pc := (px_pc s)[0 := AtPhase2]\<rparr>)"
    using inv w t lens by (auto simp: pfx_inv_def leader_ok_def)
  ultimately show ?thesis using inv t lens by (simp add: pfx_inv_def tail_ok_def)
qed

lemma inv_pass:
  assumes inv: "pfx_inv tr sc src n t s" and w: "0 < w" "w < t" "px_pc s ! w = AtPhase1" "px_lock s ! (w - 1) = 2"
  shows "pfx_inv tr sc src n t (s\<lparr>px_pc := (px_pc s)[w := AtPhase2]\<rparr>)"
proof -
  have lens: "length (px_pc s) = t" using inv by (simp add: pfx_inv_def)
  have "thread_ok tr sc src n t (s\<lparr>px_pc := (px_pc s)[w := AtPhase2]\<rparr>) v" if v: "v < t" for v
    using inv v w lens by (cases "v = w") (auto simp: pfx_inv_def thread_ok_def Let_def)
  moreover have "leader_ok t (s\<lparr>px_pc := (px_pc s)[w := AtPhase2]\<rparr>)"
    using inv w by (auto simp: pfx_inv_def leader_ok_def split: pfx_pc.splits)
  ultimately show ?thesis using inv w lens by (simp add: pfx_inv_def tail_ok_def)
qed

context prefix_ops
begin

lemma inv_round:
  assumes inv: "pfx_inv tr sc src (unat ns) (unat nt) s" and sz: "pfx_sizes ns nt"
    and w: "px_pc s ! 0 = Leading i" "i < unat nt" "px_lock s ! i = 1"
  shows "pfx_inv tr sc src (unat ns) (unat nt) ((phase_1_round co i s)\<lparr>px_pc := (px_pc s)[0 := Leading (i + 1)]\<rparr>)"
proof -
  let ?n = "unat ns" and ?t = "unat nt" and ?s = "(phase_1_round co i s)\<lparr>px_pc := (px_pc s)[0 := Leading (i + 1)]\<rparr>"
  let ?a = "seg_start ?n ?t i" and ?e = "seg_start ?n ?t (Suc i)"
  have lens: "?t \<le> length (px_lock s)" "length (px_pc s) = ?t" "?t \<le> length (px_paste s)" using inv by (simp_all add: pfx_inv_def)
  have i: "1 \<le> i" and lk: "\<forall>v < ?t. px_lock s ! v = 2 \<longleftrightarrow> v < i" using inv w by (simp_all add: pfx_inv_def leader_ok_def)
  have ti: "thread_ok tr sc src ?n ?t s i" "thread_ok tr sc src ?n ?t s (i - 1)" using inv w i by (simp_all add: pfx_inv_def)
  have "px_lock s ! (i - 1) = 2" using lk i w by simp
  then have p1: "px_paste s ! (i - 1) = run_sum tr sc src 0 (?a - 1)" using ti(2) i by (simp add: thread_ok_def Let_def)
  have p: "px_paste s ! i = run_sum tr sc src ?a (?e - ?a - 1)" using ti(1) w(3) by (simp add: thread_ok_def Let_def)
  have a: "0 < ?a" "?a < ?e" using seg_start_pos [OF sz, of i] seg_nonempty [OF sz, of i] i by simp_all
  have sum: "co (px_paste s ! i) (px_paste s ! (i - 1)) = run_sum tr sc src 0 (?e - 1)"
    unfolding p p1 using run_sum_join [OF a(1), of src "?e - ?a - 1"] comm a(2) by simp
  have "thread_ok tr sc src ?n ?t ?s v" if v: "v < ?t" for v
  proof (cases "v = i")
    case True
    then show ?thesis using ti(1) sum i w lens \<open>px_lock s ! (i - 1) = 2\<close> by (auto simp: thread_ok_def Let_def)
  next
    case False
    have tv: "thread_ok tr sc src ?n ?t s v" using inv v by (simp add: pfx_inv_def)
    show ?thesis
    proof (cases "v = 0")
      case True
      then show ?thesis using tv False w lens i by (auto simp: thread_ok_def Let_def)
    next
      case v0: False
      show ?thesis
      proof (rule thread_ok_cong [OF tv])
        show "px_lock ?s ! (v - 1) = 2" if "px_lock s ! (v - 1) = 2"
          using that w lens by (cases "v - 1 = i") auto
      qed (use False v0 in simp_all)
    qed
  qed
  moreover have "leader_ok ?t ?s" using lk lens w i by (auto simp: leader_ok_def nth_list_update)
  moreover have "tail_ok tr sc src ?n ?t ?s" using lens w by (simp add: tail_ok_def)
  ultimately show ?thesis using inv by (simp add: pfx_inv_def)
qed

lemma inv_phase_2_other:
  assumes inv: "pfx_inv tr sc src (unat ns) (unat nt) s" and sz: "pfx_sizes ns nt"
    and w: "w < unat nt" "px_pc s ! w = AtPhase2" "w \<noteq> 0"
  shows "pfx_inv tr sc src (unat ns) (unat nt)
    ((phase_2 tr sc co src (pfxsum_split ns nt (word_of_nat w)) nt w s)\<lparr>px_pc := (px_pc s)[w := Finished]\<rparr>)"
proof -
  let ?n = "unat ns" and ?t = "unat nt" and ?sp = "pfxsum_split ns nt (word_of_nat w)"
  let ?a = "seg_start ?n ?t w" and ?e = "seg_start ?n ?t (Suc w)"
  have t: "0 < ?t" "?t < 2 ^ 63" using sz by (simp_all add: pfx_sizes_def)
  note sp = pfxsum_split_nat [OF t w(1), of ns]
  have off: "unat (phase2_ind ?sp) = ?a" "unat (phase2_sz ?sp) = ?e - ?a" using sp w(3) by simp_all
  have dl: "?n \<le> length (px_dst s)" "length (px_dst s) < 2 ^ 64" "length (px_pc s) = ?t" using inv by (simp_all add: pfx_inv_def)
  have ae: "0 < ?a" "?a < ?e" using seg_start_pos [OF sz, of w] seg_nonempty [OF sz, of w] w by simp_all
  have tw: "thread_ok tr sc src ?n ?t s w" "thread_ok tr sc src ?n ?t s (w - 1)" using inv w by (simp_all add: pfx_inv_def)
  then have "px_lock s ! (w - 1) = 2" using w by (simp add: thread_ok_def Let_def)
  then have p: "px_paste s ! (w - 1) = run_sum tr sc src 0 (?a - 1)" using tw(2) w(3) by (simp add: thread_ok_def Let_def)
  have seg: "px_dst s ! (?a + j) = run_sum tr sc src ?a j" if "j < ?e - ?a" for j
    using tw(1) w(2) that by (simp add: thread_ok_def Let_def)
  define d where "d = fold (\<lambda>i d. d[unat (phase2_ind ?sp + word_of_nat i) :=
      co (px_paste s ! (w - 1)) (d ! unat (phase2_ind ?sp + word_of_nat i))]) [0..<?e - ?a] (px_dst s)"
  have fit: "unat (phase2_ind ?sp) + (?e - ?a) \<le> length (px_dst s)" using off(1) sp(2,5) dl(1) ae by simp
  note cl = combine_loop [OF fit dl(2) d_def, unfolded off(1)]
  have d: "length d = length (px_dst s)"
    "\<And>j. j < ?e - ?a \<Longrightarrow> d ! (?a + j) = co (px_paste s ! (w - 1)) (px_dst s ! (?a + j))"
    "\<And>i. i < ?a \<or> ?e \<le> i \<Longrightarrow> d ! i = px_dst s ! i"
    using cl(1,2) cl(3) ae by simp_all
  let ?s = "(phase_2 tr sc co src ?sp nt w s)\<lparr>px_pc := (px_pc s)[w := Finished]\<rparr>"
  have "phase_2 tr sc co src ?sp nt w s = s\<lparr>px_dst := d\<rparr>"
    using w(3) by (simp add: phase_2_def d_def off Let_def)
  then have s': "?s = s\<lparr>px_dst := d, px_pc := (px_pc s)[w := Finished]\<rparr>" by simp
  have "thread_ok tr sc src ?n ?t ?s v" if v: "v < ?t" for v
  proof (cases "v = w")
    case True
    have "d ! (?a + j) = run_sum tr sc src 0 (?a + j)" if "j < ?e - ?a" for j
      using d(2) [OF that] seg [OF that] p run_sum_join [OF ae(1)] by simp
    then show ?thesis using True tw(1) w dl by (simp add: thread_ok_def Let_def s')
  next
    case False
    show ?thesis
    proof (rule thread_ok_cong [of _ _ _ _ _ s])
      show "thread_ok tr sc src ?n ?t s v" using inv v by (simp add: pfx_inv_def)
      show "px_dst ?s ! i = px_dst s ! i" if "seg_start ?n ?t v \<le> i" "i < seg_start ?n ?t (Suc v)" for i
        unfolding s' using segments_disjoint [OF False that] d(3) by simp
    qed (use False in \<open>simp_all add: s'\<close>)
  qed
  moreover have "leader_ok ?t ?s"
    using inv w(3) by (auto simp: pfx_inv_def leader_ok_def s' split: pfx_pc.splits)
  moreover have "tail_ok tr sc src ?n ?t ?s"
    using inv w(3) d(3) seg_start_mono [of "Suc w" ?t ?n ?t] w(1) by (auto simp: pfx_inv_def tail_ok_def s')
  ultimately show ?thesis using inv d(1) by (simp add: pfx_inv_def s')
qed

lemma inv_phase_2_zero:
  assumes inv: "pfx_inv tr sc src (unat ns) (unat nt) s" and sz: "pfx_sizes ns nt" and w: "px_pc s ! 0 = AtPhase2"
  shows "pfx_inv tr sc src (unat ns) (unat nt)
    ((phase_2 tr sc co src (pfxsum_split ns nt (word_of_nat 0)) nt 0 s)\<lparr>px_pc := (px_pc s)[0 := Finished]\<rparr>)"
proof -
  let ?n = "unat ns" and ?t = "unat nt" and ?sp = "pfxsum_split ns nt (word_of_nat 0)"
  let ?a = "seg_start ?n ?t ?t" and ?D = "?n div (?t + 1)"
  have t: "0 < ?t" "?t < 2 ^ 63" "2 \<le> ?t" using sz by (simp_all add: pfx_sizes_def)
  note sp = pfxsum_split_nat [OF t(1,2) t(1), of ns]
  have an: "?a + ?D = ?n" by (rule seg_start_last [OF t(1)])
  have "seg_start ?n ?t (Suc 0) = ?D" using t(3) by (simp add: seg_start_def)
  then have off: "unat (phase2_ind ?sp) = ?a" "unat (phase2_sz ?sp) = ?D" using sp an by auto
  have dl: "?n \<le> length (px_dst s)" "length (px_dst s) < 2 ^ 64" "length (px_pc s) = ?t" using inv by (simp_all add: pfx_inv_def)
  have a: "0 < ?a" using seg_start_pos [OF sz t(1)] .
  have D: "0 < ?D" using sz by (simp add: pfx_sizes_def div_greater_zero_iff)
  have "px_lock s ! (?t - 1) = 2" using inv w t(1) by (simp add: pfx_inv_def leader_ok_def)
  moreover have "thread_ok tr sc src ?n ?t s (?t - 1)" using inv t(1) by (simp add: pfx_inv_def)
  ultimately have p: "px_paste s ! (?t - 1) = run_sum tr sc src 0 (?a - 1)" using t(1) by (simp add: thread_ok_def Let_def)
  have nt1: "unat (nt - 1) = ?t - 1" using unat_minus_one_u64 [of nt] t(1) by (auto simp: unat_gt_0)
  define d0 where "d0 = (px_dst s)[?a := sc (src ! ?a) (px_paste s ! (?t - 1))]"
  define d where "d = fold (\<lambda>i d. d[unat (phase2_ind ?sp + word_of_nat i) :=
      sc (src ! unat (phase2_ind ?sp + word_of_nat i)) (d ! unat (phase2_ind ?sp + word_of_nat i - 1))]) [1..<?D] d0"
  have first: "sc (src ! ?a) (px_paste s ! (?t - 1)) = run_sum tr sc src 0 ?a" unfolding p using a by (cases ?a) auto
  from serial_loop [OF _ _ _ _ d_def, of "\<lambda>j. run_sum tr sc src 0 (?a + j)"]
  have d: "length d = length (px_dst s)" "\<And>j. j < ?D \<Longrightarrow> d ! (?a + j) = run_sum tr sc src 0 (?a + j)"
    "\<And>i. i < ?a \<or> ?n \<le> i \<Longrightarrow> d ! i = px_dst s ! i"
    using dl an D first unfolding off d0_def by (auto simp: nth_list_update)
  let ?s = "s\<lparr>px_dst := d, px_pc := (px_pc s)[0 := Finished]\<rparr>"
  have "phase_2 tr sc co src ?sp nt 0 s = s\<lparr>px_dst := d\<rparr>"
    by (simp add: phase_2_def serial_pfxsum_def d_def d0_def off [simplified] nt1 Let_def)
  then have s': "(phase_2 tr sc co src ?sp nt 0 s)\<lparr>px_pc := (px_pc s)[0 := Finished]\<rparr> = ?s" by simp
  have "thread_ok tr sc src ?n ?t ?s v" if v: "v < ?t" for v
  proof -
    have tv: "thread_ok tr sc src ?n ?t s v" using inv v by (simp add: pfx_inv_def)
    have keep: "px_dst ?s ! i = px_dst s ! i" if "i < seg_start ?n ?t (Suc v)" for i
      using d(3) that seg_start_mono [of "Suc v" ?t ?n ?t] v by simp
    show ?thesis
    proof (cases "v = 0")
      case True
      then show ?thesis using tv keep w dl(3) v by (auto simp: thread_ok_def Let_def)
    next
      case False
      then show ?thesis by (intro thread_ok_cong [OF tv]) (use keep in simp_all)
    qed
  qed
  moreover have "leader_ok ?t ?s" using inv w t(1) dl(3) by (simp add: pfx_inv_def leader_ok_def)
  moreover have "tail_ok tr sc src ?n ?t ?s"
    unfolding tail_ok_def
  proof (intro impI allI)
    fix i
    assume i: "?a \<le> i \<and> i < ?n"
    then have "i - ?a < ?D" using an by arith
    with i show "px_dst ?s ! i = run_sum tr sc src 0 i"
      using d(2) [of "i - ?a"] an by simp
  qed
  ultimately show ?thesis unfolding s' using inv d(1) by (simp add: pfx_inv_def)
qed

lemma inv_step:
  assumes "pfx_step tr sc co src ns nt s s'" "pfx_inv tr sc src (unat ns) (unat nt) s" "pfx_sizes ns nt"
  shows "pfx_inv tr sc src (unat ns) (unat nt) s'"
  using assms
proof (induction rule: pfx_step.induct)
  case (step_phase_0 w s)
  then show ?case by (intro inv_phase_0)
next
  case (step_lead s)
  then show ?case by (intro inv_lead)
next
  case (step_round s i)
  then show ?case by (intro inv_round) (simp_all add: wfl_passes_def)
next
  case (step_led s i)
  then show ?case by (intro inv_led) (simp_all add: pfx_sizes_def)
next
  case (step_pass w s)
  then show ?case by (intro inv_pass) (simp_all add: wfl_passes_def)
next
  case (step_phase_2 w s)
  then show ?case using inv_phase_2_zero [of src ns nt s] by (cases "w = 0") (auto intro: inv_phase_2_other)
qed

lemma inv_steps:
  assumes "(pfx_step tr sc co src ns nt)\<^sup>*\<^sup>* s s'" "pfx_inv tr sc src (unat ns) (unat nt) s" "pfx_sizes ns nt"
  shows "pfx_inv tr sc src (unat ns) (unat nt) s'"
  using assms by (induction rule: rtranclp_induct) (auto intro: inv_step)

lemma inv_start:
  assumes "unat ns \<le> length dst" "length dst < 2 ^ 64" "unat nt \<le> length paste" "pfx_sizes ns nt"
  shows "pfx_inv tr sc src (unat ns) (unat nt) (pfx_start dst paste nt)"
  using assms by (auto simp: pfx_inv_def pfx_start_def thread_ok_def Let_def leader_ok_def tail_ok_def wfl_reset_def
      pfx_sizes_def)

text \<open>A state in which every thread has finished holds the prefix sums.\<close>

lemma finished_sums:
  assumes inv: "pfx_inv tr sc src n t s" and fin: "\<forall>w < t. px_pc s ! w = Finished" and t: "0 < t" and i: "i < n"
  shows "px_dst s ! i = run_sum tr sc src 0 i"
proof (cases "seg_start n t t \<le> i")
  case True
  then show ?thesis using inv fin t i by (simp add: pfx_inv_def tail_ok_def)
next
  case False
  define w where "w = (LEAST w. i < seg_start n t (Suc w))"
  have ex: "i < seg_start n t (Suc (t - 1))" using False t by simp
  have w: "i < seg_start n t (Suc w)" "w \<le> t - 1"
    unfolding w_def using ex by (auto intro: LeastI Least_le)
  have "seg_start n t w \<le> i"
  proof (cases w)
    case (Suc v)
    then have "\<not> i < seg_start n t (Suc v)" using not_less_Least [of v "\<lambda>w. i < seg_start n t (Suc w)"] w_def by simp
    then show ?thesis using Suc by simp
  qed simp
  then obtain j where j: "i = seg_start n t w + j" by (metis le_Suc_ex)
  have "w < t" using w t by simp
  then have "thread_ok tr sc src n t s w" "px_pc s ! w = Finished" using inv fin by (simp_all add: pfx_inv_def)
  then show ?thesis using w(1) j by (cases "w = 0") (auto simp: thread_ok_def Let_def)
qed

text \<open>As long as some thread has not finished, some thread can make a step.\<close>

lemma progress:
  assumes inv: "pfx_inv tr sc src n (unat nt) s" and v: "v < unat nt" "px_pc s ! v \<noteq> Finished"
  shows "\<exists>s'. pfx_step tr sc co src ns nt s s'"
proof (cases "\<exists>w < unat nt. px_pc s ! w = AtPhase0")
  case True
  then show ?thesis by (metis step_phase_0)
next
  case False
  have t: "0 < unat nt" using v by simp
  have lk: "px_lock s ! w = 1 \<or> px_lock s ! w = 2" if "w < unat nt" for w
    using inv that False by (auto simp: pfx_inv_def thread_ok_def Let_def)
  have l: "leader_ok (unat nt) s" using inv by (simp add: pfx_inv_def)
  show ?thesis
  proof (cases "px_pc s ! 0")
    case AtPhase0
    then show ?thesis using False t by blast
  next
    case AtPhase1
    then show ?thesis using step_lead t by metis
  next
    case (Leading i)
    show ?thesis
    proof (cases "i < unat nt")
      case True
      then have "wfl_passes 1 i (px_lock s)" using l Leading lk [OF True] by (auto simp: leader_ok_def wfl_passes_def)
      then show ?thesis using step_round [OF Leading True] by blast
    next
      case False
      then show ?thesis using step_led [OF Leading] by blast
    qed
  next
    case AtPhase2
    then show ?thesis using step_phase_2 [OF t] by metis
  next
    case Finished
    then have v0: "0 < v" using v by (cases v) auto
    have "thread_ok tr sc src n (unat nt) s v" using inv v by (simp add: pfx_inv_def)
    then have nl: "px_pc s ! v \<noteq> Leading i" for i using v0 by (simp add: thread_ok_def Let_def)
    have "wfl_passes 2 (v - 1) (px_lock s)" using l Finished v by (simp add: leader_ok_def wfl_passes_def)
    then show ?thesis
      using v v0 nl False step_pass [of v nt s] step_phase_2 [OF v(1)] by (cases "px_pc s ! v") blast+
  qed
qed

end

subsection \<open>Every run ends\<close>

fun pc_rank :: "nat \<Rightarrow> pfx_pc \<Rightarrow> nat" where
  "pc_rank t AtPhase0 = t + 5"
| "pc_rank t AtPhase1 = t + 4"
| "pc_rank t (Leading i) = t + 3 - i"
| "pc_rank t AtPhase2 = 1"
| "pc_rank t Finished = 0"

definition pfx_rank :: "nat \<Rightarrow> 'b pfx_state \<Rightarrow> nat" where
  "pfx_rank t s = sum_list (map (pc_rank t) (px_pc s))"

lemma rank_update:
  assumes "w < length pcs" "pc_rank t x < pc_rank t (pcs ! w)"
  shows "sum_list (map (pc_rank t) (pcs[w := x])) < sum_list (map (pc_rank t) pcs)"
proof -
  have "pc_rank t (pcs ! w) \<le> sum_list (map (pc_rank t) pcs)"
    using elem_le_sum_list [of w "map (pc_rank t) pcs"] assms(1) by simp
  then show ?thesis using assms by (simp add: map_update sum_list_update)
qed

lemma step_rank:
  assumes "pfx_step tr sc co src ns nt s s'" "pfx_inv tr sc src n (unat nt) s" "0 < unat nt"
  shows "pfx_rank (unat nt) s' < pfx_rank (unat nt) s"
  using assms
  by (induction rule: pfx_step.induct)
    (auto intro!: rank_update simp: pfx_rank_def pfx_inv_def leader_ok_def)

lemma finish_reachable:
  assumes "prefix_ops tr sc co" "pfx_sizes ns nt" "pfx_inv tr sc src (unat ns) (unat nt) u"
  shows "\<exists>s'. (pfx_step tr sc co src ns nt)\<^sup>*\<^sup>* u s' \<and> (\<forall>w < unat nt. px_pc s' ! w = Finished)"
  using assms(3)
proof (induction "pfx_rank (unat nt) u" arbitrary: u rule: less_induct)
  case less
  have t: "0 < unat nt" using assms(2) by (simp add: pfx_sizes_def)
  show ?case
  proof (cases "\<forall>w < unat nt. px_pc u ! w = Finished")
    case False
    then obtain u' where u': "pfx_step tr sc co src ns nt u u'" using prefix_ops.progress [OF assms(1) less.prems] by blast
    from less.hyps [OF step_rank [OF u' less.prems t] prefix_ops.inv_step [OF assms(1) u' less.prems assms(2)]]
    show ?thesis using u' by (meson converse_rtranclp_into_rtranclp)
  qed blast
qed

lemma finished_stuck:
  assumes "\<forall>w < unat nt. px_pc s ! w = Finished" "0 < unat nt"
  shows "\<nexists>s'. pfx_step tr sc co src ns nt s s'"
  using assms by (auto elim!: pfx_step.cases)

text \<open>
  C22: the parallel prefix sum computes the prefix sums. Whatever the interleaving of the threads, when the
  operations fit together (\<open>prefix_ops\<close>), there are at least two threads and more elements than threads, a state
  in which no thread can move has every thread finished, and every cell of the destination up to
  \<open>ns\<close> holds the sum of the source up to it.
\<close>

theorem prefix_sum_correct:
  assumes "prefix_ops tr sc co" "pfx_sizes ns nt"
    and "unat ns \<le> length dst" "length dst < 2 ^ 64" "unat nt \<le> length paste"
    and "(pfx_step tr sc co src ns nt)\<^sup>*\<^sup>* (pfx_start dst paste nt) s" "\<nexists>s'. pfx_step tr sc co src ns nt s s'"
  shows "(\<forall>w < unat nt. px_pc s ! w = Finished) \<and> (\<forall>i < unat ns. px_dst s ! i = run_sum tr sc src 0 i)"
proof -
  have inv: "pfx_inv tr sc src (unat ns) (unat nt) s"
    using prefix_ops.inv_steps [OF assms(1,6) prefix_ops.inv_start [OF assms(1,3-5,2)] assms(2)] .
  have fin: "\<forall>w < unat nt. px_pc s ! w = Finished"
    using prefix_ops.progress [OF assms(1) inv] assms(7) by blast
  moreover have "0 < unat nt" using assms(2) by (simp add: pfx_sizes_def)
  ultimately show ?thesis using prefix_ops.finished_sums [OF assms(1) inv] by blast
qed

text \<open>
  C23: the threads of the prefix sum never deadlock and never run forever. From the start state every sequence of
  steps has at most \<open>nt * (nt + 5)\<close> steps, and each one can be continued until all threads have finished.
\<close>

theorem prefix_sum_terminates:
  assumes "prefix_ops tr sc co" "pfx_sizes ns nt"
    and "unat ns \<le> length dst" "length dst < 2 ^ 64" "unat nt \<le> length paste"
    and "(pfx_step tr sc co src ns nt ^^ k) (pfx_start dst paste nt) s"
  shows "k \<le> unat nt * (unat nt + 5) \<and>
    (\<exists>s'. (pfx_step tr sc co src ns nt)\<^sup>*\<^sup>* s s' \<and> (\<forall>w < unat nt. px_pc s' ! w = Finished))"
proof -
  let ?step = "pfx_step tr sc co src ns nt" and ?s0 = "pfx_start dst paste nt"
  have t: "0 < unat nt" using assms(2) by (simp add: pfx_sizes_def)
  have inv0: "pfx_inv tr sc src (unat ns) (unat nt) ?s0" by (rule prefix_ops.inv_start [OF assms(1,3-5,2)])
  have runs: "pfx_inv tr sc src (unat ns) (unat nt) s \<and> k + pfx_rank (unat nt) s \<le> pfx_rank (unat nt) ?s0"
    if "(?step ^^ k) ?s0 s" for k s
    using that
  proof (induction k arbitrary: s)
    case (Suc k)
    then obtain u where u: "(?step ^^ k) ?s0 u" "?step u s" by auto
    with Suc.IH [OF u(1)] show ?case
      using prefix_ops.inv_step [OF assms(1) u(2) _ assms(2)] step_rank [OF u(2) _ t] by fastforce
  qed (simp add: inv0)
  have "pfx_rank (unat nt) ?s0 = unat nt * (unat nt + 5)"
    by (simp add: pfx_rank_def pfx_start_def sum_list_replicate)
  then have "k \<le> unat nt * (unat nt + 5)" using runs [OF assms(6)] by simp
  moreover have "\<exists>s'. ?step\<^sup>*\<^sup>* s s' \<and> (\<forall>w < unat nt. px_pc s' ! w = Finished)"
    using finish_reachable [OF assms(1,2)] runs [OF assms(6)] by blast
  ultimately show ?thesis by blast
qed

lemma example_sizes: "pfx_sizes 5 2"
  by (simp add: pfx_sizes_def)

theorem prefix_sum_correct_witness:
  "\<exists>s. (pfx_step transmute scan_op combiner [1, 2, 3, 4, 5] 5 2)\<^sup>*\<^sup>* (pfx_start [0, 0, 0, 0, 0] [0, 0] 2) s \<and>
     px_dst s ! 4 = 15 \<and> px_dst s ! 2 = 6"
proof -
  have l: "unat (5 :: u64) \<le> length [0, 0, 0, 0, 0 :: u64]" "length [0, 0, 0, 0, 0 :: u64] < 2 ^ 64"
    "unat (2 :: u64) \<le> length [0, 0 :: u64]" by simp_all
  have ops: "prefix_ops transmute scan_op combiner" by (rule edge_offsets.prefix_ops_axioms)
  from finish_reachable [OF ops example_sizes prefix_ops.inv_start [OF ops l example_sizes], of "[1, 2, 3, 4, 5]"] obtain s where
    s: "(pfx_step transmute scan_op combiner [1, 2, 3, 4, 5] 5 2)\<^sup>*\<^sup>* (pfx_start [0, 0, 0, 0, 0] [0, 0] 2) s"
      "\<forall>w < unat (2 :: u64). px_pc s ! w = Finished" by blast
  have stuck: "\<nexists>s'. pfx_step transmute scan_op combiner [1, 2, 3, 4, 5] 5 2 s s'"
    by (rule finished_stuck [OF s(2)]) simp
  from prefix_sum_correct [OF ops example_sizes l s(1) stuck] have
    "px_dst s ! i = run_sum transmute scan_op [1, 2, 3, 4, 5] 0 i" if "i < 5" for i using that by simp
  from this [of 4] this [of 2] show ?thesis
    using s(1) by (auto simp: numeral_eq_Suc transmute_def scan_op_def intro!: exI [of _ s])
qed

theorem prefix_sum_terminates_witness:
  "\<exists>s'. (pfx_step transmute scan_op combiner [1, 2, 3, 4, 5] 5 2)\<^sup>*\<^sup>* (pfx_start [0, 0, 0, 0, 0] [0, 0] 2) s' \<and>
     (\<forall>w < 2. px_pc s' ! w = Finished)"
proof -
  have l: "unat (5 :: u64) \<le> length [0, 0, 0, 0, 0 :: u64]" "length [0, 0, 0, 0, 0 :: u64] < 2 ^ 64"
    "unat (2 :: u64) \<le> length [0, 0 :: u64]" by simp_all
  have "(pfx_step transmute scan_op combiner [1, 2, 3, 4, 5] 5 2 ^^ 0) (pfx_start [0, 0, 0, 0, 0] [0, 0] 2)
      (pfx_start [0, 0, 0, 0, 0] [0, 0] 2)" by simp
  from prefix_sum_terminates [OF edge_offsets.prefix_ops_axioms example_sizes l this] show ?thesis by simp
qed

subsection \<open>A single worker\<close>

text \<open>
  With one thread, thread 0 is also the middle thread: its first segment is enlarged by the remainder, and it takes the
  enlarged size for the last segment too.
\<close>

definition single_size :: "u64 \<Rightarrow> nat" where
  "single_size ns = unat ns div 2 + unat ns mod 2"

lemma single_split:
  "phase0_ind (pfxsum_split ns 1 (word_of_nat 0)) = 0"
  "unat (phase0_sz (pfxsum_split ns 1 (word_of_nat 0))) = single_size ns"
  "unat (phase2_ind (pfxsum_split ns 1 (word_of_nat 0))) = single_size ns"
  "unat (phase2_sz (pfxsum_split ns 1 (word_of_nat 0))) = single_size ns"
proof -
  note n = pfxsum_split_nat [of 1 0 ns]
  have "unat ns - unat ns div 2 = single_size ns" unfolding single_size_def by presburger
  then show "phase0_ind (pfxsum_split ns 1 (word_of_nat 0)) = 0"
    "unat (phase0_sz (pfxsum_split ns 1 (word_of_nat 0))) = single_size ns"
    "unat (phase2_ind (pfxsum_split ns 1 (word_of_nat 0))) = single_size ns"
    "unat (phase2_sz (pfxsum_split ns 1 (word_of_nat 0))) = single_size ns"
    using n by (simp_all add: u64_eq_iff_unat single_size_def seg_start_def flip: numeral_2_eq_2)
qed

definition single_inv :: "('a \<Rightarrow> 'b) \<Rightarrow> ('a \<Rightarrow> 'b \<Rightarrow> 'b) \<Rightarrow> 'a list \<Rightarrow> 'b list \<Rightarrow> nat \<Rightarrow> 'b pfx_state \<Rightarrow> bool" where
  "single_inv tr sc src dst k s \<longleftrightarrow> length (px_dst s) = length dst \<and> px_paste s \<noteq> [] \<and> length (px_pc s) = 1 \<and>
     (let pc = px_pc s ! 0; w = (if pc = AtPhase0 then 0 else if pc = Finished then 2 * k else k) in
      (\<forall>i < w. px_dst s ! i = run_sum tr sc src 0 i) \<and> (\<forall>i. w \<le> i \<longrightarrow> px_dst s ! i = dst ! i) \<and>
      (pc \<noteq> AtPhase0 \<longrightarrow> px_paste s ! 0 = run_sum tr sc src 0 (k - 1)) \<and> (\<forall>i. pc = Leading i \<longrightarrow> 1 \<le> i))"

lemma single_phase_0:
  assumes "single_inv tr sc src dst (single_size ns) s" "px_pc s ! 0 = AtPhase0" "0 < single_size ns"
    "2 * single_size ns \<le> length dst" "length dst < 2 ^ 64"
  shows "single_inv tr sc src dst (single_size ns)
    ((phase_0 tr sc src (pfxsum_split ns 1 (word_of_nat 0)) 0 s)\<lparr>px_pc := (px_pc s)[0 := AtPhase1]\<rparr>)"
proof -
  let ?sp = "pfxsum_split ns 1 (word_of_nat 0)" and ?k = "single_size ns"
  note sp = single_split [of ns]
  define d0 where "d0 = (px_dst s)[0 := tr (src ! 0)]"
  define d where "d = serial_pfxsum False tr sc src (px_dst s) (phase0_ind ?sp) (phase0_ind ?sp) (phase0_sz ?sp)"
  have "d = fold (\<lambda>i d. d[unat (0 + word_of_nat i :: u64) :=
      sc (src ! unat (0 + word_of_nat i :: u64)) (d ! unat (0 + word_of_nat i - 1 :: u64))]) [1..<?k] d0"
    unfolding d_def serial_pfxsum_def sp(1,2) d0_def by simp
  note l = serial_loop [OF _ _ _ _ this, of "run_sum tr sc src 0"]
  have len: "length (px_dst s) = length dst" "px_dst s ! i = dst ! i" for i
    using assms(1,2) by (simp_all add: single_inv_def Let_def)
  have "px_dst s \<noteq> []" using len(1) assms(3,4) by auto
  then have "(px_dst s)[0 := tr (src ! 0)] ! 0 = tr (src ! 0)" by simp
  then have d: "length d = length dst" "\<And>j. j < ?k \<Longrightarrow> d ! j = run_sum tr sc src 0 j" "\<And>i. ?k \<le> i \<Longrightarrow> d ! i = dst ! i"
    using l len assms(3-5) by (simp_all add: d0_def nth_list_update)
  have "unat (phase0_ind ?sp + phase0_sz ?sp - 1) = ?k - 1"
    using unat_minus_one_u64 [of "phase0_sz ?sp"] sp(1,2) assms(3) by (metis add_0 less_nat_zero_code unat_0)
  then have s': "(phase_0 tr sc src ?sp 0 s)\<lparr>px_pc := (px_pc s)[0 := AtPhase1]\<rparr> =
      s\<lparr>px_dst := d, px_paste := (px_paste s)[0 := d ! (?k - 1)], px_lock := (px_lock s)[0 := 1], px_pc := (px_pc s)[0 := AtPhase1]\<rparr>"
    unfolding phase_0_def d_def Let_def wfl_done_def by simp
  show ?thesis using d assms(1,3) unfolding s' by (simp add: single_inv_def)
qed

lemma single_phase_2:
  assumes "single_inv tr sc src dst (single_size ns) s" "px_pc s ! 0 = AtPhase2" "0 < single_size ns"
    "2 * single_size ns \<le> length dst" "length dst < 2 ^ 64"
  shows "single_inv tr sc src dst (single_size ns)
    ((phase_2 tr sc co src (pfxsum_split ns 1 (word_of_nat 0)) 1 0 s)\<lparr>px_pc := (px_pc s)[0 := Finished]\<rparr>)"
proof -
  let ?sp = "pfxsum_split ns 1 (word_of_nat 0)" and ?k = "single_size ns"
  note sp = single_split [of ns]
  have s: "length (px_dst s) = length dst" "px_paste s ! 0 = run_sum tr sc src 0 (?k - 1)"
    "\<And>i. i < ?k \<Longrightarrow> px_dst s ! i = run_sum tr sc src 0 i" "\<And>i. ?k \<le> i \<Longrightarrow> px_dst s ! i = dst ! i"
    using assms(1,2) by (simp_all add: single_inv_def Let_def)
  define d0 where "d0 = (px_dst s)[?k := sc (src ! ?k) (px_paste s ! 0)]"
  define d where "d = fold (\<lambda>i d. d[unat (phase2_ind ?sp + word_of_nat i) :=
      sc (src ! unat (phase2_ind ?sp + word_of_nat i)) (d ! unat (phase2_ind ?sp + word_of_nat i - 1))]) [1..<?k] d0"
  have first: "sc (src ! ?k) (px_paste s ! 0) = run_sum tr sc src 0 ?k" unfolding s(2) using assms(3) by (cases ?k) auto
  note l = serial_loop [OF _ _ _ _ d_def, of "\<lambda>j. run_sum tr sc src 0 (?k + j)", unfolded sp]
  have d: "length d = length dst" "\<And>j. j < ?k \<Longrightarrow> d ! (?k + j) = run_sum tr sc src 0 (?k + j)"
    "\<And>i. i < ?k \<or> 2 * ?k \<le> i \<Longrightarrow> d ! i = px_dst s ! i"
    using l first s(1) assms(3-5) by (auto simp: d0_def nth_list_update mult_2)
  have run: "d ! i = run_sum tr sc src 0 i" if "i < 2 * ?k" for i
  proof (cases "i < ?k")
    case False
    then show ?thesis using d(2) [of "i - ?k"] that by simp
  qed (use d(3) s(3) in simp)
  have "phase_2 tr sc co src ?sp 1 0 s = s\<lparr>px_dst := d\<rparr>"
    by (simp add: phase_2_def serial_pfxsum_def d_def d0_def sp [simplified] Let_def)
  then show ?thesis
    using run d(1,3) s(4) assms(1,2) by (simp add: single_inv_def Let_def)
qed

lemma single_step:
  assumes "pfx_step tr sc co src ns 1 s s'" "single_inv tr sc src dst (single_size ns) s" "0 < single_size ns"
    "2 * single_size ns \<le> length dst" "length dst < 2 ^ 64"
  shows "single_inv tr sc src dst (single_size ns) s'"
  using assms
proof (induction rule: pfx_step.induct)
  case (step_phase_0 w s)
  then show ?case using single_phase_0 by simp
next
  case (step_phase_2 w s)
  then show ?case using single_phase_2 by simp
qed (auto simp: single_inv_def Let_def)

lemma single_finishes:
  assumes "length (px_pc s) = 1" "\<And>i. px_pc s ! 0 = Leading i \<Longrightarrow> 1 \<le> i"
  shows "\<exists>s'. (pfx_step tr sc co src ns 1)\<^sup>*\<^sup>* s s' \<and> px_pc s' ! 0 = Finished"
proof -
  let ?step = "pfx_step tr sc co src ns 1"
  let ?reach = "\<lambda>s. \<exists>s'. ?step\<^sup>*\<^sup>* s s' \<and> px_pc s' ! 0 = Finished"
  have via: "?reach s" if "?step s s'" "?reach s'" for s s' using that by (meson converse_rtranclp_into_rtranclp)
  have p2: "?reach s" if "px_pc s ! 0 = AtPhase2" "length (px_pc s) = 1" for s
    by (rule via [OF step_phase_2 [of 0]]) (use that in auto)
  have ld: "?reach s" if "px_pc s ! 0 = Leading i" "1 \<le> i" "length (px_pc s) = 1" for s i
    by (rule via [OF step_led [OF that(1)] p2]) (use that in auto)
  have p1: "?reach s" if "px_pc s ! 0 = AtPhase1" "length (px_pc s) = 1" for s
    by (rule via [OF step_lead ld [of _ 1]]) (use that in auto)
  have p0: "?reach s" if "px_pc s ! 0 = AtPhase0" "length (px_pc s) = 1" for s
    by (rule via [OF step_phase_0 [of 0] p1]) (use that in auto)
  show ?thesis
  proof (cases "px_pc s ! 0")
    case (Leading i)
    then show ?thesis using ld assms by blast
  qed (use p0 p1 p2 assms(1) in blast)+
qed

text \<open>
  C40: a prefix sum with a single worker finishes, and when the number of elements is odd it writes one cell too many. The cells
  that a finished run has written are those below \<open>ns + ns mod 2\<close>: cell \<open>ns\<close>, behind the last element, holds the sum that
  includes the source element behind the last one, and the cells after it are unchanged. With an even number of elements
  the run is right.
\<close>

theorem single_worker_overruns:
  assumes "0 < unat ns" "unat ns + unat ns mod 2 \<le> length dst" "length dst < 2 ^ 64" "paste \<noteq> []"
    and "(pfx_step tr sc co src ns 1)\<^sup>*\<^sup>* (pfx_start dst paste 1) s"
  shows "(\<exists>s'. (pfx_step tr sc co src ns 1)\<^sup>*\<^sup>* s s' \<and> px_pc s' ! 0 = Finished) \<and>
    (px_pc s ! 0 = Finished \<longrightarrow>
      (\<forall>i < unat ns + unat ns mod 2. px_dst s ! i = run_sum tr sc src 0 i) \<and>
      (\<forall>i. unat ns + unat ns mod 2 \<le> i \<longrightarrow> px_dst s ! i = dst ! i))"
proof -
  let ?k = "single_size ns"
  have k: "2 * ?k = unat ns + unat ns mod 2" "0 < ?k"
    unfolding single_size_def using assms(1) by presburger+
  from assms(5) have inv: "single_inv tr sc src dst ?k s"
  proof (induction rule: rtranclp_induct)
    case base
    show ?case using assms(4) by (simp add: single_inv_def pfx_start_def)
  next
    case (step u v)
    show ?case using single_step [OF step(2,3) k(2)] k(1) assms(2,3) by simp
  qed
  then have "\<exists>s'. (pfx_step tr sc co src ns 1)\<^sup>*\<^sup>* s s' \<and> px_pc s' ! 0 = Finished"
    by (intro single_finishes) (auto simp: single_inv_def Let_def)
  then show ?thesis using inv k(1) by (simp add: single_inv_def Let_def)
qed

theorem single_worker_overruns_witness:
  "\<exists>s. (pfx_step transmute scan_op combiner [1, 2, 3, 4] 3 1)\<^sup>*\<^sup>* (pfx_start [0, 0, 0, 77] [0] 1) s \<and> px_dst s ! 3 = 10"
proof -
  let ?step = "pfx_step transmute scan_op combiner [1, 2, 3, 4] 3 1" and ?s0 = "pfx_start [0, 0, 0, 77 :: u64] [0] 1"
  have h: "0 < unat (3 :: u64)" "unat (3 :: u64) + unat (3 :: u64) mod 2 \<le> length [0, 0, 0, 77 :: u64]"
    "length [0, 0, 0, 77 :: u64] < 2 ^ 64" "[0 :: u64] \<noteq> []" by simp_all
  note o = single_worker_overruns [OF h, where tr = transmute and sc = scan_op and co = combiner and src = "[1, 2, 3, 4]"]
  from o [of ?s0] obtain s where s: "?step\<^sup>*\<^sup>* ?s0 s" "px_pc s ! 0 = Finished" by blast
  then have "px_dst s ! 3 = run_sum transmute scan_op [1, 2, 3, 4] 0 3" using o [OF s(1)] by simp
  then show ?thesis using s(1) by (auto simp: numeral_eq_Suc transmute_def scan_op_def)
qed

end
