(* ===== verification/Galois_Locality.thy ===== *)
theory Galois_Locality
  imports Place_Index "HOL-Library.Signed_Division"
begin

text \<open>
  Numbering of the hardware threads and pods (\<^verbatim>\<open>pando-lib-galois/utility/locality.hpp\<close>, the static functions of
  \<^verbatim>\<open>containers/pod_local_storage.hpp\<close> and \<^verbatim>\<open>getTotalThreads\<close> of \<^verbatim>\<open>loops/do_all.hpp\<close>). The dimensions of the machine, which the code
  reads with \<^verbatim>\<open>pando::getPlaceDims()\<close> and \<^verbatim>\<open>pando::getThreadDims()\<close>, are arguments. Conversions of the signed coordinates
  to \<^verbatim>\<open>std::uint64_t\<close> extend the sign; products of two coordinates are formed in \<^verbatim>\<open>int\<close>.
\<close>

abbreviation dim_u64 :: "i8 \<Rightarrow> u64" where
  "dim_u64 x \<equiv> scast x"

abbreviation dims_core :: "Place \<Rightarrow> CoreIndex" where "dims_core p \<equiv> place_core p"
abbreviation dims_pod :: "Place \<Rightarrow> PodIndex" where "dims_pod p \<equiv> place_pod p"
abbreviation dims_node :: "Place \<Rightarrow> i64" where "dims_node p \<equiv> node_id (place_node p)"

subsection \<open>Threads\<close>

definition getThreadsPerCore :: "ThreadIndex \<Rightarrow> u64" where
  "getThreadsPerCore threadDims = dim_u64 (thread_id threadDims)"

definition getThreadsPerPod :: "Place \<Rightarrow> ThreadIndex \<Rightarrow> u64" where
  "getThreadsPerPod place threadDims =
     dim_u64 (core_x (dims_core place)) * dim_u64 (core_y (dims_core place)) * getThreadsPerCore threadDims"

definition getThreadsPerHost :: "Place \<Rightarrow> ThreadIndex \<Rightarrow> u64" where
  "getThreadsPerHost place threadDims =
     dim_u64 (pod_x (dims_pod place)) * dim_u64 (pod_y (dims_pod place)) * getThreadsPerPod place threadDims"

definition getNumThreads :: "Place \<Rightarrow> ThreadIndex \<Rightarrow> u64" where
  "getNumThreads place threadDims = dims_node place * getThreadsPerHost place threadDims"

definition getThreadIdxFromPlace :: "Place \<Rightarrow> ThreadIndex \<Rightarrow> Place \<Rightarrow> ThreadIndex \<Rightarrow> u64" where
  "getThreadIdxFromPlace placeDims threadDims place thread =
     (let threadsPerCore = dim_u64 (thread_id threadDims);
          threadsPerPod = threadsPerCore * dim_u64 (core_x (dims_core placeDims)) * dim_u64 (core_y (dims_core placeDims));
          threadsPerHost = threadsPerPod * dim_u64 (pod_x (dims_pod placeDims)) * dim_u64 (pod_y (dims_pod placeDims));
          hostIdx = dims_node place;
          podIdx = word_of_int (sint (pod_x (place_pod place)) * sint (pod_y (dims_pod placeDims)) + sint (pod_y (place_pod place)));
          coreIdx = word_of_int (sint (core_x (place_core place)) * sint (core_y (dims_core placeDims)) + sint (core_y (place_core place)));
          threadIdx = dim_u64 (thread_id thread)
      in hostIdx * threadsPerHost + podIdx * threadsPerPod + coreIdx * threadsPerCore + threadIdx)"

definition getPlaceFromThreadIdx :: "Place \<Rightarrow> ThreadIndex \<Rightarrow> u64 \<Rightarrow> Place \<times> ThreadIndex" where
  "getPlaceFromThreadIdx placeDims threadDims idx =
     (let threadsPerCore = dim_u64 (thread_id threadDims);
          threadsPerPod = threadsPerCore * dim_u64 (core_x (dims_core placeDims)) * dim_u64 (core_y (dims_core placeDims));
          threadsPerHost = threadsPerPod * dim_u64 (pod_x (dims_pod placeDims)) * dim_u64 (pod_y (dims_pod placeDims));
          node = NodeIndex (idx div threadsPerHost);
          threadPerHostIdx = idx mod threadsPerHost;
          podPerHostIdx = threadPerHostIdx div threadsPerPod;
          pod = PodIndex (ucast (podPerHostIdx div dim_u64 (pod_y (dims_pod placeDims))))
                         (ucast (podPerHostIdx mod dim_u64 (pod_y (dims_pod placeDims))));
          threadPerPodIdx = threadPerHostIdx mod threadsPerPod;
          corePerPodIdx = threadPerPodIdx div threadsPerCore;
          core = CoreIndex (ucast (corePerPodIdx div dim_u64 (core_y (dims_core placeDims))))
                           (ucast (corePerPodIdx mod dim_u64 (core_y (dims_core placeDims))));
          threadPerCoreIdx = threadPerPodIdx mod threadsPerCore
      in (Place node pod core, ThreadIndex (ucast threadPerCoreIdx)))"

text \<open>\<^verbatim>\<open>getTotalThreads\<close> of the parallel loops: the core dimensions are multiplied in \<^verbatim>\<open>uint64_t\<close>; pods are not counted.\<close>

definition getTotalThreads :: "Place \<Rightarrow> ThreadIndex \<Rightarrow> u64" where
  "getTotalThreads placeDims threadDims =
     (let coreY = dim_u64 (core_y (dims_core placeDims));
          cores = dim_u64 (core_x (dims_core placeDims)) * coreY;
          threads = dim_u64 (thread_id threadDims);
          hosts = dims_node placeDims
      in hosts * cores * threads)"

subsection \<open>Pods\<close>

text \<open>
  The number of a pod is computed in \<^verbatim>\<open>int64_t\<close>, which wraps like the word. In \<open>getPlaceFromPodIdx\<close> the number of
  pods of a host is an \<^verbatim>\<open>int\<close>, and the number within the host is narrowed to \<^verbatim>\<open>std::int16_t\<close>.
\<close>

definition getNumPods :: "Place \<Rightarrow> u64" where
  "getNumPods p = dims_node p * dim_u64 (pod_x (dims_pod p)) * dim_u64 (pod_y (dims_pod p))"

definition getCurrentPodIdx :: "Place \<Rightarrow> Place \<Rightarrow> u64" where
  "getCurrentPodIdx dim cur =
     dims_node cur * dim_u64 (pod_x (dims_pod dim)) * dim_u64 (pod_y (dims_pod dim))
     + dim_u64 (pod_x (place_pod cur)) * dim_u64 (pod_y (dims_pod dim)) + dim_u64 (pod_y (place_pod cur))"

definition getPlaceFromPodIdx :: "Place \<Rightarrow> u64 \<Rightarrow> Place" where
  "getPlaceFromPodIdx dim idx =
     (let pods = word_of_int (sint (pod_x (dims_pod dim)) * sint (pod_y (dims_pod dim)));
          node = NodeIndex (idx div pods);
          localPodIdx = ucast (idx mod pods) :: 16 word;
          dim_x = sint (pod_x (dims_pod dim))
      in Place node (PodIndex (word_of_int (sint localPodIdx sdiv dim_x)) (word_of_int (sint localPodIdx smod dim_x))) anyCore)"

subsection \<open>Machines and the positions in them\<close>

text \<open>
  The dimensions are positive and the number of threads fits in 64 bits; a position is in the machine when each
  coordinate is between 0 and its dimension.
\<close>

definition within :: "'a :: len word \<Rightarrow> 'a word \<Rightarrow> bool" where
  "within x d \<longleftrightarrow> 0 \<le> sint x \<and> sint x < sint d"

definition machine_ok :: "Place \<Rightarrow> ThreadIndex \<Rightarrow> bool" where
  "machine_ok pd td \<longleftrightarrow> 0 < sint (dims_node pd) \<and> 0 < sint (pod_x (dims_pod pd)) \<and> 0 < sint (pod_y (dims_pod pd))
     \<and> 0 < sint (core_x (dims_core pd)) \<and> 0 < sint (core_y (dims_core pd)) \<and> 0 < sint (thread_id td)
     \<and> unat (dims_node pd) * (unat (pod_x (dims_pod pd)) * unat (pod_y (dims_pod pd))
         * (unat (core_x (dims_core pd)) * unat (core_y (dims_core pd)) * unat (thread_id td))) < 2 ^ 64"

definition pod_in_machine :: "Place \<Rightarrow> Place \<Rightarrow> bool" where
  "pod_in_machine pd p \<longleftrightarrow> within (dims_node p) (dims_node pd)
     \<and> within (pod_x (place_pod p)) (pod_x (dims_pod pd)) \<and> within (pod_y (place_pod p)) (pod_y (dims_pod pd))"

definition in_machine :: "Place \<Rightarrow> ThreadIndex \<Rightarrow> Place \<times> ThreadIndex \<Rightarrow> bool" where
  "in_machine pd td pt \<longleftrightarrow> (case pt of (p, t) \<Rightarrow> pod_in_machine pd p
     \<and> within (core_x (place_core p)) (core_x (dims_core pd)) \<and> within (core_y (place_core p)) (core_y (dims_core pd))
     \<and> within (thread_id t) (thread_id td))"

lemma unat_sint:
  assumes "0 \<le> sint (x :: 'a :: len word)"
  shows "unat x = nat (sint x)"
proof -
  have "sint x < 2 ^ (LENGTH('a) - 1)" by (rule sint_lt)
  also have "\<dots> \<le> 2 ^ LENGTH('a)" by (rule power_increasing) simp_all
  finally have "take_bit LENGTH('a) (sint x) = sint x" using assms by (simp add: take_bit_int_eq_self)
  then have "uint x = sint x" by (simp only: uint_sint)
  then show ?thesis by (simp flip: nat_uint_eq)
qed

lemma sint_eq_unat:
  assumes "unat (x :: 'a :: len word) < 2 ^ (LENGTH('a) - 1)"
  shows "sint x = int (unat x)"
proof -
  have u: "int (unat x) < 2 ^ (LENGTH('a) - 1)" using assms by (rule int_less_power)
  have "sint x = signed_take_bit (LENGTH('a) - 1) (int (unat x))" by (simp add: sint_uint)
  moreover have "- (2 ^ (LENGTH('a) - 1)) \<le> int (unat x)" by (rule order_trans [of _ 0]) simp_all
  ultimately show ?thesis using u by (simp only: signed_take_bit_int_eq_self)
qed

lemma within_unat: "within x d \<Longrightarrow> unat x < unat d \<and> 0 \<le> sint x"
  using unat_sint [of x] unat_sint [of d] by (auto simp: within_def)

lemma withinI:
  assumes "0 < sint (d :: 'a :: len word)" "unat x < unat d"
  shows "within x d"
proof -
  have "unat d < 2 ^ (LENGTH('a) - 1)" using assms(1) sint_lt [of d] by (simp add: unat_sint nat_less_iff)
  then have "sint d = int (unat d)" "sint x = int (unat x)"
    using assms(2) less_trans [of "unat x" "unat d"] by (simp_all only: sint_eq_unat)
  then show ?thesis using assms(2) unfolding within_def by (simp only: of_nat_less_iff of_nat_0_le_iff simp_thms)
qed

lemma unat_i8_less: "0 \<le> sint (x :: i8) \<Longrightarrow> unat x < 128"
  using sint_lt [of x] by (simp add: unat_sint nat_less_iff)

lemma unat_dim_u64:
  assumes "0 \<le> sint (x :: i8)"
  shows "unat (dim_u64 x) = unat x"
proof -
  have "dim_u64 x = word_of_nat (unat x)" using sint_eq_unat [of x] unat_i8_less [OF assms] by (simp add: scast_eq)
  then show ?thesis using unat_i8_less [OF assms] by (simp only: unat_of_nat) simp
qed

subsection \<open>Mixed radix\<close>

lemma digits_less: "(a :: nat) < A \<Longrightarrow> b < B \<Longrightarrow> a * B + b < A * B"
proof -
  assume "a < A" "b < B"
  then have "a * B + b < Suc a * B" by simp
  also have "\<dots> \<le> A * B" using \<open>a < A\<close> by (intro mult_le_mono1) simp
  finally show ?thesis .
qed

lemma unat_ucast_i8: "unat (w :: u64) < 128 \<Longrightarrow> unat (ucast w :: i8) = unat w"
  by (simp add: unsigned_ucast_eq take_bit_nat_eq_self)

lemma word_of_int_product:
  assumes "0 \<le> sint (a :: i8)" "0 \<le> sint (b :: i8)" "0 \<le> sint (c :: i8)"
  shows "unat (word_of_int (sint a * sint b + sint c) :: u64) = unat a * unat b + unat c"
proof -
  have "sint a = int (unat a)" "sint b = int (unat b)" "sint c = int (unat c)"
    using assms by (simp_all add: sint_eq_unat unat_i8_less)
  then have "word_of_int (sint a * sint b + sint c) = (word_of_nat (unat a * unat b + unat c) :: u64)"
    by (simp only: of_int_add of_int_mult of_int_of_nat_eq of_nat_add of_nat_mult)
  moreover have "unat a * unat b \<le> unat a * 128" using unat_i8_less [of b] assms by (intro mult_le_mono2) simp
  then have "unat a * unat b + unat c < 128 * 128"
    using digits_less [of "unat a" 128 "unat c" 128] assms unat_i8_less [of a] unat_i8_less [of c] by linarith
  ultimately show ?thesis by (simp only: unat_of_nat) simp
qed

text \<open>The numbers of threads, as natural numbers.\<close>

definition core_threads :: "ThreadIndex \<Rightarrow> nat" where
  "core_threads td = unat (thread_id td)"

definition pod_threads :: "Place \<Rightarrow> ThreadIndex \<Rightarrow> nat" where
  "pod_threads pd td = unat (core_x (dims_core pd)) * unat (core_y (dims_core pd)) * core_threads td"

definition host_threads :: "Place \<Rightarrow> ThreadIndex \<Rightarrow> nat" where
  "host_threads pd td = unat (pod_x (dims_pod pd)) * unat (pod_y (dims_pod pd)) * pod_threads pd td"

lemma machine_positive:
  assumes "machine_ok pd td"
  shows "0 < unat (dims_node pd)" "0 < unat (pod_x (dims_pod pd))" "0 < unat (pod_y (dims_pod pd))"
    "0 < unat (core_x (dims_core pd))" "0 < unat (core_y (dims_core pd))" "0 < core_threads td"
    "0 < pod_threads pd td" "0 < host_threads pd td" "unat (dims_node pd) * host_threads pd td < 2 ^ 64"
  using assms by (auto simp: machine_ok_def core_threads_def pod_threads_def host_threads_def unat_gt_0)

lemma unat_getThreads:
  assumes "machine_ok pd td"
  shows "unat (getThreadsPerCore td) = core_threads td" "unat (getThreadsPerPod pd td) = pod_threads pd td"
    "unat (getThreadsPerHost pd td) = host_threads pd td"
    "unat (getNumThreads pd td) = unat (dims_node pd) * host_threads pd td"
proof -
  note pos = machine_positive [OF assms]
  note dims = assms [unfolded machine_ok_def, THEN conjunct2]
  show c: "unat (getThreadsPerCore td) = core_threads td"
    using assms by (simp add: getThreadsPerCore_def core_threads_def unat_dim_u64 machine_ok_def)
  have hs: "host_threads pd td < 2 ^ 64"
    using pos(1,9) by (cases "unat (dims_node pd)") auto
  then have h: "unat (pod_x (dims_pod pd)) * unat (pod_y (dims_pod pd)) * pod_threads pd td < 2 ^ 64"
    by (simp add: host_threads_def)
  have "pod_threads pd td \<le> host_threads pd td" using pos by (simp add: host_threads_def)
  then have p: "unat (core_x (dims_core pd)) * unat (core_y (dims_core pd)) * core_threads td < 2 ^ 64"
    using hs unfolding pod_threads_def by (rule order.strict_trans1)
  have small: "unat a * unat b < 2 ^ 64" if "0 < sint a" "0 < sint b" for a b :: i8
    using unat_i8_less [of a] unat_i8_less [of b] that mult_strict_mono [of "unat a" 128 "unat b" 128] by simp
  show "unat (getThreadsPerPod pd td) = pod_threads pd td"
    using p c small dims by (simp add: getThreadsPerPod_def pod_threads_def unat_mult_no_wrap unat_dim_u64)
  then show "unat (getThreadsPerHost pd td) = host_threads pd td"
    using h small dims by (simp add: getThreadsPerHost_def host_threads_def unat_mult_no_wrap unat_dim_u64)
  then show "unat (getNumThreads pd td) = unat (dims_node pd) * host_threads pd td"
    using pos(9) by (simp add: getNumThreads_def unat_mult_no_wrap)
qed

lemma threads_per_factors:
  "dim_u64 (thread_id td) = getThreadsPerCore td"
  "getThreadsPerCore td * dim_u64 (core_x (dims_core pd)) * dim_u64 (core_y (dims_core pd)) = getThreadsPerPod pd td"
  "getThreadsPerPod pd td * dim_u64 (pod_x (dims_pod pd)) * dim_u64 (pod_y (dims_pod pd)) = getThreadsPerHost pd td"
  by (simp_all add: getThreadsPerCore_def getThreadsPerPod_def getThreadsPerHost_def mult.commute mult.left_commute)

lemma unat_digits:
  fixes a b c d H P T :: u64
  assumes "unat a * unat H + (unat b * unat P + (unat c * unat T + unat d)) < 2 ^ 64"
  shows "unat (a * H + b * P + c * T + d) = unat a * unat H + (unat b * unat P + (unat c * unat T + unat d))"
  using assms by (simp add: unat_add_no_wrap unat_mult_no_wrap)

text \<open>
  The number of a thread in the machine is the mixed radix number of its host, its pod in the host, its core in the
  pod and its thread in the core.
\<close>

lemma unat_getThreadIdxFromPlace:
  assumes m: "machine_ok pd td" and t: "in_machine pd td (p, t)"
  defines "pod \<equiv> unat (pod_x (place_pod p)) * unat (pod_y (dims_pod pd)) + unat (pod_y (place_pod p))"
    and "core \<equiv> unat (core_x (place_core p)) * unat (core_y (dims_core pd)) + unat (core_y (place_core p))"
  shows "unat (getThreadIdxFromPlace pd td p t)
      = unat (dims_node p) * host_threads pd td + (pod * pod_threads pd td + (core * core_threads td + unat (thread_id t)))"
    "pod < unat (pod_x (dims_pod pd)) * unat (pod_y (dims_pod pd))"
    "core < unat (core_x (dims_core pd)) * unat (core_y (dims_core pd))"
    "unat (thread_id t) < core_threads td" "unat (dims_node p) < unat (dims_node pd)"
proof -
  note w = t [unfolded in_machine_def pod_in_machine_def prod.case] 
  show pod: "pod < unat (pod_x (dims_pod pd)) * unat (pod_y (dims_pod pd))"
    and core: "core < unat (core_x (dims_core pd)) * unat (core_y (dims_core pd))"
    using w by (auto simp: pod_def core_def dest!: within_unat intro!: digits_less)
  show th: "unat (thread_id t) < core_threads td" and h: "unat (dims_node p) < unat (dims_node pd)"
    using w by (auto simp: core_threads_def dest!: within_unat)
  have nonneg: "0 \<le> sint (pod_x (place_pod p))" "0 \<le> sint (pod_y (place_pod p))" "0 \<le> sint (core_x (place_core p))"
      "0 \<le> sint (core_y (place_core p))" "0 \<le> sint (thread_id t)"
      "0 \<le> sint (pod_y (dims_pod pd))" "0 \<le> sint (core_y (dims_core pd))"
    using w m by (auto simp: machine_ok_def dest!: within_unat)
  let ?c = "core * core_threads td + unat (thread_id t)"
  have c: "?c < pod_threads pd td" unfolding pod_threads_def by (rule digits_less [OF core th])
  let ?p = "pod * pod_threads pd td + ?c"
  have pp: "?p < host_threads pd td" unfolding host_threads_def by (rule digits_less [OF pod c])
  let ?h = "unat (dims_node p) * host_threads pd td + ?p"
  have "?h < 2 ^ 64" using digits_less [OF h pp] machine_positive(9) [OF m] by (rule less_trans)
  moreover note word_of_int_product [OF nonneg(1,6,2), folded pod_def]
    word_of_int_product [OF nonneg(3,7,4), folded core_def] unat_dim_u64 [OF nonneg(5)] unat_getThreads(1-3) [OF m]
  ultimately show "unat (getThreadIdxFromPlace pd td p t) = ?h"
    unfolding getThreadIdxFromPlace_def Let_def threads_per_factors(1) [of td] threads_per_factors(2,3)
    by (metis unat_digits)
qed

lemma digit_bounds: "(x :: nat) < A * B * C \<Longrightarrow> x div C div B < A"
  by (metis less_mult_imp_div_less mult.commute mult.assoc)

text \<open>The coordinates of a number, with their bounds.\<close>

lemma unat_getPlaceFromThreadIdx:
  assumes m: "machine_ok pd td" and r: "getPlaceFromThreadIdx pd td idx = (p, t)"
  defines "h \<equiv> unat idx mod host_threads pd td" and "c \<equiv> unat idx mod host_threads pd td mod pod_threads pd td"
  shows "unat (dims_node p) = unat idx div host_threads pd td"
    "unat (pod_x (place_pod p)) = h div pod_threads pd td div unat (pod_y (dims_pod pd))"
    "unat (pod_y (place_pod p)) = h div pod_threads pd td mod unat (pod_y (dims_pod pd))"
    "unat (core_x (place_core p)) = c div core_threads td div unat (core_y (dims_core pd))"
    "unat (core_y (place_core p)) = c div core_threads td mod unat (core_y (dims_core pd))"
    "unat (thread_id t) = c mod core_threads td"
    "h div pod_threads pd td div unat (pod_y (dims_pod pd)) < unat (pod_x (dims_pod pd))"
    "c div core_threads td div unat (core_y (dims_core pd)) < unat (core_x (dims_core pd))"
proof -
  note pos = machine_positive [OF m]
  have "h < host_threads pd td" "c < pod_threads pd td" using pos by (simp_all add: h_def c_def)
  then show px: "h div pod_threads pd td div unat (pod_y (dims_pod pd)) < unat (pod_x (dims_pod pd))"
    and cx: "c div core_threads td div unat (core_y (dims_core pd)) < unat (core_x (dims_core pd))"
    by (auto simp: host_threads_def [of pd td] pod_threads_def [of pd td] intro!: digit_bounds)
  have nonneg: "0 \<le> sint (pod_x (dims_pod pd))" "0 \<le> sint (pod_y (dims_pod pd))" "0 \<le> sint (core_x (dims_core pd))"
      "0 \<le> sint (core_y (dims_core pd))" "0 \<le> sint (thread_id td)"
    using m by (simp_all add: machine_ok_def)
  note small = nonneg [THEN unat_i8_less]
  note p = r [unfolded getPlaceFromThreadIdx_def Let_def threads_per_factors, THEN sym]
  have py: "h div pod_threads pd td mod unat (pod_y (dims_pod pd)) < 128"
      "c div core_threads td mod unat (core_y (dims_core pd)) < 128" "c mod core_threads td < 128"
    using pos small by (auto intro: less_trans [OF mod_less_divisor] simp: core_threads_def)
  note lt = px [THEN less_trans, OF small(1)] cx [THEN less_trans, OF small(3)] py
  note facts = unat_ucast_i8 unat_div unat_mod unat_getThreads(1-3) [OF m] nonneg [THEN unat_dim_u64]
  show "unat (dims_node p) = unat idx div host_threads pd td" using p by (simp add: facts)
  show "unat (pod_x (place_pod p)) = h div pod_threads pd td div unat (pod_y (dims_pod pd))"
    "unat (pod_y (place_pod p)) = h div pod_threads pd td mod unat (pod_y (dims_pod pd))"
    using p lt by (simp_all add: facts h_def)
  show "unat (core_x (place_core p)) = c div core_threads td div unat (core_y (dims_core pd))"
    "unat (core_y (place_core p)) = c div core_threads td mod unat (core_y (dims_core pd))"
    "unat (thread_id t) = c mod core_threads td"
    using p lt by (simp_all add: facts c_def)
qed

lemma getPlaceFromThreadIdx_in_machine:
  assumes m: "machine_ok pd td" and idx: "idx < getNumThreads pd td"
  shows "in_machine pd td (getPlaceFromThreadIdx pd td idx)"
proof -
  obtain p t where r: "getPlaceFromThreadIdx pd td idx = (p, t)" by fastforce
  note u = unat_getPlaceFromThreadIdx [OF m r] and pos = machine_positive [OF m]
  have "unat idx < unat (dims_node pd) * host_threads pd td"
    using idx unat_getThreads(4) [OF m] by (simp add: word_less_nat_alt)
  then have "unat (dims_node p) < unat (dims_node pd)" unfolding u(1) by (rule less_mult_imp_div_less)
  moreover have "unat (pod_y (place_pod p)) < unat (pod_y (dims_pod pd))"
      "unat (core_y (place_core p)) < unat (core_y (dims_core pd))" "unat (thread_id t) < unat (thread_id td)"
    using pos unfolding u(3,5,6) by (simp_all add: core_threads_def)
  ultimately show ?thesis
    using m u(7,8) u(2,4) unfolding r in_machine_def pod_in_machine_def machine_ok_def prod.case
    by (intro conjI withinI) simp_all
qed

lemma place_unat_eqI:
  assumes "unat (dims_node p) = unat (dims_node q)" "unat (pod_x (place_pod p)) = unat (pod_x (place_pod q))"
    "unat (pod_y (place_pod p)) = unat (pod_y (place_pod q))" "unat (core_x (place_core p)) = unat (core_x (place_core q))"
    "unat (core_y (place_core p)) = unat (core_y (place_core q))"
  shows "p = q"
  using assms by (auto intro!: Place.expand NodeIndex.expand PodIndex.expand CoreIndex.expand simp: word_unat_eq_iff)

lemma digit_divmod: "(b :: nat) < B \<Longrightarrow> (a * B + b) div B = a" "b < B \<Longrightarrow> (a * B + b) mod B = b"
  by simp_all

lemma place_of_index:
  assumes m: "machine_ok pd td" and t: "in_machine pd td (p, t)"
  shows "getPlaceFromThreadIdx pd td (getThreadIdxFromPlace pd td p t) = (p, t)"
proof -
  obtain q u where r: "getPlaceFromThreadIdx pd td (getThreadIdxFromPlace pd td p t) = (q, u)" by fastforce
  note i = unat_getThreadIdxFromPlace [OF m t] and q = unat_getPlaceFromThreadIdx [OF m r]
  note c = digits_less [OF i(3,4), folded pod_threads_def]
  note h = digits_less [OF i(2) c, folded host_threads_def]
  have y: "unat (pod_y (place_pod p)) < unat (pod_y (dims_pod pd))"
      "unat (core_y (place_core p)) < unat (core_y (dims_core pd))"
    using t by (auto simp: in_machine_def pod_in_machine_def dest!: within_unat)
  note q' = q(1-6) [unfolded i(1) digit_divmod [OF h] digit_divmod [OF c] digit_divmod [OF i(4)] digit_divmod [OF y(1)]
      digit_divmod [OF y(2)]]
  have "q = p" by (rule place_unat_eqI) (fact q')+
  moreover have "u = t" using q'(6) by (intro ThreadIndex.expand) (simp add: word_unat_eq_iff)
  ultimately show ?thesis by (simp add: r)
qed

lemma index_of_place:
  assumes m: "machine_ok pd td" and idx: "idx < getNumThreads pd td" and r: "getPlaceFromThreadIdx pd td idx = (p, t)"
  shows "getThreadIdxFromPlace pd td p t = idx"
proof -
  have t: "in_machine pd td (p, t)" using getPlaceFromThreadIdx_in_machine [OF m idx] by (simp add: r)
  have "unat (getThreadIdxFromPlace pd td p t) = unat idx"
    unfolding unat_getThreadIdxFromPlace(1) [OF m t] unat_getPlaceFromThreadIdx(1-6) [OF m r] by (simp only: div_mult_mod_eq)
  then show ?thesis by (simp add: word_unat_eq_iff)
qed

lemma index_less:
  assumes m: "machine_ok pd td" and t: "in_machine pd td (p, t)"
  shows "getThreadIdxFromPlace pd td p t < getNumThreads pd td"
proof -
  note i = unat_getThreadIdxFromPlace [OF m t]
  note c = digits_less [OF i(3,4), folded pod_threads_def]
  note h = digits_less [OF i(2) c, folded host_threads_def]
  show ?thesis using digits_less [OF i(5) h] by (simp add: word_less_nat_alt i(1) unat_getThreads(4) [OF m])
qed

text \<open>
  C19: In every machine whose number of hardware threads fits in 64 bits, \<^verbatim>\<open>getThreadIdxFromPlace\<close> and
  \<^verbatim>\<open>getPlaceFromThreadIdx\<close> are inverse bijections between the threads of the machine and the numbers below
  \<^verbatim>\<open>getNumThreads()\<close>.
\<close>

theorem thread_index_roundtrip:
  assumes "machine_ok pd td"
  shows "bij_betw (\<lambda>(p, t). getThreadIdxFromPlace pd td p t) {pt. in_machine pd td pt} {..<getNumThreads pd td} \<and>
    (\<forall>pt. in_machine pd td pt \<longrightarrow> getPlaceFromThreadIdx pd td (case pt of (p, t) \<Rightarrow> getThreadIdxFromPlace pd td p t) = pt)"
proof (intro conjI bij_betw_byWitness [where f' = "getPlaceFromThreadIdx pd td"] ballI allI impI)
  show "(\<lambda>(p, t). getThreadIdxFromPlace pd td p t) ` {pt. in_machine pd td pt} \<subseteq> {..<getNumThreads pd td}"
    using index_less [OF assms] by auto
qed (auto simp: place_of_index [OF assms] getPlaceFromThreadIdx_in_machine [OF assms] intro: index_of_place [OF assms]
  split: prod.split)

definition example_dims :: "Place \<times> ThreadIndex" where
  "example_dims = (Place (NodeIndex 4) (PodIndex 1 2) (CoreIndex 8 8), ThreadIndex 16)"

theorem thread_index_roundtrip_witness:
  "(case example_dims of (pd, td) \<Rightarrow> machine_ok pd td \<and>
     bij_betw (\<lambda>(p, t). getThreadIdxFromPlace pd td p t) {pt. in_machine pd td pt} {..<getNumThreads pd td} \<and>
     in_machine pd td (Place (NodeIndex 3) (PodIndex 0 1) (CoreIndex 7 2), ThreadIndex 5) \<and>
     getThreadIdxFromPlace pd td (Place (NodeIndex 3) (PodIndex 0 1) (CoreIndex 7 2)) (ThreadIndex 5) = 8101)"
proof -
  have "machine_ok (fst example_dims) (snd example_dims)" by (simp add: machine_ok_def example_dims_def)
  from thread_index_roundtrip [OF this] this show ?thesis
    by (simp add: example_dims_def in_machine_def pod_in_machine_def within_def getThreadIdxFromPlace_def)
qed

subsection \<open>Pods of a machine\<close>

lemma unat_getCurrentPodIdx:
  assumes m: "machine_ok pd td" and c: "pod_in_machine pd cur"
  defines "X \<equiv> unat (pod_x (dims_pod pd))" and "Y \<equiv> unat (pod_y (dims_pod pd))"
  shows "unat (getCurrentPodIdx pd cur) = unat (dims_node cur) * (X * Y)
      + (unat (pod_x (place_pod cur)) * Y + unat (pod_y (place_pod cur)))"
    "unat (pod_x (place_pod cur)) * Y + unat (pod_y (place_pod cur)) < X * Y"
proof -
  note w = c [unfolded pod_in_machine_def]
  show l: "unat (pod_x (place_pod cur)) * Y + unat (pod_y (place_pod cur)) < X * Y"
    using w by (auto simp: X_def Y_def dest!: within_unat intro!: digits_less)
  have "unat (dims_node cur) < unat (dims_node pd)" using w by (auto dest: within_unat)
  from digits_less [OF this l] have "unat (dims_node cur) * (X * Y)
      + (unat (pod_x (place_pod cur)) * Y + unat (pod_y (place_pod cur))) < unat (dims_node pd) * (X * Y)" .
  also have "\<dots> \<le> unat (dims_node pd) * host_threads pd td"
    using machine_positive(7) [OF m] by (simp add: host_threads_def X_def Y_def)
  also have "\<dots> < 2 ^ 64" by (rule machine_positive(9) [OF m])
  finally have b: "unat (dims_node cur) * (X * Y)
      + (unat (pod_x (place_pod cur)) * Y + unat (pod_y (place_pod cur))) < 2 ^ 64" .
  have nonneg: "0 \<le> sint (pod_x (dims_pod pd))" "0 \<le> sint (pod_y (dims_pod pd))"
      "0 \<le> sint (pod_x (place_pod cur))" "0 \<le> sint (pod_y (place_pod cur))"
    using w m by (auto simp: machine_ok_def dest!: within_unat)
  have XY: "unat (dim_u64 (pod_x (dims_pod pd)) * dim_u64 (pod_y (dims_pod pd))) = X * Y"
    using unat_i8_less [OF nonneg(1)] unat_i8_less [OF nonneg(2)] nonneg
      mult_strict_mono [of "unat (pod_x (dims_pod pd))" 128 "unat (pod_y (dims_pod pd))" 128]
    by (simp add: unat_mult_no_wrap unat_dim_u64 X_def Y_def)
  show "unat (getCurrentPodIdx pd cur) = unat (dims_node cur) * (X * Y)
      + (unat (pod_x (place_pod cur)) * Y + unat (pod_y (place_pod cur)))"
    using b nonneg unat_digits [of "dims_node cur" "dim_u64 (pod_x (dims_pod pd)) * dim_u64 (pod_y (dims_pod pd))"
        "dim_u64 (pod_x (place_pod cur))" "dim_u64 (pod_y (dims_pod pd))" 0 0 "dim_u64 (pod_y (place_pod cur))"]
    by (simp add: getCurrentPodIdx_def XY unat_dim_u64 mult.assoc flip: Y_def)
qed

lemma nonneg_signed_division:
  "int a sdiv int b = int (a div b)" "int a smod int b = int (a mod b)"
  by (simp_all add: signed_divide_int_def signed_modulo_int_def sgn_if zdiv_int zmod_int)

lemma unat_getPlaceFromPodIdx:
  assumes m: "machine_ok pd td"
  defines "X \<equiv> unat (pod_x (dims_pod pd))" and "Y \<equiv> unat (pod_y (dims_pod pd))"
  shows "getPlaceFromPodIdx pd idx = Place (NodeIndex (word_of_nat (unat idx div (X * Y))))
     (PodIndex (word_of_nat (unat idx mod (X * Y) div X)) (word_of_nat (unat idx mod (X * Y) mod X))) anyCore"
proof -
  have nonneg: "0 \<le> sint (pod_x (dims_pod pd))" "0 \<le> sint (pod_y (dims_pod pd))"
    using m by (auto simp: machine_ok_def)
  have pos: "0 < X" "0 < Y" "X < 128" "Y < 128"
    using machine_positive [OF m] nonneg [THEN unat_i8_less] by (simp_all add: X_def Y_def)
  have XY: "X * Y < 128 * 128" using pos by (intro mult_strict_mono) simp_all
  have sx: "sint (pod_x (dims_pod pd)) = int X" "sint (pod_y (dims_pod pd)) = int Y"
    unfolding X_def Y_def using nonneg [THEN unat_i8_less] by (simp_all add: sint_eq_unat)
  have "unat (word_of_nat (X * Y) :: u64) = X * Y" using XY by (simp only: unat_of_nat) simp
  then have pods: "unat (word_of_int (int X * int Y) :: u64) = X * Y" by (simp only: of_int_mult of_int_of_nat_eq of_nat_mult)
  let ?l = "unat idx mod (X * Y)"
  have l: "?l < 128 * 128" using XY pos by (intro less_trans [OF mod_less_divisor]) simp_all
  have u: "unat (ucast (idx mod word_of_int (int X * int Y)) :: 16 word) = ?l"
    using l by (simp only: unsigned_ucast_eq unat_mod pods) (simp add: take_bit_nat_eq_self)
  have "?l < 2 ^ (LENGTH(16) - 1)" using l by simp
  then have "sint (ucast (idx mod word_of_int (int X * int Y)) :: 16 word) = int ?l" unfolding u [symmetric] by (rule sint_eq_unat)
  moreover have "idx div word_of_int (int X * int Y) = word_of_nat (unat idx div (X * Y))"
    by (rule word_of_nat_eqI) (simp only: unat_div pods)
  ultimately show ?thesis
    unfolding getPlaceFromPodIdx_def Let_def sx nonneg_signed_division by (simp only: nonneg_signed_division of_int_of_nat_eq)
qed

lemma pod_decode:
  assumes m: "machine_ok pd td" and c: "pod_in_machine pd cur"
  defines "X \<equiv> unat (pod_x (dims_pod pd))" and "Y \<equiv> unat (pod_y (dims_pod pd))"
  defines "k \<equiv> unat (pod_x (place_pod cur)) * Y + unat (pod_y (place_pod cur))"
  shows "getPlaceFromPodIdx pd (getCurrentPodIdx pd cur) =
    Place (place_node cur) (PodIndex (word_of_nat (k div X)) (word_of_nat (k mod X))) anyCore"
proof -
  note i = unat_getCurrentPodIdx [OF m c, folded X_def Y_def, folded k_def]
  have "NodeIndex (dims_node cur) = place_node cur" by simp
  then show ?thesis
    unfolding unat_getPlaceFromPodIdx [OF m, folded X_def Y_def] i(1) digit_divmod [OF i(2)] by simp
qed

text \<open>
  C21: The pods are numbered along the second coordinate and read back along the first: the numbers of
  \<^verbatim>\<open>getCurrentPodIdx\<close> are decoded by \<^verbatim>\<open>getPlaceFromPodIdx\<close> to the pods they came from exactly on the machines with as
  many rows as columns of pods.
\<close>

theorem pod_index_roundtrip:
  assumes "machine_ok pd td"
  shows "(\<forall>cur. pod_in_machine pd cur \<longrightarrow>
      getPlaceFromPodIdx pd (getCurrentPodIdx pd cur) = Place (place_node cur) (place_pod cur) anyCore)
    \<longleftrightarrow> pod_x (dims_pod pd) = pod_y (dims_pod pd)"
proof
  let ?X = "unat (pod_x (dims_pod pd))" and ?Y = "unat (pod_y (dims_pod pd))"
  note pos = machine_positive [OF assms]
  assume all: "\<forall>cur. pod_in_machine pd cur \<longrightarrow>
    getPlaceFromPodIdx pd (getCurrentPodIdx pd cur) = Place (place_node cur) (place_pod cur) anyCore"
  have dec: "word_of_nat ((unat x * ?Y + unat y) div ?X) = x \<and> word_of_nat ((unat x * ?Y + unat y) mod ?X) = y"
    if "unat x < ?X" "unat y < ?Y" for x y :: i8
  proof -
    let ?cur = "Place (NodeIndex 0) (PodIndex x y) anyCore"
    have "pod_in_machine pd ?cur" using assms that pos by (auto simp: pod_in_machine_def machine_ok_def intro!: withinI)
    from all [rule_format, OF this] pod_decode [OF assms this] show ?thesis by simp
  qed
  show "pod_x (dims_pod pd) = pod_y (dims_pod pd)"
  proof (rule ccontr)
    assume "pod_x (dims_pod pd) \<noteq> pod_y (dims_pod pd)"
    then consider "?X < ?Y" | "?Y < ?X" by (metis linorder_neqE_nat word_unat_eq_iff)
    then show False
    proof cases
      case 1
      then show False using dec [of 0 "pod_x (dims_pod pd)"] pos by simp
    next
      case 2
      then show False using dec [of 1 0] pos by simp
    qed
  qed
next
  assume sq: "pod_x (dims_pod pd) = pod_y (dims_pod pd)"
  have "getPlaceFromPodIdx pd (getCurrentPodIdx pd cur) = Place (place_node cur) (place_pod cur) anyCore"
    if c: "pod_in_machine pd cur" for cur
  proof -
    have "unat (pod_y (place_pod cur)) < unat (pod_y (dims_pod pd))"
      using c by (auto simp: pod_in_machine_def dest: within_unat)
    then show ?thesis unfolding pod_decode [OF assms c] sq digit_divmod by (simp add: PodIndex.expand)
  qed
  then show "\<forall>cur. pod_in_machine pd cur \<longrightarrow>
    getPlaceFromPodIdx pd (getCurrentPodIdx pd cur) = Place (place_node cur) (place_pod cur) anyCore" by blast
qed

theorem pod_index_roundtrip_witness:
  "machine_ok (fst example_dims) (snd example_dims) \<and>
   (\<exists>cur. pod_in_machine (fst example_dims) cur \<and> getPlaceFromPodIdx (fst example_dims) (getCurrentPodIdx (fst example_dims) cur)
      \<noteq> Place (place_node cur) (place_pod cur) anyCore)"
proof -
  have m: "machine_ok (fst example_dims) (snd example_dims)" by (simp add: machine_ok_def example_dims_def)
  have "pod_x (dims_pod (fst example_dims)) \<noteq> pod_y (dims_pod (fst example_dims))" by (simp add: example_dims_def)
  with pod_index_roundtrip [OF m] m show ?thesis by blast
qed

end
