(* ===== verification/Do_All.thy ===== *)
theory Do_All
  imports Galois_Locality Wait_Group "HOL-Library.Multiset"
begin

text \<open>
  The parallel loops (\<^verbatim>\<open>pando-lib-galois/loops/do_all.hpp\<close>). A loop announces its tasks on a wait group, starts each
  with \<^verbatim>\<open>pando::executeOn\<close> on a place the scheduler chooses, and the caller waits for the group. The loop in the calling
  thread is a function that gives the operations it performs, in order, and its status; the results of the calls of
  \<^verbatim>\<open>executeOn\<close> are an argument, and so is the number the random policies draw. The tasks run interleaved with each other
  and with the loop: the body of a task is a sequence of actions on the shared data, \<open>exec x\<close> being one action, and
  each action is a step of the system.
\<close>

subsection \<open>Schedulers\<close>

datatype SchedulerPolicy = RANDOM | UNSAFE_STRIPE | CORE_STRIPE | NODE_ONLY | NAIVE

record LoopLocalSchedulerStruct =
  lastThreadIdx :: u64
  lastCoreIdx :: u64

definition loopLocal_start :: LoopLocalSchedulerStruct where
  "loopLocal_start = \<lparr>lastThreadIdx = 0, lastCoreIdx = 0\<rparr>"

record machine =
  mc_placeDims :: Place
  mc_threadDims :: ThreadIndex
  mc_currentNode :: NodeIndex

definition schedulerImpl ::
  "machine \<Rightarrow> SchedulerPolicy \<Rightarrow> i8 \<Rightarrow> Place \<Rightarrow> LoopLocalSchedulerStruct \<Rightarrow> Place \<times> LoopLocalSchedulerStruct" where
  "schedulerImpl mc policy draw preferredLocality loopLocal =
     (case policy of
        RANDOM \<Rightarrow> (Place (place_node preferredLocality) anyPod (CoreIndex draw 0), loopLocal)
      | UNSAFE_STRIPE \<Rightarrow>
          (let last = lastThreadIdx loopLocal + 1;
               threadIdx = last mod getNumThreads (mc_placeDims mc) (mc_threadDims mc)
           in (fst (getPlaceFromThreadIdx (mc_placeDims mc) (mc_threadDims mc) threadIdx), loopLocal\<lparr>lastThreadIdx := last\<rparr>))
      | CORE_STRIPE \<Rightarrow>
          (let last = lastCoreIdx loopLocal + 1;
               coreIdx = last mod dim_u64 (core_x (dims_core (mc_placeDims mc)))
           in (Place (place_node preferredLocality) anyPod (CoreIndex (ucast coreIdx) 0), loopLocal\<lparr>lastCoreIdx := last\<rparr>))
      | NODE_ONLY \<Rightarrow> (Place (place_node preferredLocality) anyPod anyCore, loopLocal)
      | NAIVE \<Rightarrow> (Place (mc_currentNode mc) anyPod (CoreIndex draw 0), loopLocal))"

subsection \<open>The loops of the calling thread\<close>

datatype 'it loop_op = AddOp u32 | SpawnOp 'it Place | DoneOp

text \<open>
  A range has the elements from \<^verbatim>\<open>begin()\<close> to \<^verbatim>\<open>end()\<close> and answers \<^verbatim>\<open>size()\<close>. \<open>place_of\<close> gives the place of a task and the state of
  the scheduler afterwards. When \<^verbatim>\<open>executeOn\<close> fails the tasks that have not been started are taken off the group.
\<close>

record 'it range =
  r_elems :: "'it list"
  r_size :: u64

fun doAll_loop ::
  "(u64 \<Rightarrow> Place \<Rightarrow> Status) \<Rightarrow> ('l \<Rightarrow> 'it \<Rightarrow> Place \<times> 'l) \<Rightarrow> u64 \<Rightarrow> u64 \<Rightarrow> 'l \<Rightarrow> 'it list \<Rightarrow> 'it loop_op list \<times> Status" where
  "doAll_loop executeOn place_of rsize iter l [] = ([], Success)"
| "doAll_loop executeOn place_of rsize iter l (cur # rest) =
     (let (nodePlace, l') = place_of l cur;
          err = executeOn iter nodePlace
      in if err \<noteq> Success then (replicate (unat rsize - unat iter) DoneOp, err)
         else let (ops, err') = doAll_loop executeOn place_of rsize (iter + 1) l' rest
              in (SpawnOp cur nodePlace # ops, err'))"

definition doAll_locality ::
  "(u64 \<Rightarrow> Place \<Rightarrow> Status) \<Rightarrow> ('it \<Rightarrow> Place) \<Rightarrow> 'it range \<Rightarrow> 'it loop_op list \<times> Status" where
  "doAll_locality executeOn localityFunc rng =
     (let (ops, err) = doAll_loop executeOn (\<lambda>l cur. (localityFunc cur, l)) (r_size rng) 0 () (r_elems rng)
      in (AddOp (ucast (r_size rng)) # ops, err))"

definition doAllExplicitPolicy ::
  "machine \<Rightarrow> SchedulerPolicy \<Rightarrow> (u64 \<Rightarrow> Place \<Rightarrow> Status) \<Rightarrow> ('it \<Rightarrow> i8) \<Rightarrow> ('it \<Rightarrow> Place) \<Rightarrow> 'it range \<Rightarrow> 'it loop_op list \<times> Status" where
  "doAllExplicitPolicy mc policy executeOn draw localityOf rng =
     (let (ops, err) = doAll_loop executeOn (\<lambda>loopLocal cur. schedulerImpl mc policy (draw cur) (localityOf cur) loopLocal)
            (r_size rng) 0 loopLocal_start (r_elems rng)
      in (AddOp (ucast (r_size rng)) # ops, err))"

text \<open>\<^verbatim>\<open>doAll\<close> runs with the policy chosen when the library is built, \<^verbatim>\<open>RANDOM\<close> by default.\<close>

definition doAll ::
  "machine \<Rightarrow> SchedulerPolicy \<Rightarrow> (u64 \<Rightarrow> Place \<Rightarrow> Status) \<Rightarrow> ('it \<Rightarrow> i8) \<Rightarrow> ('it \<Rightarrow> Place) \<Rightarrow> 'it range \<Rightarrow> 'it loop_op list \<times> Status" where
  "doAll mc current_policy executeOn draw localityOf rng =
     doAllExplicitPolicy mc current_policy executeOn draw localityOf rng"

definition assignedHost :: "Place \<Rightarrow> u64 \<Rightarrow> u64 \<Rightarrow> i64" where
  "assignedHost placeDims workItems cur =
     (let hosts = dims_node placeDims;
          workPerHost = workItems div hosts;
          host = (if workPerHost > 0 then cur div workPerHost
                  else if hosts mod workItems = 0 then cur * (hosts div workItems)
                  else cur)
      in if sint (dims_node placeDims) \<le> sint host then dims_node placeDims - 1 else host)"

fun evenly_loop ::
  "machine \<Rightarrow> (u64 \<Rightarrow> Place \<Rightarrow> Status) \<Rightarrow> u64 \<Rightarrow> LoopLocalSchedulerStruct \<Rightarrow> u64 list \<Rightarrow> u64 loop_op list \<times> Status" where
  "evenly_loop mc executeOn workItems loopLocal [] = ([], Success)"
| "evenly_loop mc executeOn workItems loopLocal (cur # rest) =
     (let host = assignedHost (mc_placeDims mc) workItems cur;
          (nodePlace, loopLocal') = schedulerImpl mc CORE_STRIPE 0 (Place (NodeIndex host) anyPod anyCore) loopLocal;
          err = executeOn cur nodePlace
      in if err \<noteq> Success then ([AddOp 1, DoneOp], err)
         else let (ops, err') = evenly_loop mc executeOn workItems loopLocal' rest
              in (AddOp 1 # SpawnOp cur nodePlace # ops, err'))"

definition doAllEvenlyPartition ::
  "machine \<Rightarrow> (u64 \<Rightarrow> Place \<Rightarrow> Status) \<Rightarrow> u64 \<Rightarrow> u64 loop_op list \<times> Status" where
  "doAllEvenlyPartition mc executeOn workItems =
     (if workItems = 0 then ([], Success)
      else evenly_loop mc executeOn workItems loopLocal_start (map word_of_nat [0..<unat workItems]))"

definition onEach :: "machine \<Rightarrow> (u64 \<Rightarrow> Place \<Rightarrow> Status) \<Rightarrow> u64 loop_op list \<times> Status" where
  "onEach mc executeOn = doAllEvenlyPartition mc executeOn (getTotalThreads (mc_placeDims mc) (mc_threadDims mc))"


subsection \<open>The loop and its tasks\<close>

text \<open>
  A task is the list of the actions it has still to perform before it signals the group; \<open>None\<close> is a task that has
  signalled. The caller passes the wait when the loop has returned and the group is ready.
\<close>

record ('it, 'x, 'd, 'm) loop_sys =
  ls_ops :: "'it loop_op list"
  ls_tasks :: "'x list option list"
  ls_mem :: 'm
  ls_data :: 'd
  ls_passed :: bool

inductive loop_step ::
  "(u32 \<Rightarrow> 'm \<Rightarrow> 'm) \<Rightarrow> ('m \<Rightarrow> 'm) \<Rightarrow> ('m \<Rightarrow> bool) \<Rightarrow> ('it \<Rightarrow> 'x list) \<Rightarrow> ('x \<Rightarrow> 'd \<Rightarrow> 'd) \<Rightarrow>
   ('it, 'x, 'd, 'm) loop_sys \<Rightarrow> ('it, 'x, 'd, 'm) loop_sys \<Rightarrow> bool"
  for add signal ready body exec where
  parent_add: "ls_ops s = AddOp n # ops \<Longrightarrow>
    loop_step add signal ready body exec s (s\<lparr>ls_ops := ops, ls_mem := add n (ls_mem s)\<rparr>)"
| parent_spawn: "ls_ops s = SpawnOp it p # ops \<Longrightarrow>
    loop_step add signal ready body exec s (s\<lparr>ls_ops := ops, ls_tasks := ls_tasks s @ [Some (body it)]\<rparr>)"
| parent_done: "ls_ops s = DoneOp # ops \<Longrightarrow>
    loop_step add signal ready body exec s (s\<lparr>ls_ops := ops, ls_mem := signal (ls_mem s)\<rparr>)"
| task_acts: "i < length (ls_tasks s) \<Longrightarrow> ls_tasks s ! i = Some (x # xs) \<Longrightarrow>
    loop_step add signal ready body exec s (s\<lparr>ls_tasks := (ls_tasks s)[i := Some xs], ls_data := exec x (ls_data s)\<rparr>)"
| task_signals: "i < length (ls_tasks s) \<Longrightarrow> ls_tasks s ! i = Some [] \<Longrightarrow>
    loop_step add signal ready body exec s (s\<lparr>ls_tasks := (ls_tasks s)[i := None], ls_mem := signal (ls_mem s)\<rparr>)"
| parent_passes: "ls_ops s = [] \<Longrightarrow> \<not> ls_passed s \<Longrightarrow> ready (ls_mem s) \<Longrightarrow>
    loop_step add signal ready body exec s (s\<lparr>ls_passed := True\<rparr>)"

definition loop_start :: "'it loop_op list \<Rightarrow> 'm \<Rightarrow> 'd \<Rightarrow> ('it, 'x, 'd, 'm) loop_sys" where
  "loop_start ops m d = \<lparr>ls_ops = ops, ls_tasks = [], ls_mem = m, ls_data = d, ls_passed = False\<rparr>"

text \<open>The items that are started, and the operations that are not covered by an announcement yet.\<close>

fun spawned :: "'it loop_op list \<Rightarrow> 'it list" where
  "spawned [] = []"
| "spawned (SpawnOp it p # ops) = it # spawned ops"
| "spawned (_ # ops) = spawned ops"

fun pend :: "'it loop_op list \<Rightarrow> int" where
  "pend [] = 0"
| "pend (AddOp n # ops) = pend ops - int (unat n)"
| "pend (SpawnOp it p # ops) = pend ops + 1"
| "pend (DoneOp # ops) = pend ops + 1"

fun covered :: "'it loop_op list \<Rightarrow> bool" where
  "covered [] \<longleftrightarrow> True"
| "covered (p # ops) \<longleftrightarrow> 0 \<le> pend (p # ops) \<and> covered ops"

definition live :: "'x list option list \<Rightarrow> nat" where
  "live ts = length (filter (\<lambda>t. t \<noteq> None) ts)"

definition remaining :: "'x list option list \<Rightarrow> 'x list" where
  "remaining ts = concat (map (\<lambda>t. case t of None \<Rightarrow> [] | Some xs \<Rightarrow> xs) ts)"

lemma pend_le: "pend ops \<le> int (length ops)"
proof (induction ops rule: pend.induct)
  case (2 n ops)
  then show ?case unfolding pend.simps length_Cons of_nat_Suc by linarith
qed auto

lemma covered_pend: "covered ops \<Longrightarrow> 0 \<le> pend ops"
  by (cases ops) auto

lemma live_append [simp]: "live (ts @ us) = live ts + live us"
  by (simp add: live_def)

lemma live_single [simp]: "live [Some xs] = 1" "live [None] = 0" "live [] = 0"
  by (simp_all add: live_def)

lemma live_update:
  assumes "i < length ts" "ts ! i = Some xs"
  shows "live (ts[i := Some ys]) = live ts" "live ts = Suc (live (ts[i := None]))"
proof -
  have "ts = take i ts @ Some xs # drop (Suc i) ts" using assms by (metis id_take_nth_drop)
  then have *: "live ts = live (take i ts) + 1 + live (drop (Suc i) ts)" by (metis live_append live_single(1) append_Cons append_Nil add.assoc)
  show "live (ts[i := Some ys]) = live ts" "live ts = Suc (live (ts[i := None]))"
    using assms(1) * by (simp_all add: upd_conv_take_nth_drop live_def)
qed

lemma live_zero: "live ts = 0 \<longleftrightarrow> (\<forall>t \<in> set ts. t = None)"
  by (auto simp: live_def filter_empty_conv)

lemma live_le: "live ts \<le> length ts"
  by (simp add: live_def)

lemma remaining_append [simp]: "remaining (ts @ us) = remaining ts @ remaining us"
  by (simp add: remaining_def)

lemma remaining_single [simp]: "remaining [Some xs] = xs" "remaining [] = []"
  by (simp_all add: remaining_def)

lemma remaining_update:
  assumes "i < length ts" "ts ! i = Some (x # xs)"
  shows "mset (remaining ts) = add_mset x (mset (remaining (ts[i := Some xs])))"
proof -
  have "ts = take i ts @ Some (x # xs) # drop (Suc i) ts" using assms by (metis id_take_nth_drop)
  then have "remaining ts = remaining (take i ts) @ x # xs @ remaining (drop (Suc i) ts)"
    by (metis (no_types, lifting) append_Cons concat.simps(2) list.simps(9) map_append concat_append option.simps(5) remaining_def)
  then show ?thesis using assms(1) by (simp add: upd_conv_take_nth_drop remaining_def)
qed

lemma remaining_signal:
  assumes "i < length ts" "ts ! i = Some []"
  shows "remaining (ts[i := None]) = remaining ts"
  using assms by (induction ts arbitrary: i) (auto simp: remaining_def nth_Cons split: nat.splits)

lemma remaining_none: "\<forall>t \<in> set ts. t = None \<Longrightarrow> remaining ts = []"
  by (auto simp: remaining_def)

text \<open>
  The counter of the group is the number of tasks that have not signalled and of the announced operations that the
  loop has still to perform, and the data is what the executed actions have made of it.
\<close>

definition loop_data_ok :: "('it \<Rightarrow> 'x list) \<Rightarrow> ('x \<Rightarrow> 'd \<Rightarrow> 'd) \<Rightarrow> 'it loop_op list \<Rightarrow> 'd \<Rightarrow> ('it, 'x, 'd, 'm) loop_sys \<Rightarrow> bool" where
  "loop_data_ok body exec ops d s \<longleftrightarrow> (\<exists>xs. ls_data s = fold exec xs d \<and>
     mset xs + mset (remaining (ls_tasks s)) + mset (concat (map body (spawned (ls_ops s)))) = mset (concat (map body (spawned ops))))"

lemma loop_data_ok_step:
  assumes "loop_step add signal ready body exec s s'" "loop_data_ok body exec ops d s"
  shows "loop_data_ok body exec ops d s'"
proof -
  from assms(2) obtain xs where xs: "ls_data s = fold exec xs d"
      "mset xs + mset (remaining (ls_tasks s)) + mset (concat (map body (spawned (ls_ops s)))) = mset (concat (map body (spawned ops)))"
    unfolding loop_data_ok_def by blast
  from assms(1) show ?thesis
  proof cases
    case (parent_spawn it p ops')
    then show ?thesis using xs unfolding loop_data_ok_def by (intro exI [of _ xs]) (simp add: ac_simps)
  next
    case (task_acts i x ys)
    then show ?thesis
      using xs remaining_update [OF task_acts(2,3)] unfolding loop_data_ok_def by (intro exI [of _ "xs @ [x]"]) simp
  next
    case (task_signals i)
    then show ?thesis using xs remaining_signal [OF task_signals(2,3)] unfolding loop_data_ok_def by (intro exI [of _ xs]) simp
  qed (use xs in \<open>auto simp: loop_data_ok_def intro!: exI [of _ xs]\<close>)
qed

text \<open>Every step uses up an operation, an action, a signal or the pass.\<close>

fun op_weight :: "('it \<Rightarrow> 'x list) \<Rightarrow> 'it loop_op \<Rightarrow> nat" where
  "op_weight body (SpawnOp it p) = length (body it) + 2"
| "op_weight body _ = 1"

fun pending_weight :: "'x list option \<Rightarrow> nat" where
  "pending_weight None = 0"
| "pending_weight (Some xs) = length xs + 1"

definition loop_weight :: "('it \<Rightarrow> 'x list) \<Rightarrow> ('it, 'x, 'd, 'm) loop_sys \<Rightarrow> nat" where
  "loop_weight body s = sum_list (map (op_weight body) (ls_ops s)) + sum_list (map pending_weight (ls_tasks s))
     + (if ls_passed s then 0 else 1)"

lemma sum_list_less_update:
  assumes "i < length xs" "f y < (f (xs ! i) :: nat)"
  shows "sum_list (map f (xs[i := y])) < sum_list (map f xs)"
  using assms by (induction xs arbitrary: i) (auto simp: nth_Cons split: nat.splits)

lemma loop_step_weight:
  assumes "loop_step add signal ready body exec s s'"
  shows "loop_weight body s' < loop_weight body s"
  using assms
proof cases
  case (task_acts i x xs)
  then show ?thesis using sum_list_less_update [of i "ls_tasks s" pending_weight "Some xs"] by (simp add: loop_weight_def)
next
  case (task_signals i)
  then show ?thesis using sum_list_less_update [of i "ls_tasks s" pending_weight None] by (simp add: loop_weight_def)
qed (simp_all add: loop_weight_def)

lemma loop_runs_end: "wfP (loop_step add signal ready body exec)\<inverse>\<inverse>"
  by (rule wfp_if_convertible_to_nat [of _ "loop_weight body"]) (auto dest: loop_step_weight)

context completion_counter
begin

definition loop_inv :: "('it, 'x, 'd, 'm) loop_sys \<Rightarrow> bool" where
  "loop_inv s \<longleftrightarrow> covered (ls_ops s) \<and> counter (ls_mem s) = int (live (ls_tasks s)) + pend (ls_ops s)
     \<and> int (length (ls_tasks s)) + int (length (ls_ops s)) < 2 ^ 63
     \<and> (ls_passed s \<longrightarrow> ls_ops s = [] \<and> live (ls_tasks s) = 0)"

lemma loop_inv_step:
  assumes "loop_step add signal ready body exec s s'" "loop_inv s"
  shows "loop_inv s'"
  using assms(1)
proof cases
  case (parent_add n ops)
  have c: "covered ops" "counter (ls_mem s) = int (live (ls_tasks s)) + (pend ops - int (unat n))" "0 \<le> pend ops - int (unat n)"
    using assms(2) parent_add(2) by (simp_all add: loop_inv_def)
  have b: "int (length (ls_tasks s)) + int (length ops) < 2 ^ 63" using assms(2) parent_add(2) by (simp add: loop_inv_def)
  have "counter (ls_mem s) + int (unat n) < 2 ^ 63" using b c(2) live_le [of "ls_tasks s"] pend_le [of ops] by linarith
  then have "counter (add n (ls_mem s)) = counter (ls_mem s) + int (unat n)" using c by (intro add_counter) linarith+
  then show ?thesis using c b parent_add assms(2) by (simp add: loop_inv_def)
next
  case (parent_spawn it p ops)
  then show ?thesis using assms(2) by (simp add: loop_inv_def)
next
  case (parent_done ops)
  have c: "covered ops" "counter (ls_mem s) = int (live (ls_tasks s)) + (pend ops + 1)"
    using assms(2) parent_done(2) by (simp_all add: loop_inv_def)
  then have "counter (signal (ls_mem s)) = counter (ls_mem s) - 1"
    using covered_pend [OF c(1)] by (intro signal_counter) linarith
  then show ?thesis using c parent_done assms(2) by (simp add: loop_inv_def)
next
  case (task_acts i x xs)
  then show ?thesis using assms(2) by (simp add: loop_inv_def live_update(1) [OF task_acts(2,3)])
next
  case (task_signals i)
  note l = live_update(2) [OF task_signals(2,3)]
  have c: "covered (ls_ops s)" "counter (ls_mem s) = int (live (ls_tasks s)) + pend (ls_ops s)"
    using assms(2) by (simp_all add: loop_inv_def)
  then have "counter (signal (ls_mem s)) = counter (ls_mem s) - 1"
    using covered_pend [OF c(1)] l by (intro signal_counter) linarith
  then show ?thesis using c task_signals assms(2) l by (auto simp: loop_inv_def)
next
  case parent_passes
  then show ?thesis using assms(2) by (simp add: loop_inv_def ready_counter)
qed

lemma loop_reachable:
  assumes run: "(loop_step add signal ready body exec)\<^sup>*\<^sup>* (loop_start ops m d) s"
    and m: "counter m = 0" and ops: "covered ops" "pend ops = 0" "int (length ops) < 2 ^ 63"
  shows "loop_inv s \<and> loop_data_ok body exec ops d s"
  using run
proof (induction rule: rtranclp_induct)
  case base
  show ?case using m ops by (auto simp: loop_inv_def loop_data_ok_def loop_start_def remaining_def intro!: exI [of _ "[]"])
next
  case (step s s')
  then show ?case by (blast intro: loop_inv_step loop_data_ok_step)
qed

text \<open>When the caller has passed, every started task has run to its end, and nothing can change any more.\<close>

lemma loop_joined:
  assumes "(loop_step add signal ready body exec)\<^sup>*\<^sup>* (loop_start ops m d) s"
    and "counter m = 0" "covered ops" "pend ops = 0" "int (length ops) < 2 ^ 63" and passed: "ls_passed s"
  shows "\<exists>xs. mset xs = mset (concat (map body (spawned ops))) \<and> ls_data s = fold exec xs d"
    "result (ls_mem s) = Success" "\<not> loop_step add signal ready body exec s s'"
proof -
  have inv: "loop_inv s" "loop_data_ok body exec ops d s" using loop_reachable [OF assms(1-5)] by simp_all
  then have e: "ls_ops s = []" "\<forall>t \<in> set (ls_tasks s). t = None" using passed by (simp_all add: loop_inv_def live_zero)
  show "\<exists>xs. mset xs = mset (concat (map body (spawned ops))) \<and> ls_data s = fold exec xs d"
    using inv(2) e by (auto simp: loop_data_ok_def remaining_none)
  show "result (ls_mem s) = Success" using inv(1) e by (intro result_counter) (simp add: loop_inv_def)
  have "ls_tasks s ! i \<noteq> Some ys" if "i < length (ls_tasks s)" for i ys using e(2) nth_mem [OF that] by fastforce
  note stuck = this
  show "\<not> loop_step add signal ready body exec s s'"
  proof
    assume "loop_step add signal ready body exec s s'"
    then show False by cases (use e(1) passed stuck in simp_all)
  qed
qed

text \<open>No state before the pass is stuck.\<close>

lemma loop_progress:
  assumes "loop_inv s" "\<not> ls_passed s"
  shows "\<exists>s'. loop_step add signal ready body exec s s'"
proof (cases "ls_ops s")
  case (Cons p ops)
  then show ?thesis by (cases p) (blast intro: loop_step.intros)+
next
  case Nil
  show ?thesis
  proof (cases "live (ls_tasks s) = 0")
    case True
    then have "ready (ls_mem s)" using assms(1) Nil by (simp add: loop_inv_def ready_counter)
    then show ?thesis using Nil assms(2) by (blast intro: loop_step.parent_passes)
  next
    case False
    then obtain i xs where "i < length (ls_tasks s)" "ls_tasks s ! i = Some xs"
      by (auto simp: live_zero in_set_conv_nth)
    then show ?thesis by (cases xs) (blast intro: loop_step.task_acts loop_step.task_signals)+
  qed
qed

lemma loop_reaches_pass:
  assumes "loop_inv s"
  shows "\<exists>s'. (loop_step add signal ready body exec)\<^sup>*\<^sup>* s s' \<and> ls_passed s'"
  using loop_runs_end [of add signal ready body exec] assms
proof (induction s rule: wfp_induct_rule)
  case (less s)
  show ?case
  proof (cases "ls_passed s")
    case False
    then obtain s1 where s1: "loop_step add signal ready body exec s s1" using loop_progress less.prems by blast
    then obtain s' where "(loop_step add signal ready body exec)\<^sup>*\<^sup>* s1 s'" "ls_passed s'"
      using less.IH loop_inv_step less.prems by blast
    then show ?thesis using s1 by (blast intro: converse_rtranclp_into_rtranclp)
  qed blast
qed

end

subsection \<open>Loops on a wait group\<close>

text \<open>
  The loops without a handle create a wait group, run the loop, wait and return the status of the wait; the
  status of the loop itself is dropped.
\<close>

abbreviation loop_system ::
  "u64 \<Rightarrow> ('it \<Rightarrow> 'x list) \<Rightarrow> ('x \<Rightarrow> 'd \<Rightarrow> 'd) \<Rightarrow> ('it, 'x, 'd, rt_mem) loop_sys \<Rightarrow> ('it, 'x, 'd, rt_mem) loop_sys \<Rightarrow> bool" where
  "loop_system p \<equiv> loop_step (HandleType_add p) (HandleType_done p) (WaitGroup_ready p)"

definition with_WaitGroup ::
  "u64 expected \<Rightarrow> rt_mem \<Rightarrow> 'd \<Rightarrow> 'it loop_op list \<times> Status \<Rightarrow> Status + u64 \<times> ('it, 'x, 'd, rt_mem) loop_sys" where
  "with_WaitGroup alloc m d loop =
     (case WaitGroup_initialize 0 alloc \<lparr>wg_count = 0\<rparr> m of (err, wg, m') \<Rightarrow>
        if err \<noteq> Success then Inl err else Inr (WaitGroup_getHandle wg, loop_start (fst loop) m' d))"

definition loop_ops_ok :: "'it loop_op list \<Rightarrow> bool" where
  "loop_ops_ok ops \<longleftrightarrow> covered ops \<and> pend ops = 0 \<and> int (length ops) < 2 ^ 63"

lemma fold_permuted:
  assumes "mset xs = mset ys" "\<forall>x \<in> set ys. \<forall>y \<in> set ys. exec x \<circ> exec y = exec y \<circ> exec x"
  shows "fold exec xs = fold exec ys"
  using assms by (metis fold_multiset_equiv mset_eq_setD)

lemma with_WaitGroup_joins:
  assumes start: "with_WaitGroup (Inr p) m d (ops, err) = Inr (p, s0)" and ops: "loop_ops_ok ops"
    and comm: "\<forall>x \<in> set (concat (map body (spawned ops))). \<forall>y \<in> set (concat (map body (spawned ops))). exec x \<circ> exec y = exec y \<circ> exec x"
    and run: "(loop_system p body exec)\<^sup>*\<^sup>* s0 s"
  shows "\<exists>s'. (loop_system p body exec)\<^sup>*\<^sup>* s s' \<and> ls_passed s'"
    "ls_passed s \<Longrightarrow> WaitGroup_result p (ls_mem s) = Success \<and> ls_data s = fold exec (concat (map body (spawned ops))) d"
proof -
  obtain m' where s0: "s0 = loop_start ops m' d" "m' p = 0"
    using start by (auto simp: with_WaitGroup_def WaitGroup_initialize_def WaitGroup_getHandle_def split: sum.splits if_splits)
  have c: "sint (m' p) = 0" "covered ops" "pend ops = 0" "int (length ops) < 2 ^ 63"
    using s0(2) ops by (simp_all add: loop_ops_ok_def)
  note run' = run [unfolded s0(1)]
  show "\<exists>s'. (loop_system p body exec)\<^sup>*\<^sup>* s s' \<and> ls_passed s'"
    using wait_group.loop_reachable [OF run' c] by (blast intro: wait_group.loop_reaches_pass)
  show "WaitGroup_result p (ls_mem s) = Success \<and> ls_data s = fold exec (concat (map body (spawned ops))) d" if "ls_passed s"
    using wait_group.loop_joined(1,2) [OF run' c that] fold_permuted [OF _ comm] by metis
qed

lemma loop_step_converse_end: "wfP (loop_system p body exec)\<inverse>\<inverse>"
  by (rule loop_runs_end)

lemma dones_ops: "covered (replicate n DoneOp)" "pend (replicate n DoneOp) = int n" "spawned (replicate n DoneOp) = []"
proof -
  show *: "pend (replicate n DoneOp :: 'it loop_op list) = int n" for n by (induction n) auto
  show "covered (replicate n DoneOp)" by (induction n) (auto simp: *)
  show "spawned (replicate n DoneOp) = []" by (induction n) auto
qed

lemma doAll_loop_ops:
  assumes "doAll_loop executeOn place_of rsize iter l its = (ops, err)" "unat rsize = unat iter + length its"
  shows "covered ops \<and> pend ops = int (length its) \<and> length ops = length its \<and>
    (\<exists>k \<le> length its. spawned ops = take k its \<and> (err = Success \<longleftrightarrow> k = length its))"
  using assms
proof (induction its arbitrary: iter l ops err)
  case Nil
  then show ?case by simp
next
  case (Cons it its)
  obtain pl l' where pl: "place_of l it = (pl, l')" by fastforce
  show ?case
  proof (cases "executeOn iter pl = Success")
    case False
    then show ?thesis using Cons.prems pl by (auto simp: dones_ops intro!: exI [of _ 0])
  next
    case True
    obtain ops' err' where r: "doAll_loop executeOn place_of rsize (iter + 1) l' its = (ops', err')" by fastforce
    have "unat (iter + 1) = Suc (unat iter)" by (rule unat_plus_one [of _ rsize]) (use Cons.prems(2) in \<open>simp add: word_less_nat_alt\<close>)
    then have "unat rsize = unat (iter + 1) + length its" using Cons.prems(2) by simp
    note IH = Cons.IH [OF r this]
    then obtain k where "k \<le> length its" "spawned ops' = take k its" "err' = Success \<longleftrightarrow> k = length its" by blast
    then show ?thesis using IH Cons.prems(1) pl True r by (auto intro!: exI [of _ "Suc k"])
  qed
qed

lemma doAll_ops:
  assumes "doAllExplicitPolicy mc policy executeOn draw loc rng = (ops, err)"
    and "unat (r_size rng) = length (r_elems rng)" "length (r_elems rng) < 2 ^ 32"
  shows "loop_ops_ok ops \<and> (\<exists>k \<le> length (r_elems rng). spawned ops = take k (r_elems rng) \<and> (err = Success \<longleftrightarrow> k = length (r_elems rng)))"
proof -
  obtain ops' where r: "doAll_loop executeOn (\<lambda>loopLocal cur. schedulerImpl mc policy (draw cur) (loc cur) loopLocal)
      (r_size rng) 0 loopLocal_start (r_elems rng) = (ops', err)" and o: "ops = AddOp (ucast (r_size rng)) # ops'"
    using assms(1) by (auto simp: doAllExplicitPolicy_def split: prod.splits)
  have n: "int (unat (ucast (r_size rng) :: u32)) = int (length (r_elems rng))"
    using assms(2,3) by (simp only: unsigned_ucast_eq) (simp add: take_bit_nat_eq_self)
  note ops = doAll_loop_ops [OF r, simplified, OF assms(2)]
  then have "loop_ops_ok ops" using n assms(3) by (simp add: loop_ops_ok_def o del: of_nat_unat)
  then show ?thesis using ops o by auto
qed

text \<open>
  C16: \<^verbatim>\<open>doAll\<close> over a range of fewer than \<open>2 ^ 32\<close> elements, in every interleaving of the loop and its tasks: the caller can
  always reach the end of its wait, no run goes on forever, and when it has passed, \<^verbatim>\<open>Success\<close> is returned and
  the tasks of the first \<open>k\<close> elements have run to their end, each once; for actions that commute the data is
  that of a sequential loop. \<open>k\<close> is the number of elements unless \<^verbatim>\<open>executeOn\<close> fails.
\<close>

theorem doAll_joins:
  assumes "doAll mc policy executeOn draw loc rng = (ops, err)"
    and "unat (r_size rng) = length (r_elems rng)" "length (r_elems rng) < 2 ^ 32"
    and "with_WaitGroup (Inr p) m d (ops, err) = Inr (p, s0)"
    and "\<forall>x \<in> set (concat (map body (r_elems rng))). \<forall>y \<in> set (concat (map body (r_elems rng))). exec x \<circ> exec y = exec y \<circ> exec x"
  shows "\<exists>k \<le> length (r_elems rng). (err = Success \<longleftrightarrow> k = length (r_elems rng)) \<and>
    (\<forall>s. (loop_system p body exec)\<^sup>*\<^sup>* s0 s \<longrightarrow>
       (\<exists>s'. (loop_system p body exec)\<^sup>*\<^sup>* s s' \<and> ls_passed s') \<and>
       (ls_passed s \<longrightarrow> WaitGroup_result p (ls_mem s) = Success \<and>
          ls_data s = fold exec (concat (map body (take k (r_elems rng)))) d)) \<and>
    wfP (loop_system p body exec)\<inverse>\<inverse>"
proof -
  obtain k where ok: "loop_ops_ok ops" and k: "k \<le> length (r_elems rng)" "spawned ops = take k (r_elems rng)"
      "err = Success \<longleftrightarrow> k = length (r_elems rng)"
    using doAll_ops [OF assms(1) [unfolded doAll_def] assms(2,3)] by blast
  have "set (concat (map body (spawned ops))) \<subseteq> set (concat (map body (r_elems rng)))"
    unfolding k(2) by (auto dest: in_set_takeD)
  then have "\<forall>x \<in> set (concat (map body (spawned ops))). \<forall>y \<in> set (concat (map body (spawned ops))). exec x \<circ> exec y = exec y \<circ> exec x"
    using assms(5) by (meson subsetD)
  note j = with_WaitGroup_joins [OF assms(4) ok this]
  show ?thesis using j k loop_step_converse_end [of p body exec] by (intro exI [of _ k]) (simp only: k(2) simp_thms, blast)
qed

definition example_machine :: machine where
  "example_machine = \<lparr>mc_placeDims = fst example_dims, mc_threadDims = snd example_dims, mc_currentNode = NodeIndex 0\<rparr>"

theorem doAll_joins_witness:
  "\<exists>s'. (loop_system 8 (\<lambda>i :: nat. [i, 10 * i]) (+))\<^sup>*\<^sup>*
     (loop_start (fst (doAll example_machine NODE_ONLY (\<lambda>i pl. Success) (\<lambda>_. 0) (\<lambda>_. anyPlace) \<lparr>r_elems = [1, 2, 3], r_size = 3\<rparr>))
        (\<lambda>_. 0) 0) s' \<and> ls_passed s' \<and> ls_data s' = (66 :: nat)"
proof -
  let ?rng = "\<lparr>r_elems = [1 :: nat, 2, 3], r_size = 3\<rparr>" and ?body = "\<lambda>i :: nat. [i, 10 * i]"
  let ?loop = "doAll example_machine NODE_ONLY (\<lambda>i pl. Success) (\<lambda>_. 0) (\<lambda>_. anyPlace) ?rng"
  let ?s0 = "loop_start (fst ?loop) (\<lambda>_. 0) (0 :: nat)"
  have l: "?loop = (fst ?loop, Success)"
    by (simp add: doAll_def doAllExplicitPolicy_def schedulerImpl_def)
  have w: "with_WaitGroup (Inr 8) (\<lambda>_. 0) 0 (fst ?loop, Success) = Inr (8, ?s0)"
    by (simp add: with_WaitGroup_def WaitGroup_initialize_def WaitGroup_getHandle_def fun_upd_idem)
  obtain k where "Success = Success \<longleftrightarrow> k = length (r_elems ?rng)" and
      run: "(loop_system 8 ?body (+))\<^sup>*\<^sup>* ?s0 s \<longrightarrow> (\<exists>s'. (loop_system 8 ?body (+))\<^sup>*\<^sup>* s s' \<and> ls_passed s') \<and>
         (ls_passed s \<longrightarrow> WaitGroup_result 8 (ls_mem s) = Success \<and> ls_data s = fold (+) (concat (map ?body (take k (r_elems ?rng)))) 0)" for s
    using doAll_joins [OF l _ _ w, of ?body "(+)"] by (auto simp: fun_eq_iff)
  then have k: "fold (+) (concat (map ?body (take k (r_elems ?rng)))) 0 = 66" by simp
  obtain s' where "(loop_system 8 ?body (+))\<^sup>*\<^sup>* ?s0 s'" "ls_passed s'" using run by blast
  moreover then have "ls_data s' = 66" using run [of s'] k by simp
  ultimately show ?thesis by blast
qed

subsection \<open>The evenly partitioned loop\<close>

lemma evenly_loop_ops:
  assumes "evenly_loop mc executeOn w l its = (ops, err)"
  shows "covered ops \<and> pend ops = 0 \<and> length ops \<le> 2 * length its \<and>
    (\<exists>k \<le> length its. spawned ops = take k its \<and> (err = Success \<longleftrightarrow> k = length its))"
  using assms
proof (induction its arbitrary: l ops err)
  case Nil
  then show ?case by simp
next
  case (Cons it its)
  obtain pl l' where pl: "schedulerImpl mc CORE_STRIPE 0 (Place (NodeIndex (assignedHost (mc_placeDims mc) w it)) anyPod anyCore) l = (pl, l')"
    by fastforce
  show ?case
  proof (cases "executeOn it pl = Success")
    case False
    then show ?thesis using Cons.prems pl by (auto intro!: exI [of _ 0])
  next
    case True
    obtain ops' err' where r: "evenly_loop mc executeOn w l' its = (ops', err')" by fastforce
    note IH = Cons.IH [OF r]
    then obtain k where "k \<le> length its" "spawned ops' = take k its" "err' = Success \<longleftrightarrow> k = length its" by blast
    then show ?thesis using IH Cons.prems(1) pl True r by (auto intro!: exI [of _ "Suc k"])
  qed
qed

definition work_items :: "u64 \<Rightarrow> u64 list" where
  "work_items w = map word_of_nat [0..<unat w]"

lemma length_work_items [simp]: "length (work_items w) = unat w"
  by (simp add: work_items_def)

lemma evenly_ops:
  assumes "doAllEvenlyPartition mc executeOn w = (ops, err)" "w < 2 ^ 62"
  shows "loop_ops_ok ops \<and> (\<exists>k \<le> unat w. spawned ops = take k (work_items w) \<and> (err = Success \<longleftrightarrow> k = unat w))"
proof (cases "w = 0")
  case True
  then show ?thesis using assms(1) by (simp add: doAllEvenlyPartition_def loop_ops_ok_def work_items_def)
next
  case False
  have "unat w < 2 ^ 62" using assms(2) by (simp add: word_less_nat_alt)
  moreover have ops: "covered ops \<and> pend ops = 0 \<and> length ops \<le> 2 * unat w \<and>
      (\<exists>k \<le> unat w. spawned ops = take k (work_items w) \<and> (err = Success \<longleftrightarrow> k = unat w))"
    using evenly_loop_ops [of mc executeOn w loopLocal_start "work_items w" ops err] assms(1) False
    by (simp add: doAllEvenlyPartition_def flip: work_items_def)
  ultimately have "int (length ops) < 2 ^ 63" by (intro int_less_power) simp
  then show ?thesis using ops by (simp add: loop_ops_ok_def)
qed

text \<open>The hosts of the work items, as numbers.\<close>

definition work_host :: "nat \<Rightarrow> nat \<Rightarrow> nat \<Rightarrow> nat" where
  "work_host hosts w i = (if hosts \<le> w then min (i div (w div hosts)) (hosts - 1)
     else if hosts mod w = 0 then i * (hosts div w) else i)"

lemma work_host_less: "i < w \<Longrightarrow> 0 < hosts \<Longrightarrow> work_host hosts w i < hosts"
proof (cases "hosts \<le> w")
  case False
  assume i: "i < w"
  have "i * (hosts div w) < w * (hosts div w)" using i False by (simp add: div_greater_zero_iff)
  then have "i * (hosts div w) < hosts" by (rule order.strict_trans2) simp
  then show ?thesis using False i by (simp add: work_host_def)
qed (simp add: work_host_def)

lemma unat_assignedHost:
  assumes h: "0 < sint (dims_node pd)" and i: "i < w" and w: "w < 2 ^ 63"
  shows "unat (assignedHost pd w i) = work_host (unat (dims_node pd)) (unat w) (unat i)"
proof -
  let ?H = "unat (dims_node pd)" and ?W = "unat w" and ?i = "unat i"
  have H: "0 < ?H" "?H < 2 ^ 63" "sint (dims_node pd) = int ?H"
  proof -
    show H63: "?H < 2 ^ 63" using h sint_lt [of "dims_node pd"] by (simp add: unat_sint nat_less_iff)
    show "sint (dims_node pd) = int ?H" by (rule sint_eq_unat) (use H63 in simp)
    show "0 < ?H" using h by (auto simp: unat_gt_0)
  qed
  have iW: "?i < ?W" "?W < 2 ^ 63" using i w by (simp_all add: word_less_nat_alt)
  define hw where "hw = (if w div dims_node pd > 0 then i div (w div dims_node pd)
            else if dims_node pd mod w = 0 then i * (dims_node pd div w) else i)"
  have per: "w div dims_node pd > 0 \<longleftrightarrow> ?H \<le> ?W"
    using H(1) by (simp add: word_less_nat_alt unat_div div_greater_zero_iff)
  have uh: "unat hw = (if ?H \<le> ?W then ?i div (?W div ?H) else if ?H mod ?W = 0 then ?i * (?H div ?W) else ?i)"
  proof (cases "?H \<le> ?W")
    case False
    have "?i * (?H div ?W) \<le> ?W * (?H div ?W)" using iW(1) by (intro mult_le_mono1) simp
    also have "\<dots> \<le> ?H" by simp
    finally have "?i * (?H div ?W) < 2 ^ 64" using H(2) by simp
    then show ?thesis using False per unfolding hw_def by (simp add: unat_mult_no_wrap unat_div unat_mod word_unat_eq_iff)
  qed (use per in \<open>simp add: unat_div hw_def\<close>)
  have "unat hw < 2 ^ 63"
    unfolding uh using iW work_host_less [OF iW(1) H(1)] H(2) by (auto simp: work_host_def split: if_splits
      intro: order.strict_trans1 [OF div_le_dividend])
  then have "sint hw = int (unat hw)" by (intro sint_eq_unat) simp
  then have "sint (dims_node pd) \<le> sint hw \<longleftrightarrow> ?H \<le> unat hw" unfolding H(3) by (simp only: of_nat_le_iff)
  then have a: "assignedHost pd w i = (if ?H \<le> unat hw then dims_node pd - 1 else hw)"
    unfolding assignedHost_def Let_def hw_def [symmetric] by simp
  have "unat (dims_node pd - 1) = ?H - 1" using H(1) by (intro unat_minus_one_u64) (simp add: unat_gt_0)
  then have "unat (assignedHost pd w i) = (if ?H \<le> unat hw then ?H - 1 else unat hw)" unfolding a by simp
  then show ?thesis using work_host_less [OF iW(1) H(1)] unfolding uh work_host_def by (simp split: if_splits)
qed

fun spawn_places :: "'it loop_op list \<Rightarrow> Place list" where
  "spawn_places [] = []"
| "spawn_places (SpawnOp it p # ops) = p # spawn_places ops"
| "spawn_places (_ # ops) = spawn_places ops"

lemma evenly_loop_places:
  assumes "evenly_loop mc executeOn w l its = (ops, Success)" "0 < sint (core_x (dims_core (mc_placeDims mc)))"
    "0 < sint (core_y (dims_core (mc_placeDims mc)))"
  shows "map place_node (spawn_places ops) = map (\<lambda>it. NodeIndex (assignedHost (mc_placeDims mc) w it)) its \<and>
    (\<forall>p \<in> set (spawn_places ops). place_pod p = anyPod \<and> within (core_x (place_core p)) (core_x (dims_core (mc_placeDims mc))) \<and>
       within (core_y (place_core p)) (core_y (dims_core (mc_placeDims mc))))"
  using assms(1)
proof (induction its arbitrary: l ops)
  case (Cons it its)
  let ?d = "core_x (dims_core (mc_placeDims mc))"
  have d: "unat (dim_u64 ?d) = unat ?d" "unat ?d < 128" "0 < unat ?d"
    using assms(2) unat_i8_less [of ?d] by (auto simp: unat_dim_u64 unat_gt_0)
  have core: "within (ucast (x mod dim_u64 ?d) :: i8) ?d" for x
  proof (rule withinI [OF assms(2)])
    have "unat (x mod dim_u64 ?d) < unat ?d" using d by (simp add: unat_mod)
    then show "unat (ucast (x mod dim_u64 ?d) :: i8) < unat ?d" using d(2) by (simp add: unat_ucast_i8)
  qed
  have row: "within 0 (core_y (dims_core (mc_placeDims mc)))" using assms(3) by (simp add: within_def)
  show ?case
    using Cons.prems Cons.IH core row
    by (auto simp: schedulerImpl_def Let_def simp del: of_nat_unat split: if_splits prod.splits)
qed simp

lemma div_block:
  assumes "0 < (q :: nat)"
  shows "i div q = h \<longleftrightarrow> h * q \<le> i \<and> i < (h + 1) * q"
proof
  assume "i div q = h"
  then show "h * q \<le> i \<and> i < (h + 1) * q"
    using div_times_less_eq_dividend [of i q] dividend_less_div_times [OF assms, of i] by simp
next
  assume "h * q \<le> i \<and> i < (h + 1) * q"
  then show "i div q = h" by (intro div_nat_eqI) (simp_all add: mult.commute)
qed

lemma upt_within: "(b :: nat) \<le> n \<Longrightarrow> {i. i < n \<and> a \<le> i \<and> i < b} = {a..<b}"
  by auto

lemma upt_from: "{i. i < n \<and> (a :: nat) \<le> i} = {a..<n}"
  by auto

lemma count_list_upt: "count_list (map f [0..<n]) h = card {i. i < n \<and> f i = h}"
proof (induction n)
  case (Suc n)
  have "{i. i < Suc n \<and> f i = h} = (if f n = h then insert n {i. i < n \<and> f i = h} else {i. i < n \<and> f i = h})"
    by (auto simp: less_Suc_eq)
  then show ?case using Suc by simp
qed simp

lemma count_work_host:
  assumes "0 < H" "H \<le> W" "h < H"
  shows "count_list (map (work_host H W) [0..<W]) h = W div H + (if h = H - 1 then W mod H else 0)"
proof -
  let ?q = "W div H"
  have q: "0 < ?q" using assms by (simp add: div_greater_zero_iff)
  have le: "(h + 1) * ?q \<le> W"
  proof -
    have "(h + 1) * ?q \<le> H * ?q" using assms(3) by (intro mult_le_mono1) simp
    also have "\<dots> \<le> W" by (rule times_div_less_eq_dividend)
    finally show ?thesis .
  qed
  have "card {i. i < W \<and> work_host H W i = h} = W div H + (if h = H - 1 then W mod H else 0)"
  proof (cases "h = H - 1")
    case False
    have "work_host H W i = h \<longleftrightarrow> i div ?q = h" for i using assms False by (auto simp: work_host_def min_def)
    then have "work_host H W i = h \<longleftrightarrow> h * ?q \<le> i \<and> i < (h + 1) * ?q" for i by (simp only: div_block [OF q])
    then have "{i. i < W \<and> work_host H W i = h} = {h * ?q..<(h + 1) * ?q}" by (simp only: upt_within [OF le])
    then show ?thesis using False by simp
  next
    case True
    have "work_host H W i = h \<longleftrightarrow> h \<le> i div ?q" for i using assms True by (auto simp: work_host_def min_def)
    then have "work_host H W i = h \<longleftrightarrow> h * ?q \<le> i" for i by (simp only: less_eq_div_iff_mult_less_eq [OF q])
    then have "{i. i < W \<and> work_host H W i = h} = {h * ?q..<W}" by (simp only: upt_from)
    moreover have "?q * H = h * ?q + ?q" using True assms(1) by (cases H) simp_all
    then have "W - h * ?q = ?q + W mod H" using div_mult_mod_eq [of W H] by simp
    ultimately show ?thesis using True by simp
  qed
  then show ?thesis by (simp only: count_list_upt)
qed

text \<open>
  C20: \<^verbatim>\<open>doAllEvenlyPartition\<close> starts every work item once, in order, on a host of the machine and on a core that its row and
  its column place inside the machine; with at least as many items as hosts every host gets \<^verbatim>\<open>workItems / hosts\<close> of them and the
  last host the whole remainder as well, so the spread is not even; with fewer items no host gets two.
\<close>

theorem doAllEvenlyPartition_spreads:
  assumes "doAllEvenlyPartition mc executeOn w = (ops, Success)" "0 < w" "w < 2 ^ 62"
    and "machine_ok (mc_placeDims mc) (mc_threadDims mc)"
  defines "hosts \<equiv> map (\<lambda>p. unat (node_id (place_node p))) (spawn_places ops)" and "H \<equiv> unat (dims_node (mc_placeDims mc))"
  shows "spawned ops = work_items w \<and> length hosts = unat w \<and> (\<forall>h \<in> set hosts. h < H) \<and>
    (\<forall>p \<in> set (spawn_places ops). place_pod p = anyPod \<and> within (core_x (place_core p)) (core_x (dims_core (mc_placeDims mc))) \<and>
       within (core_y (place_core p)) (core_y (dims_core (mc_placeDims mc)))) \<and>
    (if H \<le> unat w then \<forall>h < H. count_list hosts h = unat w div H + (if h = H - 1 then unat w mod H else 0)
     else distinct hosts)"
proof -
  let ?pd = "mc_placeDims mc"
  have d: "0 < sint (dims_node ?pd)" "0 < sint (core_x (dims_core ?pd))" "0 < H" "0 < sint (core_y (dims_core ?pd))"
    using assms(4) machine_positive(1) [OF assms(4)] by (simp_all add: machine_ok_def H_def)
  have w: "0 < unat w" "w < 2 ^ 63" "unat w < 2 ^ 64" using assms(2,3) by (simp_all add: word_less_nat_alt unat_gt_0)
  have loop: "evenly_loop mc executeOn w loopLocal_start (work_items w) = (ops, Success)"
    using assms(1) w(1) by (simp add: doAllEvenlyPartition_def work_items_def unat_gt_0)
  note pl = evenly_loop_places [OF loop d(2,4)]
  have "hosts = map (\<lambda>n. unat (node_id n)) (map place_node (spawn_places ops))" by (simp add: hosts_def)
  also have "\<dots> = map (\<lambda>it. unat (assignedHost ?pd w it)) (work_items w)" using pl by simp
  also have "\<dots> = map (work_host H (unat w)) [0..<unat w]"
    using less_trans [OF _ w(3)] by (auto simp: work_items_def H_def unat_assignedHost [OF d(1) _ w(2)] word_less_nat_alt)
  finally have hosts: "hosts = map (work_host H (unat w)) [0..<unat w]" .
  have "distinct hosts" if "\<not> H \<le> unat w"
    using that w(1) d(3) by (auto simp: hosts distinct_map work_host_def inj_on_def dest: mod_eq_self_iff_div_eq_0 [THEN iffD2])
  then show ?thesis
    using evenly_ops [OF assms(1,3)] pl d(3) work_host_less count_work_host [OF d(3)] by (auto simp: hosts)
qed

lemma evenly_loop_success: "snd (evenly_loop mc (\<lambda>i p. Success) w l its) = Success"
  by (induction its arbitrary: l) (simp_all add: case_prod_beta Let_def)

lemma doAllEvenlyPartition_success: "snd (doAllEvenlyPartition mc (\<lambda>i p. Success) w) = Success"
  by (simp add: doAllEvenlyPartition_def evenly_loop_success)

theorem doAllEvenlyPartition_spreads_witness:
  "count_list (map (\<lambda>p. unat (node_id (place_node p)))
     (spawn_places (fst (doAllEvenlyPartition example_machine (\<lambda>i p. Success) 10)))) 3 = 4"
proof -
  let ?ops = "fst (doAllEvenlyPartition example_machine (\<lambda>i p. Success) 10)"
  have r: "doAllEvenlyPartition example_machine (\<lambda>i p. Success) 10 = (?ops, Success)"
    using doAllEvenlyPartition_success [of example_machine 10] by (metis prod.collapse)
  have m: "machine_ok (mc_placeDims example_machine) (mc_threadDims example_machine)"
    by (simp add: machine_ok_def example_machine_def example_dims_def)
  have H: "unat (dims_node (mc_placeDims example_machine)) = 4" by (simp add: example_machine_def example_dims_def)
  show ?thesis using doAllEvenlyPartition_spreads [OF r _ _ m, unfolded H] by simp
qed

text \<open>
  \<^verbatim>\<open>onEach\<close> has one item for each thread of a machine with one pod on each host; the other pods are not counted.
\<close>

lemma getTotalThreads_one_pod:
  assumes "machine_ok pd td"
  shows "getTotalThreads pd td = getNumThreads pd td \<longleftrightarrow> pod_x (dims_pod pd) = 1 \<and> pod_y (dims_pod pd) = 1"
proof -
  note pos = machine_positive [OF assms]
  have "getTotalThreads pd td = dims_node pd * getThreadsPerPod pd td"
    by (simp add: getTotalThreads_def getThreadsPerPod_def getThreadsPerCore_def mult.assoc)
  moreover have "unat (dims_node pd) * pod_threads pd td < 2 ^ 64"
    by (rule order.strict_trans1 [OF _ pos(9)]) (use pos in \<open>simp add: host_threads_def\<close>)
  ultimately have "unat (getTotalThreads pd td) = unat (dims_node pd) * pod_threads pd td"
    by (simp add: unat_mult_no_wrap unat_getThreads [OF assms])
  then have "getTotalThreads pd td = getNumThreads pd td \<longleftrightarrow> unat (pod_x (dims_pod pd)) * unat (pod_y (dims_pod pd)) = 1"
    using pos by (simp add: word_unat_eq_iff unat_getThreads [OF assms] host_threads_def)
  then show ?thesis by (simp add: word_unat_eq_iff)
qed

end
