(* ===== verification/Bfs.thy ===== *)
theory Bfs
  imports Rt_Status
begin

text \<open>
  Breadth first search (\<^verbatim>\<open>microbench/bfs/include/pando-bfs-galois/sssp.hpp\<close>): \<^verbatim>\<open>SSSP_DLCSR\<close> labels every vertex of a
  graph with its distance from a source. The template parameter \<^verbatim>\<open>G\<close> is the record \<open>graph_ops\<close> of the graph operations that
  the code calls; vectors of vertices are lists. The checks \<^verbatim>\<open>PANDO_CHECK\<close> of \<^verbatim>\<open>pushBack\<close> and \<^verbatim>\<open>PANDO_CHECK_RETURN\<close> of
  \<^verbatim>\<open>hostFlattenAppend\<close>, which end the computation when a vector cannot grow, are not modelled: the runs considered are
  those in which memory suffices.

  A round runs one task for each vertex of the frontier, and the tasks run interleaved: reading the label of a
  destination, writing it and pushing the destination to the vector of the running thread are steps of their
  own, so that two tasks may find the same vertex unlabelled and push it twice. A step of the whole
  computation is a step of a task, or the start, the end or the exit of the loop over the rounds.
\<close>

definition UINT64_MAX :: u64 where "UINT64_MAX = 0xFFFFFFFFFFFFFFFF"

record ('g, 'v, 'h) graph_ops =
  go_edges :: "'g \<Rightarrow> 'v \<Rightarrow> 'h list option"
  go_getEdgeDst :: "'g \<Rightarrow> 'h \<Rightarrow> 'v"
  go_getData :: "'g \<Rightarrow> 'v \<Rightarrow> u64 or_abort"
  go_setData :: "'g \<Rightarrow> 'v \<Rightarrow> u64 \<Rightarrow> 'g or_abort"
  go_getTopologyID :: "'g \<Rightarrow> u64 \<Rightarrow> 'v or_abort option"
  go_setAllData :: "'g \<Rightarrow> u64 \<Rightarrow> 'g option"

definition IsactiveIterationEmpty :: "'v list list \<Rightarrow> bool" where
  "IsactiveIterationEmpty phbfs = (\<forall>vecBFS \<in> set phbfs. length vecBFS = 0)"

text \<open>A task of \<^verbatim>\<open>BFSOuterLoop_DLCSR\<close>, with the edge handles its loop has still to visit.\<close>

datatype ('v, 'h) bfs_task =
    NotStarted 'v
  | AtEdges "'h list"
  | HasRead 'v u64 "'h list"
  | MustPush 'v "'h list"

inductive task_step ::
  "('g, 'v, 'h) graph_ops \<Rightarrow> u64 \<Rightarrow> 'g \<times> 'v list list \<times> ('v, 'h) bfs_task \<Rightarrow> 'g \<times> 'v list list \<times> ('v, 'h) bfs_task \<Rightarrow> bool"
  for ops :: "('g, 'v, 'h) graph_ops" and dist :: u64 where
  task_start: "go_edges ops g v = Some ehs \<Longrightarrow> task_step ops dist (g, act, NotStarted v) (g, act, AtEdges ehs)"
| task_read: "go_getEdgeDst ops g eh = dst \<Longrightarrow> go_getData ops g dst = Inr dst_data \<Longrightarrow>
    task_step ops dist (g, act, AtEdges (eh # ehs)) (g, act, HasRead dst dst_data ehs)"
| task_skip: "dst_data \<noteq> UINT64_MAX \<Longrightarrow> task_step ops dist (g, act, HasRead dst dst_data ehs) (g, act, AtEdges ehs)"
| task_set: "dst_data = UINT64_MAX \<Longrightarrow> go_setData ops g dst dist = Inr g' \<Longrightarrow>
    task_step ops dist (g, act, HasRead dst dst_data ehs) (g', act, MustPush dst ehs)"
| task_push: "t < length act \<Longrightarrow>
    task_step ops dist (g, act, MustPush dst ehs) (g, act[t := act ! t @ [dst]], AtEdges ehs)"

inductive_cases task_stepE: "task_step ops dist x y"

text \<open>The vectors of the threads of each host, one after the other: what \<^verbatim>\<open>hostFlattenAppend\<close> appends for the host.\<close>

definition flatten_hosts :: "nat \<Rightarrow> nat \<Rightarrow> 'v list list \<Rightarrow> 'v list list" where
  "flatten_hosts threadsPerHost numHosts active =
     map (\<lambda>h. concat (take threadsPerHost (drop (h * threadsPerHost) active))) [0..<numHosts]"

datatype bfs_pc = AtLoop | InRound | Returned

record ('g, 'v, 'h) bfs_state =
  bs_graph :: 'g
  bs_dist :: u64
  bs_active :: "'v list list"
  bs_phbfs :: "'v list list"
  bs_tasks :: "('v, 'h) bfs_task list"
  bs_pc :: bfs_pc

inductive bfs_step ::
  "('g, 'v, 'h) graph_ops \<Rightarrow> nat \<Rightarrow> ('g, 'v, 'h) bfs_state \<Rightarrow> ('g, 'v, 'h) bfs_state \<Rightarrow> bool"
  for ops :: "('g, 'v, 'h) graph_ops" and threadsPerHost :: nat where
  bfs_round: "bs_pc st = AtLoop \<Longrightarrow> \<not> IsactiveIterationEmpty (bs_phbfs st) \<Longrightarrow>
    bfs_step ops threadsPerHost st (st\<lparr>bs_dist := bs_dist st + 1, bs_active := map (\<lambda>_. []) (bs_active st),
      bs_tasks := map NotStarted (concat (bs_phbfs st)), bs_pc := InRound\<rparr>)"
| bfs_task: "bs_pc st = InRound \<Longrightarrow> i < length (bs_tasks st) \<Longrightarrow>
    task_step ops (bs_dist st) (bs_graph st, bs_active st, bs_tasks st ! i) (g', act', t') \<Longrightarrow>
    bfs_step ops threadsPerHost st (st\<lparr>bs_graph := g', bs_active := act', bs_tasks := (bs_tasks st)[i := t']\<rparr>)"
| bfs_flatten: "bs_pc st = InRound \<Longrightarrow> \<forall>t \<in> set (bs_tasks st). t = AtEdges [] \<Longrightarrow>
    bfs_step ops threadsPerHost st (st\<lparr>bs_phbfs := flatten_hosts threadsPerHost (length (bs_phbfs st)) (bs_active st), bs_pc := AtLoop\<rparr>)"
| bfs_return: "bs_pc st = AtLoop \<Longrightarrow> IsactiveIterationEmpty (bs_phbfs st) \<Longrightarrow>
    bfs_step ops threadsPerHost st (st\<lparr>bs_pc := Returned\<rparr>)"

inductive_cases bfs_stepE: "bfs_step ops threadsPerHost st st'"

text \<open>
  \<^verbatim>\<open>SSSP_DLCSR\<close> up to its loop, on host \<open>here\<close>: every label becomes \<^verbatim>\<open>UINT64_MAX\<close>, the label of the source 0, and the source
  is pushed to the frontier of the host.
\<close>

definition SSSP_DLCSR_start ::
  "('g, 'v, 'h) graph_ops \<Rightarrow> nat \<Rightarrow> 'g \<Rightarrow> u64 \<Rightarrow> 'v list list \<Rightarrow> 'v list list \<Rightarrow> ('g, 'v, 'h) bfs_state or_abort option" where
  "SSSP_DLCSR_start ops here graph src active phbfs =
     Option.bind (go_setAllData ops graph UINT64_MAX) (\<lambda>graph.
     Option.bind (go_getTopologyID ops graph src) (\<lambda>srcID.
       Some (abort_bind srcID (\<lambda>srcID.
             abort_bind (go_setData ops graph srcID 0) (\<lambda>graph.
             Inr \<lparr>bs_graph = graph, bs_dist = 0, bs_active = active, bs_phbfs = phbfs[here := phbfs ! here @ [srcID]],
                   bs_tasks = [], bs_pc = AtLoop\<rparr>)))))"

subsection \<open>Distances\<close>

definition edge_rel :: "('v \<Rightarrow> 'v list) \<Rightarrow> ('v \<times> 'v) set" where
  "edge_rel adj = {(v, w). w \<in> set (adj v)}"

definition reaches :: "('v \<Rightarrow> 'v list) \<Rightarrow> 'v \<Rightarrow> 'v \<Rightarrow> bool" where
  "reaches adj s v \<longleftrightarrow> (s, v) \<in> (edge_rel adj)\<^sup>*"

text \<open>The least number of edges of a path.\<close>

definition hops :: "('v \<Rightarrow> 'v list) \<Rightarrow> 'v \<Rightarrow> 'v \<Rightarrow> nat" where
  "hops adj s v = (LEAST k. (s, v) \<in> edge_rel adj ^^ k)"

definition layer :: "('v \<Rightarrow> 'v list) \<Rightarrow> 'v \<Rightarrow> nat \<Rightarrow> 'v set" where
  "layer adj s k = {v. reaches adj s v \<and> hops adj s v = k}"

lemma hops_path: "reaches adj s v \<Longrightarrow> (s, v) \<in> edge_rel adj ^^ hops adj s v"
  unfolding reaches_def hops_def by (metis LeastI rtrancl_imp_relpow)

lemma hops_le: "(s, v) \<in> edge_rel adj ^^ k \<Longrightarrow> hops adj s v \<le> k"
  unfolding hops_def by (rule Least_le)

lemma path_reaches: "(s, v) \<in> edge_rel adj ^^ k \<Longrightarrow> reaches adj s v"
  unfolding reaches_def by (rule relpow_imp_rtrancl)

lemma layer_0: "layer adj s 0 = {s}"
proof -
  have "hops adj s s = 0" using hops_le [of s s 0 adj] by simp
  moreover have "v = s" if "reaches adj s v" "hops adj s v = 0" for v using hops_path [OF that(1)] that(2) by simp
  ultimately show ?thesis by (auto simp: layer_def reaches_def)
qed

lemma layer_step:
  assumes "v \<in> layer adj s k" "w \<in> set (adj v)"
  shows "reaches adj s w" "hops adj s w \<le> Suc k"
proof -
  have "(s, v) \<in> edge_rel adj ^^ k" using assms(1) hops_path by (fastforce simp: layer_def)
  then have "(s, w) \<in> edge_rel adj ^^ Suc k" using assms(2) by (auto simp: edge_rel_def)
  then show "reaches adj s w" "hops adj s w \<le> Suc k" by (rule path_reaches, rule hops_le)
qed

lemma layer_pred:
  assumes "w \<in> layer adj s (Suc k)"
  shows "\<exists>v \<in> layer adj s k. w \<in> set (adj v)"
proof -
  have h: "reaches adj s w" "hops adj s w = Suc k" using assms by (auto simp: layer_def)
  obtain v where v: "(s, v) \<in> edge_rel adj ^^ k" "w \<in> set (adj v)"
    using hops_path [OF h(1)] h(2) by (auto simp: edge_rel_def)
  have "hops adj s v = k"
  proof (rule ccontr)
    assume "hops adj s v \<noteq> k"
    then have "v \<in> layer adj s (hops adj s v)" "hops adj s v < k"
      using hops_le [OF v(1)] path_reaches [OF v(1)] by (simp_all add: layer_def)
    then show False using layer_step(2) [of v adj s "hops adj s v" w] v(2) h(2) by simp
  qed
  then have "v \<in> layer adj s k" using path_reaches [OF v(1)] by (simp add: layer_def)
  then show ?thesis using v(2) by blast
qed

lemma layer_below: "layer adj s k \<noteq> {} \<Longrightarrow> j \<le> k \<Longrightarrow> layer adj s j \<noteq> {}"
proof (induction k)
  case (Suc k)
  then show ?case using layer_pred [of _ adj s k] by (cases "j = Suc k") auto
qed simp

lemma layer_bound:
  assumes "finite V" "s \<in> V" "\<forall>v \<in> V. set (adj v) \<subseteq> V" "layer adj s k \<noteq> {}"
  shows "k < card V"
proof -
  have V: "v \<in> V" if "(s, v) \<in> edge_rel adj ^^ n" for n v
    using that assms(2,3) by (induction n arbitrary: v) (auto simp: edge_rel_def)
  have "\<exists>v. v \<in> layer adj s j" if "j \<le> k" for j using layer_below [OF assms(4) that] by blast
  then obtain f where f: "f j \<in> layer adj s j" if "j \<le> k" for j by metis
  have "hops adj s (f j) = j" if "j \<le> k" for j using f [OF that] by (simp add: layer_def)
  then have "inj_on f {..k}" by (metis atMost_iff inj_onI)
  moreover have "f ` {..k} \<subseteq> V" using f V hops_path by (fastforce simp: layer_def)
  ultimately have "card {..k} \<le> card V" using assms(1) by (metis card_image card_mono)
  then show ?thesis by simp
qed

text \<open>No vertex at a distance: none further away.\<close>

lemma layer_empty_hops: "layer adj s k = {} \<Longrightarrow> reaches adj s v \<Longrightarrow> hops adj s v < k"
  using layer_below [of adj s "hops adj s v" k] by (force simp: layer_def not_less)

end
