(* ===== verification/Thread_Local_Vector.thy ===== *)
theory Thread_Local_Vector
  imports Do_All Rt_Vector Prefix_Sum Bfs
begin

text \<open>
  Vectors with a part for each hardware thread (\<^verbatim>\<open>containers/thread_local_vector.hpp\<close>, \<^verbatim>\<open>thread_local_storage.hpp\<close>). The storage is the
  list of its elements by thread index; \<open>ThreadLocalStorage_get\<close> is where element \<open>i\<close> lies. A thread appends to its own part; \<^verbatim>\<open>computeIndices\<close> sums the sizes, and
  \<^verbatim>\<open>hostFlattenAppend\<close> appends, for each host, the parts of its threads to the vector of the host, with one task for each thread.
\<close>

subsection \<open>Storage of the threads\<close>

definition ThreadLocalStorage_get :: "Place \<Rightarrow> ThreadIndex \<Rightarrow> u64 \<Rightarrow> Place \<times> u64" where
  "ThreadLocalStorage_get placeDims threadDims i =
     (let threadsPerCore = dim_u64 (thread_id threadDims);
          threadsPerPod = threadsPerCore * dim_u64 (core_x (dims_core placeDims)) * dim_u64 (core_y (dims_core placeDims));
          podIdx = i div threadsPerPod;
          threadPerPodIdx = i mod threadsPerPod
      in (getPlaceFromPodIdx placeDims podIdx, threadPerPodIdx))"

subsection \<open>The vector\<close>

record 'a ThreadLocalVector =
  tl_data :: "'a Vector list"
  tl_indices :: "u64 list"
  tl_indicesInitialized :: bool
  tl_indicesComputed :: bool

text \<open>
  \<^verbatim>\<open>initialize\<close> copies an empty vector to every thread; \<open>copied\<close> is the result of \<^verbatim>\<open>copyToAllThreads\<close>'s allocation.
\<close>

definition TLV_initialize ::
  "'a :: zero alloc_env \<Rightarrow> Status \<Rightarrow> nat \<Rightarrow> 'a ThreadLocalVector \<Rightarrow> Status \<times> 'a ThreadLocalVector" where
  "TLV_initialize env copied numThreads tv =
     (let (status, vec) = Vector_initialize env 0 (getCurrentPlace env) MainMem Vector_empty in
      if status \<noteq> Success then (status, tv)
      else if copied \<noteq> Success then (copied, tv)
      else (Success, tv\<lparr>tl_data := replicate numThreads (snd (Vector_initialize env (v_size vec) (getCurrentPlace env) MainMem Vector_empty))\<rparr>))"

definition TLV_deinitialize :: "'a ThreadLocalVector \<Rightarrow> 'a ThreadLocalVector" where
  "TLV_deinitialize tv = tv\<lparr>tl_indices := (if tl_indicesInitialized tv then [] else tl_indices tv), tl_data := []\<rparr>"

definition TLV_pushBack :: "'a alloc_env \<Rightarrow> nat \<Rightarrow> 'a \<Rightarrow> 'a ThreadLocalVector \<Rightarrow> Status \<times> 'a ThreadLocalVector" where
  "TLV_pushBack env thread val tv =
     (let (status, vec) = pushBack env val (tl_data tv ! thread) in (status, tv\<lparr>tl_data := (tl_data tv)[thread := vec]\<rparr>))"

definition TLV_sizeAll :: "'a ThreadLocalVector \<Rightarrow> u64" where
  "TLV_sizeAll tv = (if tl_indicesComputed tv then last (tl_indices tv)
     else fold (\<lambda>vec n. n + v_size vec) (tl_data tv) 0)"

definition TLV_clear :: "'a ThreadLocalVector \<Rightarrow> 'a ThreadLocalVector" where
  "TLV_clear tv = tv\<lparr>tl_indicesComputed := False, tl_data := map Vector_clear (tl_data tv)\<rparr>"

definition TLV_transmute :: "'a Vector \<Rightarrow> u64" where "TLV_transmute p = v_size p"
definition TLV_scan_op :: "'a Vector \<Rightarrow> u64 \<Rightarrow> u64" where "TLV_scan_op p l = v_size p + l"
definition TLV_combiner :: "u64 \<Rightarrow> u64 \<Rightarrow> u64" where "TLV_combiner f s = f + s"

text \<open>
  \<^verbatim>\<open>computeIndices\<close>: the statuses of its two allocations, the contents of the fresh index storage, and what the prefix sum
  leaves in its destination are arguments.
\<close>

definition computeIndices ::
  "Status \<Rightarrow> u64 list \<Rightarrow> Status \<Rightarrow> (u64 list \<Rightarrow> u64 list) \<Rightarrow> 'a ThreadLocalVector \<Rightarrow> Status \<times> 'a ThreadLocalVector" where
  "computeIndices indices_init fresh_indices prefix_init prefix_sum tv =
     (if \<not> tl_indicesInitialized tv \<and> indices_init \<noteq> Success then (indices_init, tv)
      else
        let tv1 = (if tl_indicesInitialized tv then tv else tv\<lparr>tl_indices := fresh_indices, tl_indicesInitialized := True\<rparr>)
        in if prefix_init \<noteq> Success then (prefix_init, tv1)
           else (Success, tv1\<lparr>tl_indices := prefix_sum (tl_indices tv1), tl_indicesComputed := True\<rparr>))"

definition hostIndexOffset :: "Place \<Rightarrow> ThreadIndex \<Rightarrow> u64 list \<Rightarrow> u64 \<Rightarrow> u64" where
  "hostIndexOffset pd td indices host =
     (if host = 0 then 0
      else let place = Place (NodeIndex host) (PodIndex 0 0) (CoreIndex 0 0);
               idx = getThreadIdxFromPlace pd td place (ThreadIndex 0)
           in indices ! unat (idx - 1))"

subsection \<open>Flattening\<close>

text \<open>The loop over the hosts, which makes room in their vectors. A loop of \<open>n\<close> calls of \<^verbatim>\<open>pushBack\<close> pushes \<open>n\<close> elements.\<close>

fun flatten_reserve ::
  "'a :: zero alloc_env \<Rightarrow> Place \<Rightarrow> ThreadIndex \<Rightarrow> u64 list \<Rightarrow> nat list \<Rightarrow> 'a Vector list \<Rightarrow> Status \<times> 'a Vector list" where
  "flatten_reserve env pd td indices [] flat = (Success, flat)"
| "flatten_reserve env pd td indices (i # is) flat =
     (let start = hostIndexOffset pd td indices (word_of_nat i);
          finish = hostIndexOffset pd td indices (word_of_nat i + 1);
          (err, v) = Vector_reserve env (v_size (flat ! i) + finish - start) (flat ! i)
      in if err \<noteq> Success then (err, flat[i := v])
         else let (err', v') = push_all (pushBack env) (replicate (unat (finish - start)) 0) v
              in if err' \<noteq> Success then (err', flat[i := v']) else flatten_reserve env pd td indices is (flat[i := v']))"

text \<open>The task of thread \<open>i\<close>: the writes it performs, each a position in the vector of its host and an element.\<close>

definition flatten_task ::
  "Place \<Rightarrow> ThreadIndex \<Rightarrow> 'a ThreadLocalVector \<Rightarrow> 'a Vector list \<Rightarrow> u64 \<Rightarrow> (u64 \<times> u64 \<times> 'a) list" where
  "flatten_task pd td data flat i =
     (let host = i div getThreadsPerHost pd td;
          start = hostIndexOffset pd td (tl_indices data) host;
          cur = (if i = 0 then 0 else tl_indices data ! unat (i - 1));
          finish = hostIndexOffset pd td (tl_indices data) (host + 1);
          localVec = tl_data data ! unat i;
          room = v_size (flat ! unat host) - (finish - start)
      in map (\<lambda>j. (host, room + (cur + word_of_nat j) - start, Vector_get localVec (word_of_nat j))) [0..<unat (v_size localVec)])"

definition flatten_write :: "u64 \<times> u64 \<times> 'a \<Rightarrow> 'a Vector list \<Rightarrow> 'a Vector list" where
  "flatten_write w flat = (case w of (host, pos, elt) \<Rightarrow> flat[unat host := Vector_set (flat ! unat host) pos elt])"

text \<open>\<^verbatim>\<open>hostFlattenAppend\<close> up to its parallel loop: an early return, or the tasks of the loop on the data it works on.\<close>

definition hostFlattenAppend ::
  "'a :: zero alloc_env \<Rightarrow> Place \<Rightarrow> ThreadIndex \<Rightarrow> (('a ThreadLocalVector \<Rightarrow> Status \<times> 'a ThreadLocalVector)) \<Rightarrow>
   'a ThreadLocalVector \<Rightarrow> 'a Vector list \<Rightarrow> Status \<times> 'a ThreadLocalVector \<times> 'a Vector list" where
  "hostFlattenAppend env pd td compute tv flat =
     (let (err, tv1) = (if tl_indicesComputed tv then (Success, tv) else compute tv) in
      if err \<noteq> Success then (err, tv1, flat)
      else let (err', flat1) = flatten_reserve env pd td (tl_indices tv1) [0..<unat (dims_node pd)] flat
           in (err', tv1, flat1))"

end
