(* ===== verification/Thread_Local_Flatten.thy ===== *)
theory Thread_Local_Flatten
  imports Thread_Local_Vector
begin

text \<open>
  Correctness of \<^verbatim>\<open>computeIndices\<close> and \<^verbatim>\<open>hostFlattenAppend\<close>. The index of a part is the sum of the sizes of the parts
  before it; the tasks of the threads write every position behind the old elements of a host, each with the
  element that belongs there, so that their order does not matter. The result is \<open>flatten_hosts\<close>, which the breadth
  first search appends to its frontier.
\<close>

subsection \<open>Offsets\<close>

definition part_sizes :: "'a Vector list \<Rightarrow> nat \<Rightarrow> nat" where
  "part_sizes vs k = sum_list (map (\<lambda>v. unat (v_size v)) (take k vs))"

definition indices_ok :: "'a ThreadLocalVector \<Rightarrow> bool" where
  "indices_ok tv \<longleftrightarrow> length (tl_data tv) \<le> length (tl_indices tv) \<and>
     (\<forall>i < length (tl_data tv). unat (tl_indices tv ! i) = part_sizes (tl_data tv) (Suc i))"

lemma part_sizes_0 [simp]: "part_sizes vs 0 = 0"
  by (simp add: part_sizes_def)

lemma part_sizes_Suc: "i < length vs \<Longrightarrow> part_sizes vs (Suc i) = part_sizes vs i + unat (v_size (vs ! i))"
  by (simp add: part_sizes_def take_Suc_conv_app_nth)

lemma part_sizes_mono: "i \<le> j \<Longrightarrow> part_sizes vs i \<le> part_sizes vs j"
  unfolding part_sizes_def by (metis le_add1 le_add_diff_inverse map_append sum_list.append take_add)

text \<open>The parts of the threads one after the other.\<close>

lemma length_concat_parts:
  assumes "\<forall>v \<in> set vs. Vector_ok v"
  shows "length (concat (map contents (take k vs))) = part_sizes vs k"
proof -
  have "map length (map contents (take k vs)) = map (\<lambda>v. unat (v_size v)) (take k vs)"
    using assms by (auto simp: length_contents dest: in_set_takeD)
  then show ?thesis by (simp add: length_concat part_sizes_def del: map_map)
qed

lemma nth_concat_parts:
  assumes "\<forall>v \<in> set vs. Vector_ok v" "i < length vs" "j < unat (v_size (vs ! i))"
  shows "concat (map contents vs) ! (part_sizes vs i + j) = contents (vs ! i) ! j"
proof -
  have "vs = take i vs @ vs ! i # drop (Suc i) vs" using assms(2) by (rule id_take_nth_drop)
  then have "concat (map contents vs) = concat (map contents (take i vs)) @ contents (vs ! i) @ concat (map contents (drop (Suc i) vs))"
    by (metis concat.simps(2) concat_append list.simps(9) map_append)
  moreover have "length (contents (vs ! i)) = unat (v_size (vs ! i))" using assms by (simp add: length_contents)
  ultimately show ?thesis using assms(3) length_concat_parts [OF assms(1), of i] by (simp add: nth_append)
qed

lemma part_of_position:
  assumes "q < part_sizes vs n" "n \<le> length vs"
  shows "\<exists>i < n. part_sizes vs i \<le> q \<and> q < part_sizes vs i + unat (v_size (vs ! i))"
  using assms
proof (induction n)
  case (Suc n)
  show ?case
  proof (cases "q < part_sizes vs n")
    case True
    then show ?thesis using Suc by (auto intro: less_SucI)
  next
    case False
    then show ?thesis using Suc.prems by (auto simp: part_sizes_Suc)
  qed
qed simp

lemma host_first_thread:
  "getThreadIdxFromPlace pd td (Place (NodeIndex h) (PodIndex 0 0) (CoreIndex 0 0)) (ThreadIndex 0) = h * getThreadsPerHost pd td"
  unfolding getThreadIdxFromPlace_def Let_def threads_per_factors(1) [of td] threads_per_factors(2,3) by simp

lemma unat_hostIndexOffset:
  assumes m: "machine_ok pd td" and i: "indices_ok tv"
    and n: "length (tl_data tv) = unat (dims_node pd) * host_threads pd td" and h: "h \<le> unat (dims_node pd)"
  shows "unat (hostIndexOffset pd td (tl_indices tv) (word_of_nat h)) = part_sizes (tl_data tv) (h * host_threads pd td)"
proof (cases "h = 0")
  case False
  note pos = machine_positive [OF m]
  have hl: "unat (word_of_nat h :: u64) = h" using h order.strict_trans1 [OF h, of "2 ^ 64"] by simp
  have le: "h * host_threads pd td \<le> length (tl_data tv)" unfolding n using h by (rule mult_le_mono1)
  then have "h * host_threads pd td < 2 ^ 64" using pos(9) unfolding n by (rule order.strict_trans1)
  then have "unat (word_of_nat h * getThreadsPerHost pd td) = h * host_threads pd td"
    using unat_getThreads(3) [OF m] hl by (simp add: unat_mult_no_wrap)
  moreover have p: "0 < h * host_threads pd td" using False pos by simp
  ultimately have "unat (word_of_nat h * getThreadsPerHost pd td - 1) = h * host_threads pd td - 1"
    by (metis less_numeral_extra(3) unat_0 unat_minus_one_u64)
  moreover have "(word_of_nat h :: u64) \<noteq> 0" using hl False by (metis unat_0)
  moreover have "unat (tl_indices tv ! (h * host_threads pd td - 1)) = part_sizes (tl_data tv) (Suc (h * host_threads pd td - 1))"
    by (rule i [unfolded indices_ok_def, THEN conjunct2, rule_format]) (rule order.strict_trans2 [OF diff_less le], use p in simp_all)
  ultimately show ?thesis
    using p by (simp only: hostIndexOffset_def host_first_thread Let_def if_False Suc_diff_1)
qed (simp add: hostIndexOffset_def)


subsection \<open>Room for the elements\<close>

lemma flatten_reserve_spec:
  assumes "flatten_reserve env pd td ind is flat = (Success, flat')" "env_ok env" "distinct is"
    and "\<forall>v \<in> set flat. Vector_ok v" "\<forall>i \<in> set is. i < length flat"
  defines "room \<equiv> \<lambda>i. hostIndexOffset pd td ind (word_of_nat i + 1) - hostIndexOffset pd td ind (word_of_nat i)"
  shows "length flat' = length flat \<and> (\<forall>v \<in> set flat'. Vector_ok v) \<and>
    (\<forall>i < length flat. contents (flat' ! i) = contents (flat ! i) @ (if i \<in> set is then replicate (unat (room i)) 0 else []))"
  using assms(1,3-5)
proof (induction "is" arbitrary: flat)
  case (Cons i "is")
  obtain err v where r: "Vector_reserve env (v_size (flat ! i) + hostIndexOffset pd td ind (word_of_nat i + 1)
      - hostIndexOffset pd td ind (word_of_nat i)) (flat ! i) = (err, v)" by fastforce
  obtain err' v' where p: "push_all (pushBack env) (replicate (unat (room i)) 0) v = (err', v')" by fastforce
  have s: "err = Success" "err' = Success" and rest: "flatten_reserve env pd td ind is (flat[i := v']) = (Success, flat')"
    using Cons.prems(1) r p by (auto simp: room_def Let_def split: if_splits)
  have i: "i < length flat" "Vector_ok (flat ! i)" using Cons.prems(3,4) by simp_all
  note v = Vector_reserve_spec [OF i(2) assms(2) r]
  have "Vector_ok v'" "contents v' = contents (flat ! i) @ replicate (unat (room i)) 0"
    using vec.push_all_prefix [OF _ p] v s assms(2) by auto
  moreover have "\<forall>u \<in> set (flat[i := v']). Vector_ok u" using \<open>Vector_ok v'\<close> Cons.prems(3) set_update_subset_insert by fastforce
  moreover note Cons.IH [OF rest]
  ultimately show ?case using Cons.prems i by (auto simp: nth_list_update)
qed simp

subsection \<open>The writes of the tasks\<close>

abbreviation elems_of :: "'a Vector list \<Rightarrow> nat \<Rightarrow> 'a list" where
  "elems_of flat h \<equiv> ar_elems (v_buf (flat ! h))"

lemma flatten_write_simps:
  "length (flatten_write (h, p, e) flat) = length flat"
  "unat h < length flat \<Longrightarrow> elems_of (flatten_write (h, p, e) flat) k = (if k = unat h then (elems_of flat k)[unat p := e] else elems_of flat k)"
  "unat h < length flat \<Longrightarrow> v_size (flatten_write (h, p, e) flat ! k) = v_size (flat ! k)"
  "unat h < length flat \<Longrightarrow> ar_size (v_buf (flatten_write (h, p, e) flat ! k)) = ar_size (v_buf (flat ! k))"
  by (auto simp: flatten_write_def Vector_set_def Array_set_def nth_list_update)

text \<open>
  Writes that agree with \<open>tgt\<close>, a value for each position of each host, leave the target at the written positions
  in whatever order they are made.
\<close>

definition agree :: "(nat \<Rightarrow> nat \<Rightarrow> 'a) \<Rightarrow> 'a Vector list \<Rightarrow> u64 \<times> u64 \<times> 'a \<Rightarrow> bool" where
  "agree tgt flat w = (case w of (h, p, e) \<Rightarrow> unat h < length flat \<and> unat p < length (elems_of flat (unat h)) \<and> e = tgt (unat h) (unat p))"

lemma agree_commute:
  assumes "agree tgt flat v" "agree tgt flat w"
  shows "flatten_write v \<circ> flatten_write w = flatten_write w \<circ> flatten_write v"
proof -
  obtain h p e h' p' e' where [simp]: "v = (h, p, e)" "w = (h', p', e')" by (cases v, cases w) blast
  have "e = e'" if "h = h'" "p = p'" using assms that by (simp add: agree_def)
  moreover have "unat p \<noteq> unat p'" if "p \<noteq> p'" using that by (simp add: word_unat_eq_iff)
  moreover have "unat h \<noteq> unat h'" if "h \<noteq> h'" using that by (simp add: word_unat_eq_iff)
  ultimately have "flatten_write v (flatten_write w f) = flatten_write w (flatten_write v f)" for f
    by (cases "h = h'"; cases "p = p'"; cases "unat h < length f"; cases "unat h' < length f")
      (simp_all add: flatten_write_def Vector_set_def Array_set_def list_update_swap list_update_beyond)
  then show ?thesis by (simp add: fun_eq_iff)
qed

definition written :: "(u64 \<times> u64 \<times> 'a) list \<Rightarrow> nat \<Rightarrow> nat \<Rightarrow> bool" where
  "written ws k q \<longleftrightarrow> (\<exists>(h, p, e) \<in> set ws. unat h = k \<and> unat p = q)"

lemma written_simps [simp]:
  "\<not> written [] k q" "written (ws @ [(h, p, e)]) k q \<longleftrightarrow> written ws k q \<or> unat h = k \<and> unat p = q"
  by (auto simp: written_def)

lemma fold_flatten_write:
  assumes "\<forall>w \<in> set ws. agree tgt flat w"
  shows "length (fold flatten_write ws flat) = length flat \<and> (\<forall>k < length flat.
    v_size (fold flatten_write ws flat ! k) = v_size (flat ! k) \<and>
    ar_size (v_buf (fold flatten_write ws flat ! k)) = ar_size (v_buf (flat ! k)) \<and>
    length (elems_of (fold flatten_write ws flat) k) = length (elems_of flat k) \<and>
    (\<forall>q < length (elems_of flat k). elems_of (fold flatten_write ws flat) k ! q =
       (if written ws k q then tgt k q else elems_of flat k ! q)))"
  using assms
proof (induction ws rule: rev_induct)
  case (snoc w ws)
  obtain h p e where [simp]: "w = (h, p, e)" by (cases w) blast
  let ?f = "fold flatten_write ws flat"
  have a: "agree tgt flat (h, p, e)" using snoc.prems by simp
  have IH: "length ?f = length flat" "\<And>k. k < length flat \<Longrightarrow> v_size (?f ! k) = v_size (flat ! k) \<and>
      ar_size (v_buf (?f ! k)) = ar_size (v_buf (flat ! k)) \<and> length (elems_of ?f k) = length (elems_of flat k)"
    "\<And>k q. k < length flat \<Longrightarrow> q < length (elems_of flat k) \<Longrightarrow> elems_of ?f k ! q =
       (if written ws k q then tgt k q else elems_of flat k ! q)"
    using snoc by auto
  have h: "unat h < length ?f" "unat p < length (elems_of flat (unat h))" "e = tgt (unat h) (unat p)"
    using a IH(1) by (simp_all add: agree_def)
  have q: "elems_of (flatten_write w ?f) k ! q =
       (if written (ws @ [w]) k q then tgt k q else elems_of flat k ! q)"
    if "k < length flat" "q < length (elems_of flat k)" for k q
    using IH(2) [OF that(1)] IH(3) [OF that] h that by (auto simp: flatten_write_simps nth_list_update)
  show ?case
    using IH h q by (auto simp: flatten_write_simps)
qed simp


text \<open>What \<^verbatim>\<open>hostFlattenAppend\<close> relies on: correct indices, well-formed vectors, and sizes that fit in 64 bits.\<close>

definition flatten_pre :: "Place \<Rightarrow> ThreadIndex \<Rightarrow> 'a ThreadLocalVector \<Rightarrow> 'a Vector list \<Rightarrow> bool" where
  "flatten_pre pd td tv flat \<longleftrightarrow> machine_ok pd td \<and> length (tl_data tv) = unat (dims_node pd) * host_threads pd td
     \<and> length flat = unat (dims_node pd) \<and> indices_ok tv \<and> (\<forall>v \<in> set (tl_data tv). Vector_ok v)
     \<and> (\<forall>v \<in> set flat. Vector_ok v \<and> unat (v_size v) + part_sizes (tl_data tv) (length (tl_data tv)) < 2 ^ 64)"

definition flatten_tgt :: "Place \<Rightarrow> ThreadIndex \<Rightarrow> 'a ThreadLocalVector \<Rightarrow> 'a Vector list \<Rightarrow> nat \<Rightarrow> nat \<Rightarrow> 'a" where
  "flatten_tgt pd td tv flat h q =
     concat (map contents (tl_data tv)) ! (part_sizes (tl_data tv) (h * host_threads pd td) + (q - unat (v_size (flat ! h))))"

lemma unat_host_room:
  assumes pre: "flatten_pre pd td tv flat" and h: "h < unat (dims_node pd)"
  defines "first \<equiv> part_sizes (tl_data tv) (h * host_threads pd td)" and "bound \<equiv> part_sizes (tl_data tv) ((h + 1) * host_threads pd td)"
  shows "unat (hostIndexOffset pd td (tl_indices tv) (word_of_nat h)) = first"
    "unat (hostIndexOffset pd td (tl_indices tv) (word_of_nat h + 1)) = bound" "first \<le> bound"
    "unat (v_size (flat ! h)) + bound < 2 ^ 64"
    "unat (hostIndexOffset pd td (tl_indices tv) (word_of_nat h + 1) - hostIndexOffset pd td (tl_indices tv) (word_of_nat h)) = bound - first"
proof -
  have m: "machine_ok pd td" "indices_ok tv" "length (tl_data tv) = unat (dims_node pd) * host_threads pd td"
    using pre by (simp_all add: flatten_pre_def)
  note off = unat_hostIndexOffset [OF m]
  have "(word_of_nat h + 1 :: u64) = word_of_nat (h + 1)" by simp
  then show first: "unat (hostIndexOffset pd td (tl_indices tv) (word_of_nat h)) = first"
    and bound: "unat (hostIndexOffset pd td (tl_indices tv) (word_of_nat h + 1)) = bound"
    using h by (simp_all only: off first_def bound_def)
  show le: "first \<le> bound" unfolding first_def bound_def by (rule part_sizes_mono) simp
  have "(h + 1) * host_threads pd td \<le> length (tl_data tv)" unfolding m(3) using h by (intro mult_le_mono1) simp
  then have "bound \<le> part_sizes (tl_data tv) (length (tl_data tv))" unfolding bound_def by (rule part_sizes_mono)
  moreover have "flat ! h \<in> set flat" using pre h by (simp add: flatten_pre_def)
  then have "unat (v_size (flat ! h)) + part_sizes (tl_data tv) (length (tl_data tv)) < 2 ^ 64"
    using pre unfolding flatten_pre_def by blast
  ultimately show "unat (v_size (flat ! h)) + bound < 2 ^ 64" by linarith
  show "unat (hostIndexOffset pd td (tl_indices tv) (word_of_nat h + 1) - hostIndexOffset pd td (tl_indices tv) (word_of_nat h)) = bound - first"
    using first bound le by (simp add: unat_sub_no_wrap)
qed

lemma flatten_room:
  assumes pre: "flatten_pre pd td tv flat" and env: "env_ok env"
    and r: "flatten_reserve env pd td (tl_indices tv) [0..<unat (dims_node pd)] flat = (Success, flat1)"
  shows "length flat1 = length flat \<and> (\<forall>v \<in> set flat1. Vector_ok v) \<and> (\<forall>h < length flat.
    contents (flat1 ! h) = contents (flat ! h) @
      replicate (part_sizes (tl_data tv) ((h + 1) * host_threads pd td) - part_sizes (tl_data tv) (h * host_threads pd td)) 0)"
  using flatten_reserve_spec [OF r env] pre unat_host_room(5) [OF pre] by (simp add: flatten_pre_def)

lemma flatten_room_size:
  assumes pre: "flatten_pre pd td tv flat" and env: "env_ok env"
    and r: "flatten_reserve env pd td (tl_indices tv) [0..<unat (dims_node pd)] flat = (Success, flat1)"
    and h: "h < unat (dims_node pd)"
  shows "unat (v_size (flat1 ! h)) = unat (v_size (flat ! h)) +
    (part_sizes (tl_data tv) ((h + 1) * host_threads pd td) - part_sizes (tl_data tv) (h * host_threads pd td))"
proof -
  have h': "h < length flat" "Vector_ok (flat ! h)" using h pre by (simp_all add: flatten_pre_def)
  have "length (contents (flat1 ! h)) = length (contents (flat ! h)) +
      (part_sizes (tl_data tv) ((h + 1) * host_threads pd td) - part_sizes (tl_data tv) (h * host_threads pd td))"
    using flatten_room [OF pre env r] h' by simp
  moreover have "Vector_ok (flat1 ! h)" using flatten_room [OF pre env r] h' by simp
  ultimately show ?thesis using h'(2) by (simp add: length_contents)
qed


text \<open>The host of thread \<open>i\<close>, whose part lies between those of the first threads of this and the next host.\<close>

lemma host_of_thread:
  assumes pre: "flatten_pre pd td tv flat" and i: "i < length (tl_data tv)"
  defines "h \<equiv> i div host_threads pd td"
  shows "h < unat (dims_node pd)" "part_sizes (tl_data tv) (h * host_threads pd td) \<le> part_sizes (tl_data tv) i"
    "part_sizes (tl_data tv) (Suc i) \<le> part_sizes (tl_data tv) ((h + 1) * host_threads pd td)"
    "unat (word_of_nat i :: u64) = i" "word_of_nat i div getThreadsPerHost pd td = word_of_nat h"
    "(if word_of_nat i = (0 :: u64) then 0 else unat (tl_indices tv ! unat (word_of_nat i - 1 :: u64))) = part_sizes (tl_data tv) i"
proof -
  have m: "machine_ok pd td" and n: "length (tl_data tv) = unat (dims_node pd) * host_threads pd td" and ok: "indices_ok tv"
    using pre by (simp_all add: flatten_pre_def)
  note pos = machine_positive [OF m]
  show "h < unat (dims_node pd)" unfolding h_def using i n by (simp add: less_mult_imp_div_less)
  show "part_sizes (tl_data tv) (h * host_threads pd td) \<le> part_sizes (tl_data tv) i" unfolding h_def by (intro part_sizes_mono) simp
  have "i < (h + 1) * host_threads pd td" using div_block [OF pos(8), of i h] by (simp add: h_def)
  then show "part_sizes (tl_data tv) (Suc i) \<le> part_sizes (tl_data tv) ((h + 1) * host_threads pd td)" by (intro part_sizes_mono) simp
  have "i < 2 ^ 64" using i pos(9) unfolding n by (rule less_trans)
  then show ui: "unat (word_of_nat i :: u64) = i" by simp
  then show "word_of_nat i div getThreadsPerHost pd td = word_of_nat h"
    by (intro word_of_nat_eqI) (simp add: unat_div unat_getThreads [OF m] h_def)
  show "(if word_of_nat i = (0 :: u64) then 0 else unat (tl_indices tv ! unat (word_of_nat i - 1 :: u64))) = part_sizes (tl_data tv) i"
  proof (cases "i = 0")
    case False
    then have nz: "(word_of_nat i :: u64) \<noteq> 0" using ui by (metis unat_0)
    then have "unat (word_of_nat i - 1 :: u64) = i - 1" by (simp add: unat_minus_one_u64 ui)
    moreover have "unat (tl_indices tv ! (i - 1)) = part_sizes (tl_data tv) (Suc (i - 1))"
      by (rule ok [unfolded indices_ok_def, THEN conjunct2, rule_format]) (use i in simp)
    ultimately show ?thesis using nz False by simp
  qed simp
qed

lemma unat_shifted:
  fixes a b c :: u64
  assumes "unat a = A" "unat b = B" "unat c = C" "C \<le> B + n" "A + (B + n) < 2 ^ 64"
  shows "unat (a + (b + word_of_nat n) - c) = A + (B + n - C)"
proof -
  have b: "unat (b + word_of_nat n) = B + n" using assms by (simp add: unat_add_of_nat)
  have "unat (a + (b + word_of_nat n)) = A + (B + n)" using assms b by (simp add: unat_add_no_wrap)
  then show ?thesis using assms unat_sub_no_wrap [of c "a + (b + word_of_nat n)"] by simp
qed

text \<open>The writes of the task of thread \<open>i\<close>, as numbers.\<close>

lemma flatten_task_writes:
  assumes pre: "flatten_pre pd td tv flat" and env: "env_ok env"
    and r: "flatten_reserve env pd td (tl_indices tv) [0..<unat (dims_node pd)] flat = (Success, flat1)"
    and i: "i < length (tl_data tv)"
  defines "h \<equiv> i div host_threads pd td"
  shows "map (\<lambda>(h, p, e). (unat h, unat p, e)) (flatten_task pd td tv flat1 (word_of_nat i)) =
    map (\<lambda>j. (h, unat (v_size (flat ! h)) + (part_sizes (tl_data tv) i + j - part_sizes (tl_data tv) (h * host_threads pd td)),
      contents (tl_data tv ! i) ! j)) [0..<unat (v_size (tl_data tv ! i))]"
proof -
  note t = host_of_thread [OF pre i, folded h_def]
  note o = unat_host_room [OF pre t(1)]
  have uh: "unat (word_of_nat h :: u64) = h" using t(1) by (simp add: order.strict_trans [OF t(1)])
  let ?start = "hostIndexOffset pd td (tl_indices tv) (word_of_nat h)"
    and ?finish = "hostIndexOffset pd td (tl_indices tv) (word_of_nat h + 1)"
    and ?cur = "if word_of_nat i = (0 :: u64) then 0 else tl_indices tv ! unat (word_of_nat i - 1 :: u64)"
  let ?P = "part_sizes (tl_data tv)" and ?T = "host_threads pd td" and ?n = "unat (v_size (tl_data tv ! i))"
  have cur: "unat ?cur = ?P i" using t(6) by (simp split: if_splits)
  have room: "unat (v_size (flat1 ! h) - (?finish - ?start)) = unat (v_size (flat ! h))"
    using flatten_room_size [OF pre env r t(1)] o(5) by (simp add: unat_sub_no_wrap)
  have "unat (v_size (flat1 ! h) - (?finish - ?start) + (?cur + word_of_nat j) - ?start)
      = unat (v_size (flat ! h)) + (?P i + j - ?P (h * ?T))" if "j < ?n" for j
  proof -
    have j: "?P i + j < ?P (Suc i)" using that by (simp add: part_sizes_Suc [OF i])
    show ?thesis by (rule unat_shifted [OF room cur o(1)]) (use j t(2,3) o(4) in linarith)+
  qed
  moreover have "Vector_get (tl_data tv ! i) (word_of_nat j) = contents (tl_data tv ! i) ! j" if "j < ?n" for j
  proof -
    have "j < 2 ^ 64" using less_trans [OF that unat_lt_2p64] by simp
    then show ?thesis using that by (simp add: Vector_get_def Array_get_def contents_def)
  qed
  ultimately show ?thesis
    unfolding flatten_task_def Let_def t(4,5) uh by (simp add: uh)
qed


lemma flatten_task_member:
  assumes pre: "flatten_pre pd td tv flat" and env: "env_ok env"
    and r: "flatten_reserve env pd td (tl_indices tv) [0..<unat (dims_node pd)] flat = (Success, flat1)"
    and i: "i < length (tl_data tv)"
  defines "h \<equiv> i div host_threads pd td"
  shows "(\<exists>hw pw. (hw, pw, e) \<in> set (flatten_task pd td tv flat1 (word_of_nat i)) \<and> unat hw = k \<and> unat pw = q) \<longleftrightarrow>
    (\<exists>j < unat (v_size (tl_data tv ! i)). k = h \<and> e = contents (tl_data tv ! i) ! j \<and>
       q = unat (v_size (flat ! h)) + (part_sizes (tl_data tv) i + j - part_sizes (tl_data tv) (h * host_threads pd td)))"
proof -
  have "(\<exists>hw pw. (hw, pw, e) \<in> set (flatten_task pd td tv flat1 (word_of_nat i)) \<and> unat hw = k \<and> unat pw = q) \<longleftrightarrow>
      (k, q, e) \<in> set (map (\<lambda>(h, p, e). (unat h, unat p, e)) (flatten_task pd td tv flat1 (word_of_nat i)))" by force
  then show ?thesis unfolding flatten_task_writes [OF pre env r i, folded h_def] by auto
qed

lemma flatten_agree:
  assumes pre: "flatten_pre pd td tv flat" and env: "env_ok env"
    and r: "flatten_reserve env pd td (tl_indices tv) [0..<unat (dims_node pd)] flat = (Success, flat1)"
    and i: "i < length (tl_data tv)" and w: "w \<in> set (flatten_task pd td tv flat1 (word_of_nat i))"
  shows "agree (flatten_tgt pd td tv flat) flat1 w"
proof -
  let ?P = "part_sizes (tl_data tv)" and ?T = "host_threads pd td" and ?h = "i div host_threads pd td"
  obtain hw pw e where [simp]: "w = (hw, pw, e)" by (cases w) blast
  obtain j where j: "j < unat (v_size (tl_data tv ! i))" "unat hw = ?h" "e = contents (tl_data tv ! i) ! j"
      "unat pw = unat (v_size (flat ! ?h)) + (?P i + j - ?P (?h * ?T))"
    using flatten_task_member [OF pre env r i, of e "unat hw" "unat pw"] w by auto
  note t = host_of_thread [OF pre i]
  have pj: "?P i + j < ?P (Suc i)" using j(1) by (simp add: part_sizes_Suc [OF i])
  have "Vector_ok (flat1 ! ?h)" "length flat1 = unat (dims_node pd)"
    using flatten_room [OF pre env r] t(1) pre by (simp_all add: flatten_pre_def)
  then have "unat (v_size (flat1 ! ?h)) \<le> length (elems_of flat1 ?h)" "?h < length flat1"
    using t(1) by (simp_all add: Vector_ok_def Array_ok_def capacity_def word_le_nat_alt)
  moreover have "unat pw < unat (v_size (flat1 ! ?h))"
    using flatten_room_size [OF pre env r t(1)] j(4) pj t(2,3) by simp
  moreover have "e = flatten_tgt pd td tv flat ?h (unat pw)"
    using nth_concat_parts [OF _ i j(1)] pre j(3,4) t(2) by (simp add: flatten_tgt_def flatten_pre_def)
  ultimately show ?thesis using j(2) by (simp add: agree_def)
qed

lemma flatten_written:
  assumes pre: "flatten_pre pd td tv flat" and env: "env_ok env"
    and r: "flatten_reserve env pd td (tl_indices tv) [0..<unat (dims_node pd)] flat = (Success, flat1)"
    and h: "h < unat (dims_node pd)" and q: "q < unat (v_size (flat1 ! h))"
  shows "written (concat (map (\<lambda>i. flatten_task pd td tv flat1 (word_of_nat i)) [0..<length (tl_data tv)])) h q
    \<longleftrightarrow> unat (v_size (flat ! h)) \<le> q"
proof
  let ?P = "part_sizes (tl_data tv)" and ?T = "host_threads pd td" and ?l = "unat (v_size (flat ! h))"
  assume "written (concat (map (\<lambda>i. flatten_task pd td tv flat1 (word_of_nat i)) [0..<length (tl_data tv)])) h q"
  then obtain i hw pw e where "i < length (tl_data tv)" "(hw, pw, e) \<in> set (flatten_task pd td tv flat1 (word_of_nat i))"
      "unat hw = h" "unat pw = q" by (auto simp: written_def)
  then show "?l \<le> q" using flatten_task_member [OF pre env r, of i e h q] by auto
next
  let ?P = "part_sizes (tl_data tv)" and ?T = "host_threads pd td" and ?l = "unat (v_size (flat ! h))"
  assume l: "?l \<le> q"
  have m: "machine_ok pd td" "length (tl_data tv) = unat (dims_node pd) * ?T" using pre by (simp_all add: flatten_pre_def)
  have n: "(h + 1) * ?T \<le> length (tl_data tv)" unfolding m(2) using h by (intro mult_le_mono1) simp
  have "?P (h * ?T) + (q - ?l) < ?P ((h + 1) * ?T)"
    using q l flatten_room_size [OF pre env r h] unat_host_room(3) [OF pre h] by linarith
  from part_of_position [OF this n] obtain i where i: "i < (h + 1) * ?T" "?P i \<le> ?P (h * ?T) + (q - ?l)"
      "?P (h * ?T) + (q - ?l) < ?P i + unat (v_size (tl_data tv ! i))" by blast
  then have il: "i < length (tl_data tv)" using n by simp
  have "h * ?T \<le> i"
  proof (rule ccontr)
    assume "\<not> h * ?T \<le> i"
    then have "?P (Suc i) \<le> ?P (h * ?T)" by (intro part_sizes_mono) simp
    then show False using i(3) part_sizes_Suc [OF il] by simp
  qed
  then have "i div ?T = h" using i(1) div_block [OF machine_positive(8) [OF m(1)]] by blast
  then have "\<exists>hw pw. (hw, pw, contents (tl_data tv ! i) ! (?P (h * ?T) + (q - ?l) - ?P i)) \<in> set (flatten_task pd td tv flat1 (word_of_nat i)) \<and>
      unat hw = h \<and> unat pw = q"
    unfolding flatten_task_member [OF pre env r il] using i l
    by (intro exI [of _ "?P (h * ?T) + (q - ?l) - ?P i"]) auto
  then show "written (concat (map (\<lambda>i. flatten_task pd td tv flat1 (word_of_nat i)) [0..<length (tl_data tv)])) h q"
    using il by (fastforce simp: written_def)
qed


subsection \<open>The result\<close>

lemma concat_parts_host:
  assumes "\<forall>v \<in> set vs. Vector_ok v" "(h + 1) * n \<le> length vs"
  shows "length (concat (take n (drop (h * n) (map contents vs)))) = part_sizes vs ((h + 1) * n) - part_sizes vs (h * n)"
    "k < part_sizes vs ((h + 1) * n) - part_sizes vs (h * n) \<Longrightarrow>
      concat (map contents vs) ! (part_sizes vs (h * n) + k) = concat (take n (drop (h * n) (map contents vs))) ! k"
proof -
  have "concat (take ((h + 1) * n) (map contents vs)) = concat (take (h * n) (map contents vs)) @ concat (take n (drop (h * n) (map contents vs)))"
    by (simp add: take_add add.commute [of n])
  then show l: "length (concat (take n (drop (h * n) (map contents vs)))) = part_sizes vs ((h + 1) * n) - part_sizes vs (h * n)"
    using length_concat_parts [OF assms(1), of "(h + 1) * n"] length_concat_parts [OF assms(1), of "h * n"] by (simp add: take_map)
  assume k: "k < part_sizes vs ((h + 1) * n) - part_sizes vs (h * n)"
  have "concat (map contents vs) = concat (take (h * n) (map contents vs)) @ concat (take n (drop (h * n) (map contents vs))) @
      concat (drop n (drop (h * n) (map contents vs)))"
    by (metis append_take_drop_id concat_append)
  then show "concat (map contents vs) ! (part_sizes vs (h * n) + k) = concat (take n (drop (h * n) (map contents vs))) ! k"
    using k l length_concat_parts [OF assms(1), of "h * n"] by (simp add: nth_append take_map)
qed

lemma flatten_result:
  assumes pre: "flatten_pre pd td tv flat" and env: "env_ok env"
    and r: "flatten_reserve env pd td (tl_indices tv) [0..<unat (dims_node pd)] flat = (Success, flat1)"
  defines "ws \<equiv> concat (map (\<lambda>i. flatten_task pd td tv flat1 (word_of_nat i)) [0..<length (tl_data tv)])"
  shows "\<forall>w \<in> set ws. agree (flatten_tgt pd td tv flat) flat1 w"
    "map contents (fold flatten_write ws flat1) =
      map2 (@) (map contents flat) (flatten_hosts (host_threads pd td) (unat (dims_node pd)) (map contents (tl_data tv)))"
proof -
  let ?f = "fold flatten_write ws flat1" and ?P = "part_sizes (tl_data tv)" and ?T = "host_threads pd td" and ?N = "unat (dims_node pd)"
  show a: "\<forall>w \<in> set ws. agree (flatten_tgt pd td tv flat) flat1 w"
    unfolding ws_def using flatten_agree [OF pre env r] by auto
  note f = fold_flatten_write [OF a]
  have len: "length flat = ?N" "length flat1 = ?N" and ok: "\<forall>v \<in> set (tl_data tv). Vector_ok v"
      and n: "length (tl_data tv) = ?N * ?T"
    using pre flatten_room [OF pre env r] by (simp_all add: flatten_pre_def)
  have "contents (?f ! h) = contents (flat ! h) @ concat (take ?T (drop (h * ?T) (map contents (tl_data tv))))" if h: "h < ?N" for h
  proof (rule nth_equalityI)
    have okh: "Vector_ok (flat ! h)" "Vector_ok (flat1 ! h)"
      using pre flatten_room [OF pre env r] h len by (simp_all add: flatten_pre_def)
    have nh: "(h + 1) * ?T \<le> length (tl_data tv)" unfolding n using h by (intro mult_le_mono1) simp
    note c = concat_parts_host [OF ok nh]
    have fh: "v_size (?f ! h) = v_size (flat1 ! h)" "length (elems_of ?f h) = length (elems_of flat1 h)"
        "ar_size (v_buf (?f ! h)) = ar_size (v_buf (flat1 ! h))" using f h len by simp_all
    have sz: "unat (v_size (flat1 ! h)) \<le> length (elems_of flat1 h)"
      using okh(2) by (simp add: Vector_ok_def Array_ok_def capacity_def word_le_nat_alt)
    note room = flatten_room_size [OF pre env r h]
    have lf: "length (contents (?f ! h)) = unat (v_size (flat1 ! h))" using fh sz by (simp add: contents_def)
    then show "length (contents (?f ! h)) = length (contents (flat ! h) @ concat (take ?T (drop (h * ?T) (map contents (tl_data tv)))))"
      using c(1) room length_contents [OF okh(1)] by simp
    fix q assume q: "q < length (contents (?f ! h))"
    then have q1: "q < unat (v_size (flat1 ! h))" by (simp only: lf)
    then have "contents (?f ! h) ! q = (if unat (v_size (flat ! h)) \<le> q then flatten_tgt pd td tv flat h q else contents (flat1 ! h) ! q)"
      using f h len fh sz flatten_written [OF pre env r h q1, folded ws_def] by (simp add: contents_def)
    moreover have "contents (flat1 ! h) ! q = contents (flat ! h) ! q" if "q < unat (v_size (flat ! h))"
      using flatten_room [OF pre env r] h len that length_contents [OF okh(1)] by (simp add: nth_append)
    moreover have "flatten_tgt pd td tv flat h q = concat (take ?T (drop (h * ?T) (map contents (tl_data tv)))) ! (q - unat (v_size (flat ! h)))"
      if "unat (v_size (flat ! h)) \<le> q"
      unfolding flatten_tgt_def by (rule c(2)) (use q1 room that in linarith)
    ultimately show "contents (?f ! h) ! q =
        (contents (flat ! h) @ concat (take ?T (drop (h * ?T) (map contents (tl_data tv))))) ! q"
      using length_contents [OF okh(1)] by (simp add: nth_append)
  qed
  then show "map contents ?f = map2 (@) (map contents flat) (flatten_hosts ?T ?N (map contents (tl_data tv)))"
    using f len by (intro nth_equalityI) (simp_all add: flatten_hosts_def)
qed


lemma map_work_items: "map body (work_items w) = map (\<lambda>i. body (word_of_nat i)) [0..<unat w]"
  by (simp add: work_items_def)

text \<open>
  C17: On a machine with one pod on each host, with indices that are the sums of the sizes, \<^verbatim>\<open>hostFlattenAppend\<close> appends
  to the vector of every host the parts of its threads, in the order of the threads: in every interleaving of the tasks
  the caller can reach the end of the wait, and the vectors of the hosts then are the old ones with the parts
  appended, whatever the order in which the elements were written.
\<close>

theorem hostFlattenAppend_correct:
  assumes "hostFlattenAppend env (mc_placeDims mc) (mc_threadDims mc) compute tv flat = (Success, tv1, flat1)"
    and pre: "flatten_pre (mc_placeDims mc) (mc_threadDims mc) tv1 flat" and env: "env_ok env"
    and "place_pod (mc_placeDims mc) = PodIndex 1 1" "getNumThreads (mc_placeDims mc) (mc_threadDims mc) < 2 ^ 62"
    and ops: "onEach mc executeOn = (ops, Success)" and start: "with_WaitGroup (Inr p) m flat1 (ops, Success) = Inr (p, s0)"
    and run: "(loop_system p (flatten_task (mc_placeDims mc) (mc_threadDims mc) tv1 flat1) flatten_write)\<^sup>*\<^sup>* s0 s"
  shows "(\<exists>s'. (loop_system p (flatten_task (mc_placeDims mc) (mc_threadDims mc) tv1 flat1) flatten_write)\<^sup>*\<^sup>* s s' \<and> ls_passed s') \<and>
    (ls_passed s \<longrightarrow> map contents (ls_data s) = map2 (@) (map contents flat)
       (flatten_hosts (host_threads (mc_placeDims mc) (mc_threadDims mc)) (unat (dims_node (mc_placeDims mc))) (map contents (tl_data tv1))))"
proof -
  let ?pd = "mc_placeDims mc" and ?td = "mc_threadDims mc"
  let ?body = "flatten_task ?pd ?td tv1 flat1"
  have m: "machine_ok ?pd ?td" and n: "length (tl_data tv1) = unat (dims_node ?pd) * host_threads ?pd ?td"
    using pre by (simp_all add: flatten_pre_def)
  have r: "flatten_reserve env ?pd ?td (tl_indices tv1) [0..<unat (dims_node ?pd)] flat = (Success, flat1)"
    using assms(1) by (auto simp: hostFlattenAppend_def split: prod.splits if_splits)
  have tot: "getTotalThreads ?pd ?td = getNumThreads ?pd ?td" using getTotalThreads_one_pod [OF m] assms(4) by simp
  have "loop_ops_ok ops" and sp: "spawned ops = work_items (getNumThreads ?pd ?td)"
    using evenly_ops [OF ops [unfolded onEach_def tot] assms(5)] by auto
  have ws: "concat (map ?body (spawned ops)) = concat (map (\<lambda>i. ?body (word_of_nat i)) [0..<length (tl_data tv1)])"
    unfolding sp map_work_items unat_getThreads(4) [OF m] n ..
  note res = flatten_result [OF pre env r, folded ws]
  have "\<forall>x \<in> set (concat (map ?body (spawned ops))). \<forall>y \<in> set (concat (map ?body (spawned ops))).
      flatten_write x \<circ> flatten_write y = flatten_write y \<circ> flatten_write x"
    using res(1) agree_commute by blast
  note j = with_WaitGroup_joins [OF start \<open>loop_ops_ok ops\<close> this run]
  show ?thesis using j res(2) by simp
qed

subsection \<open>The indices\<close>

interpretation part_indices: prefix_ops TLV_transmute TLV_scan_op TLV_combiner
  by unfold_locales (simp_all add: TLV_transmute_def TLV_scan_op_def TLV_combiner_def ac_simps)

lemma unat_run_sum:
  assumes "i < length vs" "part_sizes vs (length vs) < 2 ^ 64"
  shows "unat (run_sum TLV_transmute TLV_scan_op vs 0 i) = part_sizes vs (Suc i)"
  using assms(1)
proof (induction i)
  case 0
  then show ?case by (simp add: part_sizes_Suc TLV_transmute_def)
next
  case (Suc i)
  have "part_sizes vs (Suc (Suc i)) \<le> part_sizes vs (length vs)" using Suc.prems by (intro part_sizes_mono) simp
  then have "unat (v_size (vs ! Suc i)) + part_sizes vs (Suc i) < 2 ^ 64"
    using assms(2) part_sizes_Suc [OF Suc.prems] by simp
  then show ?case using Suc by (simp add: TLV_scan_op_def unat_add_no_wrap part_sizes_Suc [OF Suc.prems])
qed

text \<open>What a prefix sum of \<open>ns\<close> elements with \<open>nt\<close> workers may leave in its destination.\<close>

definition prefix_outcome :: "'a Vector list \<Rightarrow> u64 \<Rightarrow> u64 \<Rightarrow> u64 list \<Rightarrow> u64 list \<Rightarrow> bool" where
  "prefix_outcome vs ns nt dst dst' \<longleftrightarrow> (\<exists>s paste. unat nt \<le> length paste \<and> px_dst s = dst' \<and>
     (pfx_step TLV_transmute TLV_scan_op TLV_combiner vs ns nt)\<^sup>*\<^sup>* (pfx_start dst paste nt) s \<and>
     (\<nexists>s'. pfx_step TLV_transmute TLV_scan_op TLV_combiner vs ns nt s s'))"

lemma prefix_outcome_sums:
  assumes "prefix_outcome vs ns nt dst dst'" "pfx_sizes ns nt" "unat ns \<le> length dst" "length dst < 2 ^ 64"
  shows "unat ns \<le> length dst' \<and> (\<forall>i < unat ns. dst' ! i = run_sum TLV_transmute TLV_scan_op vs 0 i)"
proof -
  note ops = part_indices.prefix_ops_axioms
  from assms(1) obtain s paste where s: "unat nt \<le> length paste" "px_dst s = dst'"
      "(pfx_step TLV_transmute TLV_scan_op TLV_combiner vs ns nt)\<^sup>*\<^sup>* (pfx_start dst paste nt) s"
      "\<nexists>s'. pfx_step TLV_transmute TLV_scan_op TLV_combiner vs ns nt s s'"
    unfolding prefix_outcome_def by blast
  note start = prefix_ops.inv_start [OF ops assms(3,4) s(1) assms(2)]
  have inv: "pfx_inv TLV_transmute TLV_scan_op vs (unat ns) (unat nt) s"
    by (rule prefix_ops.inv_steps [OF ops s(3) start assms(2)])
  have "\<forall>w < unat nt. px_pc s ! w = Finished" using prefix_ops.progress [OF ops inv] s(4) by blast
  moreover have "0 < unat nt" using assms(2) by (simp add: pfx_sizes_def)
  ultimately show ?thesis using prefix_ops.finished_sums [OF ops inv] inv s(2) by (simp add: pfx_inv_def)
qed

lemma prefix_outcome_exists:
  assumes "pfx_sizes ns nt" "unat ns \<le> length dst" "length dst < 2 ^ 64"
  shows "\<exists>dst'. prefix_outcome vs ns nt dst dst'"
proof -
  note ops = part_indices.prefix_ops_axioms
  have l: "unat nt \<le> length (replicate (unat nt) (0 :: u64))" by simp
  obtain s where s: "(pfx_step TLV_transmute TLV_scan_op TLV_combiner vs ns nt)\<^sup>*\<^sup>* (pfx_start dst (replicate (unat nt) 0) nt) s"
      "\<forall>w < unat nt. px_pc s ! w = Finished"
    using finish_reachable [OF ops assms(1) prefix_ops.inv_start [OF ops assms(2,3) l assms(1)]] by blast
  have "\<nexists>s'. pfx_step TLV_transmute TLV_scan_op TLV_combiner vs ns nt s s'"
    by (rule finished_stuck [OF s(2)]) (use assms(1) in \<open>simp add: pfx_sizes_def\<close>)
  then show ?thesis using s(1) l unfolding prefix_outcome_def by blast
qed

text \<open>
  \<^verbatim>\<open>computeIndices\<close> leaves the sums of the sizes of the parts, whatever the interleaving of its prefix sum, when this has at
  least two workers and fewer workers than threads; a failed allocation is returned, and the parts are never touched.
\<close>

theorem computeIndices_sums:
  assumes c: "computeIndices st1 fresh_indices st2 prefix_sum tv = (status, tv1)"
    and n: "length (tl_data tv) = unat ns" "part_sizes (tl_data tv) (unat ns) < 2 ^ 64" "pfx_sizes ns nt"
  defines "dst \<equiv> if tl_indicesInitialized tv then tl_indices tv else fresh_indices"
  assumes dst: "unat ns \<le> length dst" "length dst < 2 ^ 64" "prefix_outcome (tl_data tv) ns nt dst (prefix_sum dst)"
  shows "tl_data tv1 = tl_data tv \<and> (status = Success \<longrightarrow> tl_indicesComputed tv1 \<and> indices_ok tv1) \<and>
    (status \<noteq> Success \<longrightarrow> status \<in> {st1, st2} \<and> tl_indicesComputed tv1 = tl_indicesComputed tv)"
proof -
  note sums = prefix_outcome_sums [OF dst(3) n(3) dst(1,2)]
  have "indices_ok tv1" if "tl_indices tv1 = prefix_sum dst" "tl_data tv1 = tl_data tv"
    using that sums n by (simp add: indices_ok_def unat_run_sum)
  then show ?thesis using c by (auto simp: computeIndices_def dst_def Let_def split: if_splits)
qed


subsection \<open>Examples\<close>

definition small_machine :: machine where
  "small_machine = \<lparr>mc_placeDims = Place (NodeIndex 2) (PodIndex 1 1) (CoreIndex 1 1), mc_threadDims = ThreadIndex 2,
     mc_currentNode = NodeIndex 0\<rparr>"

definition example_tlv :: "nat ThreadLocalVector" where
  "example_tlv = \<lparr>tl_data = map example_vector [[1, 2], [3], [], [4, 5, 6]], tl_indices = [2, 3, 3, 6],
     tl_indicesInitialized = True, tl_indicesComputed = True\<rparr>"

definition example_flat :: "nat Vector list" where
  "example_flat = map example_vector [[7], [8, 9]]"

lemma example_flatten_Success:
  "fst (hostFlattenAppend example_env (mc_placeDims small_machine) (mc_threadDims small_machine) (\<lambda>tv. (Success, tv)) example_tlv example_flat) = Success"
  by code_simp


definition example_room :: "nat Vector list" where
  "example_room = snd (snd (hostFlattenAppend example_env (mc_placeDims small_machine) (mc_threadDims small_machine)
     (\<lambda>tv. (Success, tv)) example_tlv example_flat))"

lemma nat_less_cases4: "(\<forall>i < Suc (Suc (Suc (Suc 0))). P i) \<longleftrightarrow> P 0 \<and> P 1 \<and> P 2 \<and> P (3 :: nat)"
  by (auto simp: numeral_eq_Suc less_Suc_eq)

lemma example_flatten_pre: "flatten_pre (mc_placeDims small_machine) (mc_threadDims small_machine) example_tlv example_flat"
  by (simp add: flatten_pre_def machine_ok_def small_machine_def host_threads_def pod_threads_def core_threads_def example_tlv_def
      example_flat_def indices_ok_def part_sizes_def example_vector_def Vector_ok_def Array_ok_def capacity_def
      nat_less_cases4)

theorem hostFlattenAppend_correct_witness:
  "\<exists>s'. (loop_system 8 (flatten_task (mc_placeDims small_machine) (mc_threadDims small_machine) example_tlv example_room) flatten_write)\<^sup>*\<^sup>*
      (loop_start (fst (onEach small_machine (\<lambda>i p. Success))) (\<lambda>_. 0) example_room) s' \<and> ls_passed s' \<and>
    map contents (ls_data s') = [[7, 1, 2, 3], [8, 9, 4, 5, 6]]"
proof -
  let ?pd = "mc_placeDims small_machine" and ?td = "mc_threadDims small_machine"
  let ?r = "hostFlattenAppend example_env ?pd ?td (\<lambda>tv. (Success, tv)) example_tlv example_flat"
  let ?flat1 = example_room and ?ops = "fst (onEach small_machine (\<lambda>i p. Success))"
  have "fst (snd ?r) = example_tlv" by (simp add: hostFlattenAppend_def example_tlv_def split: prod.split)
  then have r: "?r = (Success, example_tlv, ?flat1)" using example_flatten_Success unfolding example_room_def by (metis prod.collapse)
  have o: "onEach small_machine (\<lambda>i p. Success) = (?ops, Success)"
    unfolding onEach_def using doAllEvenlyPartition_success by (metis prod.collapse)
  have pods: "place_pod ?pd = PodIndex 1 1" "getNumThreads ?pd ?td < 2 ^ 62"
    by (simp_all add: small_machine_def getNumThreads_def getThreadsPerHost_def getThreadsPerPod_def getThreadsPerCore_def)
  have w: "with_WaitGroup (Inr 8) (\<lambda>_. 0) ?flat1 (?ops, Success) = Inr (8, loop_start ?ops (\<lambda>_. 0) ?flat1)"
    by (simp add: with_WaitGroup_def WaitGroup_initialize_def WaitGroup_getHandle_def fun_upd_idem)
  note main = hostFlattenAppend_correct [OF r example_flatten_pre example_env_total(2) pods o w]
  obtain s' where s': "(loop_system 8 (flatten_task ?pd ?td example_tlv ?flat1) flatten_write)\<^sup>*\<^sup>* (loop_start ?ops (\<lambda>_. 0) ?flat1) s'"
      "ls_passed s'" using main by blast
  have "map contents (ls_data s') = map2 (@) (map contents example_flat)
      (flatten_hosts (host_threads ?pd ?td) (unat (dims_node ?pd)) (map contents (tl_data example_tlv)))"
    using main [OF s'(1), THEN conjunct2] s'(2) by (rule mp)
  also have "\<dots> = [[7, 1, 2, 3], [8, 9, 4, 5, 6]]"
    by (simp add: example_flat_def example_tlv_def example_vector_def contents_def flatten_hosts_def small_machine_def
        host_threads_def pod_threads_def core_threads_def upt_rec)
  finally show ?thesis by (intro exI [of _ s'] conjI s')
qed

theorem computeIndices_sums_witness:
  "\<exists>prefix_sum. indices_ok (snd (computeIndices Success [] Success prefix_sum (example_tlv\<lparr>tl_indicesComputed := False\<rparr>)))"
proof -
  let ?tv = "example_tlv\<lparr>tl_indicesComputed := False\<rparr>"
  have z: "pfx_sizes 4 2" by (simp add: pfx_sizes_def)
  obtain dst' where d: "prefix_outcome (tl_data ?tv) 4 2 (tl_indices ?tv) dst'"
    using prefix_outcome_exists [OF z, of "tl_indices ?tv" "tl_data ?tv"] by (auto simp: example_tlv_def)
  have c: "computeIndices Success [] Success (\<lambda>_. dst') ?tv = (Success, snd (computeIndices Success [] Success (\<lambda>_. dst') ?tv))"
    by (simp add: computeIndices_def)
  have "part_sizes (tl_data ?tv) (unat (4 :: u64)) < 2 ^ 64" "length (tl_data ?tv) = unat (4 :: u64)"
    by (simp_all add: part_sizes_def example_tlv_def example_vector_def)
  from computeIndices_sums [OF c this(2,1) z] d show ?thesis by (auto simp: example_tlv_def)
qed

text \<open>
  Elements pushed after the indices were computed are not counted: \<^verbatim>\<open>sizeAll\<close> still answers the old number.
\<close>

lemma pushBack_stale_size:
  "TLV_sizeAll example_tlv = 6 \<and> TLV_sizeAll (snd (TLV_pushBack example_env 0 9 example_tlv)) = 6"
  by (simp add: TLV_sizeAll_def TLV_pushBack_def example_tlv_def split: prod.split)

end
