(* ===== verification/Nested_Loops.thy ===== *)
theory Nested_Loops
  imports Do_All
begin

text \<open>
  Loops inside loops (\<^verbatim>\<open>pando-lib-galois/loops/do_all.hpp\<close>, used so by \<^verbatim>\<open>microbench/triangle-counting/src/tc_algos.cpp\<close>): the
  functor of a loop runs a second loop on the wait group of the first one. A thread, be it the caller or a task, is the
  list of what it has still to do: to act on the shared data, to announce tasks on the group, to start a task, to
  signal the group. \<^verbatim>\<open>notifyFunc\<close> runs the functor and then signals, so the signal is the last operation of a task.
\<close>

subsection \<open>Threads\<close>

datatype 'x task_op = Act 'x | Announce u32 | Start "'x task_op list" | Signal

definition notifyFunc :: "('it \<Rightarrow> 'x task_op list) \<Rightarrow> 'it \<Rightarrow> 'x task_op list" where
  "notifyFunc func it = func it @ [Signal]"

fun loop_task_op :: "('it \<Rightarrow> 'x task_op list) \<Rightarrow> 'it loop_op \<Rightarrow> 'x task_op" where
  "loop_task_op func (AddOp n) = Announce n"
| "loop_task_op func (SpawnOp it p) = Start (notifyFunc func it)"
| "loop_task_op func DoneOp = Signal"

text \<open>What a thread does that runs a loop with the functor \<open>func\<close>.\<close>

definition loop_thread :: "('it \<Rightarrow> 'x task_op list) \<Rightarrow> 'it loop_op list \<Rightarrow> 'x task_op list" where
  "loop_thread func ops = map (loop_task_op func) ops"

record ('x, 'd, 'm) task_sys =
  ts_threads :: "'x task_op list list"
  ts_mem :: 'm
  ts_data :: 'd
  ts_passed :: bool

text \<open>The first thread is the caller, which passes the wait when it has nothing else to do and the group is ready.\<close>

inductive task_sys_step ::
  "(u32 \<Rightarrow> 'm \<Rightarrow> 'm) \<Rightarrow> ('m \<Rightarrow> 'm) \<Rightarrow> ('m \<Rightarrow> bool) \<Rightarrow> ('x \<Rightarrow> 'd \<Rightarrow> 'd) \<Rightarrow> ('x, 'd, 'm) task_sys \<Rightarrow> ('x, 'd, 'm) task_sys \<Rightarrow> bool"
  for add signal ready exec where
  acts: "i < length (ts_threads s) \<Longrightarrow> ts_threads s ! i = Act x # ops \<Longrightarrow>
    task_sys_step add signal ready exec s (s\<lparr>ts_threads := (ts_threads s)[i := ops], ts_data := exec x (ts_data s)\<rparr>)"
| announces: "i < length (ts_threads s) \<Longrightarrow> ts_threads s ! i = Announce n # ops \<Longrightarrow>
    task_sys_step add signal ready exec s (s\<lparr>ts_threads := (ts_threads s)[i := ops], ts_mem := add n (ts_mem s)\<rparr>)"
| starts: "i < length (ts_threads s) \<Longrightarrow> ts_threads s ! i = Start b # ops \<Longrightarrow>
    task_sys_step add signal ready exec s (s\<lparr>ts_threads := (ts_threads s)[i := ops] @ [b]\<rparr>)"
| signals: "i < length (ts_threads s) \<Longrightarrow> ts_threads s ! i = Signal # ops \<Longrightarrow>
    task_sys_step add signal ready exec s (s\<lparr>ts_threads := (ts_threads s)[i := ops], ts_mem := signal (ts_mem s)\<rparr>)"
| passes: "ts_threads s ! 0 = [] \<Longrightarrow> \<not> ts_passed s \<Longrightarrow> ready (ts_mem s) \<Longrightarrow>
    task_sys_step add signal ready exec s (s\<lparr>ts_passed := True\<rparr>)"

definition task_sys_start :: "'x task_op list \<Rightarrow> 'm \<Rightarrow> 'd \<Rightarrow> ('x, 'd, 'm) task_sys" where
  "task_sys_start caller m d = \<lparr>ts_threads = [caller], ts_mem = m, ts_data = d, ts_passed = False\<rparr>"

subsection \<open>What is left to do\<close>

text \<open>Four sums over the operations of a thread and of the tasks it will start.\<close>

primrec op_acts :: "'x task_op \<Rightarrow> 'x multiset" where
  "op_acts (Act x) = {#x#}"
| "op_acts (Announce n) = {#}"
| "op_acts (Start b) = sum_list (map op_acts b)"
| "op_acts Signal = {#}"

primrec op_pend :: "'x task_op \<Rightarrow> int" where
  "op_pend (Act x) = 0"
| "op_pend (Announce n) = - int (unat n)"
| "op_pend (Start b) = sum_list (map op_pend b)"
| "op_pend Signal = 1"

primrec op_signals :: "'x task_op \<Rightarrow> nat" where
  "op_signals (Act x) = 0"
| "op_signals (Announce n) = 0"
| "op_signals (Start b) = sum_list (map op_signals b)"
| "op_signals Signal = 1"

primrec op_steps :: "'x task_op \<Rightarrow> nat" where
  "op_steps (Act x) = 1"
| "op_steps (Announce n) = 1"
| "op_steps (Start b) = 1 + sum_list (map op_steps b)"
| "op_steps Signal = 1"

abbreviation op_total :: "('x task_op \<Rightarrow> 'a :: comm_monoid_add) \<Rightarrow> 'x task_op list \<Rightarrow> 'a" where
  "op_total f ops \<equiv> sum_list (map f ops)"

definition grand_total :: "('x task_op \<Rightarrow> 'a :: comm_monoid_add) \<Rightarrow> 'x task_op list list \<Rightarrow> 'a" where
  "grand_total f threads = sum_list (map (op_total f) threads)"

lemma grand_total_next:
  assumes "i < length ts" "ts ! i = p # ops"
  shows "grand_total f ts = f p + grand_total f (ts[i := ops])"
  using assms unfolding grand_total_def
  by (induction ts arbitrary: i) (auto simp: nth_Cons ac_simps split: nat.splits)

lemma grand_total_append [simp]: "grand_total f (ts @ [b]) = grand_total f ts + op_total f b"
  by (simp add: grand_total_def)

lemma int_sum_list: "int (sum_list (map f xs)) = sum_list (map (\<lambda>x. int (f x)) xs)"
  by (induction xs) auto

lemma pend_le_signals: "op_total op_pend ops \<le> int (op_total op_signals ops)"
proof -
  have "op_pend p \<le> int (op_signals p)" for p :: "'x task_op"
  proof (induction p)
    case (Start b)
    then have "sum_list (map op_pend b) \<le> sum_list (map (\<lambda>p. int (op_signals p)) b)" by (intro sum_list_mono)
    then show ?case by (simp add: int_sum_list)
  qed auto
  then have "sum_list (map op_pend ops) \<le> sum_list (map (\<lambda>p. int (op_signals p)) ops)" by (intro sum_list_mono)
  then show ?thesis by (simp add: int_sum_list)
qed

lemma grand_pend_le: "grand_total op_pend ts \<le> int (grand_total op_signals ts)"
  unfolding grand_total_def by (induction ts) (auto intro: add_mono pend_le_signals)

text \<open>
  A task holds the group open until its last operation: what it has still to signal, less what it has still to
  announce, is at least one. The caller only must not have signalled more than it has announced.
\<close>

fun task_ok :: "'x task_op list \<Rightarrow> bool" where
  "task_ok [] \<longleftrightarrow> True"
| "task_ok (Start b # ops) \<longleftrightarrow> 1 \<le> op_total op_pend (Start b # ops) \<and> task_ok b \<and> task_ok ops"
| "task_ok (p # ops) \<longleftrightarrow> 1 \<le> op_total op_pend (p # ops) \<and> task_ok ops"

fun caller_ok :: "'x task_op list \<Rightarrow> bool" where
  "caller_ok [] \<longleftrightarrow> True"
| "caller_ok (Start b # ops) \<longleftrightarrow> 0 \<le> op_total op_pend (Start b # ops) \<and> task_ok b \<and> caller_ok ops"
| "caller_ok (p # ops) \<longleftrightarrow> 0 \<le> op_total op_pend (p # ops) \<and> caller_ok ops"

lemma task_ok_pend: "task_ok ops \<Longrightarrow> ops \<noteq> [] \<Longrightarrow> 1 \<le> op_total op_pend ops"
  by (induction ops rule: task_ok.induct) auto

lemma task_ok_pend0: "task_ok ops \<Longrightarrow> 0 \<le> op_total op_pend ops"
  using task_ok_pend [of ops] by (cases "ops = []") auto

lemma caller_ok_pend: "caller_ok ops \<Longrightarrow> 0 \<le> op_total op_pend ops"
  by (induction ops rule: caller_ok.induct) auto


definition threads_ok :: "'x task_op list list \<Rightarrow> bool" where
  "threads_ok ts \<longleftrightarrow> ts \<noteq> [] \<and> caller_ok (ts ! 0) \<and> (\<forall>i. 0 < i \<and> i < length ts \<longrightarrow> task_ok (ts ! i))"

lemma task_ok_next: "task_ok (p # ops) \<Longrightarrow> task_ok ops \<and> (\<forall>b. p = Start b \<longrightarrow> task_ok b)"
  by (cases p) simp_all

lemma caller_ok_next: "caller_ok (p # ops) \<Longrightarrow> caller_ok ops \<and> (\<forall>b. p = Start b \<longrightarrow> task_ok b)"
  by (cases p) simp_all

lemma threads_ok_next:
  assumes "threads_ok ts" "i < length ts" "ts ! i = p # ops"
  shows "threads_ok (ts[i := ops]) \<and> (\<forall>b. p = Start b \<longrightarrow> threads_ok (ts[i := ops] @ [b]))"
proof -
  have n: "(if i = 0 then caller_ok ops else task_ok ops) \<and> (\<forall>b. p = Start b \<longrightarrow> task_ok b)"
  proof (cases "i = 0")
    case True
    then have "caller_ok (p # ops)" using assms by (simp add: threads_ok_def)
    then show ?thesis using True caller_ok_next by simp
  next
    case False
    then have "task_ok (p # ops)" using assms by (metis threads_ok_def gr0I)
    then show ?thesis using False task_ok_next by simp
  qed
  have u: "threads_ok (ts[i := ops])" using assms(1,2) n by (auto simp: threads_ok_def nth_list_update)
  moreover have "threads_ok (ts[i := ops] @ [b])" if "p = Start b" for b
    using u conjunct2 [OF n] that by (simp add: threads_ok_def nth_append)
  ultimately show ?thesis by blast
qed

lemma threads_ok_nonneg: "threads_ok ts \<Longrightarrow> t \<in> set ts \<Longrightarrow> 0 \<le> op_total op_pend t"
  unfolding threads_ok_def in_set_conv_nth by (metis caller_ok_pend gr0I task_ok_pend0)

lemma grand_pend_nonneg: "threads_ok ts \<Longrightarrow> 0 \<le> grand_total op_pend ts"
  unfolding grand_total_def by (rule sum_list_nonneg) (auto intro: threads_ok_nonneg)

lemma grand_pend_zero:
  assumes "threads_ok ts" "ts ! 0 = []" "grand_total op_pend ts = 0"
  shows "\<forall>t \<in> set ts. t = []"
proof
  fix t
  assume "t \<in> set ts"
  then obtain i where i: "i < length ts" "t = ts ! i" by (auto simp: in_set_conv_nth)
  have "\<forall>x \<in> set (map (op_total op_pend) ts). x = 0"
    using assms(3) threads_ok_nonneg [OF assms(1)] unfolding grand_total_def by (subst sum_list_nonneg_eq_0_iff [symmetric]) auto
  then have "op_total op_pend t = 0" using \<open>t \<in> set ts\<close> by simp
  moreover have "t \<noteq> [] \<Longrightarrow> 0 < i" using i assms(2) by (cases i) auto
  ultimately show "t = []" using task_ok_pend [of t] assms(1) i by (auto simp: threads_ok_def)
qed

lemma grand_total_done: "\<forall>t \<in> set ts. t = [] \<Longrightarrow> grand_total f ts = 0"
  unfolding grand_total_def by (induction ts) auto

subsection \<open>Every run joins\<close>

definition task_data_ok :: "('x \<Rightarrow> 'd \<Rightarrow> 'd) \<Rightarrow> 'x multiset \<Rightarrow> 'd \<Rightarrow> ('x, 'd, 'm) task_sys \<Rightarrow> bool" where
  "task_data_ok exec work d s \<longleftrightarrow> (\<exists>xs. ts_data s = fold exec xs d \<and> mset xs + grand_total op_acts (ts_threads s) = work)"

lemma task_data_ok_step:
  assumes "task_sys_step add signal ready exec s s'" "task_data_ok exec work d s"
  shows "task_data_ok exec work d s'"
proof -
  from assms(2) obtain xs where xs: "ts_data s = fold exec xs d" "mset xs + grand_total op_acts (ts_threads s) = work"
    unfolding task_data_ok_def by blast
  from assms(1) show ?thesis
  proof cases
    case (acts i x ops)
    then show ?thesis using xs grand_total_next [OF acts(2,3), of op_acts] unfolding task_data_ok_def
      by (intro exI [of _ "xs @ [x]"]) simp
  next
    case (announces i n ops)
    then show ?thesis using xs grand_total_next [OF announces(2,3), of op_acts] unfolding task_data_ok_def by auto
  next
    case (starts i b ops)
    then show ?thesis using xs grand_total_next [OF starts(2,3), of op_acts] unfolding task_data_ok_def by (auto simp: ac_simps)
  next
    case (signals i ops)
    then show ?thesis using xs grand_total_next [OF signals(2,3), of op_acts] unfolding task_data_ok_def by auto
  next
    case passes
    then show ?thesis using xs unfolding task_data_ok_def by auto
  qed
qed

definition sys_weight :: "('x, 'd, 'm) task_sys \<Rightarrow> nat" where
  "sys_weight s = grand_total op_steps (ts_threads s) + (if ts_passed s then 0 else 1)"

lemma task_sys_step_weight:
  assumes "task_sys_step add signal ready exec s s'"
  shows "sys_weight s' < sys_weight s"
  using assms
proof cases
  case (acts i x ops)
  then show ?thesis using grand_total_next [OF acts(2,3), of op_steps] by (simp add: sys_weight_def)
next
  case (announces i n ops)
  then show ?thesis using grand_total_next [OF announces(2,3), of op_steps] by (simp add: sys_weight_def)
next
  case (starts i b ops)
  then show ?thesis using grand_total_next [OF starts(2,3), of op_steps] by (simp add: sys_weight_def)
next
  case (signals i ops)
  then show ?thesis using grand_total_next [OF signals(2,3), of op_steps] by (simp add: sys_weight_def)
next
  case passes
  then show ?thesis by (simp add: sys_weight_def)
qed

lemma task_sys_runs_end: "wfP (task_sys_step add signal ready exec)\<inverse>\<inverse>"
  by (rule wfp_if_convertible_to_nat [of _ sys_weight]) (auto dest: task_sys_step_weight)


context completion_counter
begin

definition task_sys_inv :: "('x, 'd, 'm) task_sys \<Rightarrow> bool" where
  "task_sys_inv s \<longleftrightarrow> threads_ok (ts_threads s) \<and> counter (ts_mem s) = grand_total op_pend (ts_threads s)
     \<and> int (grand_total op_signals (ts_threads s)) < 2 ^ 63 \<and> (ts_passed s \<longrightarrow> (\<forall>t \<in> set (ts_threads s). t = []))"

lemma not_passed_if_busy: "task_sys_inv s \<Longrightarrow> i < length (ts_threads s) \<Longrightarrow> ts_threads s ! i \<noteq> [] \<Longrightarrow> \<not> ts_passed s"
  by (auto simp: task_sys_inv_def)

lemma task_sys_inv_step:
  assumes "task_sys_step add signal ready exec s s'" "task_sys_inv s"
  shows "task_sys_inv s'"
proof -
  have inv: "threads_ok (ts_threads s)" "counter (ts_mem s) = grand_total op_pend (ts_threads s)"
      "int (grand_total op_signals (ts_threads s)) < 2 ^ 63"
    using assms(2) by (simp_all add: task_sys_inv_def)
  from assms(1) show ?thesis
  proof cases
    case (acts i x ops)
    then show ?thesis
      using inv threads_ok_next [OF inv(1) acts(2,3)] grand_total_next [OF acts(2,3), of op_pend] grand_total_next [OF acts(2,3), of op_signals]
        not_passed_if_busy [OF assms(2) acts(2)] by (simp add: task_sys_inv_def)
  next
    case (announces i n ops)
    note ok = threads_ok_next [OF inv(1) announces(2,3)]
    have p: "grand_total op_pend (ts_threads s) + int (unat n) = grand_total op_pend ((ts_threads s)[i := ops])"
        "grand_total op_signals ((ts_threads s)[i := ops]) = grand_total op_signals (ts_threads s)"
      using grand_total_next [OF announces(2,3), of op_pend] grand_total_next [OF announces(2,3), of op_signals] by simp_all
    then have "counter (ts_mem s) + int (unat n) < 2 ^ 63"
      using grand_pend_le [of "(ts_threads s)[i := ops]"] inv(2,3) by linarith
    then have "counter (add n (ts_mem s)) = counter (ts_mem s) + int (unat n)"
      using grand_pend_nonneg [OF inv(1)] inv(2) by (intro add_counter) simp_all
    then show ?thesis
      using announces inv ok p not_passed_if_busy [OF assms(2) announces(2)] by (simp add: task_sys_inv_def)
  next
    case (starts i b ops)
    then show ?thesis
      using inv threads_ok_next [OF inv(1) starts(2,3)] grand_total_next [OF starts(2,3), of op_pend] grand_total_next [OF starts(2,3), of op_signals]
        not_passed_if_busy [OF assms(2) starts(2)] by (simp add: task_sys_inv_def)
  next
    case (signals i ops)
    note ok = threads_ok_next [OF inv(1) signals(2,3)]
    have p: "grand_total op_pend (ts_threads s) = 1 + grand_total op_pend ((ts_threads s)[i := ops])"
        "grand_total op_signals ((ts_threads s)[i := ops]) \<le> grand_total op_signals (ts_threads s)"
      using grand_total_next [OF signals(2,3), of op_pend] grand_total_next [OF signals(2,3), of op_signals] by simp_all
    then have "counter (signal (ts_mem s)) = counter (ts_mem s) - 1"
      using grand_pend_nonneg [OF conjunct1 [OF ok]] inv(2) by (intro signal_counter) linarith
    then show ?thesis
      using signals inv ok p not_passed_if_busy [OF assms(2) signals(2)] by (simp add: task_sys_inv_def)
  next
    case passes
    then have "grand_total op_pend (ts_threads s) = 0" using inv(2) by (simp add: ready_counter)
    then show ?thesis using passes inv grand_pend_zero [OF inv(1)] by (simp add: task_sys_inv_def)
  qed
qed

lemma task_sys_reachable:
  assumes run: "(task_sys_step add signal ready exec)\<^sup>*\<^sup>* (task_sys_start caller m d) s"
    and "counter m = 0" "caller_ok caller" "op_total op_pend caller = 0" "int (op_total op_signals caller) < 2 ^ 63"
  shows "task_sys_inv s \<and> task_data_ok exec (op_total op_acts caller) d s"
  using run
proof (induction rule: rtranclp_induct)
  case base
  show ?case
    using assms by (auto simp: task_sys_inv_def task_data_ok_def task_sys_start_def threads_ok_def grand_total_def intro!: exI [of _ "[]"])
next
  case (step s s')
  then show ?case by (blast intro: task_sys_inv_step task_data_ok_step)
qed

lemma task_sys_progress:
  assumes "task_sys_inv s" "\<not> ts_passed s"
  shows "\<exists>s'. task_sys_step add signal ready exec s s'"
proof (cases "\<forall>t \<in> set (ts_threads s). t = []")
  case True
  then have "ready (ts_mem s)" "ts_threads s ! 0 = []"
    using assms(1) grand_total_done [OF True, of op_pend] by (auto simp: task_sys_inv_def ready_counter threads_ok_def)
  then show ?thesis using assms(2) by (blast intro: task_sys_step.passes)
next
  case False
  then obtain i where "i < length (ts_threads s)" "ts_threads s ! i \<noteq> []" by (auto simp: in_set_conv_nth)
  moreover then obtain p ops where "ts_threads s ! i = p # ops" by (auto simp: neq_Nil_conv)
  ultimately show ?thesis by (cases p) (blast intro: task_sys_step.intros)+
qed

lemma task_sys_reaches_pass:
  assumes "task_sys_inv s"
  shows "\<exists>s'. (task_sys_step add signal ready exec)\<^sup>*\<^sup>* s s' \<and> ts_passed s'"
  using task_sys_runs_end [of add signal ready exec] assms
proof (induction s rule: wfp_induct_rule)
  case (less s)
  show ?case
  proof (cases "ts_passed s")
    case False
    then obtain s1 where s1: "task_sys_step add signal ready exec s s1" using task_sys_progress less.prems by blast
    then obtain s' where "(task_sys_step add signal ready exec)\<^sup>*\<^sup>* s1 s'" "ts_passed s'"
      using less.IH task_sys_inv_step less.prems by blast
    then show ?thesis using s1 by (blast intro: converse_rtranclp_into_rtranclp)
  qed blast
qed

lemma task_sys_joined:
  assumes "(task_sys_step add signal ready exec)\<^sup>*\<^sup>* (task_sys_start caller m d) s"
    and "counter m = 0" "caller_ok caller" "op_total op_pend caller = 0" "int (op_total op_signals caller) < 2 ^ 63" "ts_passed s"
  shows "\<exists>xs. mset xs = op_total op_acts caller \<and> ts_data s = fold exec xs d" "result (ts_mem s) = Success"
proof -
  have inv: "task_sys_inv s" "task_data_ok exec (op_total op_acts caller) d s" using task_sys_reachable [OF assms(1-5)] by simp_all
  then have e: "\<forall>t \<in> set (ts_threads s). t = []" using assms(6) by (simp add: task_sys_inv_def)
  show "\<exists>xs. mset xs = op_total op_acts caller \<and> ts_data s = fold exec xs d"
    using inv(2) grand_total_done [OF e, of op_acts] by (auto simp: task_data_ok_def)
  show "result (ts_mem s) = Success"
    using inv(1) grand_total_done [OF e, of op_pend] by (intro result_counter) (simp add: task_sys_inv_def)
qed

end

subsection \<open>Loops as threads\<close>

lemma total_loop_thread:
  assumes "\<And>it. it \<in> set (spawned ops) \<Longrightarrow> op_total op_pend (func it) = 0"
  shows "op_total op_pend (loop_thread func ops) = pend ops"
  using assms unfolding loop_thread_def by (induction ops rule: pend.induct) (simp_all add: notifyFunc_def)

lemma acts_loop_thread: "op_total op_acts (loop_thread func ops) = sum_list (map (\<lambda>it. op_total op_acts (func it)) (spawned ops))"
  unfolding loop_thread_def by (induction ops rule: pend.induct) (simp_all add: notifyFunc_def)

lemma caller_ok_loop_thread:
  assumes "covered ops" "\<And>it. it \<in> set (spawned ops) \<Longrightarrow> op_total op_pend (func it) = 0 \<and> task_ok (notifyFunc func it)"
  shows "caller_ok (loop_thread func ops)"
  using assms
proof (induction ops)
  case (Cons p ops)
  have s: "set (spawned ops) \<subseteq> set (spawned (p # ops))" by (cases p) auto
  have IH: "caller_ok (loop_thread func ops)" using Cons s by auto
  have "op_total op_pend (loop_thread func (p # ops)) = pend (p # ops)" by (rule total_loop_thread) (use Cons.prems in blast)
  then have "0 \<le> op_total op_pend (loop_thread func (p # ops))" using Cons.prems(1) by simp
  then show ?case using IH Cons.prems(2) by (cases p) (simp_all add: loop_thread_def)
qed (simp add: loop_thread_def)

text \<open>A functor that acts, and one that runs a loop, followed by the signal.\<close>

lemma caller_ok_then_signal: "caller_ok ops \<Longrightarrow> task_ok (ops @ [Signal])"
  by (induction ops rule: caller_ok.induct) simp_all

lemma caller_ok_acts: "caller_ok (map Act xs)" "op_total op_pend (map Act xs) = 0" "op_total op_acts (map Act xs) = mset xs"
  "op_total op_signals (map Act xs) = 0"
proof -
  show z: "op_total op_pend (map Act xs) = 0" for xs by (induction xs) auto
  show "caller_ok (map Act xs)" by (induction xs) (simp_all add: z del: map_map)
qed (induction xs; simp)+

end
