(* ===== verification/Tri_Kernels.thy ===== *)
theory Tri_Kernels
  imports Pando_Prelude
begin

text \<open>
  The kernels of triangle counting (\<^verbatim>\<open>microbench/triangle-counting/include/utils.hpp\<close>) and the binary search they use
  (\<^verbatim>\<open>pando-lib-galois/utility/search.hpp\<close>). A range of edges is the list of the tokens of its destinations, and an iterator is
  a position in it. The kernels count the common neighbours of two vertices; what they add to the distributed
  counter is their value here.
\<close>

subsection \<open>Search\<close>

text \<open>\<open>below i\<close> is the comparison \<^verbatim>\<open>func(mid, val)\<close> at position \<open>i\<close>.\<close>

function lower_bound :: "(nat \<Rightarrow> bool) \<Rightarrow> nat \<Rightarrow> nat \<Rightarrow> nat" where
  "lower_bound below lb ub =
     (if lb < ub then
        let mid = lb + (ub - lb) div 2 in
        if below mid then lower_bound below (mid + 1) ub else lower_bound below lb mid
      else ub)"
  by pat_completeness auto
termination
  by (relation "measure (\<lambda>(below, lb, ub). ub - lb)") auto

declare lower_bound.simps [simp del]

definition binary_search :: "'t :: linorder list \<Rightarrow> 't \<Rightarrow> bool" where
  "binary_search xs val =
     (let ub = lower_bound (\<lambda>mid. xs ! mid < val) 0 (length xs) in ub < length xs \<and> xs ! ub = val)"

subsection \<open>Intersections\<close>

function intersect_loop :: "'t :: linorder list \<Rightarrow> 't list \<Rightarrow> nat \<Rightarrow> nat \<Rightarrow> u64 \<Rightarrow> u64" where
  "intersect_loop ps qs p q count =
     (if p < length ps \<and> q < length qs then
        let a = ps ! p; b = qs ! q
        in intersect_loop ps qs (if a \<le> b then p + 1 else p) (if a \<ge> b then q + 1 else q) (if a = b then count + 1 else count)
      else count)"
  by pat_completeness auto
termination
  by (relation "measure (\<lambda>(ps, qs, p, q, count). (length ps - p) + (length qs - q))") auto

declare intersect_loop.simps [simp del]

definition intersect_dag_merge :: "'t :: linorder list \<Rightarrow> 't list \<Rightarrow> u64" where
  "intersect_dag_merge ps qs = intersect_loop ps qs 0 0 0"

lemma lower_bound_empty: "ub \<le> lb \<Longrightarrow> lower_bound below lb ub = ub"
  by (simp add: lower_bound.simps [of below lb ub])

lemma lower_bound_range: "lb \<le> ub \<Longrightarrow> lb \<le> lower_bound below lb ub \<and> lower_bound below lb ub \<le> ub"
proof (induction below lb ub rule: lower_bound.induct)
  case (1 below lb ub)
  let ?mid = "lb + (ub - lb) div 2"
  show ?case
  proof (cases "lb < ub")
    case True
    then have m: "lb \<le> ?mid" "?mid < ub" by linarith+
    show ?thesis
    proof (cases "below ?mid")
      case b: True
      have "lower_bound below lb ub = lower_bound below (?mid + 1) ub" using True b by (simp add: lower_bound.simps [of below lb ub])
      then show ?thesis using "1.IH"(1) [OF True refl b] m by simp
    next
      case b: False
      have "lower_bound below lb ub = lower_bound below lb ?mid" using True b by (simp add: lower_bound.simps [of below lb ub])
      then show ?thesis using "1.IH"(2) [OF True refl b] m by simp
    qed
  qed (use "1.prems" lower_bound_empty [of ub lb] in simp)
qed

function double_binary_loop :: "'t :: linorder list \<Rightarrow> 't list \<Rightarrow> nat \<Rightarrow> nat \<Rightarrow> u64 \<Rightarrow> u64" where
  "double_binary_loop small large smallCurr largeCurr count =
     (if smallCurr \<noteq> length small \<and> largeCurr \<noteq> length large then
        let largeCurr' = lower_bound (\<lambda>it. large ! it < small ! smallCurr) largeCurr (length large) in
        if largeCurr' = length large then count
        else
          let smallCurr' = lower_bound (\<lambda>it. small ! it < large ! largeCurr') smallCurr (length small) in
          if smallCurr' = length small then count
          else
            let largeTok = large ! largeCurr'; smallTok = small ! smallCurr'
            in double_binary_loop small large (if smallTok \<le> largeTok then smallCurr' + 1 else smallCurr')
                 (if smallTok \<ge> largeTok then largeCurr' + 1 else largeCurr') (if smallTok = largeTok then count + 1 else count)
      else count)"
  by pat_completeness auto
termination
proof (relation "measure (\<lambda>(small, large, s, l, count). (length small - s) + (length large - l))", goal_cases)
  case (2 small large s l count l' s' lt st)
  have l: "l < length large" and s: "s < length small"
    using 2 lower_bound_empty [of "length large" l] lower_bound_empty [of "length small" s] by (metis not_le)+
  have "l \<le> l'" "l' < length large" "s \<le> s'" "s' < length small"
    using 2 lower_bound_range [OF less_imp_le [OF l]] lower_bound_range [OF less_imp_le [OF s]] by (simp_all add: order_less_le)
  then show ?case by (cases "st \<le> lt"; cases "st \<ge> lt") simp_all
qed simp

declare double_binary_loop.simps [simp del]

definition intersect_dag_merge_double_binary :: "'t :: linorder list \<Rightarrow> 't list \<Rightarrow> u64" where
  "intersect_dag_merge_double_binary v0 v1 =
     (let (largeRange, smallRange) = (if length v0 < length v1 then (v1, v0) else (v0, v1))
      in double_binary_loop smallRange largeRange 0 0 0)"

text \<open>\<^verbatim>\<open>is_connected\<close>: the linear search, which stops at the first larger token. The value is what it adds to the counter.\<close>

fun is_connected :: "'t :: linorder list \<Rightarrow> 't \<Rightarrow> u64" where
  "is_connected [] x = 0"
| "is_connected (e # es) x = (if e = x then 1 else if e > x then 0 else is_connected es x)"

text \<open>The window of \<^verbatim>\<open>is_connected_binarySearch\<close> shrinks by one position in each round.\<close>

function connected_loop :: "'t :: linorder list \<Rightarrow> 't \<Rightarrow> int \<Rightarrow> int \<Rightarrow> u64" where
  "connected_loop es x l h =
     (if l < h then
        let edge_indx = nat ((l + h) div 2); tok = es ! edge_indx in
        if tok = x then 1 else if tok < x then connected_loop es x (l + 1) h else connected_loop es x l (h - 1)
      else 0)"
  by pat_completeness auto
termination
  by (relation "measure (\<lambda>(es, x, l, h). nat (h - l))") auto

declare connected_loop.simps [simp del]

definition is_connected_binarySearch :: "'t :: linorder list \<Rightarrow> 't \<Rightarrow> u64" where
  "is_connected_binarySearch es x = connected_loop es x 0 (int (length es))"

definition vertexset_intersection :: "'t :: linorder list \<Rightarrow> 't \<Rightarrow> 't list \<Rightarrow> u64" where
  "vertexset_intersection v0 v1_token v1 =
     fold (\<lambda>neighbor count. if neighbor \<le> v1_token then count else count + is_connected_binarySearch v1 neighbor) v0 0"

subsection \<open>The search finds the first position\<close>

lemma lower_bound_spec:
  assumes "\<forall>i j. i \<le> j \<longrightarrow> j < ub \<longrightarrow> below j \<longrightarrow> below i"
  shows "(\<forall>i. lb \<le> i \<and> i < lower_bound below lb ub \<longrightarrow> i < ub \<longrightarrow> below i) \<and>
    (\<forall>i. lb \<le> i \<and> lower_bound below lb ub \<le> i \<and> i < ub \<longrightarrow> \<not> below i)"
  using assms
proof (induction below lb ub rule: lower_bound.induct)
  case (1 below lb ub)
  let ?mid = "lb + (ub - lb) div 2"
  show ?case
  proof (cases "lb < ub")
    case True
    then have m: "lb \<le> ?mid" "?mid < ub" by linarith+
    show ?thesis
    proof (cases "below ?mid")
      case b: True
      have e: "lower_bound below lb ub = lower_bound below (?mid + 1) ub" using True b by (simp add: lower_bound.simps [of below lb ub])
      have low: "below i" if "i \<le> ?mid" for i using "1.prems" that m(2) b by blast
      have IH: "\<forall>i. ?mid + 1 \<le> i \<and> i < lower_bound below (?mid + 1) ub \<longrightarrow> i < ub \<longrightarrow> below i"
          "\<forall>i. ?mid + 1 \<le> i \<and> lower_bound below (?mid + 1) ub \<le> i \<and> i < ub \<longrightarrow> \<not> below i"
        using "1.IH"(1) [OF True refl b "1.prems"] by blast+
      have r: "?mid + 1 \<le> lower_bound below (?mid + 1) ub" using lower_bound_range [of "?mid + 1" ub below] m by simp
      show ?thesis unfolding e
      proof (intro conjI allI impI)
        fix i assume "lb \<le> i \<and> i < lower_bound below (?mid + 1) ub" "i < ub"
        then show "below i" using low IH(1) by (cases "i \<le> ?mid") simp_all
      next
        fix i assume i: "lb \<le> i \<and> lower_bound below (?mid + 1) ub \<le> i \<and> i < ub"
        then have "?mid + 1 \<le> i" using r by simp
        then show "\<not> below i" using IH(2) i by blast
      qed
    next
      case b: False
      have e: "lower_bound below lb ub = lower_bound below lb ?mid" using True b by (simp add: lower_bound.simps [of below lb ub])
      have high: "\<not> below i" if "?mid \<le> i" "i < ub" for i using "1.prems" that b by blast
      have "\<forall>i j. i \<le> j \<longrightarrow> j < ?mid \<longrightarrow> below j \<longrightarrow> below i" using "1.prems" m by (meson less_trans)
      then have IH: "\<forall>i. lb \<le> i \<and> i < lower_bound below lb ?mid \<longrightarrow> i < ?mid \<longrightarrow> below i"
          "\<forall>i. lb \<le> i \<and> lower_bound below lb ?mid \<le> i \<and> i < ?mid \<longrightarrow> \<not> below i"
        using "1.IH"(2) [OF True refl b] by blast+
      have r: "lower_bound below lb ?mid \<le> ?mid" using lower_bound_range [of lb ?mid below] m by simp
      show ?thesis unfolding e
      proof (intro conjI allI impI)
        fix i assume i: "lb \<le> i \<and> i < lower_bound below lb ?mid" "i < ub"
        then have "i < ?mid" using r by simp
        then show "below i" using IH(1) i by blast
      next
        fix i assume i: "lb \<le> i \<and> lower_bound below lb ?mid \<le> i \<and> i < ub"
        then show "\<not> below i" using high IH(2) by (cases "i < ?mid") simp_all
      qed
    qed
  qed auto
qed

text \<open>On a sorted list, from position \<open>l\<close> on: everything skipped is smaller, and everything behind is not.\<close>

lemma lower_bound_sorted:
  fixes xs :: "'t :: linorder list" and v :: 't
  assumes "sorted xs" "l \<le> length xs"
  defines "r \<equiv> lower_bound (\<lambda>i. xs ! i < v) l (length xs)"
  shows "l \<le> r" "r \<le> length xs" "\<forall>x \<in> set (take (r - l) (drop l xs)). x < v" "\<forall>x \<in> set (drop r xs). v \<le> x"
proof -
  show r: "l \<le> r" "r \<le> length xs" using lower_bound_range [OF assms(2)] by (simp_all add: r_def)
  have "\<forall>i j. i \<le> j \<longrightarrow> j < length xs \<longrightarrow> xs ! j < v \<longrightarrow> xs ! i < v"
    using assms(1) by (auto simp: sorted_iff_nth_mono intro: le_less_trans)
  note sp = lower_bound_spec [OF this, of l, folded r_def]
  show "\<forall>x \<in> set (take (r - l) (drop l xs)). x < v" using sp r by (auto simp: in_set_conv_nth)
  show "\<forall>x \<in> set (drop r xs). v \<le> x" using sp r by (auto simp: in_set_conv_nth not_less)
qed

lemma binary_search_correct:
  assumes "sorted xs"
  shows "binary_search xs v \<longleftrightarrow> v \<in> set xs"
proof -
  let ?r = "lower_bound (\<lambda>i. xs ! i < v) 0 (length xs)"
  note r = lower_bound_sorted [OF assms le0, of v]
  have "set xs = set (take ?r xs) \<union> set (drop ?r xs)" by (metis append_take_drop_id set_append)
  moreover have "v \<in> set (drop ?r xs) \<longleftrightarrow> ?r < length xs \<and> xs ! ?r = v"
  proof
    assume "v \<in> set (drop ?r xs)"
    then have l: "?r < length xs" by (cases "?r < length xs") auto
    then have d: "drop ?r xs = xs ! ?r # drop (Suc ?r) xs" by (simp add: Cons_nth_drop_Suc)
    have "sorted (drop ?r xs)" using assms by (rule sorted_wrt_drop)
    then have "xs ! ?r \<le> v" using \<open>v \<in> set (drop ?r xs)\<close> unfolding d by auto
    moreover have "v \<le> xs ! ?r" using r(4) unfolding d by simp
    ultimately show "?r < length xs \<and> xs ! ?r = v" using l by simp
  next
    assume "?r < length xs \<and> xs ! ?r = v"
    then show "v \<in> set (drop ?r xs)" by (auto simp flip: Cons_nth_drop_Suc)
  qed
  moreover have "v \<notin> set (take ?r xs)"
    using r(3) unfolding diff_zero drop_0 by (meson less_irrefl)
  ultimately show ?thesis unfolding binary_search_def Let_def by blast
qed

subsection \<open>The kernels count common elements\<close>

abbreviation common :: "'t list \<Rightarrow> 't list \<Rightarrow> nat" where
  "common xs ys \<equiv> card (set xs \<inter> set ys)"

lemma common_less:
  assumes "sorted_wrt (<) (b # ys)" "a < (b :: 't :: linorder)"
  shows "common (a # xs) (b # ys) = common xs (b # ys)"
proof -
  have "a \<notin> set (b # ys)" using assms by auto
  then show ?thesis by simp
qed

lemma common_equal:
  assumes "sorted_wrt (<) (a # xs)" "sorted_wrt (<) (a # ys)"
  shows "common (a # xs) (a # ys) = Suc (common xs (ys :: 't :: linorder list))"
proof -
  have "a \<notin> set xs" "a \<notin> set ys" using assms by auto
  then show ?thesis by simp
qed

lemma common_commute: "common xs ys = common ys xs"
  by (simp add: Int_commute)

text \<open>A round of either kernel: move past the smaller head, or past both and count.\<close>

lemma common_advance:
  fixes ps qs :: "'t :: linorder list"
  assumes "sorted_wrt (<) ps" "sorted_wrt (<) qs" "p < length ps" "q < length qs"
  shows "(if ps ! p = qs ! q then count + 1 else count) + word_of_nat
      (common (drop (if ps ! p \<le> qs ! q then p + 1 else p) ps) (drop (if ps ! p \<ge> qs ! q then q + 1 else q) qs))
    = (count + word_of_nat (common (drop p ps) (drop q qs)) :: u64)"
proof -
  have d: "drop p ps = ps ! p # drop (Suc p) ps" "drop q qs = qs ! q # drop (Suc q) qs"
    using assms(3,4) by (simp_all add: Cons_nth_drop_Suc)
  have s: "sorted_wrt (<) (ps ! p # drop (Suc p) ps)" "sorted_wrt (<) (qs ! q # drop (Suc q) qs)"
    using assms(1,2) unfolding d [symmetric] by (simp_all only: sorted_wrt_drop)
  consider "ps ! p < qs ! q" | "qs ! q < ps ! p" | "ps ! p = qs ! q" by force
  then show ?thesis
  proof cases
    case 1
    then have "ps ! p \<le> qs ! q" "\<not> qs ! q \<le> ps ! p" "ps ! p \<noteq> qs ! q" by auto
    then show ?thesis using common_less [OF s(2) 1, of "drop (Suc p) ps"] by (simp add: d)
  next
    case 2
    then have "\<not> ps ! p \<le> qs ! q" "qs ! q \<le> ps ! p" "ps ! p \<noteq> qs ! q" by auto
    then show ?thesis using common_less [OF s(1) 2, of "drop (Suc q) qs"] by (simp add: d Int_commute)
  next
    case 3
    then show ?thesis using common_equal [of "ps ! p" "drop (Suc p) ps" "drop (Suc q) qs"] s by (simp add: d)
  qed
qed

lemma intersect_loop_common:
  assumes "sorted_wrt (<) ps" "sorted_wrt (<) qs"
  shows "intersect_loop ps qs p q count = count + word_of_nat (common (drop p ps) (drop q qs))"
  using assms
proof (induction ps qs p q count rule: intersect_loop.induct)
  case (1 ps qs p q count)
  show ?case
  proof (cases "p < length ps \<and> q < length qs")
    case True
    then show ?thesis
      unfolding intersect_loop.simps [of ps qs p q count] using "1.IH" [OF True refl refl "1.prems"] common_advance [OF "1.prems", of p q count]
      by (simp only: Let_def if_True simp_thms)
  qed (auto simp: intersect_loop.simps [of ps qs p q count])
qed

text \<open>Elements that are skipped because they are below everything on the other side are not common.\<close>

lemma common_skip:
  assumes "\<forall>x \<in> set (take n xs). x < v" "\<forall>y \<in> set ys. v \<le> (y :: 't :: linorder)"
  shows "common xs ys = common (drop n xs) ys"
proof -
  have "set xs = set (take n xs) \<union> set (drop n xs)" by (metis append_take_drop_id set_append)
  moreover have "set (take n xs) \<inter> set ys = {}" using assms by fastforce
  ultimately show ?thesis by (simp add: Int_Un_distrib2)
qed

lemma sorted_head_le: "sorted_wrt (<) xs \<Longrightarrow> i < length xs \<Longrightarrow> \<forall>x \<in> set (drop i xs). xs ! i \<le> (x :: 't :: linorder)"
  using sorted_wrt_drop [of "(<)" xs i] by (simp flip: Cons_nth_drop_Suc) auto

lemma double_binary_common:
  assumes "sorted_wrt (<) small" "sorted_wrt (<) large" "s \<le> length small" "l \<le> length large"
  shows "double_binary_loop small large s l count = count + word_of_nat (common (drop s small) (drop l large))"
  using assms
proof (induction small large s l count rule: double_binary_loop.induct)
  case (1 small large s l count)
  define l' where "l' = lower_bound (\<lambda>it. large ! it < small ! s) l (length large)"
  define s' where "s' = lower_bound (\<lambda>it. small ! it < large ! l') s (length small)"
  note unfold = double_binary_loop.simps [of small large s l count, unfolded Let_def, folded l'_def, folded s'_def]
  have so: "sorted small" "sorted large" using "1.prems" by (auto simp: strict_sorted_iff)
  note L = lower_bound_sorted [OF so(2) "1.prems"(4), of "small ! s", folded l'_def]
  note S = lower_bound_sorted [OF so(1) "1.prems"(3), of "large ! l'", folded s'_def]
  show ?case
  proof (cases "s \<noteq> length small \<and> l \<noteq> length large")
    case ne: True
    then have s: "s < length small" using "1.prems"(3) by simp
    have c1: "common (drop s small) (drop l large) = common (drop s small) (drop l' large)"
      using common_skip [OF L(3) sorted_head_le [OF "1.prems"(1) s]] L(1) by (simp add: Int_commute)
    show ?thesis
    proof (cases "l' = length large")
      case True
      then show ?thesis using ne c1 unfolding unfold by simp
    next
      case nl: False
      then have l'l: "l' < length large" using L(2) by simp
      have c2: "common (drop s small) (drop l' large) = common (drop s' small) (drop l' large)"
        using common_skip [OF S(3) sorted_head_le [OF "1.prems"(2) l'l]] S(1) by simp
      show ?thesis
      proof (cases "s' = length small")
        case True
        then show ?thesis using ne nl c1 c2 unfolding unfold by simp
      next
        case ns: False
        then have s's: "s' < length small" using S(2) by simp
        have le: "(if small ! s' \<le> large ! l' then s' + 1 else s') \<le> length small"
            "(if small ! s' \<ge> large ! l' then l' + 1 else l') \<le> length large" using s's l'l by simp_all
        have "double_binary_loop small large s l count = (if small ! s' = large ! l' then count + 1 else count) + word_of_nat
            (common (drop (if small ! s' \<le> large ! l' then s' + 1 else s') small) (drop (if small ! s' \<ge> large ! l' then l' + 1 else l') large))"
          unfolding unfold using ne nl ns "1.IH" [OF ne l'_def nl s'_def ns refl refl "1.prems"(1,2) le]
          by (simp only: Let_def if_True if_False simp_thms)
        then show ?thesis using common_advance [OF "1.prems"(1,2) s's l'l, of count] c1 c2 by (simp only:)
      qed
    qed
  qed (auto simp: double_binary_loop.simps [of small large s l count])
qed


lemma intersect_dag_merge_common:
  "sorted_wrt (<) ps \<Longrightarrow> sorted_wrt (<) qs \<Longrightarrow> intersect_dag_merge ps qs = word_of_nat (common ps qs)"
  by (simp add: intersect_dag_merge_def intersect_loop_common)

lemma intersect_dag_merge_double_binary_common:
  "sorted_wrt (<) ps \<Longrightarrow> sorted_wrt (<) qs \<Longrightarrow> intersect_dag_merge_double_binary ps qs = word_of_nat (common ps qs)"
  by (simp add: intersect_dag_merge_double_binary_def double_binary_common Int_commute)

subsection \<open>The connection kernels decide membership\<close>

lemma is_connected_member: "sorted es \<Longrightarrow> is_connected es x = of_bool (x \<in> set es)"
  by (induction es) (auto simp: not_less)

text \<open>
  The window is moved by one position at a time and not to the middle, so the search takes as many rounds as there are
  edges; it is right all the same, since what is left out lies on the far side of the middle.
\<close>

lemma window_low:
  assumes "es ! nat l \<noteq> x"
  shows "(\<exists>i. l \<le> i \<and> i < h \<and> es ! nat i = x) \<longleftrightarrow> (\<exists>i. l + 1 \<le> i \<and> i < h \<and> es ! nat i = x)"
proof -
  have "l \<le> i \<longleftrightarrow> l + 1 \<le> i \<or> i = l" for i by linarith
  then show ?thesis using assms by auto
qed

lemma window_high:
  assumes "es ! nat (h - 1) \<noteq> x"
  shows "(\<exists>i. l \<le> i \<and> i < h \<and> es ! nat i = x) \<longleftrightarrow> (\<exists>i. l \<le> i \<and> i < h - 1 \<and> es ! nat i = x)"
proof -
  have "i < h \<longleftrightarrow> i < h - 1 \<or> i = h - 1" for i by linarith
  then show ?thesis using assms by auto
qed

lemma connected_loop_member:
  assumes "sorted es" "0 \<le> l" "h \<le> int (length es)"
  shows "connected_loop es x l h = of_bool (\<exists>i. l \<le> i \<and> i < h \<and> es ! nat i = x)"
  using assms
proof (induction es x l h rule: connected_loop.induct)
  case (1 es x l h)
  let ?m = "(l + h) div 2"
  show ?case
  proof (cases "l < h")
    case True
    then have m: "l \<le> ?m" "?m < h" by linarith+
    have mono: "es ! nat i \<le> es ! nat j" if "0 \<le> i" "i \<le> j" "j < h" for i j
      using sorted_nth_mono [OF "1.prems"(1), of "nat i" "nat j"] that "1.prems"(3) by simp
    consider "es ! nat ?m = x" | "es ! nat ?m < x" | "x < es ! nat ?m" by force
    then show ?thesis
    proof cases
      case 1
      then show ?thesis using True m by (auto simp: connected_loop.simps [of es x l h] Let_def)
    next
      case 2
      have "es ! nat l \<noteq> x" using mono [of l ?m] m "1.prems"(2) 2 by fastforce
      then have "(\<exists>i. l \<le> i \<and> i < h \<and> es ! nat i = x) \<longleftrightarrow> (\<exists>i. l + 1 \<le> i \<and> i < h \<and> es ! nat i = x)"
        by (intro window_low)
      moreover have "connected_loop es x l h = connected_loop es x (l + 1) h"
        using 2 True less_imp_neq [OF 2] by (simp add: connected_loop.simps [of es x l h] Let_def)
      ultimately show ?thesis using "1.IH"(1) [OF True refl refl _ 2] 2 "1.prems" by simp
    next
      case 3
      have "es ! nat (h - 1) \<noteq> x" using mono [of ?m "h - 1"] m "1.prems"(2) 3 by fastforce
      then have "(\<exists>i. l \<le> i \<and> i < h \<and> es ! nat i = x) \<longleftrightarrow> (\<exists>i. l \<le> i \<and> i < h - 1 \<and> es ! nat i = x)"
        by (intro window_high)
      moreover have "connected_loop es x l h = connected_loop es x l (h - 1)"
        using 3 True less_imp_neq [OF 3] less_not_sym [OF 3] by (simp add: connected_loop.simps [of es x l h] Let_def)
      ultimately show ?thesis using "1.IH"(2) [OF True refl refl] 3 "1.prems" by auto
    qed
  qed (simp add: connected_loop.simps [of es x l h])
qed

lemma is_connected_binarySearch_member:
  assumes "sorted es"
  shows "is_connected_binarySearch es x = of_bool (x \<in> set es)"
proof -
  have "(\<exists>i :: int. 0 \<le> i \<and> i < int (length es) \<and> es ! nat i = x) \<longleftrightarrow> x \<in> set es"
    unfolding in_set_conv_nth by (metis nat_less_iff of_nat_0_le_iff of_nat_less_iff nat_int)
  then show ?thesis using connected_loop_member [OF assms order_refl order_refl, of x] by (simp add: is_connected_binarySearch_def)
qed

lemma vertexset_fold:
  assumes "distinct v0" "sorted v1"
  shows "fold (\<lambda>n count. if n \<le> t then count else count + is_connected_binarySearch v1 n) v0 c =
    c + word_of_nat (card {n \<in> set v0 \<inter> set v1. t < n})"
  using assms(1)
proof (induction v0 arbitrary: c)
  case (Cons n v0)
  have "{m \<in> set (n # v0) \<inter> set v1. t < m} =
      (if t < n \<and> n \<in> set v1 then insert n {m \<in> set v0 \<inter> set v1. t < m} else {m \<in> set v0 \<inter> set v1. t < m})"
    by auto
  then show ?case
    using Cons by (simp add: is_connected_binarySearch_member [OF assms(2)] not_less) (auto simp: not_le)
qed simp

text \<open>
  C11: The kernels of triangle counting agree: on adjacency lists with increasing tokens the merge and the double binary
  search both give the number of common neighbours, and the intersection over one edge \<open>v0\<close>, \<open>v1\<close> gives the number of the
  common neighbours above \<open>v1\<close>.
\<close>

theorem tc_kernels_agree:
  assumes "sorted_wrt (<) ps" "sorted_wrt (<) (qs :: 't :: linorder list)"
  shows "intersect_dag_merge ps qs = word_of_nat (card (set ps \<inter> set qs)) \<and>
    intersect_dag_merge_double_binary ps qs = intersect_dag_merge ps qs \<and>
    vertexset_intersection ps t qs = word_of_nat (card {n \<in> set ps \<inter> set qs. t < n}) \<and>
    is_connected_binarySearch qs x = is_connected qs x \<and> is_connected qs x = of_bool (binary_search qs x)"
proof -
  have "sorted qs" "distinct ps" using assms by (simp_all add: strict_sorted_iff)
  then show ?thesis
    using intersect_dag_merge_common [OF assms] intersect_dag_merge_double_binary_common [OF assms] vertexset_fold [of ps qs t 0]
      is_connected_member [of qs x] is_connected_binarySearch_member [of qs x] binary_search_correct [of qs x]
    by (simp add: vertexset_intersection_def)
qed

theorem tc_kernels_agree_witness:
  "intersect_dag_merge_double_binary [1, 4, 6, 9 :: u64] [2, 4, 9] = 2 \<and> vertexset_intersection [1, 4, 6, 9 :: u64] 4 [2, 4, 9] = 1"
proof -
  have "card (set [1, 4, 6, 9 :: u64] \<inter> set [2, 4, 9]) = 2" "{n \<in> set [1, 4, 6, 9 :: u64] \<inter> set [2, 4, 9]. 4 < n} = {9}"
    by auto
  then show ?thesis using tc_kernels_agree [of "[1, 4, 6, 9 :: u64]" "[2, 4, 9]" 4 0] by simp
qed

end
