(* ===== verification/Dist_Accumulator.thy ===== *)
theory Dist_Accumulator
  imports Rt_Status "HOL-Library.Multiset"
begin

text \<open>
  The distributed counter \<^verbatim>\<open>galois::DAccumulator<uint64_t>\<close> (\<^verbatim>\<open>pando-lib-galois/utility/dist_accumulator.hpp\<close>): a counter for every
  host, to which the tasks on that host add, and a global value into which \<^verbatim>\<open>reduce\<close> sums them. The counters and the
  global value are in shared memory; the flag that a value was computed is a member of each copy of the object, so an
  operation takes and gives the flag of the copy it runs on. Every addition is one atomic step.
\<close>

record DAccumulator =
  localCounters :: "u64 list"
  globalValue :: u64

definition DAccumulator_reset :: "DAccumulator \<Rightarrow> bool \<times> DAccumulator" where
  "DAccumulator_reset a = (False, a\<lparr>localCounters := map (\<lambda>_. 0) (localCounters a), globalValue := 0\<rparr>)"

text \<open>
  \<open>alloc\<close> is the allocation of the global value, \<open>storage\<close> the counters that \<^verbatim>\<open>HostLocalStorage\<close> provides, whose
  contents are arbitrary; when that fails the global value is freed again.
\<close>

definition DAccumulator_initialize ::
  "u64 expected \<Rightarrow> u64 list expected \<Rightarrow> u64 \<Rightarrow> Status \<times> (bool \<times> DAccumulator) option \<times> u64 list" where
  "DAccumulator_initialize alloc storage junk =
     (case alloc of
        Inl err \<Rightarrow> (err, None, [])
      | Inr ptr \<Rightarrow>
          (case storage of
             Inl err \<Rightarrow> (err, None, [ptr])
           | Inr counters \<Rightarrow> (Success, Some (DAccumulator_reset \<lparr>localCounters = counters, globalValue = junk\<rparr>), [])))"

fun reduce_loop :: "u64 list \<Rightarrow> u64 \<Rightarrow> u64" where
  "reduce_loop [] g = g"
| "reduce_loop (c # cs) g = reduce_loop cs (g + c)"

definition DAccumulator_reduce :: "DAccumulator \<Rightarrow> u64 \<times> bool \<times> DAccumulator" where
  "DAccumulator_reduce a =
     (let g = reduce_loop (localCounters a) (globalValue a) in (g, True, a\<lparr>globalValue := g\<rparr>))"

definition DAccumulator_get :: "bool \<Rightarrow> DAccumulator \<Rightarrow> u64" where
  "DAccumulator_get globalValueComputed a = (if \<not> globalValueComputed then 0 else globalValue a)"

text \<open>On the host \<open>node\<close>.\<close>

definition DAccumulator_add :: "nat \<Rightarrow> u64 \<Rightarrow> DAccumulator \<Rightarrow> DAccumulator" where
  "DAccumulator_add node delta a = a\<lparr>localCounters := (localCounters a)[node := localCounters a ! node + delta]\<rparr>"

definition DAccumulator_increment :: "nat \<Rightarrow> DAccumulator \<Rightarrow> DAccumulator" where
  "DAccumulator_increment node = DAccumulator_add node 1"

definition DAccumulator_subtract :: "nat \<Rightarrow> u64 \<Rightarrow> DAccumulator \<Rightarrow> DAccumulator" where
  "DAccumulator_subtract node delta a = a\<lparr>localCounters := (localCounters a)[node := localCounters a ! node - delta]\<rparr>"

definition DAccumulator_decrement :: "nat \<Rightarrow> DAccumulator \<Rightarrow> DAccumulator" where
  "DAccumulator_decrement node = DAccumulator_subtract node 1"

subsection \<open>Sums\<close>

lemma reduce_loop_sum: "reduce_loop cs g = g + sum_list cs"
  by (induction cs g rule: reduce_loop.induct) (simp_all add: ac_simps)

lemma sum_list_update_add:
  "i < length cs \<Longrightarrow> sum_list (cs[i := cs ! i + x]) = sum_list cs + (x :: 'a :: comm_ring_1)"
  by (induction cs arbitrary: i) (auto simp: nth_Cons split: nat.splits)

lemma DAccumulator_add_sum:
  assumes "node < length (localCounters a)"
  shows "sum_list (localCounters (DAccumulator_add node delta a)) = sum_list (localCounters a) + delta"
  using sum_list_update_add [OF assms] by (simp add: DAccumulator_add_def)

lemma DAccumulator_add_same [simp]:
  "length (localCounters (DAccumulator_add node delta a)) = length (localCounters a)"
  "globalValue (DAccumulator_add node delta a) = globalValue a"
  by (simp_all add: DAccumulator_add_def)

lemma DAccumulator_subtract_add: "DAccumulator_subtract node delta = DAccumulator_add node (- delta)"
  by (simp add: DAccumulator_subtract_def DAccumulator_add_def fun_eq_iff)

lemma DAccumulator_add_commute:
  "DAccumulator_add n x \<circ> DAccumulator_add m y = DAccumulator_add m y \<circ> DAccumulator_add n x"
proof
  fix a
  show "(DAccumulator_add n x \<circ> DAccumulator_add m y) a = (DAccumulator_add m y \<circ> DAccumulator_add n x) a"
  proof (cases "n = m")
    case True
    then show ?thesis by (cases "m < length (localCounters a)") (simp_all add: DAccumulator_add_def ac_simps list_update_beyond)
  next
    case False
    then show ?thesis by (simp add: DAccumulator_add_def list_update_swap)
  qed
qed

lemma fold_DAccumulator_add:
  assumes "\<forall>(n, x) \<in> set xs. n < length (localCounters a)"
  shows "sum_list (localCounters (fold (\<lambda>(n, x). DAccumulator_add n x) xs a)) = sum_list (localCounters a) + sum_list (map snd xs) \<and>
    globalValue (fold (\<lambda>(n, x). DAccumulator_add n x) xs a) = globalValue a \<and>
    length (localCounters (fold (\<lambda>(n, x). DAccumulator_add n x) xs a)) = length (localCounters a)"
  using assms
proof (induction xs arbitrary: a)
  case (Cons p xs)
  obtain n x where p: "p = (n, x)" by fastforce
  then have "\<forall>(n', x') \<in> set xs. n' < length (localCounters (DAccumulator_add n x a))" using Cons.prems by auto
  from Cons.IH [OF this] show ?case using Cons.prems p by (simp add: DAccumulator_add_sum ac_simps)
qed simp

text \<open>
  C18: After an initialization or a reset, with any additions of any hosts in any order (a subtraction is the addition of the negated
  number), \<^verbatim>\<open>reduce\<close> returns the sum of what was added, modulo \<open>2 ^ 64\<close>, and \<^verbatim>\<open>get\<close> the same afterwards and zero before.
  A second \<^verbatim>\<open>reduce\<close> does not recompute the value: it adds the sum once more.
\<close>

theorem DAccumulator_reduce_sums:
  assumes "DAccumulator_initialize (Inr ptr) (Inr counters) junk = (st, Some (f, a), fr)"
    and "\<forall>(n, x) \<in> set xs. n < length counters"
    and "DAccumulator_reduce (fold (\<lambda>(n, x). DAccumulator_add n x) xs a) = (v, f', a')"
    and "DAccumulator_reduce a' = (v2, f2, a2)"
  shows "st = Success \<and> fr = [] \<and> DAccumulator_get f a = 0 \<and> v = sum_list (map snd xs) \<and> DAccumulator_get f' a' = v \<and>
    v2 = 2 * sum_list (map snd xs) \<and> DAccumulator_reset a' = (False, a)"
proof -
  let ?b = "fold (\<lambda>(n, x). DAccumulator_add n x) xs a"
  have a: "st = Success" "fr = []" "f = False" "a = \<lparr>localCounters = map (\<lambda>_. 0) counters, globalValue = 0\<rparr>"
    using assms(1) by (auto simp: DAccumulator_initialize_def DAccumulator_reset_def)
  then have z: "sum_list (localCounters a) = 0" "length (localCounters a) = length counters" "globalValue a = 0" by simp_all
  have b: "sum_list (localCounters ?b) = sum_list (map snd xs)" "globalValue ?b = 0" "length (localCounters ?b) = length counters"
    using fold_DAccumulator_add [of xs a] assms(2) z by auto
  have v: "v = sum_list (map snd xs)" "f'" "a' = ?b\<lparr>globalValue := v\<rparr>"
    using assms(3) b by (simp_all add: DAccumulator_reduce_def reduce_loop_sum Let_def) auto
  have "map (\<lambda>_. 0) (localCounters ?b) = map (\<lambda>_. 0 :: u64) counters" using b(3) by (simp add: map_replicate_const)
  then have "DAccumulator_reset a' = (False, a)" using v(3) a by (simp add: DAccumulator_reset_def)
  moreover have "v2 = 2 * sum_list (map snd xs)"
    using assms(4) v b(1) by (simp add: DAccumulator_reduce_def reduce_loop_sum Let_def)
  ultimately show ?thesis using a v by (simp add: DAccumulator_get_def)
qed

theorem DAccumulator_reduce_sums_witness:
  "fst (DAccumulator_reduce (snd (snd (DAccumulator_reduce
     (fold (\<lambda>(n, x). DAccumulator_add n x) [(0, 5), (1, 7), (0, - 2)] \<lparr>localCounters = [0, 0], globalValue = 0\<rparr>))))) = 20"
proof -
  let ?a = "\<lparr>localCounters = [0, 0 :: u64], globalValue = 0\<rparr>" and ?xs = "[(0, 5), (1, 7), (0, - 2)] :: (nat \<times> u64) list"
  have "DAccumulator_initialize (Inr 64) (Inr [9, 9]) 3 = (Success, Some (False, ?a), [])"
    by (simp add: DAccumulator_initialize_def DAccumulator_reset_def)
  from DAccumulator_reduce_sums [OF this, of ?xs] show ?thesis
    by (auto simp del: fold_simps simp: prod_eq_iff)
qed

end
