(* ===== verification/Tri_Count.thy ===== *)
theory Tri_Count
  imports Nested_Loops Tri_Kernels Dist_Accumulator
begin

text \<open>
  Triangle counting (\<^verbatim>\<open>microbench/triangle-counting/src/tc_algos.cpp\<close>): a loop over the vertices whose functor runs a
  loop over the edges of the vertex on the same wait group; a task of the inner loop intersects the neighbours of the
  two ends of its edge and adds their number to the counter of the host it runs on. The operations that the algorithm
  uses of its graph type are a record.
\<close>

subsection \<open>The algorithm\<close>

record ('v, 'e) tc_graph =
  tg_vertices :: "'v range"
  tg_edges :: "'v \<Rightarrow> 'e range"
  tg_getEdgeDst :: "'e \<Rightarrow> 'v"
  tg_getTokenID :: "'v \<Rightarrow> u64"
  tg_getNumEdges :: "'v \<Rightarrow> u64"
  tg_getLocalityVertex :: "'v \<Rightarrow> Place"

definition edge_tokens :: "('v, 'e) tc_graph \<Rightarrow> 'v \<Rightarrow> u64 list" where
  "edge_tokens g v = map (\<lambda>e. tg_getTokenID g (tg_getEdgeDst g e)) (r_elems (tg_edges g v))"

text \<open>The task runs where the vertex of higher degree is.\<close>

definition tc_edge_place :: "('v, 'e) tc_graph \<Rightarrow> 'v \<Rightarrow> 'e \<Rightarrow> Place" where
  "tc_edge_place g v0 eh =
     (let v1 = tg_getEdgeDst g eh;
          v0_higher_degree = tg_getNumEdges g v0 \<ge> tg_getNumEdges g v1
      in if v0_higher_degree then tg_getLocalityVertex g v0 else tg_getLocalityVertex g v1)"

text \<open>What a task adds, and to the counter of which host.\<close>

definition tc_edge_work :: "('v, 'e) tc_graph \<Rightarrow> 'v \<Rightarrow> 'e \<Rightarrow> nat \<times> u64" where
  "tc_edge_work g v0 eh =
     (unat (node_id (place_node (tc_edge_place g v0 eh))),
      intersect_dag_merge (edge_tokens g v0) (edge_tokens g (tg_getEdgeDst g eh)))"

definition edge_tc_counting ::
  "(u64 \<Rightarrow> Place \<Rightarrow> Status) \<Rightarrow> ('v, 'e) tc_graph \<Rightarrow> 'v \<Rightarrow> 'e range \<Rightarrow> (nat \<times> u64) task_op list" where
  "edge_tc_counting executeOn g v0 edge_range =
     loop_thread (\<lambda>eh. [Act (tc_edge_work g v0 eh)]) (fst (doAll_locality executeOn (tc_edge_place g v0) edge_range))"

definition TC_EMBEDDING_SZ :: u64 where
  "TC_EMBEDDING_SZ = 3"

definition tc_vertex ::
  "('v \<Rightarrow> u64 \<Rightarrow> Place \<Rightarrow> Status) \<Rightarrow> ('v, 'e) tc_graph \<Rightarrow> 'v \<Rightarrow> (nat \<times> u64) task_op list" where
  "tc_vertex executeOn g v0 =
     (if tg_getNumEdges g v0 < TC_EMBEDDING_SZ - 1 then []
      else edge_tc_counting (executeOn v0) g v0 (tg_edges g v0))"

text \<open>
  The calling thread up to its wait. \<open>executeOn\<close> gives the results of starting the tasks of the outer loop,
  \<open>executeOn_edges v0\<close> those of the loop of the task of \<open>v0\<close>.
\<close>

definition tc_no_chunk_thread ::
  "machine \<Rightarrow> SchedulerPolicy \<Rightarrow> (u64 \<Rightarrow> Place \<Rightarrow> Status) \<Rightarrow> ('v \<Rightarrow> u64 \<Rightarrow> Place \<Rightarrow> Status) \<Rightarrow> ('v \<Rightarrow> i8) \<Rightarrow>
   ('v, 'e) tc_graph \<Rightarrow> (nat \<times> u64) task_op list" where
  "tc_no_chunk_thread mc policy executeOn executeOn_edges draw g =
     loop_thread (tc_vertex executeOn_edges g) (fst (doAll mc policy executeOn draw (tg_getLocalityVertex g) (tg_vertices g)))"

definition tc_exec :: "nat \<times> u64 \<Rightarrow> DAccumulator \<Rightarrow> DAccumulator" where
  "tc_exec = (\<lambda>(node, count). DAccumulator_add node count)"

definition tc_no_chunk ::
  "u64 expected \<Rightarrow> rt_mem \<Rightarrow> DAccumulator \<Rightarrow> (nat \<times> u64) task_op list \<Rightarrow> Status + u64 \<times> (nat \<times> u64, DAccumulator, rt_mem) task_sys" where
  "tc_no_chunk alloc m final_tri_count thread =
     (case WaitGroup_initialize 0 alloc \<lparr>wg_count = 0\<rparr> m of (err, wg, m') \<Rightarrow>
        if err \<noteq> Success then Inl err else Inr (WaitGroup_getHandle wg, task_sys_start thread m' final_tri_count))"

abbreviation tc_system ::
  "u64 \<Rightarrow> (nat \<times> u64, DAccumulator, rt_mem) task_sys \<Rightarrow> (nat \<times> u64, DAccumulator, rt_mem) task_sys \<Rightarrow> bool" where
  "tc_system p \<equiv> task_sys_step (HandleType_add p) (HandleType_done p) (WaitGroup_ready p) tc_exec"

subsection \<open>The loops of the algorithm\<close>

lemma doAll_loop_success:
  assumes "\<forall>i pl. executeOn i pl = Success"
  shows "doAll_loop executeOn place_of rsize iter l its = (ops, err) \<Longrightarrow> err = Success \<and> spawned ops = its \<and> DoneOp \<notin> set ops"
  using assms by (induction its arbitrary: iter l ops err) (auto simp: Let_def split: prod.splits)

lemma signals_loop_thread:
  "DoneOp \<notin> set ops \<Longrightarrow> op_total op_signals (loop_thread func ops) = (\<Sum>it \<leftarrow> spawned ops. 1 + op_total op_signals (func it))"
  unfolding loop_thread_def by (induction ops rule: pend.induct) (simp_all add: notifyFunc_def)

definition range_ok :: "'it range \<Rightarrow> bool" where
  "range_ok rng \<longleftrightarrow> unat (r_size rng) = length (r_elems rng) \<and> length (r_elems rng) < 2 ^ 32"

text \<open>A loop whose tasks all start: its thread announces and starts a task for each element.\<close>

lemma loop_started:
  assumes ex: "\<forall>i pl. executeOn i pl = Success" and rng: "range_ok rng"
    and func: "\<And>it. it \<in> set (r_elems rng) \<Longrightarrow> caller_ok (func it) \<and> op_total op_pend (func it) = 0"
    and ops: "ops = AddOp (ucast (r_size rng)) # fst (doAll_loop executeOn place_of (r_size rng) 0 l (r_elems rng))"
  shows "caller_ok (loop_thread func ops) \<and> op_total op_pend (loop_thread func ops) = 0 \<and>
    op_total op_signals (loop_thread func ops) = (\<Sum>it \<leftarrow> r_elems rng. 1 + op_total op_signals (func it)) \<and>
    op_total op_acts (loop_thread func ops) = (\<Sum>it \<leftarrow> r_elems rng. op_total op_acts (func it))"
proof -
  obtain ops' err where r: "doAll_loop executeOn place_of (r_size rng) 0 l (r_elems rng) = (ops', err)" by fastforce
  then have o: "ops = AddOp (ucast (r_size rng)) # ops'" by (simp add: ops)
  note s = doAll_loop_success [OF ex r]
  then have sp: "spawned ops = r_elems rng" "DoneOp \<notin> set ops" by (simp_all add: o)
  have n: "int (unat (ucast (r_size rng) :: u32)) = int (length (r_elems rng))"
    using rng by (simp only: unsigned_ucast_eq range_ok_def) (simp add: take_bit_nat_eq_self)
  have "covered ops' \<and> pend ops' = int (length (r_elems rng))"
    using doAll_loop_ops [OF r] rng by (simp add: range_ok_def)
  then have c: "covered ops" "pend ops = 0" using n by (simp_all add: o del: of_nat_unat)
  have f: "op_total op_pend (func it) = 0" "task_ok (notifyFunc func it)" if "it \<in> set (spawned ops)" for it
    using func that sp(1) caller_ok_then_signal by (auto simp: notifyFunc_def)
  have "caller_ok (loop_thread func ops)" by (rule caller_ok_loop_thread [OF c(1)]) (use f in blast)
  moreover have "op_total op_pend (loop_thread func ops) = 0" using total_loop_thread [of ops func] f(1) c(2) by simp
  ultimately show ?thesis using signals_loop_thread [OF sp(2), of func] acts_loop_thread [of func ops] unfolding sp(1) by simp
qed

lemma doAll_locality_thread:
  "fst (doAll_locality executeOn loc rng) =
    AddOp (ucast (r_size rng)) # fst (doAll_loop executeOn (\<lambda>l it. (loc it, l)) (r_size rng) 0 () (r_elems rng))"
  by (simp add: doAll_locality_def case_prod_beta)

lemma doAll_thread:
  "fst (doAll mc policy executeOn draw loc rng) = AddOp (ucast (r_size rng)) #
    fst (doAll_loop executeOn (\<lambda>ll it. schedulerImpl mc policy (draw it) (loc it) ll) (r_size rng) 0 loopLocal_start (r_elems rng))"
  by (simp add: doAll_def doAllExplicitPolicy_def case_prod_beta)

lemma edge_tc_counting_started:
  assumes ex: "\<forall>i pl. executeOn i pl = Success" and rng: "range_ok rng"
  shows "caller_ok (edge_tc_counting executeOn g v0 rng) \<and> op_total op_pend (edge_tc_counting executeOn g v0 rng) = 0 \<and>
    op_total op_signals (edge_tc_counting executeOn g v0 rng) = length (r_elems rng) \<and>
    op_total op_acts (edge_tc_counting executeOn g v0 rng) = mset (map (tc_edge_work g v0) (r_elems rng))"
  using loop_started [OF ex rng _ doAll_locality_thread, of "\<lambda>eh. [Act (tc_edge_work g v0 eh)]" "tc_edge_place g v0"]
  unfolding edge_tc_counting_def by (simp add: sum_list_triv)


subsection \<open>The number of triangles\<close>

definition tc_adj :: "('v, 'e) tc_graph \<Rightarrow> 'v \<Rightarrow> 'v set" where
  "tc_adj g v = tg_getEdgeDst g ` set (r_elems (tg_edges g v))"

abbreviation tc_verts :: "('v, 'e) tc_graph \<Rightarrow> 'v set" where
  "tc_verts g \<equiv> set (r_elems (tg_vertices g))"

definition triangles :: "'v set \<Rightarrow> ('v \<Rightarrow> 'v set) \<Rightarrow> ('v \<times> 'v \<times> 'v) set" where
  "triangles V adj = {(a, b, c). a \<in> V \<and> b \<in> adj a \<and> c \<in> adj a \<and> c \<in> adj b}"

lemma triangles_cong:
  assumes "\<And>v. v \<in> V \<Longrightarrow> adj v = adj' v" "\<And>v. v \<in> V \<Longrightarrow> adj' v \<subseteq> V"
  shows "triangles V adj = triangles V adj'"
proof -
  have "b \<in> V" if "a \<in> V" "b \<in> adj' a" for a b using assms(2) that by blast
  then show ?thesis using assms(1) by (auto simp: triangles_def)
qed

lemma card_triangles:
  assumes "finite V" "\<And>v. v \<in> V \<Longrightarrow> finite (adj v)"
  shows "card (triangles V adj) = (\<Sum>a \<in> V. \<Sum>b \<in> adj a. card (adj a \<inter> adj b))"
proof -
  have "triangles V adj = Sigma V (\<lambda>a. Sigma (adj a) (\<lambda>b. adj a \<inter> adj b))" by (auto simp: triangles_def)
  then show ?thesis using assms by (simp add: card_SigmaI)
qed

lemma sum_mset_list: "\<Sum>\<^sub># (image_mset f (\<Sum>x \<leftarrow> xs. g x)) = (\<Sum>x \<leftarrow> xs. \<Sum>\<^sub># (image_mset f (g x)))"
  by (induction xs) auto

lemma all_in_sum: "(\<And>x. x \<in> set xs \<Longrightarrow> \<forall>w \<in># F x. P w) \<Longrightarrow> \<forall>w \<in># (\<Sum>x \<leftarrow> xs. F x). P w"
  by (induction xs) auto

lemma word_sum_list: "(\<Sum>x \<leftarrow> xs. word_of_nat (f x)) = (word_of_nat (\<Sum>x \<leftarrow> xs. f x) :: u64)"
  by (induction xs) auto

text \<open>What triangle counting relies on in its graph.\<close>

locale triangle_graph =
  fixes graph :: "'g \<Rightarrow> ('v, 'e) tc_graph" and ok :: "'g \<Rightarrow> bool" and hosts :: "'g \<Rightarrow> nat"
  assumes vertices: "ok d \<Longrightarrow> range_ok (tg_vertices (graph d)) \<and> distinct (r_elems (tg_vertices (graph d)))"
    and edges: "ok d \<Longrightarrow> v \<in> tc_verts (graph d) \<Longrightarrow>
      range_ok (tg_edges (graph d) v) \<and> tg_getNumEdges (graph d) v = r_size (tg_edges (graph d) v)"
    and closed: "ok d \<Longrightarrow> v \<in> tc_verts (graph d) \<Longrightarrow> tc_adj (graph d) v \<subseteq> tc_verts (graph d)"
    and no_loops: "ok d \<Longrightarrow> v \<in> tc_verts (graph d) \<Longrightarrow> v \<notin> tc_adj (graph d) v"
    and tokens: "ok d \<Longrightarrow> inj_on (tg_getTokenID (graph d)) (tc_verts (graph d)) \<and>
      (\<forall>v \<in> tc_verts (graph d). sorted_wrt (<) (edge_tokens (graph d) v))"
    and home: "ok d \<Longrightarrow> v \<in> tc_verts (graph d) \<Longrightarrow> unat (node_id (place_node (tg_getLocalityVertex (graph d) v))) < hosts d"
    and small: "ok d \<Longrightarrow> (\<Sum>v \<leftarrow> r_elems (tg_vertices (graph d)). 1 + length (r_elems (tg_edges (graph d) v))) < 2 ^ 63"
begin

lemma set_edge_tokens: "set (edge_tokens (graph d) v) = tg_getTokenID (graph d) ` tc_adj (graph d) v"
  by (auto simp: edge_tokens_def tc_adj_def)

lemma common_tokens:
  assumes "ok d" "a \<in> tc_verts (graph d)" "b \<in> tc_verts (graph d)"
  shows "common (edge_tokens (graph d) a) (edge_tokens (graph d) b) = card (tc_adj (graph d) a \<inter> tc_adj (graph d) b)"
proof -
  have i: "inj_on (tg_getTokenID (graph d)) (tc_verts (graph d))" using tokens [OF assms(1)] by simp
  have "tg_getTokenID (graph d) ` tc_adj (graph d) a \<inter> tg_getTokenID (graph d) ` tc_adj (graph d) b =
      tg_getTokenID (graph d) ` (tc_adj (graph d) a \<inter> tc_adj (graph d) b)"
    using inj_on_image_Int [OF i closed [OF assms(1,2)] closed [OF assms(1,3)]] by simp
  moreover have "inj_on (tg_getTokenID (graph d)) (tc_adj (graph d) a \<inter> tc_adj (graph d) b)"
    using i closed [OF assms(1,2)] by (rule inj_on_subset [OF _ le_infI1])
  ultimately show ?thesis by (simp add: set_edge_tokens card_image)
qed

lemma edge_work:
  assumes "ok d" "v \<in> tc_verts (graph d)" "e \<in> set (r_elems (tg_edges (graph d) v))"
  shows "snd (tc_edge_work (graph d) v e) = word_of_nat (card (tc_adj (graph d) v \<inter> tc_adj (graph d) (tg_getEdgeDst (graph d) e))) \<and>
    fst (tc_edge_work (graph d) v e) < hosts d"
proof -
  have w: "tg_getEdgeDst (graph d) e \<in> tc_verts (graph d)" using closed [OF assms(1,2)] assms(3) by (auto simp: tc_adj_def)
  have s: "sorted_wrt (<) (edge_tokens (graph d) v)" "sorted_wrt (<) (edge_tokens (graph d) (tg_getEdgeDst (graph d) e))"
    using tokens [OF assms(1)] assms(2) w by simp_all
  show ?thesis
    using intersect_dag_merge_common [OF s, unfolded common_tokens [OF assms(1,2) w]] home [OF assms(1) assms(2)] home [OF assms(1) w]
    by (simp add: tc_edge_work_def tc_edge_place_def Let_def)
qed

text \<open>The sum over the edges of a vertex, which is zero when the vertex is left out for its degree.\<close>

lemma vertex_sum:
  assumes "ok d" "v \<in> tc_verts (graph d)"
  shows "(\<Sum>e \<leftarrow> r_elems (tg_edges (graph d) v). snd (tc_edge_work (graph d) v e)) =
      word_of_nat (\<Sum>b \<in> tc_adj (graph d) v. card (tc_adj (graph d) v \<inter> tc_adj (graph d) b))"
    "tg_getNumEdges (graph d) v < TC_EMBEDDING_SZ - 1 \<Longrightarrow>
      (\<Sum>b \<in> tc_adj (graph d) v. card (tc_adj (graph d) v \<inter> tc_adj (graph d) b)) = 0"
proof -
  let ?es = "r_elems (tg_edges (graph d) v)" and ?dst = "tg_getEdgeDst (graph d)" and ?A = "tc_adj (graph d)"
  have "distinct (edge_tokens (graph d) v)" using tokens [OF assms(1)] assms(2) by (simp add: strict_sorted_iff)
  then have dist: "distinct (map ?dst ?es)"
    unfolding edge_tokens_def by (auto simp: distinct_map inj_on_def)
  have "(\<Sum>e \<leftarrow> ?es. snd (tc_edge_work (graph d) v e)) = (\<Sum>e \<leftarrow> ?es. word_of_nat (card (?A v \<inter> ?A (?dst e))))"
    using edge_work [OF assms] by (simp cong: map_cong)
  also have "\<dots> = word_of_nat (\<Sum>b \<leftarrow> map ?dst ?es. card (?A v \<inter> ?A b))" by (simp add: word_sum_list comp_def)
  also have "(\<Sum>b \<leftarrow> map ?dst ?es. card (?A v \<inter> ?A b)) = (\<Sum>b \<in> ?A v. card (?A v \<inter> ?A b))"
    using sum_list_distinct_conv_sum_set [OF dist] by (simp add: tc_adj_def)
  finally show "(\<Sum>e \<leftarrow> ?es. snd (tc_edge_work (graph d) v e)) = word_of_nat (\<Sum>b \<in> ?A v. card (?A v \<inter> ?A b))" .
  assume "tg_getNumEdges (graph d) v < TC_EMBEDDING_SZ - 1"
  then have "length ?es < 2"
    using edges [OF assms] by (simp add: range_ok_def word_less_nat_alt TC_EMBEDDING_SZ_def)
  then have "card (?A v) \<le> 1" unfolding tc_adj_def using card_image_le [of "set ?es" ?dst] card_length [of ?es] by simp
  moreover have "finite (?A v)" by (simp add: tc_adj_def)
  ultimately have one: "x = y" if "x \<in> ?A v" "y \<in> ?A v" for x y
    using card_le_Suc0_iff_eq [of "?A v"] that by simp
  have "?A v \<inter> ?A b = {}" if "b \<in> ?A v" for b
  proof -
    have "?A v = {b}" using one that by blast
    moreover have "b \<notin> ?A b" using no_loops [OF assms(1)] closed [OF assms] that by blast
    ultimately show ?thesis by simp
  qed
  then show "(\<Sum>b \<in> ?A v. card (?A v \<inter> ?A b)) = 0" by simp
qed


lemma vertex_thread:
  assumes "ok d" "v \<in> tc_verts (graph d)" "\<forall>v i pl. ex v i pl = Success"
  shows "caller_ok (tc_vertex ex (graph d) v) \<and> op_total op_pend (tc_vertex ex (graph d) v) = 0 \<and>
    op_total op_signals (tc_vertex ex (graph d) v) \<le> length (r_elems (tg_edges (graph d) v)) \<and>
    \<Sum>\<^sub># (image_mset snd (op_total op_acts (tc_vertex ex (graph d) v))) =
      word_of_nat (\<Sum>b \<in> tc_adj (graph d) v. card (tc_adj (graph d) v \<inter> tc_adj (graph d) b)) \<and>
    (\<forall>w \<in># op_total op_acts (tc_vertex ex (graph d) v). fst w < hosts d)"
proof (cases "tg_getNumEdges (graph d) v < TC_EMBEDDING_SZ - 1")
  case True
  then show ?thesis using vertex_sum(2) [OF assms(1,2) True] by (simp add: tc_vertex_def)
next
  case False
  let ?es = "r_elems (tg_edges (graph d) v)"
  have e: "tc_vertex ex (graph d) v = edge_tc_counting (ex v) (graph d) v (tg_edges (graph d) v)" using False by (simp add: tc_vertex_def)
  have s: "\<Sum>\<^sub># (image_mset snd (mset (map (tc_edge_work (graph d) v) ?es))) = (\<Sum>e \<leftarrow> ?es. snd (tc_edge_work (graph d) v e))"
    by (simp add: sum_mset_sum_list [symmetric] image_mset.compositionality comp_def flip: mset_map)
  have h: "\<forall>w \<in># mset (map (tc_edge_work (graph d) v) ?es). fst w < hosts d" using edge_work [OF assms(1,2)] by auto
  have "range_ok (tg_edges (graph d) v)" using edges [OF assms(1,2)] by simp
  then show ?thesis
    using edge_tc_counting_started [of "ex v" "tg_edges (graph d) v" "graph d" v] assms(3) s h vertex_sum(1) [OF assms(1,2)]
    unfolding e by simp
qed

lemma caller_thread:
  assumes "ok d" "\<forall>i pl. ex0 i pl = Success" "\<forall>v i pl. ex v i pl = Success"
    and th_def: "th = tc_no_chunk_thread mc policy ex0 ex draw (graph d)"
  shows "caller_ok th" "op_total op_pend th = 0" "int (op_total op_signals th) < 2 ^ 63"
    "\<Sum>\<^sub># (image_mset snd (op_total op_acts th)) = word_of_nat (card (triangles (tc_verts (graph d)) (tc_adj (graph d))))"
    "\<forall>w \<in># op_total op_acts th. fst w < hosts d"
proof -
  let ?V = "r_elems (tg_vertices (graph d))" and ?A = "tc_adj (graph d)" and ?f = "tc_vertex ex (graph d)"
  note v = vertex_thread [OF assms(1) _ assms(3)]
  have L: "caller_ok th" "op_total op_pend th = 0" "op_total op_signals th = (\<Sum>v \<leftarrow> ?V. 1 + op_total op_signals (?f v))"
      "op_total op_acts th = (\<Sum>v \<leftarrow> ?V. op_total op_acts (?f v))"
    using loop_started [OF assms(2) conjunct1 [OF vertices [OF assms(1)]] _ doAll_thread, of ?f] v
    unfolding th_def tc_no_chunk_thread_def by simp_all
  show "caller_ok th" "op_total op_pend th = 0" by (fact L)+
  have "(\<Sum>v \<leftarrow> ?V. 1 + op_total op_signals (?f v)) \<le> (\<Sum>v \<leftarrow> ?V. 1 + length (r_elems (tg_edges (graph d) v)))"
    using v by (intro sum_list_mono) simp
  then have "op_total op_signals th < 2 ^ 63" unfolding L(3) using small [OF assms(1)] by (rule order.strict_trans1)
  then show "int (op_total op_signals th) < 2 ^ 63" by (rule int_less_power)
  have "\<Sum>\<^sub># (image_mset snd (op_total op_acts th)) = (\<Sum>v \<leftarrow> ?V. \<Sum>\<^sub># (image_mset snd (op_total op_acts (?f v))))"
    unfolding L(4) by (rule sum_mset_list)
  also have "\<dots> = (\<Sum>v \<leftarrow> ?V. word_of_nat (\<Sum>b \<in> ?A v. card (?A v \<inter> ?A b)))"
    by (intro arg_cong [of _ _ sum_list] map_cong refl) (use v in blast)
  also have "\<dots> = word_of_nat (\<Sum>v \<in> set ?V. \<Sum>b \<in> ?A v. card (?A v \<inter> ?A b))"
    unfolding word_sum_list by (simp only: sum_list_distinct_conv_sum_set [OF conjunct2 [OF vertices [OF assms(1)]]])
  also have "\<dots> = word_of_nat (card (triangles (set ?V) ?A))"
    by (subst card_triangles) (auto simp: tc_adj_def)
  finally show "\<Sum>\<^sub># (image_mset snd (op_total op_acts th)) = word_of_nat (card (triangles (set ?V) ?A))" .
  show "\<forall>w \<in># op_total op_acts th. fst w < hosts d" unfolding L(4) by (rule all_in_sum) (use v in blast)
qed


lemma triangles_counted:
  assumes d: "ok d" "\<forall>i pl. ex0 i pl = Success" "\<forall>v i pl. ex v i pl = Success"
    and start: "tc_no_chunk (Inr p) m acc (tc_no_chunk_thread mc policy ex0 ex draw (graph d)) = Inr (p, s0)"
    and acc: "length (localCounters acc) = hosts d"
    and run: "(tc_system p)\<^sup>*\<^sup>* s0 s"
  shows "\<exists>s'. (tc_system p)\<^sup>*\<^sup>* s s' \<and> ts_passed s'"
    "ts_passed s \<Longrightarrow> WaitGroup_result p (ts_mem s) = Success \<and>
      fst (DAccumulator_reduce (ts_data s)) =
        globalValue acc + sum_list (localCounters acc) + word_of_nat (card (triangles (tc_verts (graph d)) (tc_adj (graph d))))"
proof -
  let ?th = "tc_no_chunk_thread mc policy ex0 ex draw (graph d)"
  note th = caller_thread [OF d refl, of mc policy draw]
  obtain m' where s0: "s0 = task_sys_start ?th m' acc" "m' p = 0"
    using start by (auto simp: tc_no_chunk_def WaitGroup_initialize_def WaitGroup_getHandle_def split: sum.splits if_splits)
  have z: "sint (m' p) = 0" using s0(2) by simp
  note run' = run [unfolded s0(1)]
  show "\<exists>s'. (tc_system p)\<^sup>*\<^sup>* s s' \<and> ts_passed s'"
    using wait_group.task_sys_reachable [OF run' z th(1-3)] by (blast intro: wait_group.task_sys_reaches_pass)
  assume passed: "ts_passed s"
  obtain xs where xs: "mset xs = op_total op_acts ?th" "ts_data s = fold tc_exec xs acc"
    using wait_group.task_sys_joined(1) [OF run' z th(1-3) passed] by blast
  have "\<forall>w \<in> set xs. fst w < hosts d" using th(5) unfolding xs(1) [symmetric] by simp
  then have "\<forall>(n, x) \<in> set xs. n < length (localCounters acc)" using acc by auto
  from fold_DAccumulator_add [OF this] have f: "sum_list (localCounters (ts_data s)) = sum_list (localCounters acc) + sum_list (map snd xs)"
      "globalValue (ts_data s) = globalValue acc"
    unfolding xs(2) tc_exec_def by simp_all
  have "sum_list (map snd xs) = \<Sum>\<^sub># (image_mset snd (mset xs))" by (simp add: sum_mset_sum_list flip: mset_map)
  then have "sum_list (map snd xs) = word_of_nat (card (triangles (tc_verts (graph d)) (tc_adj (graph d))))" using th(4) xs(1) by simp
  then show "WaitGroup_result p (ts_mem s) = Success \<and> fst (DAccumulator_reduce (ts_data s)) =
      globalValue acc + sum_list (localCounters acc) + word_of_nat (card (triangles (tc_verts (graph d)) (tc_adj (graph d))))"
    using wait_group.task_sys_joined(2) [OF run' z th(1-3) passed] f by (simp add: DAccumulator_reduce_def reduce_loop_sum Let_def ac_simps)
qed

end

end
