(* ===== verification/Local_Csr.thy ===== *)
theory Local_Csr
  imports Rt_Vector Hash_Table_Props
begin

text \<open>
  The graph of one host in compressed sparse row form, \<^verbatim>\<open>galois::LCSR\<close>
  (\<^verbatim>\<open>pando-lib-galois/graphs/local_csr.hpp\<close>). A vertex of the graph is a pointer into the array of edge offsets, an
  edge a pointer into the array of half edges; a half edge holds the pointer of its destination. The two
  pointer types have elements of eight bytes. The ranges \<^verbatim>\<open>RefSpan\<close> iterate over pointers.

  The five arrays and the hash table of a graph are allocated one by one, each in its environment
  of the record \<open>csr_env\<close>, so that each allocation may fail on its own.
\<close>

subsection \<open>Pointers and ranges of pointers\<close>

definition sizeof_ptr :: u64 where "sizeof_ptr = 8"

definition ptr_diff :: "u64 \<Rightarrow> u64 \<Rightarrow> u64 \<Rightarrow> u64" where
  "ptr_diff sz x y = (x - y) div sz"

definition ptr_add :: "u64 \<Rightarrow> u64 \<Rightarrow> u64 \<Rightarrow> u64" where
  "ptr_add sz p n = p + n * sz"

text \<open>The address of an element of an array of pointer-sized elements, and the element behind an address.\<close>

definition addr_of :: "'a Array \<Rightarrow> u64 \<Rightarrow> u64" where
  "addr_of a i = ptr_add sizeof_ptr (ar_data a) i"

definition Array_end :: "'a Array \<Rightarrow> u64" where
  "Array_end a = addr_of a (ar_size a)"

definition deref :: "'a Array \<Rightarrow> u64 \<Rightarrow> 'a" where
  "deref a p = Array_get a (ptr_diff sizeof_ptr p (ar_data a))"

record RefSpan =
  rs_data :: u64
  rs_size :: u64

definition RefSpan_begin :: "RefSpan \<Rightarrow> u64" where
  "RefSpan_begin r = rs_data r"

definition RefSpan_end :: "RefSpan \<Rightarrow> u64" where
  "RefSpan_end r = ptr_add sizeof_ptr (rs_data r) (rs_size r)"

definition PtrRef_next :: "u64 \<Rightarrow> u64" where
  "PtrRef_next p = ptr_add sizeof_ptr p 1"

text \<open>The pointers a range \<^verbatim>\<open>for\<close> visits: from the begin iterator on until it equals the end iterator.\<close>

partial_function (option) visit_ptrs :: "u64 \<Rightarrow> u64 \<Rightarrow> u64 list option" where
  "visit_ptrs it e =
     (if it = e then Some []
      else Option.bind (visit_ptrs (PtrRef_next it) e) (\<lambda>ps. Some (it # ps)))"

declare visit_ptrs.simps [code]

definition RefSpan_visit :: "RefSpan \<Rightarrow> u64 list option" where
  "RefSpan_visit r = visit_ptrs (RefSpan_begin r) (RefSpan_end r)"

subsection \<open>The graph\<close>

record Vertex =
  v_edgeBegin :: u64

record HalfEdge =
  he_dst :: u64

record ('v, 'e) LCSR =
  vertexEdgeOffsets :: "Vertex Array"
  edgeDestinations :: "HalfEdge Array"
  vertexData :: "'v Array"
  edgeData :: "'e Array"
  topologyToToken :: "u64 Array"
  tokenToTopology :: "(u64, u64) HashTable"

definition LCSR_new :: "('v, 'e) LCSR" where
  "LCSR_new = \<lparr>vertexEdgeOffsets = Array_empty, edgeDestinations = Array_empty, vertexData = Array_empty,
     edgeData = Array_empty, topologyToToken = Array_empty, tokenToTopology = HashTable_new\<rparr>"

record ('v, 'e) csr_env =
  env_vertices :: "Vertex alloc_env"
  env_halfEdges :: "HalfEdge alloc_env"
  env_vdata :: "'v alloc_env"
  env_edata :: "'e alloc_env"
  env_tokens :: "u64 alloc_env"
  env_table :: "(u64, u64) Entry alloc_env"

text \<open>An operation that releases memory also returns the releases, in order.\<close>

definition LCSR_initializeTopologyMemory ::
  "('v, 'e) csr_env \<Rightarrow> u64 \<Rightarrow> u64 \<Rightarrow> Place \<Rightarrow> MemoryType \<Rightarrow> ('v, 'e) LCSR
     \<Rightarrow> Status \<times> ('v, 'e) LCSR \<times> release or_abort list" where
  "LCSR_initializeTopologyMemory env numVertices numEdges place memType g =
     (let (err, a) = Array_initialize (env_vertices env) (numVertices + 1) place memType;
          g = g\<lparr>vertexEdgeOffsets := a\<rparr>
      in if err \<noteq> Success then (err, g, [])
         else
     let (err, a) = Array_initialize (env_tokens env) numVertices place memType;
         g = g\<lparr>topologyToToken := a\<rparr>
     in if err \<noteq> Success
        then (let (r1, v) = Array_deinitialize (env_vertices env) (vertexEdgeOffsets g)
              in (err, g\<lparr>vertexEdgeOffsets := v\<rparr>, [r1]))
        else
     let (err, t) = HashTable_initialize (env_table env) numVertices place memType (tokenToTopology g);
         g = g\<lparr>tokenToTopology := t\<rparr>
     in if err \<noteq> Success
        then (let (r1, v) = Array_deinitialize (env_vertices env) (vertexEdgeOffsets g);
                  (r2, t) = Array_deinitialize (env_tokens env) (topologyToToken g)
              in (err, g\<lparr>vertexEdgeOffsets := v, topologyToToken := t\<rparr>, [r1, r2]))
        else
     let (err, a) = Array_initialize (env_halfEdges env) numEdges place memType;
         g = g\<lparr>edgeDestinations := a\<rparr>
     in if err \<noteq> Success
        then (let (r1, v) = Array_deinitialize (env_vertices env) (vertexEdgeOffsets g);
                  (r2, t) = Array_deinitialize (env_tokens env) (topologyToToken g);
                  (r3, h) = HashTable_deinitialize (env_table env) (tokenToTopology g)
              in (err, g\<lparr>vertexEdgeOffsets := v, topologyToToken := t, tokenToTopology := h\<rparr>, [r1, r2, r3]))
        else (err, g, []))"

definition LCSR_initializeDataMemory ::
  "('v, 'e) csr_env \<Rightarrow> u64 \<Rightarrow> u64 \<Rightarrow> Place \<Rightarrow> MemoryType \<Rightarrow> ('v, 'e) LCSR
     \<Rightarrow> Status \<times> ('v, 'e) LCSR \<times> release or_abort list" where
  "LCSR_initializeDataMemory env numVertices numEdges place memType g =
     (let (err, a) = Array_initialize (env_vdata env) numVertices place memType;
          g = g\<lparr>vertexData := a\<rparr>
      in if err \<noteq> Success then (err, g, [])
         else
     let (err, a) = Array_initialize (env_edata env) numEdges place memType;
         g = g\<lparr>edgeData := a\<rparr>
     in if err \<noteq> Success
        then (let (r, d) = Array_deinitialize (env_vdata env) (vertexData g) in (err, g\<lparr>vertexData := d\<rparr>, [r]))
        else (err, g, []))"

definition LCSR_deinitializeTopology ::
  "('v, 'e) csr_env \<Rightarrow> ('v, 'e) LCSR \<Rightarrow> ('v, 'e) LCSR \<times> release or_abort list" where
  "LCSR_deinitializeTopology env g =
     (let (r1, v) = Array_deinitialize (env_vertices env) (vertexEdgeOffsets g);
          (r2, e) = Array_deinitialize (env_halfEdges env) (edgeDestinations g);
          (r3, t) = Array_deinitialize (env_tokens env) (topologyToToken g);
          (r4, h) = HashTable_deinitialize (env_table env) (tokenToTopology g)
      in (g\<lparr>vertexEdgeOffsets := v, edgeDestinations := e, topologyToToken := t, tokenToTopology := h\<rparr>, [r1, r2, r3, r4]))"

definition LCSR_deinitializeData ::
  "('v, 'e) csr_env \<Rightarrow> ('v, 'e) LCSR \<Rightarrow> ('v, 'e) LCSR \<times> release or_abort list" where
  "LCSR_deinitializeData env g =
     (let (r1, e) = Array_deinitialize (env_edata env) (edgeData g);
          (r2, d) = Array_deinitialize (env_vdata env) (vertexData g)
      in (g\<lparr>edgeData := e, vertexData := d\<rparr>, [r1, r2]))"

definition LCSR_deinitialize ::
  "('v, 'e) csr_env \<Rightarrow> ('v, 'e) LCSR \<Rightarrow> ('v, 'e) LCSR \<times> release or_abort list" where
  "LCSR_deinitialize env g =
     (let (g, rs) = LCSR_deinitializeTopology env g; (g, rs') = LCSR_deinitializeData env g in (g, rs @ rs'))"

text \<open>The loops of \<^verbatim>\<open>initialize\<close>: the edge count, the edges of one vertex, and the vertices.\<close>

fun count_edges :: "u64 Vector list \<Rightarrow> u64 \<Rightarrow> u64" where
  "count_edges [] numEdges = numEdges"
| "count_edges (v # vs) numEdges = count_edges vs (numEdges + v_size v)"

fun fill_edges :: "u64 list \<Rightarrow> u64 \<Rightarrow> ('v, 'e) LCSR \<Rightarrow> u64 \<times> ('v, 'e) LCSR" where
  "fill_edges [] edgeCurr g = (edgeCurr, g)"
| "fill_edges (d # ds) edgeCurr g =
     fill_edges ds (edgeCurr + 1)
       (g\<lparr>edgeDestinations := Array_set (edgeDestinations g) edgeCurr \<lparr>he_dst = addr_of (vertexEdgeOffsets g) d\<rparr>\<rparr>)"

fun fill_vertices :: "u64 Vector list \<Rightarrow> u64 \<Rightarrow> u64 \<Rightarrow> ('v, 'e) LCSR \<Rightarrow> ('v, 'e) LCSR" where
  "fill_vertices [] vertexCurr edgeCurr g = g"
| "fill_vertices (es # ess) vertexCurr edgeCurr g =
     (let (edgeCurr', g1) = fill_edges (contents es) edgeCurr g in
      fill_vertices ess (vertexCurr + 1) edgeCurr'
        (g1\<lparr>vertexEdgeOffsets := Array_set (vertexEdgeOffsets g1) (vertexCurr + 1)
              \<lparr>v_edgeBegin = addr_of (edgeDestinations g1) edgeCurr'\<rparr>\<rparr>))"

definition LCSR_initialize ::
  "('v, 'e) csr_env \<Rightarrow> u64 Vector Vector \<Rightarrow> ('v, 'e) LCSR \<Rightarrow> Status \<times> ('v, 'e) LCSR \<times> release or_abort list" where
  "LCSR_initialize env edgeListCSR g =
     (let numEdges = count_edges (contents edgeListCSR) 0;
          place = getCurrentPlace (env_vertices env);
          (err, g, rs) = LCSR_initializeTopologyMemory env (v_size edgeListCSR) numEdges place MainMem g
      in if err \<noteq> Success then (err, g, rs)
         else
     let (err, g, rs) = LCSR_initializeDataMemory env (v_size edgeListCSR) numEdges place MainMem g
     in if err \<noteq> Success then (let (g, rs') = LCSR_deinitializeTopology env g in (err, g, rs @ rs'))
        else
     let g = g\<lparr>vertexEdgeOffsets := Array_set (vertexEdgeOffsets g) 0 \<lparr>v_edgeBegin = ar_data (edgeDestinations g)\<rparr>\<rparr>
     in (Success, fill_vertices (contents edgeListCSR) 0 0 g, []))"

subsection \<open>Graph operations\<close>

definition findIndex :: "u64 \<Rightarrow> 'a Array \<Rightarrow> u64 or_abort" where
  "findIndex locationPtr base =
     (if ar_data base \<le> locationPtr \<and> locationPtr \<le> Array_end base
      then Inr (ptr_diff sizeof_ptr locationPtr (ar_data base))
      else Inl (PANDO_ABORT ''ILLEGAL SUBTRACTION OF POINTERS''))"

definition halfEdgeBegin :: "('v, 'e) LCSR \<Rightarrow> u64 \<Rightarrow> u64" where
  "halfEdgeBegin g vertex =
     (if vertex = ar_data (vertexEdgeOffsets g) then ar_data (edgeDestinations g)
      else v_edgeBegin (deref (vertexEdgeOffsets g) vertex))"

definition halfEdgeEnd :: "('v, 'e) LCSR \<Rightarrow> u64 \<Rightarrow> u64" where
  "halfEdgeEnd g vertex = v_edgeBegin (deref (vertexEdgeOffsets g) (ptr_add sizeof_ptr vertex 1))"

definition LCSR_size :: "('v, 'e) LCSR \<Rightarrow> u64" where
  "LCSR_size g = ar_size (vertexEdgeOffsets g) - 1"

definition LCSR_sizeEdges :: "('v, 'e) LCSR \<Rightarrow> u64" where
  "LCSR_sizeEdges g = ar_size (edgeDestinations g)"

definition getNumEdges :: "('v, 'e) LCSR \<Rightarrow> u64 \<Rightarrow> u64" where
  "getNumEdges g vertex = ptr_diff sizeof_ptr (halfEdgeEnd g vertex) (halfEdgeBegin g vertex)"

text \<open>A lookup in the hash table may run forever when its table is full (\<^const>\<open>None\<close>).\<close>

definition relaxedGetTopologyID :: "(u64 \<Rightarrow> u64) \<Rightarrow> ('v, 'e) LCSR \<Rightarrow> u64 \<Rightarrow> (u64 \<times> bool) option" where
  "relaxedGetTopologyID hash g token =
     (case HashTable_get hash token (tokenToTopology g) of
        None \<Rightarrow> None
      | Some None \<Rightarrow> Some (0, False)
      | Some (Some ret) \<Rightarrow> Some (ret, True))"

definition LCSR_getTopologyID :: "(u64 \<Rightarrow> u64) \<Rightarrow> ('v, 'e) LCSR \<Rightarrow> u64 \<Rightarrow> u64 or_abort option" where
  "LCSR_getTopologyID hash g token =
     (case relaxedGetTopologyID hash g token of
        None \<Rightarrow> None
      | Some (ret, found) \<Rightarrow>
          Some (if \<not> found then Inl (PANDO_ABORT ''FAILURE TO FIND TOKENID'') else Inr ret))"

definition LCSR_getTopologyIDFromIndex :: "('v, 'e) LCSR \<Rightarrow> u64 \<Rightarrow> u64" where
  "LCSR_getTopologyIDFromIndex g index = addr_of (vertexEdgeOffsets g) index"

definition LCSR_getTokenID :: "('v, 'e) LCSR \<Rightarrow> u64 \<Rightarrow> u64 or_abort" where
  "LCSR_getTokenID g vertex =
     abort_bind (findIndex vertex (vertexEdgeOffsets g)) (\<lambda>i. Inr (Array_get (topologyToToken g) i))"

definition LCSR_getVertexIndex :: "('v, 'e) LCSR \<Rightarrow> u64 \<Rightarrow> u64 or_abort" where
  "LCSR_getVertexIndex g vertex = findIndex vertex (vertexEdgeOffsets g)"

definition mintEdgeHandle :: "('v, 'e) LCSR \<Rightarrow> u64 \<Rightarrow> u64 \<Rightarrow> u64" where
  "mintEdgeHandle g vertex off = ptr_add sizeof_ptr (halfEdgeBegin g vertex) off"

definition LCSR_getEdgeDst :: "('v, 'e) LCSR \<Rightarrow> u64 \<Rightarrow> u64" where
  "LCSR_getEdgeDst g eh = he_dst (deref (edgeDestinations g) eh)"

definition LCSR_setData :: "('v, 'e) LCSR \<Rightarrow> u64 \<Rightarrow> 'v \<Rightarrow> ('v, 'e) LCSR or_abort" where
  "LCSR_setData g vertex data =
     abort_bind (findIndex vertex (vertexEdgeOffsets g)) (\<lambda>i. Inr (g\<lparr>vertexData := Array_set (vertexData g) i data\<rparr>))"

definition LCSR_getData :: "('v, 'e) LCSR \<Rightarrow> u64 \<Rightarrow> 'v or_abort" where
  "LCSR_getData g vertex =
     abort_bind (findIndex vertex (vertexEdgeOffsets g)) (\<lambda>i. Inr (Array_get (vertexData g) i))"

definition LCSR_setEdgeData :: "('v, 'e) LCSR \<Rightarrow> u64 \<Rightarrow> 'e \<Rightarrow> ('v, 'e) LCSR or_abort" where
  "LCSR_setEdgeData g eh data =
     abort_bind (findIndex eh (edgeDestinations g)) (\<lambda>i. Inr (g\<lparr>edgeData := Array_set (edgeData g) i data\<rparr>))"

definition LCSR_getEdgeData :: "('v, 'e) LCSR \<Rightarrow> u64 \<Rightarrow> 'e or_abort" where
  "LCSR_getEdgeData g eh =
     abort_bind (findIndex eh (edgeDestinations g)) (\<lambda>i. Inr (Array_get (edgeData g) i))"

definition LCSR_vertices :: "('v, 'e) LCSR \<Rightarrow> RefSpan" where
  "LCSR_vertices g = \<lparr>rs_data = ar_data (vertexEdgeOffsets g), rs_size = ar_size (vertexEdgeOffsets g) - 1\<rparr>"

definition LCSR_vertices_window :: "('v, 'e) LCSR \<Rightarrow> u64 \<Rightarrow> u64 \<Rightarrow> RefSpan" where
  "LCSR_vertices_window g offset_st window_sz =
     (let beg = addr_of (vertexEdgeOffsets g) offset_st;
          sz = ar_size (vertexEdgeOffsets g) - 1
      in if offset_st \<ge> sz then \<lparr>rs_data = ar_data (vertexEdgeOffsets g), rs_size = 0\<rparr>
         else \<lparr>rs_data = beg, rs_size = min window_sz (ar_size (vertexEdgeOffsets g) - 1 - offset_st)\<rparr>)"

definition LCSR_edges :: "('v, 'e) LCSR \<Rightarrow> u64 \<Rightarrow> RefSpan" where
  "LCSR_edges g vPtr =
     (let v = deref (vertexEdgeOffsets g) vPtr;
          v1 = deref (vertexEdgeOffsets g) (ptr_add sizeof_ptr vPtr 1)
      in \<lparr>rs_data = v_edgeBegin v, rs_size = ptr_diff sizeof_ptr (v_edgeBegin v1) (v_edgeBegin v)\<rparr>)"

definition LCSR_edges_window :: "('v, 'e) LCSR \<Rightarrow> u64 \<Rightarrow> u64 \<Rightarrow> u64 \<Rightarrow> RefSpan" where
  "LCSR_edges_window g vPtr offset_st window_sz =
     (let v = deref (vertexEdgeOffsets g) vPtr;
          v1 = deref (vertexEdgeOffsets g) (ptr_add sizeof_ptr vPtr 1);
          beg = ptr_add sizeof_ptr (v_edgeBegin v) offset_st
      in if beg > v_edgeBegin v1 then \<lparr>rs_data = v_edgeBegin v, rs_size = 0\<rparr>
         else \<lparr>rs_data = beg, rs_size = min window_sz (ptr_diff sizeof_ptr (v_edgeBegin v1) beg)\<rparr>)"

text \<open>The data ranges are spans of the data arrays: their first element and their number of elements.\<close>

definition LCSR_vertexDataRange :: "('v, 'e) LCSR \<Rightarrow> u64 \<times> u64" where
  "LCSR_vertexDataRange g = (0, ar_size (vertexData g) - 1)"

definition LCSR_edgeDataRange :: "('v, 'e) LCSR \<Rightarrow> u64 \<Rightarrow> (u64 \<times> u64) or_abort" where
  "LCSR_edgeDataRange g vertex =
     abort_bind (findIndex (halfEdgeBegin g vertex) (edgeDestinations g)) (\<lambda>beg.
     abort_bind (findIndex (halfEdgeEnd g vertex) (edgeDestinations g)) (\<lambda>e. Inr (beg, e - beg)))"

end
