(* ===== verification/Csr_Layout.thy ===== *)
theory Csr_Layout
  imports Local_Csr
begin

text \<open>
  Pointers into the arrays of a graph of one host: on an array that lies inside the address space, the pointer of
  an element and its index determine each other, and a range visits the pointers of its elements in order.
\<close>

definition placed :: "'a Array \<Rightarrow> bool" where
  "placed a \<longleftrightarrow> Array_ok a \<and> unat (ar_data a) + unat (ar_size a) * 8 < 2 ^ 64"

abbreviation elem_ptr :: "'a Array \<Rightarrow> nat \<Rightarrow> u64" where
  "elem_ptr a i \<equiv> addr_of a (word_of_nat i)"

lemma placed_length: "placed a \<Longrightarrow> length (ar_elems a) = unat (ar_size a) \<and> length (ar_elems a) < 2 ^ 61"
  by (simp add: placed_def Array_ok_def)

lemma unat_elem_ptr:
  assumes "placed a" "i \<le> unat (ar_size a)"
  shows "unat (elem_ptr a i) = unat (ar_data a) + i * 8"
proof -
  have u: "unat (word_of_nat i :: u64) = i" using assms by (simp add: placed_def)
  have b: "unat (ar_data a) + i * 8 < 2 ^ 64" using assms unfolding placed_def by linarith
  then have "unat (word_of_nat i * 8 :: u64) = i * 8" using unat_mult_no_wrap [of "word_of_nat i" 8] u by simp
  then show ?thesis using b by (simp add: addr_of_def ptr_add_def sizeof_ptr_def unat_add_no_wrap)
qed

lemma elem_ptr_0 [simp]: "elem_ptr a 0 = ar_data a" "addr_of a 0 = ar_data a"
  by (simp_all add: addr_of_def ptr_add_def)

lemma ptr_add_elem [simp]: "ptr_add sizeof_ptr (addr_of a i) n = addr_of a (i + n)"
  by (simp add: addr_of_def ptr_add_def algebra_simps)

lemma ptr_add_Suc: "ptr_add sizeof_ptr (elem_ptr a i) 1 = elem_ptr a (Suc i)"
  by (simp add: add.commute)

lemma ptr_diff_elem:
  assumes "placed a" "j \<le> i" "i \<le> unat (ar_size a)"
  shows "ptr_diff sizeof_ptr (elem_ptr a i) (elem_ptr a j) = word_of_nat (i - j)"
proof -
  have "unat (elem_ptr a i - elem_ptr a j) = (i - j) * 8"
    using assms by (simp add: unat_sub_no_wrap unat_elem_ptr diff_mult_distrib)
  then have "unat (ptr_diff sizeof_ptr (elem_ptr a i) (elem_ptr a j)) = i - j"
    by (simp add: ptr_diff_def sizeof_ptr_def unat_div)
  then show ?thesis by (rule word_of_nat_eqI)
qed

lemma elem_ptr_inject:
  assumes "placed a" "i \<le> unat (ar_size a)" "j \<le> unat (ar_size a)"
  shows "elem_ptr a i = elem_ptr a j \<longleftrightarrow> i = j"
  using unat_elem_ptr [OF assms(1,2)] unat_elem_ptr [OF assms(1,3)] by (auto simp: u64_eq_iff_unat)

lemma unat_Array_end: "placed a \<Longrightarrow> unat (Array_end a) = unat (ar_data a) + unat (ar_size a) * 8"
  using unat_elem_ptr [of a "unat (ar_size a)"] by (simp add: Array_end_def)

lemma findIndex_elem:
  assumes "placed a" "i \<le> unat (ar_size a)"
  shows "findIndex (elem_ptr a i) a = Inr (word_of_nat i)"
proof -
  have "unat (Array_end a) = unat (ar_data a) + unat (ar_size a) * 8" by (rule unat_Array_end [OF assms(1)])
  then have "ar_data a \<le> elem_ptr a i" "elem_ptr a i \<le> Array_end a"
    using assms by (simp_all add: word_le_nat_alt unat_elem_ptr)
  then show ?thesis using ptr_diff_elem [OF assms(1) _ assms(2), of 0] by (simp add: findIndex_def)
qed

lemma findIndex_outside:
  assumes "placed a" "unat p < unat (ar_data a) \<or> unat (ar_data a) + unat (ar_size a) * 8 < unat p"
  shows "findIndex p a = Inl (PANDO_ABORT ''ILLEGAL SUBTRACTION OF POINTERS'')"
  using assms(2) unat_Array_end [OF assms(1)] by (auto simp: findIndex_def word_le_nat_alt)

lemma Array_get_nat: "n < 2 ^ 64 \<Longrightarrow> Array_get a (word_of_nat n) = ar_elems a ! n"
  by (simp add: Array_get_def)

lemma deref_elem:
  assumes "placed a" "i \<le> unat (ar_size a)"
  shows "deref a (elem_ptr a i) = ar_elems a ! i"
proof -
  have "i < 2 ^ 64" using assms by (simp add: placed_def)
  then show ?thesis using ptr_diff_elem [OF assms(1) _ assms(2), of 0] by (simp add: deref_def Array_get_nat)
qed

lemma visit_ptrs_elems:
  assumes a: "placed a" and i: "i \<le> j" "j \<le> unat (ar_size a)"
  shows "visit_ptrs (elem_ptr a i) (elem_ptr a j) = Some (map (elem_ptr a) [i..<j])"
  using i
proof (induction rule: inc_induct)
  case base
  then show ?case by (subst visit_ptrs.simps) simp
next
  case (step n)
  have "elem_ptr a n \<noteq> elem_ptr a j" using elem_ptr_inject [OF a, of n j] step i(2) by simp
  then show ?case
    using step by (subst visit_ptrs.simps) (simp add: PtrRef_next_def add.commute upt_conv_Cons)
qed

lemma RefSpan_visit_elems:
  assumes "placed a" "i + n \<le> unat (ar_size a)"
  shows "RefSpan_visit \<lparr>rs_data = elem_ptr a i, rs_size = word_of_nat n\<rparr> = Some (map (elem_ptr a) [i..<i + n])"
  using visit_ptrs_elems [OF assms(1) _ assms(2), of i]
  by (simp add: RefSpan_visit_def RefSpan_begin_def RefSpan_end_def)

subsection \<open>Well-formed graphs\<close>

text \<open>
  The offset of the first edge of a vertex; the offsets start at 0, never decrease and end at the number of
  edges, and the data arrays have an element for each vertex and each edge.
\<close>

definition num_vertices :: "('v, 'e) LCSR \<Rightarrow> nat" where
  "num_vertices g = length (ar_elems (vertexEdgeOffsets g)) - 1"

definition edge_offset :: "('v, 'e) LCSR \<Rightarrow> nat \<Rightarrow> nat" where
  "edge_offset g i =
     unat (ptr_diff sizeof_ptr (v_edgeBegin (ar_elems (vertexEdgeOffsets g) ! i)) (ar_data (edgeDestinations g)))"

definition offsets_ok :: "('v, 'e) LCSR \<Rightarrow> bool" where
  "offsets_ok g \<longleftrightarrow>
     (\<forall>i \<le> num_vertices g. edge_offset g i \<le> length (ar_elems (edgeDestinations g)) \<and>
        v_edgeBegin (ar_elems (vertexEdgeOffsets g) ! i) = elem_ptr (edgeDestinations g) (edge_offset g i)) \<and>
     (\<forall>i < num_vertices g. edge_offset g i \<le> edge_offset g (Suc i)) \<and>
     edge_offset g 0 = 0 \<and> edge_offset g (num_vertices g) = length (ar_elems (edgeDestinations g))"

definition csr_ok :: "('v, 'e) LCSR \<Rightarrow> bool" where
  "csr_ok g \<longleftrightarrow> placed (vertexEdgeOffsets g) \<and> placed (edgeDestinations g) \<and> Array_ok (vertexData g) \<and>
     Array_ok (edgeData g) \<and> Array_ok (topologyToToken g) \<and> ar_elems (vertexEdgeOffsets g) \<noteq> [] \<and>
     length (ar_elems (vertexData g)) = num_vertices g \<and>
     length (ar_elems (topologyToToken g)) = num_vertices g \<and>
     length (ar_elems (edgeData g)) = length (ar_elems (edgeDestinations g)) \<and> offsets_ok g"

abbreviation vertex_ptr :: "('v, 'e) LCSR \<Rightarrow> nat \<Rightarrow> u64" where
  "vertex_ptr g i \<equiv> elem_ptr (vertexEdgeOffsets g) i"

abbreviation edge_ptr :: "('v, 'e) LCSR \<Rightarrow> nat \<Rightarrow> u64" where
  "edge_ptr g k \<equiv> elem_ptr (edgeDestinations g) k"

text \<open>The destinations of the edges of the vertex with index \<open>i\<close>.\<close>

definition out_edges :: "('v, 'e) LCSR \<Rightarrow> nat \<Rightarrow> u64 list" where
  "out_edges g i = map he_dst (segment (edge_offset g i) (edge_offset g (Suc i)) (ar_elems (edgeDestinations g)))"

lemma csr_ok_size:
  assumes "csr_ok g"
  shows "unat (ar_size (vertexEdgeOffsets g)) = Suc (num_vertices g)" "unat (LCSR_size g) = num_vertices g"
    "num_vertices g < 2 ^ 61" "length (ar_elems (edgeDestinations g)) < 2 ^ 61"
    "unat (ar_size (edgeDestinations g)) = length (ar_elems (edgeDestinations g))"
proof -
  note l = placed_length [of "vertexEdgeOffsets g"] placed_length [of "edgeDestinations g"]
  show n: "unat (ar_size (vertexEdgeOffsets g)) = Suc (num_vertices g)" "num_vertices g < 2 ^ 61"
    "length (ar_elems (edgeDestinations g)) < 2 ^ 61" "unat (ar_size (edgeDestinations g)) = length (ar_elems (edgeDestinations g))"
    using assms l by (auto simp: csr_ok_def num_vertices_def simp flip: length_greater_0_conv)
  have "ar_size (vertexEdgeOffsets g) \<noteq> 0" using n(1) by auto
  then show "unat (LCSR_size g) = num_vertices g" using n(1) by (simp add: LCSR_size_def unat_minus_one_u64)
qed

lemma edge_offset_le:
  assumes "csr_ok g" "i \<le> j" "j \<le> num_vertices g"
  shows "edge_offset g i \<le> edge_offset g j"
  using assms(2,3)
proof (induction rule: dec_induct)
  case (step n)
  then show ?case using assms(1) by (auto simp: csr_ok_def offsets_ok_def intro: order_trans)
qed simp

lemma vertex_at:
  assumes "csr_ok g" "i \<le> num_vertices g"
  shows "deref (vertexEdgeOffsets g) (vertex_ptr g i) = \<lparr>v_edgeBegin = edge_ptr g (edge_offset g i)\<rparr>"
proof -
  have "deref (vertexEdgeOffsets g) (vertex_ptr g i) = ar_elems (vertexEdgeOffsets g) ! i"
    using assms csr_ok_size [OF assms(1)] by (intro deref_elem) (auto simp: csr_ok_def)
  moreover have "v_edgeBegin (ar_elems (vertexEdgeOffsets g) ! i) = edge_ptr g (edge_offset g i)"
    using assms by (simp add: csr_ok_def offsets_ok_def)
  ultimately show ?thesis by simp
qed

lemma vertex_index:
  assumes "csr_ok g" "i \<le> num_vertices g"
  shows "findIndex (vertex_ptr g i) (vertexEdgeOffsets g) = Inr (word_of_nat i)"
  using assms csr_ok_size(1) [OF assms(1)] by (intro findIndex_elem) (auto simp: csr_ok_def)

lemma edge_range:
  assumes g: "csr_ok g" and i: "i < num_vertices g"
  shows "LCSR_edges g (vertex_ptr g i) =
    \<lparr>rs_data = edge_ptr g (edge_offset g i), rs_size = word_of_nat (edge_offset g (Suc i) - edge_offset g i)\<rparr>"
proof -
  have "edge_offset g i \<le> edge_offset g (Suc i)" using edge_offset_le [OF g, of i "Suc i"] i by simp
  moreover have "edge_offset g (Suc i) \<le> unat (ar_size (edgeDestinations g))"
    using g i csr_ok_size(5) [OF g] by (simp add: csr_ok_def offsets_ok_def)
  moreover have "placed (edgeDestinations g)" using g by (simp add: csr_ok_def)
  ultimately have "ptr_diff sizeof_ptr (edge_ptr g (edge_offset g (Suc i))) (edge_ptr g (edge_offset g i)) =
      word_of_nat (edge_offset g (Suc i) - edge_offset g i)" by (intro ptr_diff_elem)
  then show ?thesis
    using vertex_at [OF g, of i] vertex_at [OF g, of "Suc i"] i
    by (simp add: LCSR_edges_def Let_def del: ptr_add_elem add: ptr_add_Suc)
qed

lemma edges_visited:
  assumes g: "csr_ok g" and i: "i < num_vertices g"
  shows "RefSpan_visit (LCSR_edges g (vertex_ptr g i)) = Some (map (edge_ptr g) [edge_offset g i..<edge_offset g (Suc i)])"
    "map (LCSR_getEdgeDst g \<circ> edge_ptr g) [edge_offset g i..<edge_offset g (Suc i)] = out_edges g i"
proof -
  have le: "edge_offset g i \<le> edge_offset g (Suc i)" using edge_offset_le [OF g, of i "Suc i"] i by simp
  have sz: "edge_offset g (Suc i) \<le> unat (ar_size (edgeDestinations g))"
    using g i csr_ok_size(5) [OF g] by (simp add: csr_ok_def offsets_ok_def)
  have p: "placed (edgeDestinations g)" using g by (simp add: csr_ok_def)
  show "RefSpan_visit (LCSR_edges g (vertex_ptr g i)) = Some (map (edge_ptr g) [edge_offset g i..<edge_offset g (Suc i)])"
    using RefSpan_visit_elems [OF p, of "edge_offset g i" "edge_offset g (Suc i) - edge_offset g i"] le sz
    by (simp add: edge_range [OF g i])
  have "LCSR_getEdgeDst g (edge_ptr g k) = he_dst (ar_elems (edgeDestinations g) ! k)"
    if "k < edge_offset g (Suc i)" for k
    using deref_elem [OF p, of k] that sz by (simp add: LCSR_getEdgeDst_def)
  moreover have "segment (edge_offset g i) (edge_offset g (Suc i)) (ar_elems (edgeDestinations g)) =
      map ((!) (ar_elems (edgeDestinations g))) [edge_offset g i..<edge_offset g (Suc i)]"
    using le sz csr_ok_size(5) [OF g] by (intro nth_equalityI) (simp_all add: segment_def)
  ultimately show "map (LCSR_getEdgeDst g \<circ> edge_ptr g) [edge_offset g i..<edge_offset g (Suc i)] = out_edges g i"
    by (simp add: out_edges_def)
qed

lemma length_out_edges:
  assumes "csr_ok g" "i < num_vertices g"
  shows "length (out_edges g i) = edge_offset g (Suc i) - edge_offset g i"
  using edges_visited(2) [OF assms] by (metis length_map length_upt)

end
