(* ===== verification/Csr_Props.thy ===== *)
theory Csr_Props
  imports "HOL-Library.Multiset" Csr_Layout
begin

text \<open>
  The graph of one host: building it from adjacency lists, and the laws of its operations.
\<close>

subsection \<open>Operations on well-formed graphs\<close>

lemma LCSR_getVertexIndex_ptr: "csr_ok g \<Longrightarrow> i \<le> num_vertices g \<Longrightarrow> LCSR_getVertexIndex g (vertex_ptr g i) = Inr (word_of_nat i)"
  by (simp add: LCSR_getVertexIndex_def vertex_index)

lemma LCSR_getTokenID_ptr:
  "csr_ok g \<Longrightarrow> i \<le> num_vertices g \<Longrightarrow> LCSR_getTokenID g (vertex_ptr g i) = Inr (ar_elems (topologyToToken g) ! i)"
  using csr_ok_size(3) [of g] by (simp add: LCSR_getTokenID_def vertex_index Array_get_nat)

lemma LCSR_getData_ptr:
  "csr_ok g \<Longrightarrow> i \<le> num_vertices g \<Longrightarrow> LCSR_getData g (vertex_ptr g i) = Inr (ar_elems (vertexData g) ! i)"
  using csr_ok_size(3) [of g] by (simp add: LCSR_getData_def vertex_index Array_get_nat)

lemma LCSR_setData_ptr:
  "csr_ok g \<Longrightarrow> i \<le> num_vertices g \<Longrightarrow>
    LCSR_setData g (vertex_ptr g i) x = Inr (g\<lparr>vertexData := (vertexData g)\<lparr>ar_elems := (ar_elems (vertexData g))[i := x]\<rparr>\<rparr>)"
  using csr_ok_size(3) [of g] by (simp add: LCSR_setData_def vertex_index Array_set_def)

lemma csr_ok_vertexData:
  assumes "csr_ok g"
  shows "csr_ok (g\<lparr>vertexData := (vertexData g)\<lparr>ar_elems := (ar_elems (vertexData g))[i := x]\<rparr>\<rparr>)"
    "num_vertices (g\<lparr>vertexData := d\<rparr>) = num_vertices g" "out_edges (g\<lparr>vertexData := d\<rparr>) = out_edges g"
  using assms by (simp_all add: csr_ok_def num_vertices_def offsets_ok_def edge_offset_def Array_ok_def out_edges_def fun_eq_iff)

lemma edge_index:
  assumes "csr_ok g" "k \<le> length (ar_elems (edgeDestinations g))"
  shows "findIndex (edge_ptr g k) (edgeDestinations g) = Inr (word_of_nat k)"
  using assms csr_ok_size(5) [OF assms(1)] by (intro findIndex_elem) (auto simp: csr_ok_def)

lemma LCSR_getEdgeData_ptr:
  assumes "csr_ok g" "k < length (ar_elems (edgeDestinations g))"
  shows "LCSR_getEdgeData g (edge_ptr g k) = Inr (ar_elems (edgeData g) ! k)"
  using assms csr_ok_size(4) [OF assms(1)] by (simp add: LCSR_getEdgeData_def edge_index Array_get_nat)

lemma LCSR_setEdgeData_ptr:
  assumes "csr_ok g" "k < length (ar_elems (edgeDestinations g))"
  shows "LCSR_setEdgeData g (edge_ptr g k) x = Inr (g\<lparr>edgeData := (edgeData g)\<lparr>ar_elems := (ar_elems (edgeData g))[k := x]\<rparr>\<rparr>)"
  using assms csr_ok_size(4) [OF assms(1)] by (simp add: LCSR_setEdgeData_def edge_index Array_set_def)

lemma csr_ok_edgeData:
  assumes "csr_ok g"
  shows "csr_ok (g\<lparr>edgeData := (edgeData g)\<lparr>ar_elems := (ar_elems (edgeData g))[i := x]\<rparr>\<rparr>)"
    "num_vertices (g\<lparr>edgeData := d\<rparr>) = num_vertices g" "out_edges (g\<lparr>edgeData := d\<rparr>) = out_edges g"
  using assms by (simp_all add: csr_ok_def num_vertices_def offsets_ok_def edge_offset_def Array_ok_def out_edges_def fun_eq_iff)

lemma vertices_visited:
  assumes "csr_ok g"
  shows "RefSpan_visit (LCSR_vertices g) = Some (map (vertex_ptr g) [0..<num_vertices g])"
proof -
  have "LCSR_vertices g = \<lparr>rs_data = vertex_ptr g 0, rs_size = word_of_nat (num_vertices g)\<rparr>"
    using csr_ok_size(2,3) [OF assms] by (simp add: LCSR_vertices_def LCSR_size_def u64_eq_iff_unat)
  then show ?thesis
    using RefSpan_visit_elems [of "vertexEdgeOffsets g" 0 "num_vertices g"] assms csr_ok_size(1) [OF assms]
    by (simp add: csr_ok_def)
qed

text \<open>The first and the last edge pointer of a vertex; the special case for the first vertex changes nothing.\<close>

lemma halfEdgeBegin_ptr:
  assumes "csr_ok g" "i \<le> num_vertices g"
  shows "halfEdgeBegin g (vertex_ptr g i) = edge_ptr g (edge_offset g i)"
proof -
  have "vertex_ptr g i = ar_data (vertexEdgeOffsets g) \<longleftrightarrow> i = 0"
    using elem_ptr_inject [of "vertexEdgeOffsets g" i 0] assms csr_ok_size(1) [OF assms(1)] by (simp add: csr_ok_def)
  moreover have "edge_offset g 0 = 0" using assms by (simp add: csr_ok_def offsets_ok_def)
  ultimately show ?thesis using vertex_at [OF assms] by (auto simp: halfEdgeBegin_def)
qed

lemma halfEdgeEnd_ptr:
  assumes "csr_ok g" "i < num_vertices g"
  shows "halfEdgeEnd g (vertex_ptr g i) = edge_ptr g (edge_offset g (Suc i))"
  using vertex_at [OF assms(1), of "Suc i"] assms(2)
  by (simp add: halfEdgeEnd_def ptr_add_Suc del: ptr_add_elem)

lemma edge_offset_bounds:
  assumes "csr_ok g" "i < num_vertices g"
  shows "edge_offset g i \<le> edge_offset g (Suc i)" "edge_offset g (Suc i) \<le> length (ar_elems (edgeDestinations g))"
    "edge_offset g (Suc i) < 2 ^ 61"
proof -
  show "edge_offset g i \<le> edge_offset g (Suc i)" using edge_offset_le [OF assms(1), of i "Suc i"] assms by simp
  show "edge_offset g (Suc i) \<le> length (ar_elems (edgeDestinations g))"
    using assms by (simp add: csr_ok_def offsets_ok_def)
  also have "\<dots> < 2 ^ 61" by (rule csr_ok_size(4) [OF assms(1)])
  finally show "edge_offset g (Suc i) < 2 ^ 61" .
qed

lemma getNumEdges_ptr:
  assumes "csr_ok g" "i < num_vertices g"
  shows "unat (getNumEdges g (vertex_ptr g i)) = length (out_edges g i)"
proof -
  note b = edge_offset_bounds [OF assms]
  have "getNumEdges g (vertex_ptr g i) = word_of_nat (edge_offset g (Suc i) - edge_offset g i)"
    using halfEdgeBegin_ptr [of g i] halfEdgeEnd_ptr [OF assms] assms b csr_ok_size(5) [OF assms(1)]
      ptr_diff_elem [of "edgeDestinations g" "edge_offset g i" "edge_offset g (Suc i)"]
    by (simp add: getNumEdges_def csr_ok_def)
  moreover have "unat (word_of_nat (edge_offset g (Suc i) - edge_offset g i) :: u64) = edge_offset g (Suc i) - edge_offset g i"
    using b(3) by simp
  ultimately show ?thesis using length_out_edges [OF assms] by metis
qed

lemma mintEdgeHandle_ptr:
  assumes "csr_ok g" "i < num_vertices g" "k < length (out_edges g i)"
  shows "LCSR_getEdgeDst g (mintEdgeHandle g (vertex_ptr g i) (word_of_nat k)) = out_edges g i ! k"
proof -
  have "mintEdgeHandle g (vertex_ptr g i) (word_of_nat k) = edge_ptr g (edge_offset g i + k)"
    using halfEdgeBegin_ptr [of g i] assms by (simp add: mintEdgeHandle_def)
  moreover have "out_edges g i ! k = LCSR_getEdgeDst g (edge_ptr g (edge_offset g i + k))"
    using assms(3) edges_visited(2) [OF assms(1,2), symmetric] by simp
  ultimately show ?thesis by simp
qed

lemma edgeDataRange_ptr:
  assumes "csr_ok g" "i < num_vertices g"
  shows "LCSR_edgeDataRange g (vertex_ptr g i) = Inr (word_of_nat (edge_offset g i), word_of_nat (length (out_edges g i)))"
proof -
  note b = edge_offset_bounds [OF assms]
  have "edge_offset g i \<le> length (ar_elems (edgeDestinations g))" using b by simp
  then show ?thesis
    using edge_index [OF assms(1)] b halfEdgeBegin_ptr [of g i] halfEdgeEnd_ptr [OF assms] assms
    by (simp add: LCSR_edgeDataRange_def length_out_edges of_nat_diff)
qed

subsection \<open>Building a graph\<close>

text \<open>
  What the code relies on in the allocator: a block lies inside the address space, as far as its size can be
  computed in 64 bits, and the error of a failed allocation is not \<^verbatim>\<open>Success\<close>.
\<close>

definition in_space :: "'a alloc_env \<Rightarrow> bool" where
  "in_space env \<longleftrightarrow> (\<forall>n place mt p. unat n * unat (sizeof_T env) < 2 ^ 64 \<longrightarrow>
     allocateMemory env n place mt = Inr p \<longrightarrow> unat p + unat n * unat (sizeof_T env) < 2 ^ 64)"

definition csr_env_ok :: "('v, 'e) csr_env \<Rightarrow> bool" where
  "csr_env_ok env \<longleftrightarrow> env_ok (env_vertices env) \<and> env_ok (env_halfEdges env) \<and> env_ok (env_vdata env) \<and>
     env_ok (env_edata env) \<and> env_ok (env_tokens env) \<and> env_ok (env_table env) \<and>
     sizeof_T (env_vertices env) = sizeof_ptr \<and> sizeof_T (env_halfEdges env) = sizeof_ptr \<and>
     in_space (env_vertices env) \<and> in_space (env_halfEdges env)"

lemma Array_initialize_Success:
  assumes "Array_initialize env n place mt = (Success, a)" "env_ok env"
  shows "Array_ok a" "ar_size a = n" "length (ar_elems a) = unat n" "n \<noteq> 0 \<longrightarrow> allocateMemory env n place mt = Inr (ar_data a)"
proof -
  show "Array_ok a" using Array_initialize_ok [of env n place mt] assms(1) by simp
  moreover show "ar_size a = n" "n \<noteq> 0 \<longrightarrow> allocateMemory env n place mt = Inr (ar_data a)"
    using assms allocateMemory_not_Success [OF assms(2), of n place mt] by (auto simp: Array_initialize_def split: if_splits sum.splits)
  ultimately show "length (ar_elems a) = unat n" by (simp add: Array_ok_def)
qed

lemma Array_initialize_placed:
  assumes "Array_initialize env n place mt = (Success, a)" "env_ok env" "in_space env" "sizeof_T env = sizeof_ptr"
    and "unat n < 2 ^ 60"
  shows "placed a"
proof (cases "n = 0")
  case True
  then show ?thesis using assms(1) by (auto simp: Array_initialize_def placed_def Array_ok_def)
next
  case False
  note a = Array_initialize_Success [OF assms(1,2)]
  have "unat n * unat (sizeof_T env) < 2 ^ 64" using assms(4,5) by (simp add: sizeof_ptr_def)
  then have "unat (ar_data a) + unat n * unat (sizeof_T env) < 2 ^ 64"
    using assms(3) a(4) False unfolding in_space_def by blast
  then show ?thesis using a assms(4) by (simp add: placed_def sizeof_ptr_def)
qed

text \<open>
  The blocks that \<^verbatim>\<open>initialize\<close> acquires, pointer and bytes, allocation by allocation in the order of the code, and those that
  a list of releases gives back. An allocation of the calling place returns main memory of its node.
\<close>

definition acquired :: "'a alloc_env \<Rightarrow> u64 \<Rightarrow> Place \<Rightarrow> Status \<times> (u64 \<times> u64) list" where
  "acquired env n place =
     (if n = 0 then (Success, [])
      else case allocateMemory env n place MainMem of Inl e \<Rightarrow> (e, []) | Inr p \<Rightarrow> (Success, [(p, n * sizeof_T env)]))"

definition table_capacity :: "u64 \<Rightarrow> u64" where
  "table_capacity cap = (let cap1 = (if cap < 8 \<and> cap \<noteq> 0 then 8 else cap) in if cap1 AND (cap1 - 1) = 0 then cap1 else up2 cap1)"

definition csr_allocations :: "('v, 'e) csr_env \<Rightarrow> u64 \<Rightarrow> u64 \<Rightarrow> Place \<Rightarrow> (Status \<times> (u64 \<times> u64) list) list" where
  "csr_allocations env n m place =
     [acquired (env_vertices env) (n + 1) place, acquired (env_tokens env) n place,
      acquired (env_table env) (table_capacity n) place, acquired (env_halfEdges env) m place,
      acquired (env_vdata env) n place, acquired (env_edata env) m place]"

definition before_failure :: "(Status \<times> (u64 \<times> u64) list) list \<Rightarrow> (u64 \<times> u64) list" where
  "before_failure as = concat (map snd (takeWhile (\<lambda>a. fst a = Success) as))"

fun released_block :: "release or_abort \<Rightarrow> (u64 \<times> u64) list" where
  "released_block (Inr (ReleaseHere p b)) = [(p, b)]"
| "released_block (Inr (ReleaseAt place p b)) = [(p, b)]"
| "released_block (Inr NoRelease) = []"
| "released_block (Inl e) = []"

definition released_blocks :: "release or_abort list \<Rightarrow> (u64 \<times> u64) list" where
  "released_blocks rs = concat (map released_block rs)"

definition no_arrays :: "('v, 'e) LCSR \<Rightarrow> bool" where
  "no_arrays g \<longleftrightarrow> ar_data (vertexEdgeOffsets g) = 0 \<and> ar_data (edgeDestinations g) = 0 \<and> ar_data (vertexData g) = 0 \<and>
     ar_data (edgeData g) = 0 \<and> ar_data (topologyToToken g) = 0 \<and> ar_data (h_buffer (tokenToTopology g)) = 0"

definition main_local :: "Place \<Rightarrow> 'a alloc_env \<Rightarrow> bool" where
  "main_local place env \<longleftrightarrow> getCurrentPlace env = place \<and>
     (\<forall>b. allocateMemoryImpl env b MainMem \<noteq> 0 \<longrightarrow> memoryTypeOf (allocateMemoryImpl env b MainMem) = MainMem \<and>
        extractNodeIndex (allocateMemoryImpl env b MainMem) = place_node place)"

definition csr_main_local :: "Place \<Rightarrow> ('v, 'e) csr_env \<Rightarrow> bool" where
  "csr_main_local place env \<longleftrightarrow> main_local place (env_vertices env) \<and> main_local place (env_halfEdges env) \<and>
     main_local place (env_vdata env) \<and> main_local place (env_edata env) \<and> main_local place (env_tokens env) \<and>
     main_local place (env_table env)"

text \<open>An array that was initialized gives back what it acquired, one that was not holds nothing.\<close>

lemma array_gives_back:
  assumes "main_local place env" "Array_initialize env n place MainMem = (st, a)"
  shows "fst (acquired env n place) = st" "st \<noteq> Success \<Longrightarrow> ar_data a = 0"
    "st = Success \<Longrightarrow> \<not> isl (deallocateMemory env (ar_data a) (ar_size a))"
    "st = Success \<Longrightarrow> released_block (deallocateMemory env (ar_data a) (ar_size a)) = snd (acquired env n place)"
proof -
  have al: "allocateMemory env n place MainMem =
      (let p = allocateMemoryImpl env (n * sizeof_T env) MainMem in if p = 0 then Inl BadAlloc else Inr p)"
    using assms(1) by (simp add: allocateMemory_def null_is_BadAlloc_def main_local_def Let_def)
  show "fst (acquired env n place) = st" "st \<noteq> Success \<Longrightarrow> ar_data a = 0"
    using assms(2) by (auto simp: acquired_def Array_initialize_def split: if_splits sum.splits)
  have null: "deallocateMemory env 0 k = Inr NoRelease" for k by (simp add: deallocateMemory_def)
  have "deallocateMemory env p k = Inr (ReleaseHere p (k * sizeof_T env))"
    if "p = allocateMemoryImpl env b MainMem" "p \<noteq> 0" for p k b
    using that assms(1) by (simp add: deallocateMemory_def localityOf_def main_local_def memoryTypeOf_def Let_def)
  then show "st = Success \<Longrightarrow> \<not> isl (deallocateMemory env (ar_data a) (ar_size a))"
    "st = Success \<Longrightarrow> released_block (deallocateMemory env (ar_data a) (ar_size a)) = snd (acquired env n place)"
    using assms(2) null by (auto simp: acquired_def Array_initialize_def al Let_def split: if_splits)
qed

lemma table_gives_back:
  assumes "main_local place env" "HashTable_initialize env n place MainMem t = (st, t')"
  shows "fst (acquired env (table_capacity n) place) = st" "st \<noteq> Success \<Longrightarrow> ar_data (h_buffer t') = 0"
    "st = Success \<Longrightarrow> \<not> isl (deallocateMemory env (ar_data (h_buffer t')) (ar_size (h_buffer t')))"
    "st = Success \<Longrightarrow>
      released_block (deallocateMemory env (ar_data (h_buffer t')) (ar_size (h_buffer t'))) = snd (acquired env (table_capacity n) place)"
proof -
  obtain st' a where a: "Array_initialize env (table_capacity n) place MainMem = (st', a)" by fastforce
  then have t: "st' = st" "h_buffer t' = (if st = Success then Array_fill a Entry_new else a)"
    using assms(2) by (auto simp: HashTable_initialize_def table_capacity_def Let_def split: prod.splits)
  have "Array_ok a" using Array_initialize_ok [of env "table_capacity n" place MainMem] a by simp
  then have f: "ar_data (Array_fill a Entry_new) = ar_data a" "ar_size (Array_fill a Entry_new) = ar_size a"
    by (simp_all add: Array_fill_elems Array_ok_def)
  note g = array_gives_back [OF assms(1) a]
  show "fst (acquired env (table_capacity n) place) = st" "st \<noteq> Success \<Longrightarrow> ar_data (h_buffer t') = 0"
    "st = Success \<Longrightarrow> \<not> isl (deallocateMemory env (ar_data (h_buffer t')) (ar_size (h_buffer t')))"
    "st = Success \<Longrightarrow>
      released_block (deallocateMemory env (ar_data (h_buffer t')) (ar_size (h_buffer t'))) = snd (acquired env (table_capacity n) place)"
    using g t f by simp_all
qed

lemma initializeTopologyMemory_Success:
  assumes "LCSR_initializeTopologyMemory env n m place mt g = (Success, g', rs)"
  shows "Array_initialize (env_vertices env) (n + 1) place mt = (Success, vertexEdgeOffsets g')"
    "Array_initialize (env_tokens env) n place mt = (Success, topologyToToken g')"
    "HashTable_initialize (env_table env) n place mt (tokenToTopology g) = (Success, tokenToTopology g')"
    "Array_initialize (env_halfEdges env) m place mt = (Success, edgeDestinations g')"
  using assms unfolding LCSR_initializeTopologyMemory_def Let_def by (auto split: prod.splits if_splits)

lemma initializeDataMemory_Success:
  assumes "LCSR_initializeDataMemory env n m place mt g = (Success, g', rs)"
  shows "Array_initialize (env_vdata env) n place mt = (Success, vertexData g')"
    "Array_initialize (env_edata env) m place mt = (Success, edgeData g')"
    "vertexEdgeOffsets g' = vertexEdgeOffsets g" "edgeDestinations g' = edgeDestinations g"
    "topologyToToken g' = topologyToToken g" "tokenToTopology g' = tokenToTopology g"
  using assms unfolding LCSR_initializeDataMemory_def Let_def by (auto split: prod.splits if_splits)

lemma count_edges_length:
  assumes "\<forall>v \<in> set vs. Vector_ok v"
  shows "count_edges vs n = n + word_of_nat (length (concat (map contents vs)))"
  using assms
proof (induction vs arbitrary: n)
  case (Cons v vs)
  then have "word_of_nat (length (contents v)) = v_size v" by (simp add: length_contents)
  then show ?case using Cons by (simp add: algebra_simps)
qed simp

lemma fill_edges_overwrite:
  assumes "unat e + length ds \<le> length (ar_elems (edgeDestinations g))" "Array_ok (edgeDestinations g)"
  shows "fill_edges ds e g = (e + word_of_nat (length ds), g\<lparr>edgeDestinations := (edgeDestinations g)\<lparr>ar_elems :=
    overwrite (ar_elems (edgeDestinations g)) (unat e) (map (\<lambda>d. \<lparr>he_dst = addr_of (vertexEdgeOffsets g) d\<rparr>) ds)\<rparr>\<rparr>)"
  using assms
proof (induction ds arbitrary: e g)
  case (Cons d ds)
  have "e < ar_size (edgeDestinations g)" using Cons.prems by (simp add: Array_ok_def word_less_nat_alt)
  then have e: "unat (e + 1) = Suc (unat e)" by (rule unat_plus_one)
  let ?g = "g\<lparr>edgeDestinations := Array_set (edgeDestinations g) e \<lparr>he_dst = addr_of (vertexEdgeOffsets g) d\<rparr>\<rparr>"
  have "unat (e + 1) + length ds \<le> length (ar_elems (edgeDestinations ?g))"
    using Cons.prems e by (simp add: Array_set_def)
  from Cons.IH [OF this] Cons.prems e show ?case
    by (simp add: Array_set_def overwrite_update algebra_simps Array_ok_def)
qed simp

text \<open>The offsets written for the vertices from \<open>vertexCurr + 1\<close> on.\<close>

definition offset_vertices :: "HalfEdge Array \<Rightarrow> u64 \<Rightarrow> u64 list list \<Rightarrow> Vertex list" where
  "offset_vertices E e ess =
     map (\<lambda>k. \<lparr>v_edgeBegin = addr_of E (e + word_of_nat (length (concat (take (Suc k) ess))))\<rparr>) [0..<length ess]"

lemma offset_vertices_Cons:
  "offset_vertices E e (es # ess) =
    \<lparr>v_edgeBegin = addr_of E (e + word_of_nat (length es))\<rparr> # offset_vertices E (e + word_of_nat (length es)) ess"
  by (simp add: offset_vertices_def upt_conv_Cons del: upt_Suc) (simp add: map_Suc_upt [symmetric] add.assoc del: upt_Suc)

lemma offset_vertices_ar_elems [simp]: "offset_vertices (E\<lparr>ar_elems := xs\<rparr>) e ess = offset_vertices E e ess"
  by (simp add: offset_vertices_def addr_of_def)

lemma fill_vertices_overwrite:
  assumes "unat e + length (concat (map contents vs)) \<le> length (ar_elems (edgeDestinations g))" "Array_ok (edgeDestinations g)"
    and "unat v + length vs < length (ar_elems (vertexEdgeOffsets g))" "Array_ok (vertexEdgeOffsets g)"
  shows "fill_vertices vs v e g = g\<lparr>
    edgeDestinations := (edgeDestinations g)\<lparr>ar_elems := overwrite (ar_elems (edgeDestinations g)) (unat e)
      (map (\<lambda>d. \<lparr>he_dst = addr_of (vertexEdgeOffsets g) d\<rparr>) (concat (map contents vs)))\<rparr>,
    vertexEdgeOffsets := (vertexEdgeOffsets g)\<lparr>ar_elems := overwrite (ar_elems (vertexEdgeOffsets g)) (Suc (unat v))
      (offset_vertices (edgeDestinations g) e (map contents vs))\<rparr>\<rparr>"
  using assms
proof (induction vs arbitrary: v e g)
  case Nil
  then show ?case by (simp add: offset_vertices_def)
next
  case (Cons es vs)
  let ?E = "edgeDestinations g" and ?V = "vertexEdgeOffsets g"
  let ?mk = "\<lambda>d. \<lparr>he_dst = addr_of ?V d\<rparr>"
  let ?e = "e + word_of_nat (length (contents es))"
  have "v < ar_size ?V" using Cons.prems(3,4) by (simp add: Array_ok_def word_less_nat_alt)
  then have v: "unat (v + 1) = Suc (unat v)" by (rule unat_plus_one)
  have e: "unat ?e = unat e + length (contents es)"
    using Cons.prems(1) Array_ok_length [OF Cons.prems(2)] by (intro unat_add_of_nat) simp
  have "unat e + length (contents es) \<le> length (ar_elems ?E)" using Cons.prems(1) by simp
  note f = fill_edges_overwrite [OF this Cons.prems(2)]
  let ?g = "g\<lparr>edgeDestinations := ?E\<lparr>ar_elems := overwrite (ar_elems ?E) (unat e) (map ?mk (contents es))\<rparr>,
    vertexEdgeOffsets := ?V\<lparr>ar_elems := (ar_elems ?V)[Suc (unat v) := \<lparr>v_edgeBegin = addr_of ?E ?e\<rparr>]\<rparr>\<rparr>"
  have "fill_vertices (es # vs) v e g = fill_vertices vs (v + 1) ?e ?g"
    by (simp add: f Array_set_def v addr_of_def)
  also have "\<dots> = ?g\<lparr>
      edgeDestinations := (edgeDestinations ?g)\<lparr>ar_elems := overwrite (ar_elems (edgeDestinations ?g)) (unat ?e)
        (map (\<lambda>d. \<lparr>he_dst = addr_of (vertexEdgeOffsets ?g) d\<rparr>) (concat (map contents vs)))\<rparr>,
      vertexEdgeOffsets := (vertexEdgeOffsets ?g)\<lparr>ar_elems := overwrite (ar_elems (vertexEdgeOffsets ?g)) (Suc (unat (v + 1)))
        (offset_vertices (edgeDestinations ?g) ?e (map contents vs))\<rparr>\<rparr>"
  proof (rule Cons.IH)
    show "unat ?e + length (concat (map contents vs)) \<le> length (ar_elems (edgeDestinations ?g))"
      using Cons.prems(1) e by simp
    show "Array_ok (edgeDestinations ?g)" using Cons.prems(1,2) by (simp add: Array_ok_def)
    show "unat (v + 1) + length vs < length (ar_elems (vertexEdgeOffsets ?g))" using Cons.prems(3) v by simp
    show "Array_ok (vertexEdgeOffsets ?g)" using Cons.prems(4) by (simp add: Array_ok_def)
  qed
  also have "\<dots> = g\<lparr>
    edgeDestinations := ?E\<lparr>ar_elems := overwrite (ar_elems ?E) (unat e) (map ?mk (concat (map contents (es # vs))))\<rparr>,
    vertexEdgeOffsets := ?V\<lparr>ar_elems := overwrite (ar_elems ?V) (Suc (unat v)) (offset_vertices ?E e (map contents (es # vs)))\<rparr>\<rparr>"
    using Cons.prems(1,3) overwrite_append [of "unat e" "map ?mk (contents es)" "map ?mk (concat (map contents vs))" "ar_elems ?E"]
    by (simp add: e v overwrite_update offset_vertices_Cons addr_of_def)
  finally show ?case .
qed

text \<open>The graph that a successful \<^verbatim>\<open>initialize\<close> leaves, array by array.\<close>

lemma initialize_arrays:
  assumes init: "LCSR_initialize env v g0 = (Success, g, rs)" and env: "csr_env_ok env"
    and v: "Vector_ok v" "\<forall>w \<in> set (contents v). Vector_ok w"
    and bounds: "length (contents v) < 2 ^ 59" "length (concat (map contents (contents v))) < 2 ^ 60"
  defines "ess \<equiv> map contents (contents v)"
  shows "placed (vertexEdgeOffsets g)" "placed (edgeDestinations g)"
    "Array_ok (vertexData g)" "Array_ok (edgeData g)" "Array_ok (topologyToToken g)"
    "length (ar_elems (vertexData g)) = length ess" "length (ar_elems (topologyToToken g)) = length ess"
    "length (ar_elems (edgeData g)) = length (concat ess)"
    "ar_elems (edgeDestinations g) = map (\<lambda>d. \<lparr>he_dst = addr_of (vertexEdgeOffsets g) d\<rparr>) (concat ess)"
    "ar_elems (vertexEdgeOffsets g) = \<lparr>v_edgeBegin = ar_data (edgeDestinations g)\<rparr> # offset_vertices (edgeDestinations g) 0 ess"
    "HashTable_initialize (env_table env) (v_size v) (getCurrentPlace (env_vertices env)) MainMem (tokenToTopology g0) =
      (Success, tokenToTopology g)"
proof -
  define m where "m = count_edges (contents v) 0"
  let ?p = "getCurrentPlace (env_vertices env)"
  have m: "unat m = length (concat ess)"
    using bounds(2) count_edges_length [OF v(2), of 0] by (simp add: m_def ess_def)
  have n: "unat (v_size v) = length ess" using length_contents [OF v(1)] by (simp add: ess_def)
  have "unat (v_size v) < 2 ^ 59" using n bounds(1) by (simp add: ess_def)
  then have n1: "unat (v_size v + 1) = Suc (length ess)" using n unat_add_no_wrap [of "v_size v" 1] by simp
  obtain g1 g2 rs1 rs2 where t: "LCSR_initializeTopologyMemory env (v_size v) m ?p MainMem g0 = (Success, g1, rs1)"
    and d: "LCSR_initializeDataMemory env (v_size v) m ?p MainMem g1 = (Success, g2, rs2)"
    and g: "g = fill_vertices (contents v) 0 0
      (g2\<lparr>vertexEdgeOffsets := Array_set (vertexEdgeOffsets g2) 0 \<lparr>v_edgeBegin = ar_data (edgeDestinations g2)\<rparr>\<rparr>)"
    using init unfolding LCSR_initialize_def Let_def m_def by (auto split: prod.splits if_splits)
  note t' = initializeTopologyMemory_Success [OF t] and d' = initializeDataMemory_Success [OF d]
  note e = env [unfolded csr_env_ok_def]
  let ?V = "vertexEdgeOffsets g2" and ?E = "edgeDestinations g2"
  have V: "placed ?V" "length (ar_elems ?V) = Suc (length ess)"
    using Array_initialize_placed [OF t'(1)] Array_initialize_Success [OF t'(1)] e n1 bounds(1) d'(3) by (auto simp: ess_def)
  have E: "placed ?E" "length (ar_elems ?E) = length (concat ess)"
    using Array_initialize_placed [OF t'(4)] Array_initialize_Success [OF t'(4)] e m bounds(2) d'(4) by (auto simp: ess_def)
  obtain x xs where x: "ar_elems ?V = x # xs" "length xs = length ess" using V(2) by (cases "ar_elems ?V") auto
  have g': "g = g2\<lparr>edgeDestinations := ?E\<lparr>ar_elems := map (\<lambda>d. \<lparr>he_dst = addr_of ?V d\<rparr>) (concat ess)\<rparr>,
      vertexEdgeOffsets := ?V\<lparr>ar_elems := \<lparr>v_edgeBegin = ar_data ?E\<rparr> # offset_vertices ?E 0 ess\<rparr>\<rparr>"
  proof -
    have "overwrite (\<lparr>v_edgeBegin = ar_data ?E\<rparr> # xs) (Suc 0) (offset_vertices ?E 0 ess) =
        \<lparr>v_edgeBegin = ar_data ?E\<rparr> # offset_vertices ?E 0 ess"
      using x(2) by (simp add: overwrite_def offset_vertices_def)
    moreover have "overwrite (ar_elems ?E) 0 (map (\<lambda>d. \<lparr>he_dst = addr_of ?V d\<rparr>) (concat ess)) =
        map (\<lambda>d. \<lparr>he_dst = addr_of ?V d\<rparr>) (concat ess)" using E(2) by (intro overwrite_all) simp
    ultimately show ?thesis
      unfolding g using V E x by (subst fill_vertices_overwrite) (simp_all add: ess_def Array_set_def placed_def Array_ok_def addr_of_def)
  qed
  show "placed (vertexEdgeOffsets g)" "placed (edgeDestinations g)"
    using V E by (simp_all add: g' placed_def Array_ok_def offset_vertices_def)
  show "Array_ok (vertexData g)" "Array_ok (edgeData g)" "Array_ok (topologyToToken g)"
    "length (ar_elems (vertexData g)) = length ess" "length (ar_elems (topologyToToken g)) = length ess"
    "length (ar_elems (edgeData g)) = length (concat ess)"
    using Array_initialize_Success [OF t'(2)] Array_initialize_Success [OF d'(1)] Array_initialize_Success [OF d'(2)] e n m
    by (simp_all add: g' d'(5))
  show "ar_elems (edgeDestinations g) = map (\<lambda>d. \<lparr>he_dst = addr_of (vertexEdgeOffsets g) d\<rparr>) (concat ess)"
    "ar_elems (vertexEdgeOffsets g) = \<lparr>v_edgeBegin = ar_data (edgeDestinations g)\<rparr> # offset_vertices (edgeDestinations g) 0 ess"
    by (simp_all add: g' addr_of_def)
  show "HashTable_initialize (env_table env) (v_size v) ?p MainMem (tokenToTopology g0) = (Success, tokenToTopology g)"
    using t'(3) by (simp add: g' d'(6))
qed

text \<open>Arrays of that shape form a well-formed graph with the edge lists as its edges.\<close>

lemma csr_of_arrays:
  assumes V: "placed (vertexEdgeOffsets g)" and E: "placed (edgeDestinations g)"
    and d: "Array_ok (vertexData g)" "Array_ok (edgeData g)" "Array_ok (topologyToToken g)"
      "length (ar_elems (vertexData g)) = length ess" "length (ar_elems (topologyToToken g)) = length ess"
      "length (ar_elems (edgeData g)) = length (concat ess)"
    and Es: "map he_dst (ar_elems (edgeDestinations g)) = concat ess"
    and Vs: "ar_elems (vertexEdgeOffsets g) =
      \<lparr>v_edgeBegin = ar_data (edgeDestinations g)\<rparr> # offset_vertices (edgeDestinations g) 0 ess"
  shows "csr_ok g" "num_vertices g = length ess" "i < length ess \<Longrightarrow> out_edges g i = ess ! i"
proof -
  let ?E = "edgeDestinations g"
  show n: "num_vertices g = length ess" by (simp add: num_vertices_def Vs offset_vertices_def)
  have le: "length (concat (take i ess)) \<le> length (concat ess)" for i
    by (metis append_take_drop_id concat_append le_add1 length_append)
  have mE: "length (ar_elems ?E) = length (concat ess)" using arg_cong [OF Es, of length] by simp
  have sE: "unat (ar_size ?E) = length (concat ess)" using E mE by (simp add: placed_def Array_ok_def)
  have at: "v_edgeBegin (ar_elems (vertexEdgeOffsets g) ! i) = elem_ptr ?E (length (concat (take i ess)))"
    if "i \<le> length ess" for i
    using that by (cases i) (simp_all add: Vs offset_vertices_def)
  have off: "edge_offset g i = length (concat (take i ess))" if "i \<le> length ess" for i
  proof -
    have "length (concat (take i ess)) < 2 ^ 64"
      using le [of i] placed_length [OF E] mE by simp
    then show ?thesis
      using ptr_diff_elem [OF E, of 0 "length (concat (take i ess))"] le [of i] sE at [OF that] by (simp add: edge_offset_def)
  qed
  have "length (concat (take i ess)) \<le> length (concat (take (Suc i) ess))" for i
    by (cases "i < length ess") (simp_all add: take_Suc_conv_app_nth)
  then have "offsets_ok g"
    unfolding offsets_ok_def n using off at le mE by (simp del: length_concat)
  then show "csr_ok g"
    unfolding csr_ok_def using V E d mE n Vs by simp
  assume "i < length ess"
  then show "out_edges g i = ess ! i"
    using segment_concat [of i ess] by (simp add: out_edges_def off map_segment Es del: length_concat)
qed

lemma offset_vertices_map: "offset_vertices E e (map (map f) ess) = offset_vertices E e ess"
  by (simp add: offset_vertices_def take_map flip: map_concat)

lemma initialize_graph:
  assumes "LCSR_initialize env v g0 = (Success, g, rs)" "csr_env_ok env"
    and "Vector_ok v" "\<forall>w \<in> set (contents v). Vector_ok w"
    and "length (contents v) < 2 ^ 59" "length (concat (map contents (contents v))) < 2 ^ 60"
  shows "csr_ok g" "num_vertices g = length (contents v)"
    "i < length (contents v) \<Longrightarrow> out_edges g i = map (addr_of (vertexEdgeOffsets g)) (contents (contents v ! i))"
proof -
  note a = initialize_arrays [OF assms]
  let ?ess = "map (map (addr_of (vertexEdgeOffsets g))) (map contents (contents v))"
  have Es: "map he_dst (ar_elems (edgeDestinations g)) = concat ?ess"
    unfolding a(9) by (simp add: map_concat comp_def)
  have Vs: "ar_elems (vertexEdgeOffsets g) =
      \<lparr>v_edgeBegin = ar_data (edgeDestinations g)\<rparr> # offset_vertices (edgeDestinations g) 0 ?ess"
    unfolding offset_vertices_map by (rule a(10))
  have l: "length (ar_elems (vertexData g)) = length ?ess" "length (ar_elems (topologyToToken g)) = length ?ess"
    "length (ar_elems (edgeData g)) = length (concat ?ess)"
    using a(6-8) by (simp_all flip: map_concat map_map)
  note c = csr_of_arrays [OF a(1-5) l Es Vs]
  show "csr_ok g" "num_vertices g = length (contents v)" using c(1,2) by simp_all
  show "i < length (contents v) \<Longrightarrow> out_edges g i = map (addr_of (vertexEdgeOffsets g)) (contents (contents v ! i))"
    using c(3) [of i] by simp
qed

subsection \<open>Properties\<close>

text \<open>
  C12: a graph built from adjacency lists gives them back. When \<^verbatim>\<open>initialize\<close> succeeds on a vector of edge
  vectors, the range over \<^verbatim>\<open>edges\<close> of the vertex with index \<open>i\<close> ends and visits as many edge handles as the \<open>i\<close>-th vector
  has elements, in its order: the destination of the \<open>k\<close>-th handle is the vertex whose index is the \<open>k\<close>-th element.
  The range over \<^verbatim>\<open>vertices\<close> visits the vertices in the order of their indices.
\<close>

theorem LCSR_edges_roundtrip:
  assumes "LCSR_initialize env v g0 = (Success, g, rs)" "csr_env_ok env"
    and "Vector_ok v" "\<forall>w \<in> set (contents v). Vector_ok w"
    and "length (contents v) < 2 ^ 59" "length (concat (map contents (contents v))) < 2 ^ 60"
    and dsts: "\<forall>w \<in> set (contents v). \<forall>d \<in> set (contents w). d < v_size v"
  shows "RefSpan_visit (LCSR_vertices g) = Some (map (LCSR_getTopologyIDFromIndex g \<circ> word_of_nat) [0..<unat (v_size v)]) \<and>
    (\<forall>i < v_size v. map_option (map (\<lambda>eh. LCSR_getVertexIndex g (LCSR_getEdgeDst g eh)))
        (RefSpan_visit (LCSR_edges g (LCSR_getTopologyIDFromIndex g i)))
      = Some (map Inr (contents (contents v ! unat i))))"
proof (intro conjI allI impI)
  note g = initialize_graph [OF assms(1-6)]
  have n: "num_vertices g = unat (v_size v)" using g(2) length_contents [OF assms(3)] by simp
  show "RefSpan_visit (LCSR_vertices g) = Some (map (LCSR_getTopologyIDFromIndex g \<circ> word_of_nat) [0..<unat (v_size v)])"
    using vertices_visited [OF g(1)] n by (simp add: LCSR_getTopologyIDFromIndex_def comp_def)
  fix i assume "i < v_size v"
  then have i: "unat i < num_vertices g" "unat i < length (contents v)"
    using n length_contents [OF assms(3)] by (simp_all add: word_less_nat_alt)
  have "LCSR_getVertexIndex g (addr_of (vertexEdgeOffsets g) d) = Inr d" if "d \<in> set (contents (contents v ! unat i))" for d
  proof -
    have "d < v_size v" using dsts that i(2) by auto
    then show ?thesis using LCSR_getVertexIndex_ptr [OF g(1), of "unat d"] n by (simp add: word_less_nat_alt)
  qed
  then have "map (LCSR_getVertexIndex g) (out_edges g (unat i)) = map Inr (contents (contents v ! unat i))"
    using g(3) [OF i(2)] by simp
  then show "map_option (map (\<lambda>eh. LCSR_getVertexIndex g (LCSR_getEdgeDst g eh)))
      (RefSpan_visit (LCSR_edges g (LCSR_getTopologyIDFromIndex g i))) = Some (map Inr (contents (contents v ! unat i)))"
    unfolding edges_visited(2) [OF g(1) i(1), symmetric] using edges_visited(1) [OF g(1) i(1)]
    by (simp add: LCSR_getTopologyIDFromIndex_def comp_def)
qed

text \<open>
  C35: a graph that cannot be built keeps no memory. When one of the six allocations of \<^verbatim>\<open>initialize\<close> fails, the blocks
  that are given back are exactly the blocks that the allocations before it acquired, each once and with its size, no
  release aborts, and the graph has no pointer left. Main memory that the calling place allocates lies on its node.
\<close>

theorem LCSR_initialize_failure_releases:
  assumes "LCSR_initialize env v LCSR_new = (st, g, rs)" "st \<noteq> Success"
    and "place = getCurrentPlace (env_vertices env)" "csr_main_local place env"
  shows "mset (released_blocks rs) =
      mset (before_failure (csr_allocations env (v_size v) (count_edges (contents v) 0) place)) \<and>
    list_all (\<lambda>r. \<not> isl r) rs \<and> no_arrays g"
proof -
  let ?n = "v_size v" and ?m = "count_edges (contents v) 0" and ?new = "LCSR_new :: ('a, 'b) LCSR"
  obtain s1 a1 where i1: "Array_initialize (env_vertices env) (?n + 1) place MainMem = (s1, a1)" by fastforce
  obtain s2 a2 where i2: "Array_initialize (env_tokens env) ?n place MainMem = (s2, a2)" by fastforce
  obtain s3 a3 where i3: "HashTable_initialize (env_table env) ?n place MainMem (tokenToTopology ?new) = (s3, a3)" by fastforce
  obtain s4 a4 where i4: "Array_initialize (env_halfEdges env) ?m place MainMem = (s4, a4)" by fastforce
  obtain s5 a5 where i5: "Array_initialize (env_vdata env) ?n place MainMem = (s5, a5)" by fastforce
  obtain s6 a6 where i6: "Array_initialize (env_edata env) ?m place MainMem = (s6, a6)" by fastforce
  note loc = assms(4) [unfolded csr_main_local_def]
  note b = array_gives_back [OF _ i1] array_gives_back [OF _ i2] table_gives_back [OF _ i3]
    array_gives_back [OF _ i4] array_gives_back [OF _ i5] array_gives_back [OF _ i6]
  note defs = LCSR_initialize_def LCSR_initializeTopologyMemory_def LCSR_initializeDataMemory_def LCSR_deinitializeTopology_def
    Array_deinitialize_def HashTable_deinitialize_def Let_def assms(3) [symmetric] i1 i2 i4 i5 i6
  note spec = csr_allocations_def before_failure_def released_blocks_def no_arrays_def
  have new: "ar_data (edgeDestinations ?new) = 0" "ar_data (vertexData ?new) = 0" "ar_data (edgeData ?new) = 0"
    "ar_data (topologyToToken ?new) = 0" "ar_data (h_buffer (tokenToTopology ?new)) = 0"
    by (simp_all add: LCSR_new_def Array_empty_def HashTable_new_def)
  consider "s1 \<noteq> Success" | "s1 = Success" "s2 \<noteq> Success" | "s1 = Success" "s2 = Success" "s3 \<noteq> Success"
    | "s1 = Success" "s2 = Success" "s3 = Success" "s4 \<noteq> Success"
    | "s1 = Success" "s2 = Success" "s3 = Success" "s4 = Success" "s5 \<noteq> Success"
    | "s1 = Success" "s2 = Success" "s3 = Success" "s4 = Success" "s5 = Success"
    by blast
  then show ?thesis
  proof cases
    case 6
    then have "s6 \<noteq> Success" using assms(1,2) i3 by (auto simp: defs)
    with 6 show ?thesis using assms(1) loc b i3 new by (auto simp: defs spec)
  qed (use assms(1) loc b i3 new in \<open>auto simp: defs spec\<close>)
qed

subsection \<open>An example\<close>

definition example_alloc :: "u64 \<Rightarrow> u64 \<Rightarrow> 'a \<Rightarrow> 'a alloc_env" where
  "example_alloc base sz x = \<lparr>getCurrentPlace = Place (NodeIndex 0) anyPod anyCore, isOnCP = False,
     allocateMemoryImpl = (\<lambda>b _. if b \<le> 256 then base else 0),
     executeOnWait_allocate = (\<lambda>_ _ _. Inl BadAlloc), executeOn_deallocate = (\<lambda>_ _ _. Success), sizeof_T = sz, fresh = (\<lambda>_ _. x)\<rparr>"

definition example_csr_env :: "(u64, u64) csr_env" where
  "example_csr_env = \<lparr>env_vertices = example_alloc 0x1000 8 \<lparr>v_edgeBegin = 0\<rparr>,
     env_halfEdges = example_alloc 0x2000 8 \<lparr>he_dst = 0\<rparr>, env_vdata = example_alloc 0x3000 8 0,
     env_edata = example_alloc 0x4000 8 0, env_tokens = example_alloc 0x5000 8 0,
     env_table = example_alloc 0x6000 24 Entry_new\<rparr>"

lemma example_alloc_ok: "env_ok (example_alloc base sz x)"
  by (simp add: env_ok_def example_alloc_def)

lemma example_alloc_in_space:
  assumes "unat base + 256 < 2 ^ 64"
  shows "in_space (example_alloc base sz x)"
  unfolding in_space_def
proof (intro allI impI)
  fix n place mt p
  let ?env = "example_alloc base sz x"
  assume n: "unat n * unat (sizeof_T ?env) < 2 ^ 64" and p: "allocateMemory ?env n place mt = Inr p"
  then have "unat (n * sz) = unat n * unat sz" by (intro unat_mult_no_wrap) (simp add: example_alloc_def)
  moreover have "p = base" "n * sz \<le> 256"
    using p by (auto simp: allocateMemory_def example_alloc_def null_is_BadAlloc_def Let_def split: MemoryType.splits if_splits)
  ultimately show "unat p + unat n * unat (sizeof_T ?env) < 2 ^ 64"
    using assms by (simp add: example_alloc_def word_le_nat_alt)
qed

lemma example_csr_env_ok: "csr_env_ok example_csr_env"
  by (simp add: csr_env_ok_def example_csr_env_def example_alloc_ok example_alloc_in_space)
    (simp add: example_alloc_def sizeof_ptr_def)

definition example_edges :: "u64 Vector Vector" where
  "example_edges = example_vector [example_vector [1, 2], example_vector [2, 0], example_vector []]"

abbreviation example_graph :: "(u64, u64) LCSR" where
  "example_graph \<equiv> fst (snd (LCSR_initialize example_csr_env example_edges LCSR_new))"

lemma example_vector_contents: "length xs < 2 ^ 64 \<Longrightarrow> contents (example_vector xs) = xs"
  "v_size (example_vector xs) = word_of_nat (length xs)"
  by (simp_all add: example_vector_def contents_def)

lemma example_vector_ok: "length xs < 2 ^ 64 \<Longrightarrow> Vector_ok (example_vector xs)"
  by (simp add: example_vector_def Vector_ok_def Array_ok_def capacity_def u64_eq_iff_unat)

lemma example_alloc_Success:
  assumes "n * sz \<le> 256" "base \<noteq> 0"
  shows "fst (Array_initialize (example_alloc base sz x) n (Place (NodeIndex 0) anyPod anyCore) MainMem) = Success"
  using assms by (simp add: Array_initialize_def allocateMemory_def example_alloc_def null_is_BadAlloc_def)

lemma example_alloc_place [simp]: "getCurrentPlace (example_alloc base sz x) = Place (NodeIndex 0) anyPod anyCore"
  by (simp add: example_alloc_def)

lemmas example_initialize = LCSR_initialize_def LCSR_initializeTopologyMemory_def LCSR_initializeDataMemory_def
  HashTable_initialize_def example_csr_env_def example_edges_def example_vector_contents Let_def split_def example_alloc_Success

lemma example_graph_Success: "fst (LCSR_initialize example_csr_env example_edges LCSR_new) = Success"
  by (simp add: example_initialize)

theorem LCSR_edges_roundtrip_witness:
  "map_option (map (\<lambda>eh. LCSR_getVertexIndex example_graph (LCSR_getEdgeDst example_graph eh)))
     (RefSpan_visit (LCSR_edges example_graph (LCSR_getTopologyIDFromIndex example_graph 1))) = Some [Inr 2, Inr 0]"
proof -
  have init: "LCSR_initialize example_csr_env example_edges LCSR_new =
      (Success, example_graph, snd (snd (LCSR_initialize example_csr_env example_edges LCSR_new)))"
    using example_graph_Success by (metis prod.collapse)
  note ex = example_edges_def example_vector_contents example_vector_ok
  have v: "Vector_ok example_edges" "\<forall>w \<in> set (contents example_edges). Vector_ok w" by (simp_all add: ex)
  have l: "length (contents example_edges) < 2 ^ 59" "length (concat (map contents (contents example_edges))) < 2 ^ 60"
    by (simp_all add: ex)
  have d: "\<forall>w \<in> set (contents example_edges). \<forall>d \<in> set (contents w). d < v_size example_edges"
    and i: "1 < v_size example_edges" by (simp_all add: ex)
  have e: "contents (contents example_edges ! unat (1 :: u64)) = [2, 0]" by (simp add: ex)
  show ?thesis
    using LCSR_edges_roundtrip [OF init example_csr_env_ok v l d] i by (metis (no_types, lifting) e list.map)
qed

text \<open>The same edge list where the data of the edges cannot be allocated, in the main memory of node 0.\<close>

definition example_full_env :: "(u64, u64) csr_env" where
  "example_full_env = \<lparr>env_vertices = example_alloc 0x0800000000001000 8 \<lparr>v_edgeBegin = 0\<rparr>,
     env_halfEdges = example_alloc 0x0800000000002000 8 \<lparr>he_dst = 0\<rparr>, env_vdata = example_alloc 0x0800000000003000 8 0,
     env_edata = example_alloc 0 8 0, env_tokens = example_alloc 0x0800000000005000 8 0,
     env_table = example_alloc 0x0800000000006000 24 Entry_new\<rparr>"

lemma example_alloc_main_local:
  assumes "base = 0 \<or> memoryTypeOf base = MainMem \<and> extractNodeIndex base = NodeIndex 0"
  shows "main_local (Place (NodeIndex 0) anyPod anyCore) (example_alloc base sz x)"
  using assms by (auto simp: main_local_def example_alloc_def)

lemma example_full_addresses:
  "list_all (\<lambda>b. memoryTypeOf b = MainMem \<and> extractNodeIndex b = NodeIndex 0)
     [0x0800000000001000, 0x0800000000002000, 0x0800000000003000, 0x0800000000005000, 0x0800000000006000]"
  by code_simp

lemma example_full_main_local: "csr_main_local (Place (NodeIndex 0) anyPod anyCore) example_full_env"
  using example_full_addresses unfolding csr_main_local_def example_full_env_def by (simp add: example_alloc_main_local)

theorem LCSR_initialize_failure_releases_witness:
  "mset (released_blocks (snd (snd (LCSR_initialize example_full_env example_edges LCSR_new)))) =
     {#(0x0800000000001000, 32), (0x0800000000005000, 24), (0x0800000000006000, 192), (0x0800000000002000, 32),
       (0x0800000000003000, 24)#}"
proof -
  let ?r = "LCSR_initialize example_full_env example_edges LCSR_new"
  have f: "fst (Array_initialize (example_alloc 0 8 (x :: u64)) 4 (Place (NodeIndex 0) anyPod anyCore) MainMem) = BadAlloc" for x
    by (simp add: Array_initialize_def allocateMemory_def example_alloc_def null_is_BadAlloc_def)
  have "fst ?r = BadAlloc" by (simp add: example_initialize example_full_env_def f)
  then have r: "?r = (BadAlloc, fst (snd ?r), snd (snd ?r))" by (metis prod.collapse)
  have place: "Place (NodeIndex 0) anyPod anyCore = getCurrentPlace (env_vertices example_full_env)"
    by (simp add: example_full_env_def)
  have a: "before_failure (csr_allocations example_full_env (v_size example_edges) (count_edges (contents example_edges) 0)
      (Place (NodeIndex 0) anyPod anyCore)) = [(0x0800000000001000, 32), (0x0800000000005000, 24), (0x0800000000006000, 192),
        (0x0800000000002000, 32), (0x0800000000003000, 24)]"
    by (simp add: before_failure_def csr_allocations_def acquired_def table_capacity_def example_full_env_def
        example_edges_def example_vector_contents allocateMemory_def null_is_BadAlloc_def example_alloc_def)
  show ?thesis
    using LCSR_initialize_failure_releases [OF r _ place example_full_main_local] by (simp add: a)
qed

text \<open>
  What the observers of the topology and of the other data read does not depend on the array that is written.
\<close>

lemma LCSR_observers_vertexData:
  "LCSR_edges (g\<lparr>vertexData := a\<rparr>) p = LCSR_edges g p" "LCSR_getEdgeDst (g\<lparr>vertexData := a\<rparr>) p = LCSR_getEdgeDst g p"
  "LCSR_getEdgeData (g\<lparr>vertexData := a\<rparr>) p = LCSR_getEdgeData g p"
  by (simp_all add: LCSR_edges_def LCSR_getEdgeDst_def LCSR_getEdgeData_def)

lemma LCSR_observers_edgeData:
  "LCSR_edges (g\<lparr>edgeData := b\<rparr>) p = LCSR_edges g p" "LCSR_getEdgeDst (g\<lparr>edgeData := b\<rparr>) p = LCSR_getEdgeDst g p"
  "LCSR_getData (g\<lparr>edgeData := b\<rparr>) p = LCSR_getData g p"
  by (simp_all add: LCSR_edges_def LCSR_getEdgeDst_def LCSR_getData_def)

text \<open>
  C36: writing the data of a vertex writes that vertex only. On a well-formed graph \<^verbatim>\<open>setData\<close> of a vertex does not abort,
  the graph stays well-formed, every other array and table of it is unchanged, so every handle has the same edges,
  destination and edge data as before, and \<^verbatim>\<open>getData\<close> answers with the new value for that vertex and with the old one for any
  other. In the same way \<^verbatim>\<open>setEdgeData\<close> changes the datum of that edge and nothing else: the edge ranges, the destinations,
  the data of the vertices and of the other edges stay.
\<close>

theorem LCSR_data_laws:
  assumes "csr_ok g"
  shows "(\<forall>i x. i < num_vertices g \<longrightarrow>
      (\<exists>g'. LCSR_setData g (vertex_ptr g i) x = Inr g' \<and> csr_ok g' \<and> g'\<lparr>vertexData := vertexData g\<rparr> = g \<and>
        (\<forall>p. LCSR_edges g' p = LCSR_edges g p \<and> LCSR_getEdgeDst g' p = LCSR_getEdgeDst g p \<and>
           LCSR_getEdgeData g' p = LCSR_getEdgeData g p) \<and>
        (\<forall>j < num_vertices g. LCSR_getData g' (vertex_ptr g j) = (if j = i then Inr x else LCSR_getData g (vertex_ptr g j))))) \<and>
    (\<forall>k y. k < length (ar_elems (edgeDestinations g)) \<longrightarrow>
      (\<exists>g'. LCSR_setEdgeData g (edge_ptr g k) y = Inr g' \<and> csr_ok g' \<and> g'\<lparr>edgeData := edgeData g\<rparr> = g \<and>
        (\<forall>p. LCSR_edges g' p = LCSR_edges g p \<and> LCSR_getEdgeDst g' p = LCSR_getEdgeDst g p \<and>
           LCSR_getData g' p = LCSR_getData g p) \<and>
        (\<forall>l < length (ar_elems (edgeDestinations g)).
           LCSR_getEdgeData g' (edge_ptr g l) = (if l = k then Inr y else LCSR_getEdgeData g (edge_ptr g l)))))"
proof (intro conjI allI impI)
  fix i x assume i: "i < num_vertices g"
  let ?g = "g\<lparr>vertexData := (vertexData g)\<lparr>ar_elems := (ar_elems (vertexData g))[i := x]\<rparr>\<rparr>"
  have ok: "csr_ok ?g" by (rule csr_ok_vertexData(1) [OF assms])
  have "LCSR_getData ?g (vertex_ptr g j) = (if j = i then Inr x else LCSR_getData g (vertex_ptr g j))"
    if "j < num_vertices g" for j
    using LCSR_getData_ptr [OF ok, of j] LCSR_getData_ptr [OF assms, of j] that i csr_ok_vertexData(2) [OF assms] assms
    by (auto simp: nth_list_update csr_ok_def)
  then show "\<exists>g'. LCSR_setData g (vertex_ptr g i) x = Inr g' \<and> csr_ok g' \<and> g'\<lparr>vertexData := vertexData g\<rparr> = g \<and>
        (\<forall>p. LCSR_edges g' p = LCSR_edges g p \<and> LCSR_getEdgeDst g' p = LCSR_getEdgeDst g p \<and>
           LCSR_getEdgeData g' p = LCSR_getEdgeData g p) \<and>
        (\<forall>j < num_vertices g. LCSR_getData g' (vertex_ptr g j) = (if j = i then Inr x else LCSR_getData g (vertex_ptr g j)))"
    using LCSR_setData_ptr [OF assms less_imp_le [OF i], of x] ok by (intro exI [of _ ?g]) (simp add: LCSR_observers_vertexData)
next
  fix k y assume k: "k < length (ar_elems (edgeDestinations g))"
  let ?g = "g\<lparr>edgeData := (edgeData g)\<lparr>ar_elems := (ar_elems (edgeData g))[k := y]\<rparr>\<rparr>"
  have ok: "csr_ok ?g" by (rule csr_ok_edgeData(1) [OF assms])
  have "LCSR_getEdgeData ?g (edge_ptr g l) = (if l = k then Inr y else LCSR_getEdgeData g (edge_ptr g l))"
    if "l < length (ar_elems (edgeDestinations g))" for l
    using LCSR_getEdgeData_ptr [OF ok, of l] LCSR_getEdgeData_ptr [OF assms that] that k assms
    by (auto simp: nth_list_update csr_ok_def)
  then show "\<exists>g'. LCSR_setEdgeData g (edge_ptr g k) y = Inr g' \<and> csr_ok g' \<and> g'\<lparr>edgeData := edgeData g\<rparr> = g \<and>
        (\<forall>p. LCSR_edges g' p = LCSR_edges g p \<and> LCSR_getEdgeDst g' p = LCSR_getEdgeDst g p \<and>
           LCSR_getData g' p = LCSR_getData g p) \<and>
        (\<forall>l < length (ar_elems (edgeDestinations g)).
           LCSR_getEdgeData g' (edge_ptr g l) = (if l = k then Inr y else LCSR_getEdgeData g (edge_ptr g l)))"
    using LCSR_setEdgeData_ptr [OF assms k, of y] ok by (intro exI [of _ ?g]) (simp add: LCSR_observers_edgeData)
qed

lemma example_graph_ok: "csr_ok example_graph" "num_vertices example_graph = 3"
proof -
  have init: "LCSR_initialize example_csr_env example_edges LCSR_new =
      (Success, example_graph, snd (snd (LCSR_initialize example_csr_env example_edges LCSR_new)))"
    using example_graph_Success by (metis prod.collapse)
  show "csr_ok example_graph" "num_vertices example_graph = 3"
    using initialize_graph(1,2) [OF init example_csr_env_ok]
    by (simp_all add: example_edges_def example_vector_contents example_vector_ok)
qed

theorem LCSR_data_laws_witness:
  "\<exists>g'. LCSR_setData example_graph (vertex_ptr example_graph 2) 7 = Inr g' \<and> csr_ok g' \<and>
     LCSR_getData g' (vertex_ptr example_graph 2) = Inr 7 \<and>
     LCSR_getData g' (vertex_ptr example_graph 0) = LCSR_getData example_graph (vertex_ptr example_graph 0)"
proof -
  have "(2 :: nat) < num_vertices example_graph" "(0 :: nat) < num_vertices example_graph" by (simp_all add: example_graph_ok(2))
  then show ?thesis
    using LCSR_data_laws [OF example_graph_ok(1), THEN conjunct1, rule_format, of 2 7] by (metis zero_neq_numeral)
qed

text \<open>The range over the data of the vertices leaves out the last vertex; without a vertex its size is \<open>2 ^ 64 - 1\<close>.\<close>

lemma vertexDataRange_short:
  assumes "csr_ok g"
  shows "num_vertices g = 0 \<Longrightarrow> snd (LCSR_vertexDataRange g) = - 1"
    "num_vertices g \<noteq> 0 \<Longrightarrow> unat (snd (LCSR_vertexDataRange g)) = num_vertices g - 1"
proof -
  have sz: "unat (ar_size (vertexData g)) = num_vertices g" using assms by (simp add: csr_ok_def Array_ok_def)
  then show "num_vertices g = 0 \<Longrightarrow> snd (LCSR_vertexDataRange g) = - 1"
    using u64_eq_iff_unat [of "ar_size (vertexData g)" 0] by (simp add: LCSR_vertexDataRange_def)
  assume "num_vertices g \<noteq> 0"
  then have "ar_size (vertexData g) \<noteq> 0" using sz by auto
  then show "unat (snd (LCSR_vertexDataRange g)) = num_vertices g - 1"
    using sz by (simp add: LCSR_vertexDataRange_def unat_minus_one_u64)
qed

text \<open>\<^verbatim>\<open>initialize\<close> does not fill the token table: looking up any token in the graph it leaves aborts.\<close>

lemma initialize_no_tokens:
  assumes "LCSR_initialize env v LCSR_new = (Success, g, rs)" "csr_env_ok env" "entries_bounded (env_table env)"
    and "Vector_ok v" "\<forall>w \<in> set (contents v). Vector_ok w"
    and "length (contents v) < 2 ^ 59" "length (concat (map contents (contents v))) < 2 ^ 60"
  shows "LCSR_getTopologyID hash g token = Some (Inl (PANDO_ABORT ''FAILURE TO FIND TOKENID''))"
proof -
  have "HashTable_initialize (env_table env) (v_size v) (getCurrentPlace (env_vertices env)) MainMem HashTable_new = (Success, tokenToTopology g)"
    using initialize_arrays(11) [OF assms(1,2,4-7)] by (simp add: LCSR_new_def)
  note t = initialize_ok [OF this _ assms(3)]
  have "env_ok (env_table env)" using assms(2) by (simp add: csr_env_ok_def)
  then have "HashTable_get hash token (tokenToTopology g) = Some None" using get_spec [OF t(1)] t(2) by simp
  then show ?thesis by (simp add: LCSR_getTopologyID_def relaxedGetTopologyID_def)
qed

end
