(* ===== verification/Dist_Local_Csr.thy ===== *)
theory Dist_Local_Csr
  imports Csr_Props
begin

text \<open>
  The distributed graph \<^verbatim>\<open>galois::DistLocalCSR\<close> (\<^verbatim>\<open>pando-lib-galois/graphs/dist_local_csr.hpp\<close>): a graph of one host for every
  node, and the map from virtual to physical hosts that says where a token lives. A pointer carries the node it
  points to, and every operation on a vertex or an edge first selects the graph of that node. The copies of the
  graph headers in the caches of the hosts refer to the same arrays, so the model has each graph once.

  The iterators over vertex data step by the size of the data, eight bytes for the integers that the algorithms store.
\<close>

record ('v, 'e) DistLocalCSR =
  dl_csrs :: "('v, 'e) LCSR list"
  dl_numVertices :: u64
  dl_numEdges :: u64
  dl_v2pm :: "u64 Array"

definition host_of :: "u64 \<Rightarrow> u64" where
  "host_of ptr = node_id (place_node (localityOf ptr))"

definition getCachedCSR :: "('v, 'e) DistLocalCSR \<Rightarrow> u64 \<Rightarrow> ('v, 'e) LCSR" where
  "getCachedCSR d i = dl_csrs d ! unat i"

definition getCSR :: "('v, 'e) DistLocalCSR \<Rightarrow> u64 \<Rightarrow> ('v, 'e) LCSR" where
  "getCSR d ptr = getCachedCSR d (host_of ptr)"

definition set_csr :: "('v, 'e) DistLocalCSR \<Rightarrow> u64 \<Rightarrow> ('v, 'e) LCSR \<Rightarrow> ('v, 'e) DistLocalCSR" where
  "set_csr d i c = d\<lparr>dl_csrs := (dl_csrs d)[unat i := c]\<rparr>"

definition num_hosts :: "('v, 'e) DistLocalCSR \<Rightarrow> u64" where
  "num_hosts d = word_of_nat (length (dl_csrs d))"

subsection \<open>Sizes, vertices and tokens\<close>

definition DLCSR_size :: "('v, 'e) DistLocalCSR \<Rightarrow> u64" where
  "DLCSR_size d = dl_numVertices d"

definition DLCSR_sizeEdges :: "('v, 'e) DistLocalCSR \<Rightarrow> u64" where
  "DLCSR_sizeEdges d = dl_numEdges d"

definition DLCSR_deinitialize ::
  "('v, 'e) csr_env \<Rightarrow> ('v, 'e) DistLocalCSR \<Rightarrow> ('v, 'e) DistLocalCSR \<times> release or_abort list" where
  "DLCSR_deinitialize env d =
     (let gs = map (LCSR_deinitialize env) (dl_csrs d);
          (r, v2pm) = Array_deinitialize (env_tokens env) (dl_v2pm d)
      in (d\<lparr>dl_csrs := map fst gs, dl_v2pm := v2pm\<rparr>, concat (map snd gs) @ [r]))"

definition localSize :: "('v, 'e) DistLocalCSR \<Rightarrow> u64 \<Rightarrow> u64" where
  "localSize d host = LCSR_size (getCachedCSR d host)"

definition numVHosts :: "('v, 'e) DistLocalCSR \<Rightarrow> u64" where
  "numVHosts d = ar_size (dl_v2pm d)"

definition getVirtualHostID :: "('v, 'e) DistLocalCSR \<Rightarrow> u64 \<Rightarrow> u64" where
  "getVirtualHostID d tid = tid mod numVHosts d"

definition getPhysicalHostID :: "('v, 'e) DistLocalCSR \<Rightarrow> u64 \<Rightarrow> u64" where
  "getPhysicalHostID d tid = Array_get (dl_v2pm d) (getVirtualHostID d tid)"

definition getLocalTopologyID :: "(u64 \<Rightarrow> u64) \<Rightarrow> u64 \<Rightarrow> ('v, 'e) DistLocalCSR \<Rightarrow> u64 \<Rightarrow> (u64 \<times> bool) option" where
  "getLocalTopologyID hash here d tid = relaxedGetTopologyID hash (getCachedCSR d here) tid"

definition getGlobalTopologyID :: "(u64 \<Rightarrow> u64) \<Rightarrow> ('v, 'e) DistLocalCSR \<Rightarrow> u64 \<Rightarrow> u64 or_abort option" where
  "getGlobalTopologyID hash d tid =
     (let virtualHostID = tid mod numVHosts d;
          physicalHost = Array_get (dl_v2pm d) virtualHostID
      in LCSR_getTopologyID hash (getCachedCSR d physicalHost) tid)"

text \<open>On host \<open>here\<close>: its own table first, then the table of the host that the map names.\<close>

definition DLCSR_getTopologyID :: "(u64 \<Rightarrow> u64) \<Rightarrow> u64 \<Rightarrow> ('v, 'e) DistLocalCSR \<Rightarrow> u64 \<Rightarrow> u64 or_abort option" where
  "DLCSR_getTopologyID hash here d tid =
     (case relaxedGetTopologyID hash (getCachedCSR d here) tid of
        None \<Rightarrow> None
      | Some (ret, found) \<Rightarrow> if \<not> found then getGlobalTopologyID hash d tid else Some (Inr ret))"

text \<open>The loop over the hosts; with no host left it would read past the last graph (\<^const>\<open>None\<close>).\<close>

fun topology_from_index :: "('v, 'e) LCSR list \<Rightarrow> u64 \<Rightarrow> u64 option" where
  "topology_from_index [] index = None"
| "topology_from_index (c # cs) index =
     (if index > LCSR_size c then topology_from_index cs (index - LCSR_size c)
      else Some (LCSR_getTopologyIDFromIndex c index))"

definition DLCSR_getTopologyIDFromIndex :: "('v, 'e) DistLocalCSR \<Rightarrow> u64 \<Rightarrow> u64 option" where
  "DLCSR_getTopologyIDFromIndex d index = topology_from_index (dl_csrs d) index"

definition DLCSR_getTokenID :: "('v, 'e) DistLocalCSR \<Rightarrow> u64 \<Rightarrow> u64 or_abort" where
  "DLCSR_getTokenID d tid = LCSR_getTokenID (getCSR d tid) tid"

definition DLCSR_getVertexIndex :: "('v, 'e) DistLocalCSR \<Rightarrow> u64 \<Rightarrow> u64 or_abort" where
  "DLCSR_getVertexIndex d vertex =
     abort_bind (LCSR_getVertexIndex (getCSR d vertex) vertex) (\<lambda>vid.
       Inr (fold (\<lambda>i vid. vid + LCSR_size (getCachedCSR d (word_of_nat i))) [0..<unat (host_of vertex)] vid))"

definition getVertexLocalIndex :: "('v, 'e) DistLocalCSR \<Rightarrow> u64 \<Rightarrow> u64 or_abort" where
  "getVertexLocalIndex d vertex = LCSR_getVertexIndex (getCSR d vertex) vertex"

definition DLCSR_isLocal :: "u64 \<Rightarrow> u64 \<Rightarrow> bool" where
  "DLCSR_isLocal here vertex \<longleftrightarrow> host_of vertex = here"

subsection \<open>Edges and data\<close>

definition DLCSR_halfEdgeBegin :: "('v, 'e) DistLocalCSR \<Rightarrow> u64 \<Rightarrow> u64" where
  "DLCSR_halfEdgeBegin d vertex = halfEdgeBegin (getCSR d vertex) vertex"

definition DLCSR_halfEdgeEnd :: "('v, 'e) DistLocalCSR \<Rightarrow> u64 \<Rightarrow> u64" where
  "DLCSR_halfEdgeEnd d vertex = v_edgeBegin (deref (vertexEdgeOffsets (getCSR d vertex)) (ptr_add sizeof_ptr vertex 1))"

definition DLCSR_getNumEdges :: "('v, 'e) DistLocalCSR \<Rightarrow> u64 \<Rightarrow> u64" where
  "DLCSR_getNumEdges d vertex = ptr_diff sizeof_ptr (DLCSR_halfEdgeEnd d vertex) (DLCSR_halfEdgeBegin d vertex)"

definition DLCSR_mintEdgeHandle :: "('v, 'e) DistLocalCSR \<Rightarrow> u64 \<Rightarrow> u64 \<Rightarrow> u64" where
  "DLCSR_mintEdgeHandle d vertex off = ptr_add sizeof_ptr (DLCSR_halfEdgeBegin d vertex) off"

definition DLCSR_getEdgeDst :: "('v, 'e) DistLocalCSR \<Rightarrow> u64 \<Rightarrow> u64" where
  "DLCSR_getEdgeDst d eh = he_dst (deref (edgeDestinations (getCSR d eh)) eh)"

definition DLCSR_edges :: "('v, 'e) DistLocalCSR \<Rightarrow> u64 \<Rightarrow> RefSpan" where
  "DLCSR_edges d vPtr =
     (let v = deref (vertexEdgeOffsets (getCSR d vPtr)) vPtr;
          v1 = deref (vertexEdgeOffsets (getCSR d vPtr)) (ptr_add sizeof_ptr vPtr 1)
      in \<lparr>rs_data = v_edgeBegin v, rs_size = ptr_diff sizeof_ptr (v_edgeBegin v1) (v_edgeBegin v)\<rparr>)"

definition DLCSR_setData :: "('v, 'e) DistLocalCSR \<Rightarrow> u64 \<Rightarrow> 'v \<Rightarrow> ('v, 'e) DistLocalCSR or_abort" where
  "DLCSR_setData d vertex data =
     abort_bind (LCSR_setData (getCSR d vertex) vertex data) (\<lambda>c. Inr (set_csr d (host_of vertex) c))"

definition DLCSR_getData :: "('v, 'e) DistLocalCSR \<Rightarrow> u64 \<Rightarrow> 'v or_abort" where
  "DLCSR_getData d vertex = LCSR_getData (getCSR d vertex) vertex"

definition DLCSR_setEdgeData :: "('v, 'e) DistLocalCSR \<Rightarrow> u64 \<Rightarrow> 'e \<Rightarrow> ('v, 'e) DistLocalCSR or_abort" where
  "DLCSR_setEdgeData d eh data =
     abort_bind (LCSR_setEdgeData (getCSR d eh) eh data) (\<lambda>c. Inr (set_csr d (host_of eh) c))"

definition DLCSR_getEdgeData :: "('v, 'e) DistLocalCSR \<Rightarrow> u64 \<Rightarrow> 'e or_abort" where
  "DLCSR_getEdgeData d eh = LCSR_getEdgeData (getCSR d eh) eh"

definition DLCSR_edgeDataRange :: "('v, 'e) DistLocalCSR \<Rightarrow> u64 \<Rightarrow> (u64 \<times> u64) or_abort" where
  "DLCSR_edgeDataRange d vertex = LCSR_edgeDataRange (getCSR d vertex) vertex"

subsection \<open>Iteration over the hosts\<close>

definition VertexIt_next :: "('v, 'e) DistLocalCSR \<Rightarrow> u64 \<Rightarrow> u64" where
  "VertexIt_next d m_pos =
     (let currNode = host_of m_pos;
          ptr = ptr_add sizeof_ptr m_pos 1;
          csrCurr = getCachedCSR d currNode
      in if Array_end (vertexEdgeOffsets csrCurr) - sizeof_ptr > ptr \<or> currNode = num_hosts d - 1 then ptr
         else ar_data (vertexEdgeOffsets (getCachedCSR d (currNode + 1))))"

definition VertexDataIt_next :: "('v, 'e) DistLocalCSR \<Rightarrow> u64 \<Rightarrow> u64" where
  "VertexDataIt_next d m_pos =
     (let currNode = host_of m_pos;
          ptr = ptr_add sizeof_ptr m_pos 1;
          csrCurr = getCachedCSR d currNode
      in if Array_end (vertexData csrCurr) > ptr \<or> currNode = num_hosts d - 1 then ptr
         else ar_data (vertexData (getCachedCSR d (currNode + 1))))"

text \<open>The begin and end of \<^verbatim>\<open>vertices()\<close> and of \<^verbatim>\<open>vertexDataRange()\<close>.\<close>

definition DLCSR_vertices :: "('v, 'e) DistLocalCSR \<Rightarrow> u64 \<times> u64" where
  "DLCSR_vertices d = (ar_data (vertexEdgeOffsets (getCachedCSR d 0)),
     Array_end (vertexEdgeOffsets (getCachedCSR d (num_hosts d - 1))) - sizeof_ptr)"

definition DLCSR_vertexDataRange :: "('v, 'e) DistLocalCSR \<Rightarrow> u64 \<times> u64" where
  "DLCSR_vertexDataRange d = (ar_data (vertexData (getCachedCSR d 0)), Array_end (vertexData (getCachedCSR d (num_hosts d - 1))))"

text \<open>The positions of a loop from an iterator until it equals the end.\<close>

partial_function (option) visit_from :: "(u64 \<Rightarrow> u64) \<Rightarrow> u64 \<Rightarrow> u64 \<Rightarrow> u64 list option" where
  "visit_from nxt it e =
     (if it = e then Some [] else Option.bind (visit_from nxt (nxt it) e) (\<lambda>ps. Some (it # ps)))"

declare visit_from.simps [code]

definition visit_vertices :: "('v, 'e) DistLocalCSR \<Rightarrow> u64 list option" where
  "visit_vertices d = visit_from (VertexIt_next d) (fst (DLCSR_vertices d)) (snd (DLCSR_vertices d))"

definition visit_vertexData :: "('v, 'e) DistLocalCSR \<Rightarrow> u64 list option" where
  "visit_vertexData d = visit_from (VertexDataIt_next d) (fst (DLCSR_vertexDataRange d)) (snd (DLCSR_vertexDataRange d))"

text \<open>Writing through a pointer to vertex data, and the loop that writes a value to all of them.\<close>

definition write_vertexData :: "u64 \<Rightarrow> 'v \<Rightarrow> ('v, 'e) DistLocalCSR \<Rightarrow> ('v, 'e) DistLocalCSR" where
  "write_vertexData ref x d =
     (let c = getCSR d ref; i = ptr_diff sizeof_ptr ref (ar_data (vertexData c))
      in set_csr d (host_of ref) (c\<lparr>vertexData := Array_set (vertexData c) i x\<rparr>))"

definition DLCSR_setAllData :: "('v, 'e) DistLocalCSR \<Rightarrow> 'v \<Rightarrow> ('v, 'e) DistLocalCSR option" where
  "DLCSR_setAllData d x = Option.bind (visit_vertexData d) (\<lambda>refs. Some (fold (\<lambda>ref. write_vertexData ref x) refs d))"

end
