(* ===== verification/Bfs_Correct.thy ===== *)
theory Bfs_Correct
  imports Bfs
begin

text \<open>
  The breadth first search labels every vertex with its distance, in every interleaving of its tasks, and it ends. The
  graph is an interface: the locale \<open>labelled_graph\<close> has the laws of the operations that the search calls.
\<close>

subsection \<open>The invariant of a round\<close>

text \<open>
  In the round that labels distance \<open>k + 1\<close>: \<open>pending\<close> says that a task has still to look at a vertex or found it
  unlabelled, \<open>pushing\<close> that it has labelled a vertex and not yet pushed it.
\<close>

definition near :: "('v \<Rightarrow> 'v list) \<Rightarrow> 'v \<Rightarrow> nat \<Rightarrow> 'v \<Rightarrow> bool" where
  "near adj s k v \<longleftrightarrow> reaches adj s v \<and> hops adj s v \<le> k"

fun pending :: "('h \<Rightarrow> 'v) \<Rightarrow> ('v \<Rightarrow> 'v list) \<Rightarrow> ('v, 'h) bfs_task \<Rightarrow> 'v \<Rightarrow> bool" where
  "pending dst adj (NotStarted u) v = (v \<in> set (adj u))"
| "pending dst adj (AtEdges ehs) v = (v \<in> dst ` set ehs)"
| "pending dst adj (HasRead d x ehs) v = (v = d \<and> x = UINT64_MAX \<or> v \<in> dst ` set ehs)"
| "pending dst adj (MustPush d ehs) v = (v \<in> dst ` set ehs)"

fun pushing :: "('v, 'h) bfs_task \<Rightarrow> 'v \<Rightarrow> bool" where
  "pushing (MustPush d ehs) v = (v = d)"
| "pushing _ v = False"

fun task_ok ::
  "('h \<Rightarrow> 'v) \<Rightarrow> ('v \<Rightarrow> 'v list) \<Rightarrow> 'v \<Rightarrow> nat \<Rightarrow> ('v \<Rightarrow> u64) \<Rightarrow> ('v, 'h) bfs_task \<Rightarrow> bool" where
  "task_ok dst adj s k l (NotStarted v) = (v \<in> layer adj s k)"
| "task_ok dst adj s k l (AtEdges ehs) = (\<forall>eh \<in> set ehs. near adj s (Suc k) (dst eh))"
| "task_ok dst adj s k l (HasRead d x ehs) = (near adj s (Suc k) d \<and> (x = UINT64_MAX \<longrightarrow> d \<in> layer adj s (Suc k)) \<and>
     (x \<noteq> UINT64_MAX \<longrightarrow> l d \<noteq> UINT64_MAX) \<and> (\<forall>eh \<in> set ehs. near adj s (Suc k) (dst eh)))"
| "task_ok dst adj s k l (MustPush d ehs) = (d \<in> layer adj s (Suc k) \<and> l d \<noteq> UINT64_MAX \<and>
     (\<forall>eh \<in> set ehs. near adj s (Suc k) (dst eh)))"

definition labels_to :: "'v set \<Rightarrow> ('v \<Rightarrow> 'v list) \<Rightarrow> 'v \<Rightarrow> nat \<Rightarrow> ('v \<Rightarrow> u64) \<Rightarrow> bool" where
  "labels_to V adj s k l \<longleftrightarrow>
     (\<forall>v \<in> V. l v = (if near adj s k v then word_of_nat (hops adj s v) else UINT64_MAX))"

definition round_inv ::
  "'v set \<Rightarrow> ('h \<Rightarrow> 'v) \<Rightarrow> ('v \<Rightarrow> 'v list) \<Rightarrow> 'v \<Rightarrow> nat \<Rightarrow> ('v \<Rightarrow> u64) \<Rightarrow> 'v list list \<Rightarrow> ('v, 'h) bfs_task list \<Rightarrow> bool" where
  "round_inv V dst adj s k l act tasks \<longleftrightarrow>
     (\<forall>v \<in> V. near adj s k v \<longrightarrow> l v = word_of_nat (hops adj s v)) \<and>
     (\<forall>v \<in> V. \<not> near adj s k v \<longrightarrow> l v = UINT64_MAX \<or> v \<in> layer adj s (Suc k) \<and> l v = word_of_nat (Suc k)) \<and>
     (\<forall>v \<in> set (concat act). v \<in> layer adj s (Suc k) \<and> l v \<noteq> UINT64_MAX) \<and>
     (\<forall>i < length tasks. task_ok dst adj s k l (tasks ! i)) \<and>
     (\<forall>v \<in> layer adj s (Suc k). l v = UINT64_MAX \<longrightarrow> (\<exists>i < length tasks. pending dst adj (tasks ! i) v)) \<and>
     (\<forall>v \<in> layer adj s (Suc k). l v \<noteq> UINT64_MAX \<longrightarrow> v \<in> set (concat act) \<or> (\<exists>i < length tasks. pushing (tasks ! i) v))"

lemma layer_near: "v \<in> layer adj s (Suc k) \<longleftrightarrow> near adj s (Suc k) v \<and> \<not> near adj s k v"
  by (auto simp: layer_def near_def)

lemma near_Suc: "near adj s (Suc k) v \<longleftrightarrow> near adj s k v \<or> v \<in> layer adj s (Suc k)"
  by (auto simp: layer_def near_def)

lemma near_in_V:
  assumes "s \<in> V" "\<forall>v \<in> V. set (adj v) \<subseteq> V" "near adj s k v"
  shows "v \<in> V"
proof -
  have "(s, v) \<in> (edge_rel adj)\<^sup>*" using assms(3) by (simp add: near_def reaches_def)
  then show ?thesis using assms(1,2) by (induction rule: rtrancl_induct) (auto simp: edge_rel_def)
qed

lemma task_ok_mono:
  assumes "task_ok dst adj s k l t" "\<forall>v. near adj s (Suc k) v \<longrightarrow> l v \<noteq> UINT64_MAX \<longrightarrow> l' v \<noteq> UINT64_MAX"
  shows "task_ok dst adj s k l' t"
  using assms by (cases t) (auto simp: layer_near)

lemma ex_update:
  assumes "i < length xs" "\<exists>j < length xs. P (xs ! j)" "P (xs ! i) \<Longrightarrow> P x"
  shows "\<exists>j < length xs. P (xs[i := x] ! j)"
  using assms by (metis nth_list_update nth_list_update_neq)

text \<open>
  One task moves: it may label vertices of distance \<open>k + 1\<close>, which it then has to push; what it no longer looks at is
  labelled, and what it no longer pushes is in a vector.
\<close>

lemma round_inv_update:
  assumes inv: "round_inv V dst adj s k l act tasks" and i: "i < length tasks"
    and V: "s \<in> V" "\<forall>v \<in> V. set (adj v) \<subseteq> V" and max: "word_of_nat (Suc k) \<noteq> UINT64_MAX"
    and labels: "\<forall>v \<in> V. l' v = l v \<or> v \<in> layer adj s (Suc k) \<and> l' v = word_of_nat (Suc k)"
    and act: "\<forall>v \<in> set (concat act'). v \<in> set (concat act) \<or> v \<in> layer adj s (Suc k) \<and> l' v \<noteq> UINT64_MAX"
      "set (concat act) \<subseteq> set (concat act')"
    and task: "task_ok dst adj s k l' t'"
    and pend: "\<And>v. pending dst adj (tasks ! i) v \<Longrightarrow> v \<in> layer adj s (Suc k) \<Longrightarrow> l' v = UINT64_MAX \<Longrightarrow> pending dst adj t' v"
    and push: "\<And>v. pushing (tasks ! i) v \<Longrightarrow> pushing t' v \<or> v \<in> set (concat act')"
    and fresh: "\<And>v. v \<in> layer adj s (Suc k) \<Longrightarrow> l v = UINT64_MAX \<Longrightarrow> l' v \<noteq> UINT64_MAX \<Longrightarrow> pushing t' v"
  shows "round_inv V dst adj s k l' act' (tasks[i := t'])"
proof -
  have inV: "v \<in> V" if "near adj s j v" for v j using near_in_V [OF V that] .
  have keep: "l' v \<noteq> UINT64_MAX" if "v \<in> V" "l v \<noteq> UINT64_MAX" for v using labels that max by metis
  have old: "\<forall>j < length tasks. task_ok dst adj s k l' (tasks ! j)"
    using inv keep inV by (auto simp: round_inv_def intro: task_ok_mono)
  have inact: "v \<in> layer adj s (Suc k) \<and> l' v \<noteq> UINT64_MAX" if "v \<in> set (concat act')" for v
    using that act(1) inv keep inV unfolding round_inv_def layer_near by blast
  have unlabelled: "\<exists>j < length tasks. pending dst adj (tasks[i := t'] ! j) v"
    if "v \<in> layer adj s (Suc k)" "l' v = UINT64_MAX" for v
  proof -
    have "l v = UINT64_MAX" using keep inV that by (auto simp: layer_near)
    then have "\<exists>j < length tasks. pending dst adj (tasks ! j) v" using inv that by (simp add: round_inv_def)
    from ex_update [OF i this] show ?thesis using pend that by blast
  qed
  have labelled: "v \<in> set (concat act') \<or> (\<exists>j < length tasks. pushing (tasks[i := t'] ! j) v)"
    if v: "v \<in> layer adj s (Suc k)" "l' v \<noteq> UINT64_MAX" for v
  proof (cases "l v = UINT64_MAX \<or> pushing t' v")
    case True
    then have "pushing (tasks[i := t'] ! i) v" using fresh v i by auto
    then show ?thesis using i by blast
  next
    case False
    then consider "v \<in> set (concat act)" | j where "j < length tasks" "pushing (tasks ! j) v"
      using inv v unfolding round_inv_def by blast
    then show ?thesis
    proof cases
      case 1
      then show ?thesis using act(2) by blast
    next
      case 2
      then show ?thesis using push False by (cases "j = i") (auto simp: nth_list_update)
    qed
  qed
  show ?thesis
    unfolding round_inv_def length_list_update
  proof (intro conjI)
    show "\<forall>v \<in> V. near adj s k v \<longrightarrow> l' v = word_of_nat (hops adj s v)"
      using inv labels unfolding round_inv_def layer_near by metis
    show "\<forall>v \<in> V. \<not> near adj s k v \<longrightarrow> l' v = UINT64_MAX \<or> v \<in> layer adj s (Suc k) \<and> l' v = word_of_nat (Suc k)"
      using inv labels unfolding round_inv_def by metis
    show "\<forall>v \<in> set (concat act'). v \<in> layer adj s (Suc k) \<and> l' v \<noteq> UINT64_MAX" using inact by blast
    show "\<forall>j < length tasks. task_ok dst adj s k l' (tasks[i := t'] ! j)"
      using old task i by (simp add: nth_list_update)
    show "\<forall>v \<in> layer adj s (Suc k). l' v = UINT64_MAX \<longrightarrow> (\<exists>j < length tasks. pending dst adj (tasks[i := t'] ! j) v)"
      using unlabelled by blast
    show "\<forall>v \<in> layer adj s (Suc k). l' v \<noteq> UINT64_MAX \<longrightarrow>
        v \<in> set (concat act') \<or> (\<exists>j < length tasks. pushing (tasks[i := t'] ! j) v)"
      using labelled by blast
  qed
qed

text \<open>The frontier of a host is what its threads pushed: nothing is lost or added.\<close>

lemma concat_flatten_hosts:
  assumes "length act = hosts * n"
  shows "concat (flatten_hosts n hosts act) = concat act"
proof -
  have "concat (flatten_hosts n h act) = concat (take (h * n) act)" for h
    by (induction h) (simp_all add: flatten_hosts_def add.commute [of n] take_add)
  then show ?thesis using assms by simp
qed

lemma IsactiveIterationEmpty_iff: "IsactiveIterationEmpty phbfs \<longleftrightarrow> concat phbfs = []"
  by (simp add: IsactiveIterationEmpty_def)

text \<open>The start of a round, and its end, when no task has anything left to do.\<close>

lemma round_inv_start:
  assumes "labels_to V adj s k l" "set (concat phbfs) = layer adj s k" "s \<in> V" "\<forall>v \<in> V. set (adj v) \<subseteq> V"
  shows "round_inv V dst adj s k l (map (\<lambda>_. []) act) (map NotStarted (concat phbfs))"
proof -
  have "l v = UINT64_MAX" if "v \<in> layer adj s (Suc k)" for v
    using that assms(1) near_in_V [OF assms(3,4), of "Suc k" v] by (simp add: labels_to_def layer_near)
  moreover have "\<exists>i < length (concat phbfs). pending dst adj (map NotStarted (concat phbfs) ! i) v"
    if v: "v \<in> layer adj s (Suc k)" for v
  proof -
    obtain u where "u \<in> set (concat phbfs)" "v \<in> set (adj u)" using layer_pred [OF v] assms(2) by blast
    then obtain i where "i < length (concat phbfs)" "concat phbfs ! i = u" by (metis in_set_conv_nth)
    then show ?thesis using \<open>v \<in> set (adj u)\<close> by (intro exI [of _ i]) simp
  qed
  moreover have "concat phbfs ! i \<in> layer adj s k" if "i < length (concat phbfs)" for i
    using nth_mem [OF that] unfolding assms(2) .
  moreover have "set (concat (map (\<lambda>_. []) act)) = {}" by simp
  ultimately show ?thesis using assms(1) unfolding round_inv_def labels_to_def length_map by simp
qed

lemma round_inv_end:
  assumes inv: "round_inv V dst adj s k l act tasks" and over: "\<forall>t \<in> set tasks. t = AtEdges []"
    and V: "s \<in> V" "\<forall>v \<in> V. set (adj v) \<subseteq> V"
  shows "labels_to V adj s (Suc k) l" "set (concat act) = layer adj s (Suc k)"
proof -
  have none: "\<not> pending dst adj (tasks ! i) v" "\<not> pushing (tasks ! i) v" if "i < length tasks" for i v
    using over nth_mem [OF that] by auto
  have lab: "l v = word_of_nat (Suc k)" "v \<in> set (concat act)" if v: "v \<in> layer adj s (Suc k)" for v
  proof -
    have "l v \<noteq> UINT64_MAX" using inv none(1) v unfolding round_inv_def by blast
    moreover have "v \<in> V" "\<not> near adj s k v" using near_in_V [OF V] v by (auto simp: layer_near)
    ultimately show "l v = word_of_nat (Suc k)" "v \<in> set (concat act)"
      using inv none(2) v unfolding round_inv_def by blast+
  qed
  have "set (concat act) \<subseteq> layer adj s (Suc k)" using inv unfolding round_inv_def by blast
  then show "set (concat act) = layer adj s (Suc k)" using lab(2) by blast
  have "l v = (if near adj s (Suc k) v then word_of_nat (hops adj s v) else UINT64_MAX)" if v: "v \<in> V" for v
  proof (cases "v \<in> layer adj s (Suc k)")
    case True
    then show ?thesis using lab(1) [OF True] by (auto simp: layer_def near_def)
  next
    case False
    then have "near adj s (Suc k) v \<longleftrightarrow> near adj s k v" by (simp add: near_Suc)
    then show ?thesis using inv v False unfolding round_inv_def by auto
  qed
  then show "labels_to V adj s (Suc k) l" by (simp add: labels_to_def)
qed

text \<open>The work left in a task.\<close>

fun task_weight :: "('v \<Rightarrow> 'v list) \<Rightarrow> ('v, 'h) bfs_task \<Rightarrow> nat" where
  "task_weight adj (NotStarted v) = 3 * length (adj v) + 1"
| "task_weight adj (AtEdges ehs) = 3 * length ehs"
| "task_weight adj (HasRead d x ehs) = 3 * length ehs + 2"
| "task_weight adj (MustPush d ehs) = 3 * length ehs + 1"

fun pc_weight :: "bfs_pc \<Rightarrow> nat" where
  "pc_weight InRound = 2" | "pc_weight AtLoop = 1" | "pc_weight Returned = 0"

definition bfs_weight :: "('v \<Rightarrow> 'v list) \<Rightarrow> nat \<Rightarrow> ('g, 'v, 'h) bfs_state \<Rightarrow> nat \<times> nat" where
  "bfs_weight adj n st = (3 * (n - unat (bs_dist st)) + pc_weight (bs_pc st), sum_list (map (task_weight adj) (bs_tasks st)))"

lemma sum_list_update_less:
  fixes xs :: "nat list"
  assumes "i < length xs" "y < xs ! i"
  shows "sum_list (xs[i := y]) < sum_list xs"
  using assms elem_le_sum_list [of i xs] by (simp add: sum_list_update)

subsection \<open>Graphs with labels\<close>

text \<open>
  What the search relies on in a graph: on the vertices of a well-formed graph the edges can be visited and lead to
  vertices, a label that was written is read back, and writing a label changes no other label and no edge.
\<close>

locale labelled_graph =
  fixes ops :: "('g, 'v, 'h) graph_ops" and gok :: "'g \<Rightarrow> bool" and verts :: "'g \<Rightarrow> 'v set"
    and adj :: "'g \<Rightarrow> 'v \<Rightarrow> 'v list" and lab :: "'g \<Rightarrow> 'v \<Rightarrow> u64"
  assumes edges: "gok g \<Longrightarrow> v \<in> verts g \<Longrightarrow> \<exists>ehs. go_edges ops g v = Some ehs \<and> map (go_getEdgeDst ops g) ehs = adj g v"
    and closed: "gok g \<Longrightarrow> v \<in> verts g \<Longrightarrow> set (adj g v) \<subseteq> verts g"
    and get: "gok g \<Longrightarrow> v \<in> verts g \<Longrightarrow> go_getData ops g v = Inr (lab g v)"
    and set_data: "gok g \<Longrightarrow> v \<in> verts g \<Longrightarrow> \<exists>g'. go_setData ops g v x = Inr g' \<and> gok g' \<and> verts g' = verts g \<and>
      adj g' = adj g \<and> go_getEdgeDst ops g' = go_getEdgeDst ops g \<and> (\<forall>w \<in> verts g. lab g' w = (if w = v then x else lab g w))"
    and few: "gok g \<Longrightarrow> finite (verts g) \<and> card (verts g) < 2 ^ 63"
begin

definition same_graph :: "'g \<Rightarrow> 'g \<Rightarrow> bool" where
  "same_graph g g' \<longleftrightarrow> gok g' \<and> verts g' = verts g \<and> adj g' = adj g \<and> go_getEdgeDst ops g' = go_getEdgeDst ops g"

lemma same_graph_trans: "same_graph g g' \<Longrightarrow> same_graph g' g'' \<Longrightarrow> same_graph g g''"
  by (simp add: same_graph_def)

lemma all_closed: "gok g \<Longrightarrow> \<forall>v \<in> verts g. set (adj g v) \<subseteq> verts g"
  using closed by blast

text \<open>A step of a task keeps the invariant of the round.\<close>

lemma task_step_keeps:
  assumes step: "task_step ops (word_of_nat (Suc k)) (g, act, t) (g', act', t')" and g: "gok g" "s \<in> verts g"
    and inv: "round_inv (verts g) (go_getEdgeDst ops g) (adj g) s k (lab g) act tasks"
    and i: "i < length tasks" "tasks ! i = t" and max: "word_of_nat (Suc k) \<noteq> UINT64_MAX"
  shows "same_graph g g'" "length act' = length act"
    "round_inv (verts g) (go_getEdgeDst ops g) (adj g) s k (lab g') act' (tasks[i := t'])"
proof -
  let ?dst = "go_getEdgeDst ops g" and ?adj = "adj g"
  note upd = round_inv_update [OF inv i(1) g(2) all_closed [OF g(1)] max]
  have t: "task_ok ?dst ?adj s k (lab g) t" using inv i unfolding round_inv_def by blast
  have inV: "v \<in> verts g" if "near ?adj s j v" for v j using near_in_V [OF g(2) all_closed [OF g(1)] that] .
  have "same_graph g g' \<and> length act' = length act \<and> round_inv (verts g) ?dst ?adj s k (lab g') act' (tasks[i := t'])"
    using step
  proof (cases rule: task_step.cases)
    case (task_start v ehs)
    have v: "v \<in> layer ?adj s k" using t task_start by simp
    then have "v \<in> verts g" using inV [of k v] by (simp add: near_def layer_def)
    then have m: "map ?dst ehs = ?adj v" using edges [OF g(1)] task_start by fastforce
    then have s: "?dst ` set ehs = set (?adj v)" by (metis list.set_map)
    have "near ?adj s (Suc k) w" if "w \<in> set (?adj v)" for w using layer_step [OF v that] by (simp add: near_def)
    then have "task_ok ?dst ?adj s k (lab g) t'" using s task_start by auto
    then show ?thesis using task_start g i(2) s by (auto simp: same_graph_def intro!: upd)
  next
    case (task_read eh d x ehs)
    have d: "near ?adj s (Suc k) d" using t task_read by simp
    then have x: "x = lab g d" using get [OF g(1) inV [OF d]] task_read by simp
    have "lab g d = UINT64_MAX \<Longrightarrow> d \<in> layer ?adj s (Suc k)"
    proof (rule ccontr)
      assume m: "lab g d = UINT64_MAX" and "d \<notin> layer ?adj s (Suc k)"
      then have n: "near ?adj s k d" using d by (simp add: layer_near)
      then have "word_of_nat (hops ?adj s d) = UINT64_MAX" using inv inV [OF d] m unfolding round_inv_def by metis
      moreover have "hops ?adj s d < card (verts g)"
        using n layer_bound [of "verts g" s ?adj "hops ?adj s d"] few [OF g(1)] g all_closed [OF g(1)]
        by (auto simp: near_def layer_def)
      then have "hops ?adj s d < 2 ^ 63" using few [OF g(1)] by simp
      ultimately show False by (simp add: UINT64_MAX_def u64_eq_iff_unat)
    qed
    then have "task_ok ?dst ?adj s k (lab g) t'" using t task_read d x by auto
    then show ?thesis using task_read g i(2) x by (auto simp: same_graph_def intro!: upd)
  next
    case (task_skip x d ehs)
    have "task_ok ?dst ?adj s k (lab g) t'" using t task_skip by auto
    then show ?thesis using task_skip g i(2) by (auto simp: same_graph_def intro!: upd)
  next
    case (task_set x d ehs)
    have d: "d \<in> layer ?adj s (Suc k)" "\<forall>eh \<in> set ehs. near ?adj s (Suc k) (?dst eh)" using t task_set by auto
    then have "d \<in> verts g" using inV by (auto simp: layer_near)
    have "go_setData ops g d (word_of_nat (Suc k)) = Inr g'" using task_set by (simp del: of_nat_Suc)
    then have g': "same_graph g g'" "\<forall>w \<in> verts g. lab g' w = (if w = d then word_of_nat (Suc k) else lab g w)"
      using set_data [OF g(1) \<open>d \<in> verts g\<close>, of "word_of_nat (Suc k)"] by (auto simp: same_graph_def simp del: of_nat_Suc)
    have tk: "task_ok ?dst ?adj s k (lab g') (MustPush d ehs)" using d g'(2) \<open>d \<in> verts g\<close> max by auto
    have "round_inv (verts g) ?dst ?adj s k (lab g') act (tasks[i := MustPush d ehs])"
    proof (rule upd)
      show "\<forall>v \<in> verts g. lab g' v = lab g v \<or> v \<in> layer ?adj s (Suc k) \<and> lab g' v = word_of_nat (Suc k)"
        using g'(2) d(1) by simp
      show "task_ok ?dst ?adj s k (lab g') (MustPush d ehs)" by (rule tk)
    next
      fix v
      assume "pending ?dst ?adj (tasks ! i) v" "v \<in> layer ?adj s (Suc k)" "lab g' v = UINT64_MAX"
      then show "pending ?dst ?adj (MustPush d ehs) v"
        using i(2) task_set g'(2) \<open>d \<in> verts g\<close> max by auto
    next
      fix v
      assume v: "v \<in> layer ?adj s (Suc k)" "lab g v = UINT64_MAX" "lab g' v \<noteq> UINT64_MAX"
      then have "v \<in> verts g" using inV by (auto simp: layer_near)
      then show "pushing (MustPush d ehs) v" using g'(2) v by (auto split: if_splits)
    next
      fix v
      assume "pushing (tasks ! i) v"
      then show "pushing (MustPush d ehs) v \<or> v \<in> set (concat act)" using i(2) task_set by simp
    qed simp_all
    then show ?thesis using g'(1) task_set by simp
  next
    case (task_push th d ehs)
    have d: "d \<in> layer ?adj s (Suc k)" "lab g d \<noteq> UINT64_MAX" "\<forall>eh \<in> set ehs. near ?adj s (Suc k) (?dst eh)"
      using t task_push by auto
    have c: "set (concat act') = insert d (set (concat act))"
    proof -
      have "act = take th act @ act ! th # drop (Suc th) act" using task_push by (simp add: id_take_nth_drop)
      then have "set (concat act) = set (concat (take th act)) \<union> set (act ! th) \<union> set (concat (drop (Suc th) act))"
        by (metis Un_assoc concat.simps(2) concat_append set_append)
      moreover have "act' = take th act @ (act ! th @ [d]) # drop (Suc th) act"
        using task_push by (simp add: upd_conv_take_nth_drop)
      ultimately show ?thesis by auto
    qed
    have "round_inv (verts g) ?dst ?adj s k (lab g) act' (tasks[i := AtEdges ehs])"
      by (rule upd) (use d i(2) task_push c in auto)
    then show ?thesis using task_push g by (simp add: same_graph_def)
  qed
  then show "same_graph g g'" "length act' = length act"
    "round_inv (verts g) ?dst ?adj s k (lab g') act' (tasks[i := t'])" by blast+
qed

lemma layer_verts: "gok g \<Longrightarrow> s \<in> verts g \<Longrightarrow> layer (adj g) s k \<subseteq> verts g"
  using near_in_V [of s "verts g" "adj g" k] all_closed by (auto simp: near_def layer_def)

lemma layer_card: "gok g \<Longrightarrow> s \<in> verts g \<Longrightarrow> layer (adj g) s k \<noteq> {} \<Longrightarrow> k < card (verts g)"
  using layer_bound [of "verts g" s "adj g" k] few all_closed by blast

text \<open>The state after \<open>n\<close> rounds, or in round \<open>n\<close>.\<close>

definition bfs_at :: "'g \<Rightarrow> 'v \<Rightarrow> nat \<Rightarrow> nat \<Rightarrow> ('g, 'v, 'h) bfs_state \<Rightarrow> bool" where
  "bfs_at g s tph n st \<longleftrightarrow> same_graph g (bs_graph st) \<and> bs_dist st = word_of_nat n \<and> n \<le> card (verts g) \<and>
     length (bs_active st) = length (bs_phbfs st) * tph \<and> bs_active st \<noteq> [] \<and>
     (case bs_pc st of
        AtLoop \<Rightarrow> labels_to (verts g) (adj g) s n (lab (bs_graph st)) \<and> set (concat (bs_phbfs st)) = layer (adj g) s n
      | InRound \<Rightarrow> 0 < n \<and> layer (adj g) s (n - 1) \<noteq> {} \<and>
          round_inv (verts g) (go_getEdgeDst ops g) (adj g) s (n - 1) (lab (bs_graph st)) (bs_active st) (bs_tasks st)
      | Returned \<Rightarrow> labels_to (verts g) (adj g) s n (lab (bs_graph st)) \<and> layer (adj g) s n = {})"

lemma round_not_max:
  assumes "gok g" "n \<le> card (verts g)"
  shows "(word_of_nat n :: u64) \<noteq> UINT64_MAX" "unat (word_of_nat n :: u64) = n"
proof -
  have "n < 2 ^ 63" using assms few [OF assms(1)] by simp
  then show "unat (word_of_nat n :: u64) = n" by simp
  then show "(word_of_nat n :: u64) \<noteq> UINT64_MAX" using \<open>n < 2 ^ 63\<close> by (simp add: UINT64_MAX_def u64_eq_iff_unat)
qed

lemma bfs_step_keeps:
  assumes g: "gok g" "s \<in> verts g" and inv: "bfs_at g s tph n st" and step: "bfs_step ops tph st st'"
  shows "\<exists>n'. bfs_at g s tph n' st'"
  using step
proof (cases rule: bfs_step.cases)
  case bfs_round
  have l: "labels_to (verts g) (adj g) s n (lab (bs_graph st))" "set (concat (bs_phbfs st)) = layer (adj g) s n"
    using inv bfs_round by (simp_all add: bfs_at_def)
  then have ne: "layer (adj g) s n \<noteq> {}" using bfs_round(3) by (auto simp: IsactiveIterationEmpty_iff)
  then have "Suc n \<le> card (verts g)" using layer_card [OF g] by (simp add: Suc_le_eq)
  moreover have "round_inv (verts g) (go_getEdgeDst ops g) (adj g) s n (lab (bs_graph st))
      (map (\<lambda>_. []) (bs_active st)) (map NotStarted (concat (bs_phbfs st)))"
    by (rule round_inv_start [OF l g(2) all_closed [OF g(1)]])
  ultimately have "bfs_at g s tph (Suc n) st'" using inv bfs_round ne by (simp add: bfs_at_def add.commute)
  then show ?thesis ..
next
  case (bfs_task i g' act' t')
  then have r: "0 < n" "round_inv (verts g) (go_getEdgeDst ops g) (adj g) s (n - 1) (lab (bs_graph st)) (bs_active st) (bs_tasks st)"
    and same: "same_graph g (bs_graph st)" and d: "bs_dist st = word_of_nat (Suc (n - 1))" and n: "Suc (n - 1) \<le> card (verts g)"
    using inv by (simp_all add: bfs_at_def)
  have g1: "gok (bs_graph st)" "s \<in> verts (bs_graph st)" using same g(2) by (simp_all add: same_graph_def)
  have r1: "round_inv (verts (bs_graph st)) (go_getEdgeDst ops (bs_graph st)) (adj (bs_graph st)) s (n - 1) (lab (bs_graph st))
      (bs_active st) (bs_tasks st)" using r(2) same by (simp add: same_graph_def)
  note k = task_step_keeps [OF bfs_task(4) [unfolded d] g1 r1 bfs_task(3) refl round_not_max(1) [OF g(1) n]]
  have "round_inv (verts g) (go_getEdgeDst ops g) (adj g) s (n - 1) (lab g') act' ((bs_tasks st)[i := t'])"
    using k(3) same by (simp add: same_graph_def)
  then have "bfs_at g s tph n st'" using inv bfs_task k(1,2) same_graph_trans [OF same] by (auto simp: bfs_at_def)
  then show ?thesis ..
next
  case bfs_flatten
  then have r: "0 < n" "round_inv (verts g) (go_getEdgeDst ops g) (adj g) s (n - 1) (lab (bs_graph st)) (bs_active st) (bs_tasks st)"
    and l: "length (bs_active st) = length (bs_phbfs st) * tph"
    using inv by (simp_all add: bfs_at_def)
  have n: "Suc (n - 1) = n" using r(1) by simp
  note e = round_inv_end [OF r(2) bfs_flatten(3) g(2) all_closed [OF g(1)], unfolded n]
  have "length (flatten_hosts tph (length (bs_phbfs st)) (bs_active st)) = length (bs_phbfs st)" by (simp add: flatten_hosts_def)
  then have "bfs_at g s tph n st'" using inv bfs_flatten e concat_flatten_hosts [OF l] by (simp add: bfs_at_def)
  then show ?thesis ..
next
  case bfs_return
  then have "set (concat (bs_phbfs st)) = layer (adj g) s n" "concat (bs_phbfs st) = []"
    using inv by (simp_all add: bfs_at_def IsactiveIterationEmpty_def)
  then have "layer (adj g) s n = {}" by (metis empty_set)
  then have "bfs_at g s tph n st'" using inv bfs_return by (simp add: bfs_at_def)
  then show ?thesis ..
qed

text \<open>A state that has not returned can take a step.\<close>

lemma task_can_step:
  assumes g: "gok g" and t: "task_ok (go_getEdgeDst ops g) (adj g) s k l t" "t \<noteq> AtEdges []" and s: "s \<in> verts g" and act: "act \<noteq> []"
  shows "\<exists>y. task_step ops dist (g, act, t) y"
proof -
  have V: "v \<in> verts g" if "near (adj g) s j v" for v j using near_in_V [OF s all_closed [OF g] that] .
  show ?thesis
  proof (cases t)
    case (NotStarted v)
    then have "v \<in> verts g" using t layer_verts [OF g s] by auto
    then show ?thesis using edges [OF g] NotStarted task_start by metis
  next
    case (AtEdges ehs)
    then obtain eh ehs' where "ehs = eh # ehs'" using t(2) by (cases ehs) auto
    then show ?thesis using t(1) AtEdges get [OF g V] task_read by (metis list.set_intros(1) task_ok.simps(2))
  next
    case (HasRead d x ehs)
    then have "d \<in> verts g" using t V by auto
    then obtain g' where "go_setData ops g d dist = Inr g'" using set_data [OF g] by metis
    then show ?thesis
      using HasRead task_skip [of x ops dist g act d ehs] task_set [of x ops g d dist g' act ehs] by (cases "x = UINT64_MAX") auto
  next
    case (MustPush d ehs)
    then show ?thesis using task_push [of 0 act] act by fastforce
  qed
qed

lemma bfs_can_step:
  assumes g: "gok g" "s \<in> verts g" and inv: "bfs_at g s tph n st" and pc: "bs_pc st \<noteq> Returned"
  shows "\<exists>st'. bfs_step ops tph st st'"
proof (cases "bs_pc st")
  case AtLoop
  then show ?thesis using bfs_round [of st] bfs_return [of st] by (cases "IsactiveIterationEmpty (bs_phbfs st)") blast+
next
  case InRound
  show ?thesis
  proof (cases "\<forall>t \<in> set (bs_tasks st). t = AtEdges []")
    case True
    then show ?thesis using bfs_flatten [of st] InRound by blast
  next
    case False
    then obtain i where i: "i < length (bs_tasks st)" "bs_tasks st ! i \<noteq> AtEdges []" by (metis in_set_conv_nth)
    have same: "same_graph g (bs_graph st)" and r: "round_inv (verts g) (go_getEdgeDst ops g) (adj g) s (n - 1) (lab (bs_graph st))
        (bs_active st) (bs_tasks st)" and act: "bs_active st \<noteq> []"
      using inv InRound by (simp_all add: bfs_at_def)
    have "task_ok (go_getEdgeDst ops g) (adj g) s (n - 1) (lab (bs_graph st)) (bs_tasks st ! i)"
      using r i unfolding round_inv_def by blast
    then have "\<exists>y. task_step ops (bs_dist st) (bs_graph st, bs_active st, bs_tasks st ! i) y"
      using same g i(2) act by (intro task_can_step [of _ s "n - 1"]) (simp_all add: same_graph_def)
    then show ?thesis using bfs_task [OF InRound i(1)] by (metis prod_cases3)
  qed
next
  case Returned
  then show ?thesis using pc by simp
qed

text \<open>Every step takes some of the work away.\<close>

lemma task_step_weight:
  assumes step: "task_step ops dist (g, act, t) (g', act', t')" and g: "gok g"
    and t: "task_ok (go_getEdgeDst ops g) (adj g) s k l t" and s: "s \<in> verts g"
  shows "task_weight (adj g) t' < task_weight (adj g) t"
  using step
proof (cases rule: task_step.cases)
  case (task_start v ehs)
  then have "v \<in> verts g" using t layer_verts [OF g s] by auto
  then have "map (go_getEdgeDst ops g) ehs = adj g v" using edges [OF g] task_start by fastforce
  then have "length ehs = length (adj g v)" by (metis length_map)
  then show ?thesis using task_start by simp
qed simp_all

lemma bfs_step_weight:
  assumes g: "gok g" "s \<in> verts g" and inv: "bfs_at g s tph n st" and step: "bfs_step ops tph st st'"
  shows "(bfs_weight (adj g) (card (verts g)) st', bfs_weight (adj g) (card (verts g)) st) \<in> less_than <*lex*> less_than"
  using step
proof (cases rule: bfs_step.cases)
  case bfs_round
  have "set (concat (bs_phbfs st)) = layer (adj g) s n" "concat (bs_phbfs st) \<noteq> []"
    using inv bfs_round by (simp_all add: bfs_at_def IsactiveIterationEmpty_def)
  then have "layer (adj g) s n \<noteq> {}" by (metis set_empty)
  then have n: "n < card (verts g)" by (rule layer_card [OF g])
  then have u: "unat (word_of_nat n :: u64) = n" "unat (word_of_nat (Suc n) :: u64) = Suc n"
    using round_not_max(2) [OF g(1), of n] round_not_max(2) [OF g(1), of "Suc n"] by simp_all
  have "bs_dist st = word_of_nat n" "bs_dist st + 1 = word_of_nat (Suc n)" using inv by (simp_all add: bfs_at_def)
  then have "unat (bs_dist st) = n" "unat (bs_dist st + 1) = Suc n" using u by metis+
  moreover have "Suc (3 * (card (verts g) - Suc n)) < 3 * (card (verts g) - n)" using n by linarith
  ultimately show ?thesis using bfs_round by (simp add: bfs_weight_def)
next
  case (bfs_task i g' act' t')
  have same: "same_graph g (bs_graph st)" and r: "round_inv (verts g) (go_getEdgeDst ops g) (adj g) s (n - 1) (lab (bs_graph st))
      (bs_active st) (bs_tasks st)" using inv bfs_task by (simp_all add: bfs_at_def)
  have "task_ok (go_getEdgeDst ops g) (adj g) s (n - 1) (lab (bs_graph st)) (bs_tasks st ! i)"
    using r bfs_task(3) unfolding round_inv_def by blast
  then have "task_weight (adj g) t' < task_weight (adj g) (bs_tasks st ! i)"
    using task_step_weight [OF bfs_task(4), of s "n - 1" "lab (bs_graph st)"] same g(2) by (simp add: same_graph_def)
  then have "sum_list (map (task_weight (adj g)) ((bs_tasks st)[i := t'])) < sum_list (map (task_weight (adj g)) (bs_tasks st))"
    using bfs_task(3) by (simp add: map_update sum_list_update_less)
  then show ?thesis using bfs_task by (simp add: bfs_weight_def)
qed (simp_all add: bfs_weight_def)

subsection \<open>Correctness of the search\<close>

definition bfs_start :: "'g \<Rightarrow> 'v \<Rightarrow> nat \<Rightarrow> ('g, 'v, 'h) bfs_state \<Rightarrow> bool" where
  "bfs_start g s tph st \<longleftrightarrow> gok g \<and> s \<in> verts g \<and> bs_graph st = g \<and> (\<forall>v \<in> verts g. lab g v = (if v = s then 0 else UINT64_MAX)) \<and>
     bs_dist st = 0 \<and> concat (bs_phbfs st) = [s] \<and> length (bs_active st) = length (bs_phbfs st) * tph \<and> bs_active st \<noteq> [] \<and>
     bs_pc st = AtLoop"

lemma bfs_start_at:
  assumes "bfs_start g s tph st"
  shows "bfs_at g s tph 0 st"
proof -
  have "near (adj g) s 0 v \<longleftrightarrow> v = s" for v using layer_0 [of "adj g" s] by (auto simp: near_def layer_def)
  moreover have "hops (adj g) s s = 0" using layer_0 [of "adj g" s] by (auto simp: layer_def)
  ultimately show ?thesis
    using assms layer_0 [of "adj g" s] by (simp add: bfs_start_def bfs_at_def same_graph_def labels_to_def del: set_concat)
qed

lemma bfs_reach_at:
  assumes "bfs_start g s tph st" "(bfs_step ops tph)\<^sup>*\<^sup>* st st'"
  shows "\<exists>n. bfs_at g s tph n st'"
  using assms(2)
proof (induction rule: rtranclp_induct)
  case base
  then show ?case using bfs_start_at [OF assms(1)] by blast
next
  case (step y z)
  then show ?case using bfs_step_keeps assms(1) by (auto simp: bfs_start_def)
qed

lemma bfs_labels:
  assumes "bfs_start g s tph st" "(bfs_step ops tph)\<^sup>*\<^sup>* st st'" "bs_pc st' = Returned" "v \<in> verts g"
  shows "lab (bs_graph st') v = (if reaches (adj g) s v then word_of_nat (hops (adj g) s v) else UINT64_MAX)"
    "reaches (adj g) s v \<Longrightarrow> hops (adj g) s v < card (verts g)"
proof -
  obtain n where n: "bfs_at g s tph n st'" using bfs_reach_at [OF assms(1,2)] ..
  have "near (adj g) s n v \<longleftrightarrow> reaches (adj g) s v"
    using n assms(3) layer_empty_hops [of "adj g" s n v] by (auto simp: near_def bfs_at_def)
  then show "lab (bs_graph st') v = (if reaches (adj g) s v then word_of_nat (hops (adj g) s v) else UINT64_MAX)"
    using n assms(3,4) by (simp add: bfs_at_def labels_to_def)
  assume "reaches (adj g) s v"
  then show "hops (adj g) s v < card (verts g)"
    using layer_card [of g s "hops (adj g) s v"] assms(1) by (auto simp: bfs_start_def layer_def)
qed

lemma bfs_returns:
  assumes "bfs_start g s tph st" "(bfs_step ops tph)\<^sup>*\<^sup>* st st1"
  shows "\<exists>st'. (bfs_step ops tph)\<^sup>*\<^sup>* st1 st' \<and> bs_pc st' = Returned"
proof -
  have g: "gok g" "s \<in> verts g" using assms(1) by (simp_all add: bfs_start_def)
  have "wf (inv_image (less_than <*lex*> less_than) (bfs_weight (adj g) (card (verts g))))"
    by (intro wf_inv_image wf_lex_prod wf_less_than)
  then have "(bfs_step ops tph)\<^sup>*\<^sup>* st st1 \<Longrightarrow> ?thesis"
  proof (induction st1 rule: wf_induct_rule)
    case (less x)
    obtain n where n: "bfs_at g s tph n x" using bfs_reach_at [OF assms(1) less.prems] ..
    show ?case
    proof (cases "bs_pc x = Returned")
      case False
      then obtain y where y: "bfs_step ops tph x y" using bfs_can_step [OF g n] by blast
      then have "(bfs_step ops tph)\<^sup>*\<^sup>* st y" using less.prems by simp
      then show ?thesis using less.IH [of y] bfs_step_weight [OF g n y] y by (auto intro: converse_rtranclp_into_rtranclp)
    qed auto
  qed
  then show ?thesis using assms(2) .
qed

lemma bfs_ends:
  assumes "bfs_start g s tph (f 0)"
  shows "\<not> (\<forall>i. bfs_step ops tph (f i) (f (Suc i)))"
proof
  assume f: "\<forall>i. bfs_step ops tph (f i) (f (Suc i))"
  have g: "gok g" "s \<in> verts g" using assms by (simp_all add: bfs_start_def)
  have "(bfs_step ops tph)\<^sup>*\<^sup>* (f 0) (f i)" for i using f by (induction i) (auto intro: rtranclp.rtrancl_into_rtrancl)
  then have "(f (Suc i), f i) \<in> inv_image (less_than <*lex*> less_than) (bfs_weight (adj g) (card (verts g)))" for i
    using bfs_reach_at [OF assms, of "f i"] bfs_step_weight [OF g, of tph _ "f i" "f (Suc i)"] f by (auto simp: in_inv_image)
  moreover have "wf (inv_image (less_than <*lex*> less_than) (bfs_weight (adj g) (card (verts g))))"
    by (intro wf_inv_image wf_lex_prod wf_less_than)
  ultimately show False unfolding wf_iff_no_infinite_down_chain by blast
qed

end

end
