(* ===== verification/Dist_Csr_Props.thy ===== *)
theory Dist_Csr_Props
  imports Dist_Local_Csr Bfs_Correct
begin

text \<open>
  The distributed graph: its invariant, the laws of its operations, and the loops that run over the hosts. It provides the
  interface of the breadth first search.
\<close>

subsection \<open>Well-formed distributed graphs\<close>

definition located :: "nat \<Rightarrow> 'a Array \<Rightarrow> bool" where
  "located h a \<longleftrightarrow> (\<forall>i < length (ar_elems a). host_of (elem_ptr a i) = word_of_nat h)"

text \<open>The graph of host \<open>h\<close>, with its vertex data inside the address space too, and all of it on node \<open>h\<close>.\<close>

definition host_ok :: "nat \<Rightarrow> ('v, 'e) LCSR \<Rightarrow> bool" where
  "host_ok h c \<longleftrightarrow> csr_ok c \<and> placed (vertexData c) \<and> located h (vertexEdgeOffsets c) \<and> located h (edgeDestinations c) \<and>
     located h (vertexData c)"

definition dl_verts :: "('v, 'e) DistLocalCSR \<Rightarrow> u64 set" where
  "dl_verts d = (\<Union>h < length (dl_csrs d). vertex_ptr (dl_csrs d ! h) ` {..<num_vertices (dl_csrs d ! h)})"

definition dl_ok :: "('v, 'e) DistLocalCSR \<Rightarrow> bool" where
  "dl_ok d \<longleftrightarrow> dl_csrs d \<noteq> [] \<and> length (dl_csrs d) < 2 ^ 63 \<and> sum_list (map num_vertices (dl_csrs d)) < 2 ^ 63 \<and>
     (\<forall>h < length (dl_csrs d). host_ok h (dl_csrs d ! h) \<and>
        (\<forall>e \<in> set (ar_elems (edgeDestinations (dl_csrs d ! h))). he_dst e \<in> dl_verts d))"

lemma dl_vertsE:
  assumes "v \<in> dl_verts d"
  obtains h i where "h < length (dl_csrs d)" "i < num_vertices (dl_csrs d ! h)" "v = vertex_ptr (dl_csrs d ! h) i"
  using assms by (auto simp: dl_verts_def)

lemma dl_vertsI: "h < length (dl_csrs d) \<Longrightarrow> i < num_vertices (dl_csrs d ! h) \<Longrightarrow> vertex_ptr (dl_csrs d ! h) i \<in> dl_verts d"
  by (auto simp: dl_verts_def)

lemma host_csr_ok: "dl_ok d \<Longrightarrow> h < length (dl_csrs d) \<Longrightarrow> csr_ok (dl_csrs d ! h)"
  by (simp add: dl_ok_def host_ok_def)

lemma unat_host: "dl_ok d \<Longrightarrow> h < length (dl_csrs d) \<Longrightarrow> unat (word_of_nat h :: u64) = h"
  by (simp add: dl_ok_def)

lemma getCSR_vertex:
  assumes "dl_ok d" "h < length (dl_csrs d)" "i \<le> num_vertices (dl_csrs d ! h)"
  shows "host_of (vertex_ptr (dl_csrs d ! h) i) = word_of_nat h" "getCSR d (vertex_ptr (dl_csrs d ! h) i) = dl_csrs d ! h"
proof -
  have ok: "host_ok h (dl_csrs d ! h)" using assms(1,2) by (simp add: dl_ok_def)
  then have "i < length (ar_elems (vertexEdgeOffsets (dl_csrs d ! h)))"
    using assms(3) by (auto simp: num_vertices_def host_ok_def csr_ok_def simp flip: length_greater_0_conv)
  then show "host_of (vertex_ptr (dl_csrs d ! h) i) = word_of_nat h" using ok by (simp add: host_ok_def located_def)
  then show "getCSR d (vertex_ptr (dl_csrs d ! h) i) = dl_csrs d ! h"
    by (simp add: getCSR_def getCachedCSR_def unat_host [OF assms(1,2)])
qed

lemma getCSR_edge:
  assumes "dl_ok d" "h < length (dl_csrs d)" "k < length (ar_elems (edgeDestinations (dl_csrs d ! h)))"
  shows "getCSR d (edge_ptr (dl_csrs d ! h) k) = dl_csrs d ! h"
  using assms by (simp add: dl_ok_def host_ok_def located_def getCSR_def getCachedCSR_def unat_host [OF assms(1,2)])

lemma DLCSR_edges_LCSR: "DLCSR_edges d p = LCSR_edges (getCSR d p) p"
  by (simp add: DLCSR_edges_def LCSR_edges_def)

text \<open>The destinations of the edges of a vertex, as a loop over \<^verbatim>\<open>edges\<close> sees them.\<close>

definition dl_adj :: "('v, 'e) DistLocalCSR \<Rightarrow> u64 \<Rightarrow> u64 list" where
  "dl_adj d v = (case RefSpan_visit (DLCSR_edges d v) of None \<Rightarrow> [] | Some ehs \<Rightarrow> map (DLCSR_getEdgeDst d) ehs)"

lemma dl_edges_visited:
  assumes d: "dl_ok d" and h: "h < length (dl_csrs d)" "i < num_vertices (dl_csrs d ! h)"
  defines "c \<equiv> dl_csrs d ! h"
  shows "RefSpan_visit (DLCSR_edges d (vertex_ptr c i)) = Some (map (edge_ptr c) [edge_offset c i..<edge_offset c (Suc i)])"
    "dl_adj d (vertex_ptr c i) = out_edges c i"
proof -
  have c: "csr_ok c" using host_csr_ok [OF d h(1)] by (simp add: c_def)
  have i: "i < num_vertices c" using h by (simp add: c_def)
  have g: "getCSR d (vertex_ptr c i) = c" using getCSR_vertex(2) [OF d h(1), of i] h(2) by (simp add: c_def)
  show v: "RefSpan_visit (DLCSR_edges d (vertex_ptr c i)) = Some (map (edge_ptr c) [edge_offset c i..<edge_offset c (Suc i)])"
    using edges_visited(1) [OF c i] by (simp add: DLCSR_edges_LCSR g)
  have "DLCSR_getEdgeDst d (edge_ptr c k) = LCSR_getEdgeDst c (edge_ptr c k)" if "k < edge_offset c (Suc i)" for k
    using getCSR_edge [OF d h(1), of k] that edge_offset_bounds(2) [OF c i]
    by (simp add: DLCSR_getEdgeDst_def LCSR_getEdgeDst_def c_def)
  then show "dl_adj d (vertex_ptr c i) = out_edges c i"
    unfolding edges_visited(2) [OF c i, symmetric] by (simp add: dl_adj_def v)
qed

lemma out_edges_subset:
  "set (out_edges c i) \<subseteq> he_dst ` set (ar_elems (edgeDestinations c))"
  by (auto simp: out_edges_def segment_def dest!: in_set_takeD in_set_dropD)

lemma dl_adj_closed:
  assumes "dl_ok d" "v \<in> dl_verts d"
  shows "set (dl_adj d v) \<subseteq> dl_verts d"
  using assms(2)
proof (cases rule: dl_vertsE)
  case (1 h i)
  then have "\<forall>e \<in> set (ar_elems (edgeDestinations (dl_csrs d ! h))). he_dst e \<in> dl_verts d"
    using assms(1) by (simp add: dl_ok_def)
  then show ?thesis using dl_edges_visited(2) [OF assms(1) 1(1,2)] 1(3) out_edges_subset [of "dl_csrs d ! h" i] by auto
qed

lemma card_dl_verts:
  assumes "dl_ok d"
  shows "finite (dl_verts d)" "card (dl_verts d) < 2 ^ 63"
proof -
  show "finite (dl_verts d)" by (simp add: dl_verts_def)
  have "card (dl_verts d) \<le> (\<Sum>h < length (dl_csrs d). card (vertex_ptr (dl_csrs d ! h) ` {..<num_vertices (dl_csrs d ! h)}))"
    unfolding dl_verts_def by (rule card_UN_le) simp
  also have "\<dots> \<le> (\<Sum>h < length (dl_csrs d). num_vertices (dl_csrs d ! h))"
    by (rule sum_mono) (metis card_image_le card_lessThan finite_lessThan)
  also have "\<dots> = sum_list (map num_vertices (dl_csrs d))" by (simp add: sum_list_sum_nth atLeast0LessThan)
  finally show "card (dl_verts d) < 2 ^ 63" using assms by (simp add: dl_ok_def)
qed

subsection \<open>Writing vertex data\<close>

text \<open>A graph that differs from another in the values of its vertex data at most.\<close>

definition vdata_csr :: "('v, 'e) LCSR \<Rightarrow> ('v, 'e) LCSR \<Rightarrow> bool" where
  "vdata_csr c c' \<longleftrightarrow> (\<exists>xs. length xs = length (ar_elems (vertexData c)) \<and> c' = c\<lparr>vertexData := (vertexData c)\<lparr>ar_elems := xs\<rparr>\<rparr>)"

definition vdata_only :: "('v, 'e) DistLocalCSR \<Rightarrow> ('v, 'e) DistLocalCSR \<Rightarrow> bool" where
  "vdata_only d d' \<longleftrightarrow> length (dl_csrs d') = length (dl_csrs d) \<and> dl_v2pm d' = dl_v2pm d \<and>
     (\<forall>n. vdata_csr (dl_csrs d ! n) (dl_csrs d' ! n))"

lemma vdata_csr_fields:
  assumes "vdata_csr c c'"
  shows "vertexEdgeOffsets c' = vertexEdgeOffsets c" "edgeDestinations c' = edgeDestinations c"
    "tokenToTopology c' = tokenToTopology c" "topologyToToken c' = topologyToToken c" "edgeData c' = edgeData c"
    "num_vertices c' = num_vertices c" "ar_data (vertexData c') = ar_data (vertexData c)"
    "ar_size (vertexData c') = ar_size (vertexData c)" "length (ar_elems (vertexData c')) = length (ar_elems (vertexData c))"
    "csr_ok c' = csr_ok c" "host_ok h c' = host_ok h c"
proof -
  obtain xs where "length xs = length (ar_elems (vertexData c))" "c' = c\<lparr>vertexData := (vertexData c)\<lparr>ar_elems := xs\<rparr>\<rparr>"
    using assms unfolding vdata_csr_def by blast
  then show "vertexEdgeOffsets c' = vertexEdgeOffsets c" "edgeDestinations c' = edgeDestinations c"
    "tokenToTopology c' = tokenToTopology c" "topologyToToken c' = topologyToToken c" "edgeData c' = edgeData c"
    "num_vertices c' = num_vertices c" "ar_data (vertexData c') = ar_data (vertexData c)"
    "ar_size (vertexData c') = ar_size (vertexData c)" "length (ar_elems (vertexData c')) = length (ar_elems (vertexData c))"
    "csr_ok c' = csr_ok c" "host_ok h c' = host_ok h c"
    by (simp_all add: num_vertices_def csr_ok_def offsets_ok_def edge_offset_def Array_ok_def host_ok_def placed_def
        located_def addr_of_def)
qed

lemma vdata_csr_refl: "vdata_csr c c"
  unfolding vdata_csr_def by (rule exI [of _ "ar_elems (vertexData c)"]) simp

lemma vdata_csr_trans: "vdata_csr c c' \<Longrightarrow> vdata_csr c' c'' \<Longrightarrow> vdata_csr c c''"
  unfolding vdata_csr_def by auto

lemma vdata_only_refl: "vdata_only d d"
  by (simp add: vdata_only_def vdata_csr_refl)

lemma vdata_only_trans: "vdata_only d d' \<Longrightarrow> vdata_only d' d'' \<Longrightarrow> vdata_only d d''"
  unfolding vdata_only_def by (auto intro: vdata_csr_trans)

lemma vdata_only_same:
  assumes "vdata_only d d'"
  shows "dl_verts d' = dl_verts d" "dl_ok d' = dl_ok d" "DLCSR_edges d' = DLCSR_edges d" "DLCSR_getEdgeDst d' = DLCSR_getEdgeDst d"
    "dl_adj d' = dl_adj d" "DLCSR_getTopologyID hash here d' = DLCSR_getTopologyID hash here d"
proof -
  have n: "length (dl_csrs d') = length (dl_csrs d)" "dl_v2pm d' = dl_v2pm d"
    and c: "vdata_csr (dl_csrs d ! i) (dl_csrs d' ! i)" for i
    using assms by (simp_all add: vdata_only_def)
  note f = vdata_csr_fields [OF c]
  show v: "dl_verts d' = dl_verts d" by (simp add: dl_verts_def n f)
  have "map num_vertices (dl_csrs d') = map num_vertices (dl_csrs d)" using n f by (intro nth_equalityI) simp_all
  moreover have "dl_csrs d' \<noteq> [] \<longleftrightarrow> dl_csrs d \<noteq> []" using n by (metis length_0_conv)
  ultimately show "dl_ok d' = dl_ok d" by (simp add: dl_ok_def n f v)
  show e: "DLCSR_edges d' = DLCSR_edges d" "DLCSR_getEdgeDst d' = DLCSR_getEdgeDst d"
    by (simp_all add: fun_eq_iff DLCSR_edges_def DLCSR_getEdgeDst_def getCSR_def getCachedCSR_def f)
  show "dl_adj d' = dl_adj d" by (rule ext) (simp add: dl_adj_def e split: option.split)
  have r: "relaxedGetTopologyID hash (getCachedCSR d' i) t = relaxedGetTopologyID hash (getCachedCSR d i) t" for i t
    by (simp add: relaxedGetTopologyID_def getCachedCSR_def f)
  then have "getGlobalTopologyID hash d' t = getGlobalTopologyID hash d t" for t
    by (simp add: getGlobalTopologyID_def LCSR_getTopologyID_def numVHosts_def n)
  then show "DLCSR_getTopologyID hash here d' = DLCSR_getTopologyID hash here d"
    by (intro ext) (simp add: DLCSR_getTopologyID_def r split: option.split prod.split)
qed

lemma set_vdata:
  assumes "h < length (dl_csrs d)"
  defines "c \<equiv> dl_csrs d ! h"
  shows "vdata_only d (d\<lparr>dl_csrs := (dl_csrs d)[h := c\<lparr>vertexData := (vertexData c)\<lparr>ar_elems := (ar_elems (vertexData c))[i := x]\<rparr>\<rparr>]\<rparr>)"
proof -
  have "vdata_csr c (c\<lparr>vertexData := (vertexData c)\<lparr>ar_elems := (ar_elems (vertexData c))[i := x]\<rparr>\<rparr>)"
    unfolding vdata_csr_def by (rule exI [of _ "(ar_elems (vertexData c))[i := x]"]) simp
  then have "vdata_csr (dl_csrs d ! n) ((dl_csrs d)[h := c\<lparr>vertexData := (vertexData c)\<lparr>ar_elems := (ar_elems (vertexData c))[i := x]\<rparr>\<rparr>] ! n)" for n
    using assms(1) by (cases "n = h") (simp_all add: c_def vdata_csr_refl)
  then show ?thesis by (simp add: vdata_only_def)
qed

text \<open>The label of a vertex.\<close>

definition vdata_at :: "('v, 'e) DistLocalCSR \<Rightarrow> nat \<Rightarrow> nat \<Rightarrow> 'v" where
  "vdata_at d h i = ar_elems (vertexData (dl_csrs d ! h)) ! i"

lemma DLCSR_getData_ptr:
  assumes "dl_ok d" "h < length (dl_csrs d)" "i < num_vertices (dl_csrs d ! h)"
  shows "DLCSR_getData d (vertex_ptr (dl_csrs d ! h) i) = Inr (vdata_at d h i)"
  using LCSR_getData_ptr [OF host_csr_ok [OF assms(1,2)], of i] getCSR_vertex(2) [OF assms(1,2), of i] assms(3)
  by (simp add: DLCSR_getData_def vdata_at_def)

lemma DLCSR_setData_ptr:
  assumes d: "dl_ok d" and h: "h < length (dl_csrs d)" "i < num_vertices (dl_csrs d ! h)"
  shows "\<exists>d'. DLCSR_setData d (vertex_ptr (dl_csrs d ! h) i) x = Inr d' \<and> vdata_only d d' \<and>
    (\<forall>h' < length (dl_csrs d). \<forall>i' < num_vertices (dl_csrs d ! h').
       vdata_at d' h' i' = (if h' = h \<and> i' = i then x else vdata_at d h' i'))"
proof -
  let ?c = "dl_csrs d ! h"
  let ?c' = "?c\<lparr>vertexData := (vertexData ?c)\<lparr>ar_elems := (ar_elems (vertexData ?c))[i := x]\<rparr>\<rparr>"
  have c: "csr_ok ?c" by (rule host_csr_ok [OF d h(1)])
  have "DLCSR_setData d (vertex_ptr ?c i) x = Inr (d\<lparr>dl_csrs := (dl_csrs d)[h := ?c']\<rparr>)"
    using LCSR_setData_ptr [OF c, of i x] getCSR_vertex [OF d h(1), of i] h(2) unat_host [OF d h(1)]
    by (simp add: DLCSR_setData_def set_csr_def)
  moreover have "length (ar_elems (vertexData ?c)) = num_vertices ?c" using c by (simp add: csr_ok_def)
  ultimately show ?thesis
    using set_vdata [OF h(1), of i x] h by (auto simp: vdata_at_def nth_list_update)
qed

lemma vertex_ptr_inject:
  assumes d: "dl_ok d" and h: "h < length (dl_csrs d)" "i < num_vertices (dl_csrs d ! h)"
    and h': "h' < length (dl_csrs d)" "i' < num_vertices (dl_csrs d ! h')"
  shows "vertex_ptr (dl_csrs d ! h) i = vertex_ptr (dl_csrs d ! h') i' \<longleftrightarrow> h = h' \<and> i = i'"
proof
  assume eq: "vertex_ptr (dl_csrs d ! h) i = vertex_ptr (dl_csrs d ! h') i'"
  have "(word_of_nat h :: u64) = word_of_nat h'"
    using getCSR_vertex(1) [OF d h(1), of i] getCSR_vertex(1) [OF d h'(1), of i'] h h' eq by simp
  then have hh: "h = h'" using unat_host [OF d h(1)] unat_host [OF d h'(1)] by metis
  have "placed (vertexEdgeOffsets (dl_csrs d ! h))" using host_csr_ok [OF d h(1)] by (simp add: csr_ok_def)
  then have "i = i'" using eq elem_ptr_inject [of "vertexEdgeOffsets (dl_csrs d ! h)" i i'] h h' hh csr_ok_size(1) [OF host_csr_ok [OF d h(1)]] by simp
  then show "h = h' \<and> i = i'" using hh by simp
qed simp

subsection \<open>The interface of the search\<close>

definition dlcsr_ops :: "(u64 \<Rightarrow> u64) \<Rightarrow> u64 \<Rightarrow> ((u64, 'e) DistLocalCSR, u64, u64) graph_ops" where
  "dlcsr_ops hash here = \<lparr>go_edges = (\<lambda>d v. RefSpan_visit (DLCSR_edges d v)), go_getEdgeDst = DLCSR_getEdgeDst,
     go_getData = DLCSR_getData, go_setData = DLCSR_setData, go_getTopologyID = DLCSR_getTopologyID hash here,
     go_setAllData = DLCSR_setAllData\<rparr>"

definition dl_label :: "(u64, 'e) DistLocalCSR \<Rightarrow> u64 \<Rightarrow> u64" where
  "dl_label d v = (case DLCSR_getData d v of Inl _ \<Rightarrow> 0 | Inr x \<Rightarrow> x)"

lemma dl_label_ptr:
  assumes "dl_ok d" "h < length (dl_csrs d)" "i < num_vertices (dl_csrs d ! h)"
  shows "dl_label d (vertex_ptr (dl_csrs d ! h) i) = vdata_at d h i"
  by (simp add: dl_label_def DLCSR_getData_ptr [OF assms])

interpretation dl: labelled_graph "dlcsr_ops hash here" dl_ok dl_verts dl_adj dl_label
  for hash :: "u64 \<Rightarrow> u64" and here :: u64
proof unfold_locales
  fix d :: "(u64, 'e) DistLocalCSR" and v x :: u64
  assume d: "dl_ok d"
  show "finite (dl_verts d) \<and> card (dl_verts d) < 2 ^ 63" using card_dl_verts [OF d] by simp
  assume v: "v \<in> dl_verts d"
  then obtain h i where hi: "h < length (dl_csrs d)" "i < num_vertices (dl_csrs d ! h)" "v = vertex_ptr (dl_csrs d ! h) i"
    by (rule dl_vertsE)
  show "set (dl_adj d v) \<subseteq> dl_verts d" by (rule dl_adj_closed [OF d v])
  show "go_getData (dlcsr_ops hash here) d v = Inr (dl_label d v)"
    using DLCSR_getData_ptr [OF d hi(1,2)] hi(3) by (simp add: dlcsr_ops_def dl_label_def)
  show "\<exists>ehs. go_edges (dlcsr_ops hash here) d v = Some ehs \<and> map (go_getEdgeDst (dlcsr_ops hash here) d) ehs = dl_adj d v"
    using dl_edges_visited(1) [OF d hi(1,2)] hi(3) by (simp add: dlcsr_ops_def dl_adj_def)
  obtain d' where d': "DLCSR_setData d v x = Inr d'" "vdata_only d d'"
    "\<forall>h' < length (dl_csrs d). \<forall>i' < num_vertices (dl_csrs d ! h'). vdata_at d' h' i' = (if h' = h \<and> i' = i then x else vdata_at d h' i')"
    using DLCSR_setData_ptr [OF d hi(1,2), of x] hi(3) by blast
  note same = vdata_only_same [OF d'(2)]
  have "dl_label d' w = (if w = v then x else dl_label d w)" if w: "w \<in> dl_verts d" for w
    using w
  proof (cases rule: dl_vertsE)
    case (1 h' i')
    have "vertexEdgeOffsets (dl_csrs d' ! h') = vertexEdgeOffsets (dl_csrs d ! h')" "num_vertices (dl_csrs d' ! h') = num_vertices (dl_csrs d ! h')"
      "length (dl_csrs d') = length (dl_csrs d)"
      using d'(2) vdata_csr_fields [of "dl_csrs d ! h'" "dl_csrs d' ! h'"] by (auto simp: vdata_only_def)
    then show ?thesis
      using dl_label_ptr [of d' h' i'] dl_label_ptr [OF d 1(1,2)] 1 d d'(3) same(2) hi vertex_ptr_inject [OF d 1(1,2) hi(1,2)] by auto
  qed
  then show "\<exists>d'. go_setData (dlcsr_ops hash here) d v x = Inr d' \<and> dl_ok d' \<and> dl_verts d' = dl_verts d \<and> dl_adj d' = dl_adj d \<and>
      go_getEdgeDst (dlcsr_ops hash here) d' = go_getEdgeDst (dlcsr_ops hash here) d \<and>
      (\<forall>w \<in> dl_verts d. dl_label d' w = (if w = v then x else dl_label d w))"
    using d'(1) same d by (simp add: dlcsr_ops_def)
qed

end
