(* ===== verification/Sssp_Dlcsr.thy ===== *)
theory Sssp_Dlcsr
  imports Dist_Csr_Iter
begin

text \<open>
  \<^verbatim>\<open>SSSP_DLCSR\<close> on the distributed graph: from the first write of the labels to the end of the search.
\<close>

subsection \<open>Writing all labels\<close>

lemma vdata_ptr_inject:
  assumes d: "dl_ok d" and h: "h < length (dl_csrs d)" "i < num_vertices (dl_csrs d ! h)"
    and h': "h' < length (dl_csrs d)" "i' < num_vertices (dl_csrs d ! h')"
  shows "vdata_ptr d h i = vdata_ptr d h' i' \<longleftrightarrow> h = h' \<and> i = i'"
proof
  assume eq: "vdata_ptr d h i = vdata_ptr d h' i'"
  have "(word_of_nat h :: u64) = word_of_nat h'" using vdata_host(3) [OF d h] vdata_host(3) [OF d h'] eq by simp
  then have "h = h'" using unat_host [OF d h(1)] unat_host [OF d h'(1)] by metis
  then show "h = h' \<and> i = i'"
    using eq elem_ptr_inject [OF vdata_host(1) [OF d h(1)], of i i'] vdata_host(2) [OF d h(1)] h h' by simp
qed simp

lemma vdata_only_ptrs:
  assumes "vdata_only d d'"
  shows "length (dl_csrs d') = length (dl_csrs d)" "num_vertices (dl_csrs d' ! h) = num_vertices (dl_csrs d ! h)"
    "vertex_ptr (dl_csrs d' ! h) i = vertex_ptr (dl_csrs d ! h) i" "vdata_ptr d' h i = vdata_ptr d h i"
  using assms vdata_csr_fields [of "dl_csrs d ! h" "dl_csrs d' ! h"] by (auto simp: vdata_only_def addr_of_def)

lemma write_vertexData_ptr:
  assumes d: "dl_ok d" and h: "h < length (dl_csrs d)" "i < num_vertices (dl_csrs d ! h)"
  shows "vdata_only d (write_vertexData (vdata_ptr d h i) x d)"
    "h' < length (dl_csrs d) \<Longrightarrow> i' < num_vertices (dl_csrs d ! h') \<Longrightarrow>
      vdata_at (write_vertexData (vdata_ptr d h i) x d) h' i' = (if vdata_ptr d h' i' = vdata_ptr d h i then x else vdata_at d h' i')"
proof -
  let ?c = "dl_csrs d ! h"
  let ?c' = "?c\<lparr>vertexData := (vertexData ?c)\<lparr>ar_elems := (ar_elems (vertexData ?c))[i := x]\<rparr>\<rparr>"
  note v = vdata_host [OF d h(1)]
  have "i < 2 ^ 64" using h(2) csr_ok_size(3) [OF host_csr_ok [OF d h(1)]] by simp
  then have "unat (ptr_diff sizeof_ptr (vdata_ptr d h i) (ar_data (vertexData ?c))) = i"
    using ptr_diff_elem [OF v(1), of 0 i] v(2) h(2) by simp
  then have w: "write_vertexData (vdata_ptr d h i) x d = d\<lparr>dl_csrs := (dl_csrs d)[h := ?c']\<rparr>"
    using v(3) [OF h(2)] unat_host [OF d h(1)] by (simp add: write_vertexData_def getCSR_def getCachedCSR_def set_csr_def Array_set_def Let_def)
  then show "vdata_only d (write_vertexData (vdata_ptr d h i) x d)" using set_vdata [OF h(1), of i x] by simp
  have len: "length (ar_elems (vertexData ?c)) = num_vertices ?c" using host_csr_ok [OF d h(1)] by (simp add: csr_ok_def)
  assume h': "h' < length (dl_csrs d)" "i' < num_vertices (dl_csrs d ! h')"
  then show "vdata_at (write_vertexData (vdata_ptr d h i) x d) h' i' = (if vdata_ptr d h' i' = vdata_ptr d h i then x else vdata_at d h' i')"
    unfolding w vdata_ptr_inject [OF d h' h] using h len by (auto simp: vdata_at_def nth_list_update)
qed

lemma write_all:
  assumes "dl_ok d" "\<forall>r \<in> set refs. \<exists>h i. h < length (dl_csrs d) \<and> i < num_vertices (dl_csrs d ! h) \<and> r = vdata_ptr d h i"
  shows "vdata_only d (fold (\<lambda>ref. write_vertexData ref x) refs d) \<and>
    (\<forall>h < length (dl_csrs d). \<forall>i < num_vertices (dl_csrs d ! h).
       vdata_at (fold (\<lambda>ref. write_vertexData ref x) refs d) h i = (if vdata_ptr d h i \<in> set refs then x else vdata_at d h i))"
  using assms
proof (induction refs arbitrary: d)
  case Nil
  then show ?case by (simp add: vdata_only_refl)
next
  case (Cons r refs)
  then obtain h i where hi: "h < length (dl_csrs d)" "i < num_vertices (dl_csrs d ! h)" "r = vdata_ptr d h i" by auto
  let ?d = "write_vertexData r x d"
  have vo: "vdata_only d ?d" using write_vertexData_ptr(1) [OF Cons.prems(1) hi(1,2)] hi(3) by simp
  have at: "vdata_at ?d h' i' = (if vdata_ptr d h' i' = r then x else vdata_at d h' i')"
    if "h' < length (dl_csrs d)" "i' < num_vertices (dl_csrs d ! h')" for h' i'
    using write_vertexData_ptr(2) [OF Cons.prems(1) hi(1,2) that] hi(3) by simp
  have ok: "dl_ok ?d" using vdata_only_same(2) [OF vo] Cons.prems(1) by simp
  have "\<forall>r \<in> set refs. \<exists>h i. h < length (dl_csrs ?d) \<and> i < num_vertices (dl_csrs ?d ! h) \<and> r = vdata_ptr ?d h i"
    using Cons.prems(2) by (simp add: vdata_only_ptrs [OF vo])
  from Cons.IH [OF ok this] show ?case
    using vdata_only_trans [OF vo] at by (auto simp: vdata_only_ptrs [OF vo])
qed

lemma setAllData_spec:
  assumes "dl_ok d" "dl_full d"
  shows "\<exists>d'. DLCSR_setAllData d x = Some d' \<and> vdata_only d d' \<and>
    (\<forall>h < length (dl_csrs d). \<forall>i < num_vertices (dl_csrs d ! h). vdata_at d' h i = x)"
proof -
  let ?refs = "concat (map (\<lambda>h. map (vdata_ptr d h) [0..<num_vertices (dl_csrs d ! h)]) [0..<length (dl_csrs d)])"
  have "\<forall>r \<in> set ?refs. \<exists>h i. h < length (dl_csrs d) \<and> i < num_vertices (dl_csrs d ! h) \<and> r = vdata_ptr d h i"
  proof
    fix r
    assume "r \<in> set ?refs"
    then obtain h i where "h < length (dl_csrs d)" "i < num_vertices (dl_csrs d ! h)" "r = vdata_ptr d h i" by auto
    then show "\<exists>h i. h < length (dl_csrs d) \<and> i < num_vertices (dl_csrs d ! h) \<and> r = vdata_ptr d h i" by blast
  qed
  note w = write_all [OF assms(1) this, of x]
  have "set ?refs = (\<Union>h < length (dl_csrs d). vdata_ptr d h ` {..<num_vertices (dl_csrs d ! h)})"
    by (simp add: atLeast0LessThan)
  then have "vdata_ptr d h i \<in> set ?refs" if "h < length (dl_csrs d)" "i < num_vertices (dl_csrs d ! h)" for h i
    using that by blast
  then have "vdata_at (fold (\<lambda>ref. write_vertexData ref x) ?refs d) h i = x"
    if "h < length (dl_csrs d)" "i < num_vertices (dl_csrs d ! h)" for h i
    using conjunct2 [OF w, rule_format, OF that] that by (simp only: if_True)
  moreover have "DLCSR_setAllData d x = Some (fold (\<lambda>ref. write_vertexData ref x) ?refs d)"
    unfolding DLCSR_setAllData_def visit_vertexData_all [OF assms] by (rule bind.bind_lunit)
  ultimately show ?thesis using conjunct1 [OF w] by (intro exI conjI allI impI)
qed

subsection \<open>The search\<close>

lemma SSSP_start:
  fixes d :: "(u64, 'e) DistLocalCSR"
  assumes d: "dl_ok d" "dl_full d" and src: "DLCSR_getTopologyID hash here d src = Some (Inr s)" "s \<in> dl_verts d"
    and phbfs: "concat phbfs = []" "h0 < length phbfs" and act: "length active = length phbfs * tph" "0 < tph"
  shows "\<exists>st g. SSSP_DLCSR_start (dlcsr_ops hash here) h0 d src active phbfs = Some (Inr st) \<and> dl.bfs_start g s tph st \<and> vdata_only d g"
proof -
  let ?ops = "dlcsr_ops hash here :: ((u64, 'e) DistLocalCSR, u64, u64) graph_ops"
  obtain d1 where d1: "DLCSR_setAllData d UINT64_MAX = Some d1" "vdata_only d d1"
    "\<forall>h < length (dl_csrs d). \<forall>i < num_vertices (dl_csrs d ! h). vdata_at d1 h i = UINT64_MAX"
    using setAllData_spec [OF d] by blast
  note same = vdata_only_same [OF d1(2)] and p = vdata_only_ptrs [OF d1(2)]
  obtain h i where hi: "h < length (dl_csrs d)" "i < num_vertices (dl_csrs d ! h)" "s = vertex_ptr (dl_csrs d ! h) i"
    using src(2) by (rule dl_vertsE)
  have ok1: "dl_ok d1" using same(2) d by simp
  have hi1: "h < length (dl_csrs d1)" "i < num_vertices (dl_csrs d1 ! h)" "s = vertex_ptr (dl_csrs d1 ! h) i" using hi p by simp_all
  obtain g where g: "DLCSR_setData d1 s 0 = Inr g" "vdata_only d1 g"
    "\<forall>h' < length (dl_csrs d1). \<forall>i' < num_vertices (dl_csrs d1 ! h'). vdata_at g h' i' = (if h' = h \<and> i' = i then 0 else vdata_at d1 h' i')"
    using DLCSR_setData_ptr [OF ok1 hi1(1,2), of 0] hi1(3) by auto
  note samg = vdata_only_same [OF g(2)] and pg = vdata_only_ptrs [OF g(2)]
  have okg: "dl_ok g" using samg(2) ok1 by simp
  have lab: "dl_label g v = (if v = s then 0 else UINT64_MAX)" if v: "v \<in> dl_verts g" for v
    using v
  proof (cases rule: dl_vertsE)
    case (1 h' i')
    then have "dl_label g v = vdata_at g h' i'" using dl_label_ptr [OF okg] by simp
    moreover have "v = s \<longleftrightarrow> h' = h \<and> i' = i"
      using vertex_ptr_inject [OF ok1 _ _ hi1(1,2), of h' i'] 1 hi1(3) by (simp add: pg)
    ultimately show ?thesis using 1 g(3) d1(3) by (simp add: pg p)
  qed
  let ?st = "\<lparr>bs_graph = g, bs_dist = 0, bs_active = active, bs_phbfs = phbfs[h0 := phbfs ! h0 @ [s]], bs_tasks = [], bs_pc = AtLoop\<rparr>"
  have c: "concat (phbfs[h0 := phbfs ! h0 @ [s]]) = [s]"
  proof -
    have "concat (take h0 phbfs) = []" "phbfs ! h0 = []" "concat (drop (Suc h0) phbfs) = []"
      using phbfs by (auto dest: in_set_takeD in_set_dropD)
    then show ?thesis
      using phbfs(2) by (simp only: upd_conv_take_nth_drop concat_append concat.simps append_Nil append_Nil2)
  qed
  have "active \<noteq> []" using act phbfs(2) by (metis length_0_conv list.size(3) mult_is_0 not_less_zero)
  then have "dl.bfs_start g s tph ?st"
    using okg src(2) same samg lab c act unfolding dl.bfs_start_def by simp
  moreover have "SSSP_DLCSR_start ?ops h0 d src active phbfs = Some (Inr ?st)"
    using d1(1) g(1) src(1) same(6) by (simp add: SSSP_DLCSR_start_def dlcsr_ops_def)
  ultimately show ?thesis using vdata_only_trans [OF d1(2) g(2)] by blast
qed

text \<open>
  C8: the search labels every vertex with its distance. On a distributed graph in which every host has a vertex, and
  from a source token that the graph knows, \<^verbatim>\<open>SSSP_DLCSR\<close> starts without an abort. However the tasks of its rounds are then
  interleaved, every state can reach the return, no run goes on forever, and after the return the label
  of every vertex is the least number of edges of a path to it from the source, or \<^verbatim>\<open>UINT64_MAX\<close> without a path.
\<close>

theorem SSSP_DLCSR_correct:
  fixes d :: "(u64, 'e) DistLocalCSR"
  assumes "dl_ok d" "dl_full d" "DLCSR_getTopologyID hash here d src = Some (Inr s)" "s \<in> dl_verts d"
    and "concat phbfs = []" "h0 < length phbfs" "length active = length phbfs * tph" "0 < tph"
  shows "\<exists>st. SSSP_DLCSR_start (dlcsr_ops hash here) h0 d src active phbfs = Some (Inr st) \<and>
    (\<forall>st1. (bfs_step (dlcsr_ops hash here) tph)\<^sup>*\<^sup>* st st1 \<longrightarrow>
       (\<exists>st2. (bfs_step (dlcsr_ops hash here) tph)\<^sup>*\<^sup>* st1 st2 \<and> bs_pc st2 = Returned)) \<and>
    \<not> (\<exists>run. run 0 = st \<and> (\<forall>i. bfs_step (dlcsr_ops hash here) tph (run i) (run (Suc i)))) \<and>
    (\<forall>st1 v. (bfs_step (dlcsr_ops hash here) tph)\<^sup>*\<^sup>* st st1 \<and> bs_pc st1 = Returned \<and> v \<in> dl_verts d \<longrightarrow>
       DLCSR_getData (bs_graph st1) v =
         Inr (if reaches (dl_adj d) s v then word_of_nat (hops (dl_adj d) s v) else UINT64_MAX) \<and>
       (reaches (dl_adj d) s v \<longrightarrow> hops (dl_adj d) s v < 2 ^ 63))"
proof -
  obtain st g where st: "SSSP_DLCSR_start (dlcsr_ops hash here) h0 d src active phbfs = Some (Inr st)"
    "dl.bfs_start g s tph st" "vdata_only d g"
    using SSSP_start [OF assms] by blast
  note same = vdata_only_same [OF st(3)]
  have "DLCSR_getData (bs_graph st1) v = Inr (if reaches (dl_adj d) s v then word_of_nat (hops (dl_adj d) s v) else UINT64_MAX) \<and>
      (reaches (dl_adj d) s v \<longrightarrow> hops (dl_adj d) s v < 2 ^ 63)"
    if r: "(bfs_step (dlcsr_ops hash here) tph)\<^sup>*\<^sup>* st st1" "bs_pc st1 = Returned" and v: "v \<in> dl_verts d" for st1 v
  proof -
    have vg: "v \<in> dl_verts g" using v same by simp
    note l = dl.bfs_labels [OF st(2) r vg]
    obtain n where "dl.bfs_at hash here g s tph n st1" using dl.bfs_reach_at [OF st(2) r(1)] ..
    then have "dl_ok (bs_graph st1)" "v \<in> dl_verts (bs_graph st1)" using vg by (simp_all add: dl.bfs_at_def dl.same_graph_def)
    then have "DLCSR_getData (bs_graph st1) v = Inr (dl_label (bs_graph st1) v)" using dl.get [of "bs_graph st1" v hash here] by (simp add: dlcsr_ops_def)
    moreover have "card (dl_verts g) < 2 ^ 63" using card_dl_verts(2) assms(1) same by metis
    ultimately show ?thesis using l same by (auto intro: order.strict_trans)
  qed
  moreover have "\<not> (\<exists>run. run 0 = st \<and> (\<forall>i. bfs_step (dlcsr_ops hash here) tph (run i) (run (Suc i))))"
    using dl.bfs_ends [of g s tph _ hash here] st(2) by blast
  ultimately show ?thesis using st(1) dl.bfs_returns [OF st(2)] by blast
qed

subsection \<open>An example\<close>

text \<open>Two hosts; vertices 0 and 1 on the first one and 2 on the second, in a cycle, and the token 5 for vertex 0.\<close>

definition example_array :: "u64 \<Rightarrow> 'a list \<Rightarrow> 'a Array" where
  "example_array p xs = \<lparr>ar_data = p, ar_size = word_of_nat (length xs), ar_memoryType = MainMem, ar_elems = xs\<rparr>"

definition example_host :: "u64 \<Rightarrow> u64 list \<Rightarrow> u64 list \<Rightarrow> (u64, u64) HashTable \<Rightarrow> (u64, u64) LCSR" where
  "example_host base offs dsts t = \<lparr>
     vertexEdgeOffsets = example_array (base + 0x1000) (map (\<lambda>k. \<lparr>v_edgeBegin = base + 0x2000 + 8 * k\<rparr>) offs),
     edgeDestinations = example_array (base + 0x2000) (map (\<lambda>d. \<lparr>he_dst = d\<rparr>) dsts),
     vertexData = example_array (base + 0x3000) (map (\<lambda>_. 7) (tl offs)),
     edgeData = example_array (base + 0x4000) (map (\<lambda>_. 0) dsts),
     topologyToToken = example_array (base + 0x5000) (map (\<lambda>_. 0) (tl offs)), tokenToTopology = t\<rparr>"

definition example_tokens :: "(u64, u64) HashTable" where
  "example_tokens = HashTable_new\<lparr>h_size := 1, h_buffer := example_array 0x0800000000006000
     [\<lparr>e_key = 5, e_value = 0x0800000000001000, e_occupied = True\<rparr>, Entry_new, Entry_new, Entry_new, Entry_new, Entry_new, Entry_new, Entry_new]\<rparr>"

definition example_dlcsr :: "(u64, u64) DistLocalCSR" where
  "example_dlcsr = \<lparr>dl_csrs =
       [example_host 0x0800000000000000 [0, 1, 2] [0x0800000000001008, 0x0800100000001000] example_tokens,
        example_host 0x0800100000000000 [0, 1] [0x0800000000001000] HashTable_new],
     dl_numVertices = 3, dl_numEdges = 3, dl_v2pm = example_array 0x0800000000007000 [0, 1]\<rparr>"

lemma example_offsets_ok: "\<forall>c \<in> set (dl_csrs example_dlcsr). offsets_ok c"
  by code_simp

lemma example_hosts:
  "map host_of [0x0800000000001000, 0x0800000000001008, 0x0800000000001010, 0x0800000000002000, 0x0800000000002008,
     0x0800000000003000, 0x0800000000003008] = [0, 0, 0, 0, 0, 0, 0]"
  "map host_of [0x0800100000001000, 0x0800100000001008, 0x0800100000002000, 0x0800100000003000, 0x0800100000003008] = [1, 1, 1, 1, 1]"
  by code_simp+

lemma located_upt: "located h a \<longleftrightarrow> (\<forall>p \<in> set (map (elem_ptr a) [0..<length (ar_elems a)]). host_of p = word_of_nat h)"
  by (auto simp: located_def)

lemma example_located:
  "located 0 (vertexEdgeOffsets (dl_csrs example_dlcsr ! 0))" "located 0 (edgeDestinations (dl_csrs example_dlcsr ! 0))"
  "located 0 (vertexData (dl_csrs example_dlcsr ! 0))" "located 1 (vertexEdgeOffsets (dl_csrs example_dlcsr ! 1))"
  "located 1 (edgeDestinations (dl_csrs example_dlcsr ! 1))" "located 1 (vertexData (dl_csrs example_dlcsr ! 1))"
  using example_hosts by (simp_all add: located_upt example_dlcsr_def example_host_def example_array_def upt_rec
      addr_of_def ptr_add_def sizeof_ptr_def)

lemma example_closed:
  "\<forall>h < 2. \<forall>e \<in> set (ar_elems (edgeDestinations (dl_csrs example_dlcsr ! h))). he_dst e \<in> dl_verts example_dlcsr"
  by code_simp

lemma example_source: "DLCSR_getTopologyID (\<lambda>_. 0) 0 example_dlcsr 5 = Some (Inr 0x0800000000001000)"
  by code_simp


lemma example_host_ok:
  "host_ok 0 (dl_csrs example_dlcsr ! 0)" "host_ok 1 (dl_csrs example_dlcsr ! 1)"
  using example_located example_offsets_ok
  by (simp_all add: host_ok_def csr_ok_def)
    (simp_all add: placed_def Array_ok_def num_vertices_def example_dlcsr_def example_host_def example_array_def)

lemma example_ok: "dl_ok example_dlcsr" "dl_full example_dlcsr"
proof -
  have l: "length (dl_csrs example_dlcsr) = 2" by (simp add: example_dlcsr_def)
  have n: "num_vertices (dl_csrs example_dlcsr ! 0) = 2" "num_vertices (dl_csrs example_dlcsr ! 1) = 1"
    by (simp_all add: example_dlcsr_def example_host_def example_array_def num_vertices_def)
  have m: "map num_vertices (dl_csrs example_dlcsr) = [2, 1]"
    by (simp add: example_dlcsr_def example_host_def example_array_def num_vertices_def)
  have "host_ok h (dl_csrs example_dlcsr ! h)" if "h < 2" for h
    using example_host_ok that by (cases "h = 0") (auto simp: less_2_cases_iff)
  then show "dl_ok example_dlcsr"
    unfolding dl_ok_def l m using example_closed l by auto
  have "host_of (Array_end (vertexData (last (dl_csrs example_dlcsr)))) = 1"
    using example_hosts(2) by (simp add: example_dlcsr_def example_host_def example_array_def Array_end_def addr_of_def ptr_add_def sizeof_ptr_def)
  then show "dl_full example_dlcsr"
    unfolding dl_full_def l using n by (auto simp: less_2_cases_iff)
qed

lemma example_adj: "dl_adj example_dlcsr 0x0800000000001000 = [0x0800000000001008]"
  by code_simp

lemma example_verts: "dl_verts example_dlcsr = {0x0800000000001000, 0x0800000000001008, 0x0800100000001000}"
  by code_simp

lemma example_hops:
  "reaches (dl_adj example_dlcsr) 0x0800000000001000 0x0800000000001008"
  "hops (dl_adj example_dlcsr) 0x0800000000001000 0x0800000000001008 = 1"
proof -
  let ?adj = "dl_adj example_dlcsr" and ?s = "0x0800000000001000 :: u64" and ?v = "0x0800000000001008 :: u64"
  have "(?s, ?v) \<in> edge_rel ?adj ^^ 1" by (simp add: edge_rel_def example_adj)
  then have r: "reaches ?adj ?s ?v" "hops ?adj ?s ?v \<le> 1" by (rule path_reaches, rule hops_le)
  moreover have "?v \<notin> layer ?adj ?s 0" by (simp add: layer_0)
  ultimately have "hops ?adj ?s ?v \<noteq> 0" by (simp add: layer_def)
  then show "reaches ?adj ?s ?v" "hops ?adj ?s ?v = 1" using r by simp_all
qed

theorem SSSP_DLCSR_correct_witness:
  "\<exists>st. SSSP_DLCSR_start (dlcsr_ops (\<lambda>_. 0) 0) 0 example_dlcsr 5 [[], [], [], []] [[], []] = Some (Inr st) \<and>
     (\<exists>st2. (bfs_step (dlcsr_ops (\<lambda>_. 0) 0) 2)\<^sup>*\<^sup>* st st2 \<and> bs_pc st2 = Returned) \<and>
     (\<forall>st1. (bfs_step (dlcsr_ops (\<lambda>_. 0) 0) 2)\<^sup>*\<^sup>* st st1 \<and> bs_pc st1 = Returned \<longrightarrow>
        DLCSR_getData (bs_graph st1) 0x0800000000001008 = Inr 1)"
proof -
  let ?ops = "dlcsr_ops (\<lambda>_. 0) 0 :: ((u64, u64) DistLocalCSR, u64, u64) graph_ops"
  have "(0x0800000000001000 :: u64) \<in> dl_verts example_dlcsr" and v: "(0x0800000000001008 :: u64) \<in> dl_verts example_dlcsr"
    by (simp_all add: example_verts)
  from SSSP_DLCSR_correct [OF example_ok example_source this(1), of "[[], []]" 0 "[[], [], [], []]" 2]
  obtain st where st: "SSSP_DLCSR_start ?ops 0 example_dlcsr 5 [[], [], [], []] [[], []] = Some (Inr st)"
    "\<forall>st1. (bfs_step ?ops 2)\<^sup>*\<^sup>* st st1 \<longrightarrow> (\<exists>st2. (bfs_step ?ops 2)\<^sup>*\<^sup>* st1 st2 \<and> bs_pc st2 = Returned)"
    "\<forall>st1 v. (bfs_step ?ops 2)\<^sup>*\<^sup>* st st1 \<and> bs_pc st1 = Returned \<and> v \<in> dl_verts example_dlcsr \<longrightarrow>
       DLCSR_getData (bs_graph st1) v =
         Inr (if reaches (dl_adj example_dlcsr) 0x0800000000001000 v then word_of_nat (hops (dl_adj example_dlcsr) 0x0800000000001000 v)
              else UINT64_MAX) \<and>
       (reaches (dl_adj example_dlcsr) 0x0800000000001000 v \<longrightarrow> hops (dl_adj example_dlcsr) 0x0800000000001000 v < 2 ^ 63)"
    by auto
  have "DLCSR_getData (bs_graph st1) 0x0800000000001008 = Inr 1"
    if "(bfs_step ?ops 2)\<^sup>*\<^sup>* st st1" "bs_pc st1 = Returned" for st1
    using st(3) [rule_format, of st1 "0x0800000000001008"] that v example_hops by simp
  then show ?thesis using st(1,2) by blast
qed

text \<open>Blocks of distinct elements, one for every host.\<close>

lemma blocks_in_order:
  fixes host :: "'a \<Rightarrow> nat"
  assumes "\<And>h. h < n \<Longrightarrow> distinct (P h)" "\<And>h v. h < n \<Longrightarrow> v \<in> set (P h) \<Longrightarrow> host v = h"
  shows "distinct (concat (map P [0..<n])) \<and> sorted (map host (concat (map P [0..<n]))) \<and>
    (\<forall>v \<in> set (concat (map P [0..<n])). host v < n)"
  using assms
proof (induction n)
  case (Suc n)
  have "map host (P n) = replicate (length (P n)) n" using Suc.prems(2) [of n] by (intro nth_equalityI) simp_all
  then have "sorted (map host (P n))" by (simp only: sorted_replicate)
  then show ?case
    using Suc.IH Suc.prems by (fastforce simp: sorted_append)
qed simp

lemma visit_vertices_spec:
  assumes d: "dl_ok d" and full: "\<forall>h < length (dl_csrs d). 0 < num_vertices (dl_csrs d ! h)"
  shows "\<exists>vs. visit_vertices d = Some vs \<and> distinct vs \<and> set vs = dl_verts d \<and> sorted (map (unat \<circ> host_of) vs)"
proof -
  define P where "P = (\<lambda>h. map (vertex_ptr (dl_csrs d ! h)) [0..<num_vertices (dl_csrs d ! h)])"
  have s: "set (P h) = vertex_ptr (dl_csrs d ! h) ` {..<num_vertices (dl_csrs d ! h)}" for h by (simp add: P_def atLeast0LessThan)
  have dist: "distinct (P h)" if h: "h < length (dl_csrs d)" for h
  proof -
    have "inj_on (vertex_ptr (dl_csrs d ! h)) {..<num_vertices (dl_csrs d ! h)}"
      using vertex_ptr_inject [OF d h _ h] by (simp add: inj_on_def)
    then show ?thesis by (simp add: P_def distinct_map atLeast0LessThan)
  qed
  have host: "(unat \<circ> host_of) v = h" if h: "h < length (dl_csrs d)" and v: "v \<in> set (P h)" for h v
  proof -
    obtain i where "i < num_vertices (dl_csrs d ! h)" "v = vertex_ptr (dl_csrs d ! h) i" using v unfolding s by blast
    then show ?thesis using getCSR_vertex(1) [OF d h, of i] unat_host [OF d h] by simp
  qed
  let ?vs = "concat (map P [0..<length (dl_csrs d)])"
  have "set ?vs = dl_verts d" by (simp add: dl_verts_def s atLeast0LessThan)
  moreover have "visit_vertices d = Some ?vs" unfolding P_def by (rule visit_vertices_all [OF d full])
  ultimately show ?thesis
    using blocks_in_order [of "length (dl_csrs d)" P "unat \<circ> host_of", OF dist host] by blast
qed

text \<open>
  The ranges over the vertices of a distributed graph visit every vertex exactly once. When every host has a vertex the
  loop over \<^verbatim>\<open>vertices()\<close> ends; the vertices it visits are all the vertices of the graph, without repetition, in the
  order of the hosts.
\<close>

theorem DLCSR_vertices_complete:
  assumes "dl_ok d" "\<forall>h < length (dl_csrs d). 0 < num_vertices (dl_csrs d ! h)"
  shows "\<exists>vs. visit_vertices d = Some vs \<and> distinct vs \<and> set vs = dl_verts d \<and> sorted (map (unat \<circ> host_of) vs)"
  by (rule visit_vertices_spec [OF assms])

end
