(* ===== verification/Dist_Csr_Index.thy ===== *)
theory Dist_Csr_Index
  imports Sssp_Dlcsr
begin

text \<open>
  The dense numbering of the vertices of a distributed graph, and the positions at which the code misses a vertex: the
  lookup by index at the first vertex of a host, and the iterators at a host without vertices.
\<close>

subsection \<open>Vertex indices\<close>

definition first_index :: "('v, 'e) LCSR list \<Rightarrow> nat \<Rightarrow> nat" where
  "first_index cs h = sum_list (map num_vertices (take h cs))"

lemma first_index_Cons: "first_index (c # cs) (Suc h) = num_vertices c + first_index cs h"
  by (simp add: first_index_def)

lemma first_index_le:
  assumes "h < length cs"
  shows "first_index cs h + num_vertices (cs ! h) \<le> sum_list (map num_vertices cs)"
proof -
  have "cs = take h cs @ cs ! h # drop (Suc h) cs" by (rule id_take_nth_drop [OF assms])
  then have "sum_list (map num_vertices cs) = first_index cs h + num_vertices (cs ! h) + sum_list (map num_vertices (drop (Suc h) cs))"
    unfolding first_index_def by (metis add.assoc list.simps(9) map_append sum_list.Cons sum_list_append)
  then show ?thesis by simp
qed

lemma size_greater_iff:
  assumes "csr_ok c" "n < 2 ^ 64"
  shows "word_of_nat n > LCSR_size c \<longleftrightarrow> num_vertices c < n"
  using csr_ok_size(2) [OF assms(1)] assms(2) by (simp add: word_less_nat_alt)

lemma size_minus:
  assumes "csr_ok c" "num_vertices c \<le> n"
  shows "word_of_nat n - LCSR_size c = word_of_nat (n - num_vertices c)"
proof -
  have "LCSR_size c = word_of_nat (num_vertices c)" using csr_ok_size(2) [OF assms(1)] by (rule word_of_nat_eqI)
  then show ?thesis using assms(2) by (simp add: of_nat_diff)
qed

text \<open>The loop finds a vertex that is not the first of its host, and any vertex of the first host.\<close>

lemma topology_from_index_inside:
  assumes "\<forall>c \<in> set cs. csr_ok c" "h < length cs" "i \<le> num_vertices (cs ! h)" "0 < i \<or> h = 0"
    and "first_index cs h + i < 2 ^ 64"
  shows "topology_from_index cs (word_of_nat (first_index cs h + i)) = Some (vertex_ptr (cs ! h) i)"
  using assms
proof (induction cs arbitrary: h)
  case (Cons c cs)
  have c: "csr_ok c" using Cons.prems(1) by simp
  show ?case
  proof (cases h)
    case 0
    then have "\<not> word_of_nat i > LCSR_size c" using size_greater_iff [OF c, of i] Cons.prems(3,5) by (simp add: first_index_def)
    then show ?thesis using 0 by (simp add: first_index_def LCSR_getTopologyIDFromIndex_def)
  next
    case (Suc k)
    let ?n = "first_index (c # cs) h + i"
    have "?n = num_vertices c + (first_index cs k + i)" by (simp add: Suc first_index_Cons)
    then have "word_of_nat ?n > LCSR_size c" "word_of_nat ?n - LCSR_size c = word_of_nat (first_index cs k + i)"
      using size_greater_iff [OF c, of ?n] size_minus [OF c, of ?n] Cons.prems(4,5) Suc by auto
    moreover have "topology_from_index cs (word_of_nat (first_index cs k + i)) = Some (vertex_ptr (cs ! k) i)"
      using Cons.prems Suc by (intro Cons.IH) (simp_all add: first_index_Cons)
    ultimately show ?thesis using Suc by (simp del: of_nat_add)
  qed
qed simp

text \<open>For the first vertex of a later host it stops at an earlier host, behind the last vertex of that one.\<close>

lemma topology_from_index_start:
  assumes "\<forall>c \<in> set cs. csr_ok c" "h < length cs" "0 < h" "first_index cs h < 2 ^ 64"
  shows "\<exists>j < h. topology_from_index cs (word_of_nat (first_index cs h)) = Some (vertex_ptr (cs ! j) (num_vertices (cs ! j)))"
  using assms
proof (induction cs arbitrary: h)
  case (Cons c cs)
  have c: "csr_ok c" using Cons.prems(1) by simp
  obtain k where h: "h = Suc k" using Cons.prems(3) by (cases h) auto
  let ?n = "first_index (c # cs) h"
  have n: "?n = num_vertices c + first_index cs k" by (simp add: h first_index_Cons)
  show ?case
  proof (cases "first_index cs k = 0")
    case True
    then have "\<not> word_of_nat ?n > LCSR_size c" using size_greater_iff [OF c, of ?n] Cons.prems(4) n by simp
    then have "topology_from_index (c # cs) (word_of_nat ?n) = Some (vertex_ptr ((c # cs) ! 0) (num_vertices ((c # cs) ! 0)))"
      using n True by (simp add: LCSR_getTopologyIDFromIndex_def)
    then show ?thesis using h by blast
  next
    case False
    then have k: "0 < k" by (cases k) (simp_all add: first_index_def)
    have "word_of_nat ?n > LCSR_size c" "word_of_nat ?n - LCSR_size c = word_of_nat (first_index cs k)"
      using size_greater_iff [OF c, of ?n] size_minus [OF c, of ?n] Cons.prems(4) n False by auto
    moreover obtain j where "j < k" "topology_from_index cs (word_of_nat (first_index cs k)) = Some (vertex_ptr (cs ! j) (num_vertices (cs ! j)))"
      using Cons.IH [of k] Cons.prems h k n by auto
    ultimately have "topology_from_index (c # cs) (word_of_nat ?n) = Some (vertex_ptr ((c # cs) ! Suc j) (num_vertices ((c # cs) ! Suc j)))"
      by simp
    then show ?thesis using \<open>j < k\<close> h by blast
  qed
qed simp

lemma fold_sizes:
  assumes d: "dl_ok d" and h: "h \<le> length (dl_csrs d)"
  shows "fold (\<lambda>i vid. vid + LCSR_size (getCachedCSR d (word_of_nat i))) [0..<h] x = x + word_of_nat (first_index (dl_csrs d) h)"
  using h
proof (induction h)
  case (Suc h)
  then have c: "csr_ok (dl_csrs d ! h)" "h < length (dl_csrs d)" using host_csr_ok [OF d, of h] by simp_all
  have "LCSR_size (dl_csrs d ! h) = word_of_nat (num_vertices (dl_csrs d ! h))" using csr_ok_size(2) [OF c(1)] by (rule word_of_nat_eqI)
  then show ?case using Suc c by (simp add: getCachedCSR_nat [OF d] first_index_def take_Suc_conv_app_nth)
qed (simp add: first_index_def)

lemma DLCSR_getVertexIndex_ptr:
  assumes d: "dl_ok d" and h: "h < length (dl_csrs d)" "i < num_vertices (dl_csrs d ! h)"
  shows "DLCSR_getVertexIndex d (vertex_ptr (dl_csrs d ! h) i) = Inr (word_of_nat (first_index (dl_csrs d) h + i))"
    "first_index (dl_csrs d) h + i < 2 ^ 63"
proof -
  have g: "getCSR d (vertex_ptr (dl_csrs d ! h) i) = dl_csrs d ! h" "host_of (vertex_ptr (dl_csrs d ! h) i) = word_of_nat h"
    using getCSR_vertex [OF d h(1), of i] h(2) by simp_all
  show "DLCSR_getVertexIndex d (vertex_ptr (dl_csrs d ! h) i) = Inr (word_of_nat (first_index (dl_csrs d) h + i))"
    using LCSR_getVertexIndex_ptr [OF host_csr_ok [OF d h(1)], of i] h fold_sizes [OF d, of h] unat_host [OF d h(1)]
    by (simp add: DLCSR_getVertexIndex_def g add.commute)
  have "first_index (dl_csrs d) h + i < sum_list (map num_vertices (dl_csrs d))" using first_index_le [OF h(1)] h(2) by simp
  also have "\<dots> < 2 ^ 63" using d by (simp add: dl_ok_def)
  finally show "first_index (dl_csrs d) h + i < 2 ^ 63" .
qed

text \<open>
  C37: indices number the vertices host by host, and the lookup by index misses the hosts' first vertices. The index that
  \<^verbatim>\<open>getVertexIndex\<close> gives to vertex \<open>i\<close> of host \<open>h\<close> is \<open>i\<close> plus the number of the vertices of the hosts before \<open>h\<close>;
  \<^verbatim>\<open>getTopologyIDFromIndex\<close> gives that vertex back unless it is the first one of a host other than the first host. Then
  it answers with the pointer behind the last vertex of an earlier host, which is no vertex of the graph.
\<close>

theorem DLCSR_index_roundtrip:
  assumes d: "dl_ok d" and h: "h < length (dl_csrs d)" "i < num_vertices (dl_csrs d ! h)"
  defines "v \<equiv> vertex_ptr (dl_csrs d ! h) i"
  shows "\<exists>index. DLCSR_getVertexIndex d v = Inr index \<and> unat index = first_index (dl_csrs d) h + i \<and>
    (if 0 < i \<or> h = 0 then DLCSR_getTopologyIDFromIndex d index = Some v
     else \<exists>p. DLCSR_getTopologyIDFromIndex d index = Some p \<and> p \<notin> dl_verts d)"
proof -
  let ?n = "first_index (dl_csrs d) h + i"
  note x = DLCSR_getVertexIndex_ptr [OF d h]
  have cs: "\<forall>c \<in> set (dl_csrs d). csr_ok c" using host_csr_ok [OF d] by (auto simp: in_set_conv_nth)
  have small: "?n < 2 ^ 64" using x(2) by simp
  have "if 0 < i \<or> h = 0 then DLCSR_getTopologyIDFromIndex d (word_of_nat ?n) = Some v
     else \<exists>p. DLCSR_getTopologyIDFromIndex d (word_of_nat ?n) = Some p \<and> p \<notin> dl_verts d"
  proof (cases "0 < i \<or> h = 0")
    case True
    then have "DLCSR_getTopologyIDFromIndex d (word_of_nat ?n) = Some v"
      unfolding DLCSR_getTopologyIDFromIndex_def v_def using h small by (intro topology_from_index_inside [OF cs]) simp_all
    then show ?thesis using True by simp
  next
    case False
    then obtain j where j: "j < h" "DLCSR_getTopologyIDFromIndex d (word_of_nat ?n) = Some (vertex_ptr (dl_csrs d ! j) (num_vertices (dl_csrs d ! j)))"
      using topology_from_index_start [OF cs h(1)] small by (auto simp: DLCSR_getTopologyIDFromIndex_def)
    have jl: "j < length (dl_csrs d)" using j(1) h(1) by simp
    have "vertex_ptr (dl_csrs d ! j) (num_vertices (dl_csrs d ! j)) \<notin> dl_verts d"
    proof
      assume "vertex_ptr (dl_csrs d ! j) (num_vertices (dl_csrs d ! j)) \<in> dl_verts d"
      then obtain h' i' where p: "h' < length (dl_csrs d)" "i' < num_vertices (dl_csrs d ! h')"
        "vertex_ptr (dl_csrs d ! j) (num_vertices (dl_csrs d ! j)) = vertex_ptr (dl_csrs d ! h') i'" by (rule dl_vertsE)
      then have "(word_of_nat j :: u64) = word_of_nat h'"
        using getCSR_vertex(1) [OF d jl, of "num_vertices (dl_csrs d ! j)"] getCSR_vertex(1) [OF d p(1), of i'] by simp
      then have "j = h'" using unat_host [OF d jl] unat_host [OF d p(1)] by metis
      then show False
        using p elem_ptr_inject [of "vertexEdgeOffsets (dl_csrs d ! j)" "num_vertices (dl_csrs d ! j)" i']
          csr_ok_size(1) [OF host_csr_ok [OF d jl]] host_csr_ok [OF d jl] by (simp add: csr_ok_def)
    qed
    then show ?thesis using j(2) False by simp
  qed
  moreover have "unat (word_of_nat ?n :: u64) = ?n" using small by (rule word_of_nat_unat_less)
  ultimately show ?thesis using x(1) unfolding v_def by (intro exI conjI)
qed

theorem DLCSR_index_roundtrip_witness:
  "\<exists>index. DLCSR_getVertexIndex example_dlcsr (vertex_ptr (dl_csrs example_dlcsr ! 1) 0) = Inr index \<and>
     unat index = first_index (dl_csrs example_dlcsr) 1 + 0 \<and>
     (if 0 < (0 :: nat) \<or> (1 :: nat) = 0 then DLCSR_getTopologyIDFromIndex example_dlcsr index = Some (vertex_ptr (dl_csrs example_dlcsr ! 1) 0)
      else \<exists>p. DLCSR_getTopologyIDFromIndex example_dlcsr index = Some p \<and> p \<notin> dl_verts example_dlcsr)"
proof (rule DLCSR_index_roundtrip [OF example_ok(1)])
  show "1 < length (dl_csrs example_dlcsr)" "0 < num_vertices (dl_csrs example_dlcsr ! 1)"
    by (simp_all add: example_dlcsr_def example_host_def example_array_def num_vertices_def)
qed

theorem DLCSR_vertices_complete_witness:
  "\<exists>vs. visit_vertices example_dlcsr = Some vs \<and> distinct vs \<and> set vs = dl_verts example_dlcsr \<and> sorted (map (unat \<circ> host_of) vs)"
  by (rule DLCSR_vertices_complete [OF example_ok(1)]) (use example_ok(2) in \<open>simp add: dl_full_def\<close>)

subsection \<open>Hosts without vertices\<close>

text \<open>
  The vertex iterator enters a host that has no vertices. Behind the last vertex of a host the iterator moves to the first offset of
  the next host without looking at its size. When that host is empty and not the last one, what it points to is no vertex
  of the graph. The iterator over the vertex data becomes the null pointer there, whose host the graph does not have.
\<close>

lemma VertexIt_enters_empty_host:
  assumes d: "dl_ok d" and h: "Suc (Suc h) < length (dl_csrs d)" "num_vertices (dl_csrs d ! h) = Suc i"
    and empty: "num_vertices (dl_csrs d ! Suc h) = 0"
  shows "VertexIt_next d (vertex_ptr (dl_csrs d ! h) i) \<notin> dl_verts d"
    and "VertexDataIt_next d (vdata_ptr d h i) = 0 \<and> unat (host_of 0) \<ge> length (dl_csrs d)"
proof -
  have hh: "h < length (dl_csrs d)" "Suc h < length (dl_csrs d)" "i < num_vertices (dl_csrs d ! h)" using h by simp_all
  have "VertexIt_next d (vertex_ptr (dl_csrs d ! h) i) = vertex_ptr (dl_csrs d ! Suc h) 0"
    using VertexIt_next_ptr [OF d hh(1,3)] h by simp
  moreover have "vertex_ptr (dl_csrs d ! Suc h) 0 \<notin> dl_verts d"
  proof
    assume "vertex_ptr (dl_csrs d ! Suc h) 0 \<in> dl_verts d"
    then obtain h' i' where p: "h' < length (dl_csrs d)" "i' < num_vertices (dl_csrs d ! h')"
      "vertex_ptr (dl_csrs d ! Suc h) 0 = vertex_ptr (dl_csrs d ! h') i'" by (rule dl_vertsE)
    then have "(word_of_nat (Suc h) :: u64) = word_of_nat h'"
      using getCSR_vertex(1) [OF d hh(2), of 0] getCSR_vertex(1) [OF d p(1), of i'] by simp
    then have "Suc h = h'" using unat_host [OF d hh(2)] unat_host [OF d p(1)] by metis
    then show False using p(2) empty by simp
  qed
  ultimately show "VertexIt_next d (vertex_ptr (dl_csrs d ! h) i) \<notin> dl_verts d" by simp
  have "host_ok (Suc h) (dl_csrs d ! Suc h)" using d hh(2) by (simp add: dl_ok_def)
  then have "ar_size (vertexData (dl_csrs d ! Suc h)) = 0" "Array_ok (vertexData (dl_csrs d ! Suc h))"
    using vdata_host(2) [OF d hh(2)] empty u64_eq_iff_unat [of _ 0] by (simp_all add: host_ok_def csr_ok_def)
  then have "vdata_ptr d (Suc h) 0 = 0" by (simp add: Array_ok_def)
  then have "VertexDataIt_next d (vdata_ptr d h i) = 0" using VertexDataIt_next_ptr [OF d hh(1,3)] h by simp
  moreover have "host_of 0 = - 1" by (simp add: host_of_def localityOf_def anyPlace_def anyNode_def)
  moreover have "unat (- 1 :: u64) = 2 ^ 64 - 1" using unat_uminus_u64 [of 1] by simp
  moreover have "length (dl_csrs d) < 2 ^ 63" using d by (simp add: dl_ok_def)
  ultimately show "VertexDataIt_next d (vdata_ptr d h i) = 0 \<and> unat (host_of 0) \<ge> length (dl_csrs d)"
    by simp
qed

end
