(* ===== verification/Tri_Count_Dlcsr.thy ===== *)
theory Tri_Count_Dlcsr
  imports Tri_Count Dist_Csr_Index
begin

text \<open>
  Triangle counting on the distributed graph: the operations of \<^verbatim>\<open>DistLocalCSR\<close> satisfy what the algorithm relies on, so
  \<^verbatim>\<open>tc_no_chunk<GraphDL>\<close> counts the triangles of the graph.
\<close>

definition galois_localityOf :: "Place \<Rightarrow> u64 \<Rightarrow> Place" where
  "galois_localityOf currentPlace ptr = (if ptr = 0 then currentPlace else localityOf ptr)"

definition dl_token :: "('v, 'e) DistLocalCSR \<Rightarrow> u64 \<Rightarrow> u64" where
  "dl_token d v = (case DLCSR_getTokenID d v of Inl _ \<Rightarrow> 0 | Inr t \<Rightarrow> t)"

text \<open>
  The operations the algorithm calls, with the positions that its loops visit. That the loops end and no call aborts
  is part of what is shown below.
\<close>

definition dlcsr_tc_graph :: "Place \<Rightarrow> ('v, 'e) DistLocalCSR \<Rightarrow> (u64, u64) tc_graph" where
  "dlcsr_tc_graph here d =
     \<lparr>tg_vertices = \<lparr>r_elems = (case visit_vertices d of None \<Rightarrow> [] | Some vs \<Rightarrow> vs), r_size = DLCSR_size d\<rparr>,
      tg_edges = (\<lambda>v. \<lparr>r_elems = (case RefSpan_visit (DLCSR_edges d v) of None \<Rightarrow> [] | Some es \<Rightarrow> es), r_size = rs_size (DLCSR_edges d v)\<rparr>),
      tg_getEdgeDst = DLCSR_getEdgeDst d, tg_getTokenID = dl_token d, tg_getNumEdges = DLCSR_getNumEdges d,
      tg_getLocalityVertex = galois_localityOf here\<rparr>"

text \<open>
  The graphs for triangle counting: no vertex is its own neighbour, and the neighbours of a vertex are in the order of
  their tokens, each once.
\<close>

definition tc_input :: "('v, 'e) DistLocalCSR \<Rightarrow> bool" where
  "tc_input d \<longleftrightarrow> dl_ok d \<and> (\<forall>h < length (dl_csrs d). 0 < num_vertices (dl_csrs d ! h)) \<and>
     unat (dl_numVertices d) = card (dl_verts d) \<and> card (dl_verts d) < 2 ^ 32 \<and>
     (\<Sum>v \<in> dl_verts d. 1 + length (dl_adj d v)) < 2 ^ 63 \<and> inj_on (dl_token d) (dl_verts d) \<and>
     (\<forall>v \<in> dl_verts d. v \<notin> set (dl_adj d v) \<and> length (dl_adj d v) < 2 ^ 32 \<and> sorted_wrt (<) (map (dl_token d) (dl_adj d v)))"

lemma dl_vertex:
  assumes d: "dl_ok d" and v: "v \<in> dl_verts d"
  shows "DLCSR_getTokenID d v = Inr (dl_token d v)"
    "\<exists>es. RefSpan_visit (DLCSR_edges d v) = Some es \<and> map (DLCSR_getEdgeDst d) es = dl_adj d v"
    "unat (rs_size (DLCSR_edges d v)) = length (dl_adj d v)" "DLCSR_getNumEdges d v = rs_size (DLCSR_edges d v)"
    "unat (node_id (place_node (galois_localityOf here v))) < length (dl_csrs d)"
proof -
  from v obtain h i where h: "h < length (dl_csrs d)" "i < num_vertices (dl_csrs d ! h)" "v = vertex_ptr (dl_csrs d ! h) i"
    by (rule dl_vertsE)
  let ?c = "dl_csrs d ! h"
  have c: "csr_ok ?c" by (rule host_csr_ok [OF d h(1)])
  have g: "getCSR d v = ?c" "host_of v = word_of_nat h" using getCSR_vertex [OF d h(1), of i] h(2,3) by simp_all
  show "DLCSR_getTokenID d v = Inr (dl_token d v)"
    using LCSR_getTokenID_ptr [OF c, of i] h(2,3) g by (simp add: dl_token_def DLCSR_getTokenID_def)
  show "\<exists>es. RefSpan_visit (DLCSR_edges d v) = Some es \<and> map (DLCSR_getEdgeDst d) es = dl_adj d v"
    using dl_edges_visited(1) [OF d h(1,2)] h(3) by (simp add: dl_adj_def)
  have e: "DLCSR_edges d v = \<lparr>rs_data = edge_ptr ?c (edge_offset ?c i), rs_size = word_of_nat (edge_offset ?c (Suc i) - edge_offset ?c i)\<rparr>"
    using edge_range [OF c h(2)] g h(3) by (simp add: DLCSR_edges_LCSR)
  have a: "length (dl_adj d v) = edge_offset ?c (Suc i) - edge_offset ?c i"
    using dl_edges_visited(2) [OF d h(1,2)] length_out_edges [OF c h(2)] h(3) by simp
  show u: "unat (rs_size (DLCSR_edges d v)) = length (dl_adj d v)" using edge_offset_bounds(3) [OF c h(2)] by (simp add: e a)
  have "DLCSR_getNumEdges d v = getNumEdges ?c v"
    using g by (simp add: DLCSR_getNumEdges_def getNumEdges_def DLCSR_halfEdgeBegin_def DLCSR_halfEdgeEnd_def halfEdgeEnd_def)
  then have "unat (DLCSR_getNumEdges d v) = length (dl_adj d v)"
    using getNumEdges_ptr [OF c h(2)] dl_edges_visited(2) [OF d h(1,2)] h(3) by simp
  then show "DLCSR_getNumEdges d v = rs_size (DLCSR_edges d v)" using u by (simp add: word_unat_eq_iff)
  have "host_of 0 = - 1" by (simp add: host_of_def localityOf_def anyPlace_def anyNode_def)
  moreover have "unat (- 1 :: u64) = 2 ^ 64 - 1" by (simp add: unsigned_minus_1_eq_mask mask_eq_exp_minus_1)
  ultimately have "unat (host_of 0) = 2 ^ 64 - 1" by simp
  moreover have "unat (host_of v) < 2 ^ 63" using g(2) unat_host [OF d h(1)] d h(1) by (simp add: dl_ok_def)
  ultimately have "v \<noteq> 0" by auto
  then show "unat (node_id (place_node (galois_localityOf here v))) < length (dl_csrs d)"
    using g(2) unat_host [OF d h(1)] h(1) by (simp add: galois_localityOf_def host_of_def)
qed


lemma dlcsr_tc_fields:
  "tg_getNumEdges (dlcsr_tc_graph here d) = DLCSR_getNumEdges d" "tg_getEdgeDst (dlcsr_tc_graph here d) = DLCSR_getEdgeDst d"
  "tg_getTokenID (dlcsr_tc_graph here d) = dl_token d" "tg_getLocalityVertex (dlcsr_tc_graph here d) = galois_localityOf here"
  "r_size (tg_vertices (dlcsr_tc_graph here d)) = dl_numVertices d" "r_size (tg_edges (dlcsr_tc_graph here d) v) = rs_size (DLCSR_edges d v)"
  by (simp_all add: dlcsr_tc_graph_def DLCSR_size_def)

lemma dlcsr_tc_vertices:
  assumes "tc_input d"
  shows "visit_vertices d = Some (r_elems (tg_vertices (dlcsr_tc_graph here d)))"
    "distinct (r_elems (tg_vertices (dlcsr_tc_graph here d)))" "tc_verts (dlcsr_tc_graph here d) = dl_verts d"
  using visit_vertices_spec [of d] assms by (auto simp: dlcsr_tc_graph_def tc_input_def)

lemma dlcsr_tc_edges:
  assumes "dl_ok d" "v \<in> dl_verts d"
  shows "RefSpan_visit (DLCSR_edges d v) = Some (r_elems (tg_edges (dlcsr_tc_graph here d) v))"
    "map (DLCSR_getEdgeDst d) (r_elems (tg_edges (dlcsr_tc_graph here d) v)) = dl_adj d v"
  using dl_vertex(2) [OF assms] by (auto simp: dlcsr_tc_graph_def)

lemma dlcsr_tc_adj:
  assumes "dl_ok d" "v \<in> dl_verts d"
  shows "tc_adj (dlcsr_tc_graph here d) v = set (dl_adj d v)" "edge_tokens (dlcsr_tc_graph here d) v = map (dl_token d) (dl_adj d v)"
    "length (r_elems (tg_edges (dlcsr_tc_graph here d) v)) = length (dl_adj d v)"
proof -
  note m = dlcsr_tc_edges(2) [OF assms, of here]
  show "tc_adj (dlcsr_tc_graph here d) v = set (dl_adj d v)" by (simp add: tc_adj_def dlcsr_tc_fields flip: m)
  show "edge_tokens (dlcsr_tc_graph here d) v = map (dl_token d) (dl_adj d v)"
    by (simp add: edge_tokens_def dlcsr_tc_fields comp_def flip: m)
  show "length (r_elems (tg_edges (dlcsr_tc_graph here d) v)) = length (dl_adj d v)" by (simp flip: m)
qed

interpretation dl_tc: triangle_graph "dlcsr_tc_graph here" tc_input "\<lambda>d. length (dl_csrs d)" for here :: Place
proof (unfold_locales, goal_cases)
  case (1 d)
  then have "length (r_elems (tg_vertices (dlcsr_tc_graph here d))) = card (dl_verts d)"
    using dlcsr_tc_vertices(2,3) [OF 1, of here] distinct_card by metis
  then show ?case using 1 dlcsr_tc_vertices(2) [OF 1] by (simp add: range_ok_def tc_input_def dlcsr_tc_fields)
next
  case (2 d v)
  then have d: "dl_ok d" "v \<in> dl_verts d" "length (dl_adj d v) < 2 ^ 32"
    using dlcsr_tc_vertices(3) [OF 2(1)] by (simp_all add: tc_input_def)
  then show ?case using dl_vertex(3,4) [OF d(1,2)] dlcsr_tc_adj(3) [OF d(1,2)] by (simp add: range_ok_def dlcsr_tc_fields)
next
  case (3 d v)
  then have d: "dl_ok d" "v \<in> dl_verts d" using dlcsr_tc_vertices(3) [OF 3(1)] by (simp_all add: tc_input_def)
  then show ?case using dl_adj_closed dlcsr_tc_vertices(3) [OF 3(1)] by (simp add: dlcsr_tc_adj)
next
  case (4 d v)
  then have d: "dl_ok d" "v \<in> dl_verts d" "v \<notin> set (dl_adj d v)" using dlcsr_tc_vertices(3) [OF 4(1)] by (simp_all add: tc_input_def)
  then show ?case by (simp add: dlcsr_tc_adj)
next
  case (5 d)
  then show ?case using dlcsr_tc_vertices(3) [OF 5] by (simp add: tc_input_def dlcsr_tc_adj dlcsr_tc_fields)
next
  case (6 d v)
  then have d: "dl_ok d" "v \<in> dl_verts d" using dlcsr_tc_vertices(3) [OF 6(1)] by (simp_all add: tc_input_def)
  then show ?case using dl_vertex(5) by (simp add: dlcsr_tc_fields)
next
  case (7 d)
  have "(\<Sum>v \<leftarrow> r_elems (tg_vertices (dlcsr_tc_graph here d)). 1 + length (r_elems (tg_edges (dlcsr_tc_graph here d) v))) =
      (\<Sum>v \<in> dl_verts d. 1 + length (r_elems (tg_edges (dlcsr_tc_graph here d) v)))"
    using dlcsr_tc_vertices(2,3) [OF 7] by (simp only: sum_list_distinct_conv_sum_set)
  also have "\<dots> = (\<Sum>v \<in> dl_verts d. 1 + length (dl_adj d v))"
    using 7 by (intro sum.cong refl) (simp add: dlcsr_tc_adj tc_input_def)
  finally show ?case using 7 by (simp add: tc_input_def)
qed

text \<open>
  C9: \<^verbatim>\<open>tc_no_chunk\<close> counts the triangles of a distributed graph. On a graph without self loops whose adjacency lists are
  sorted by token, no loop over the graph runs on and no lookup aborts; with a fresh counter and when all tasks
  can be started, in every interleaving of the loop over the vertices and the loops over their edges, which share one
  wait group, the caller can always reach the end of its wait, no run goes on forever, and after the wait the
  value of \<^verbatim>\<open>reduce\<close> is the number of triples \<open>a\<close>, \<open>b\<close>, \<open>c\<close> with edges from \<open>a\<close> to \<open>b\<close>, from \<open>a\<close> to \<open>c\<close> and from \<open>b\<close> to \<open>c\<close>,
  modulo \<open>2 ^ 64\<close>. Leaving out the vertices of degree below two loses none.
\<close>

theorem tc_no_chunk_counts_triangles:
  assumes "tc_input d" "\<forall>i pl. executeOn i pl = Success" "\<forall>v i pl. executeOn_edges v i pl = Success"
    and "DAccumulator_initialize (Inr cp) (Inr counters) junk = (st, Some (f, acc), fr)" "length counters = length (dl_csrs d)"
    and "tc_no_chunk (Inr p) m acc (tc_no_chunk_thread mc policy executeOn executeOn_edges draw (dlcsr_tc_graph here d)) = Inr (p, s0)"
  shows "(\<exists>vs. visit_vertices d = Some vs) \<and>
    (\<forall>v \<in> dl_verts d. (\<exists>es. RefSpan_visit (DLCSR_edges d v) = Some es) \<and> DLCSR_getTokenID d v = Inr (dl_token d v)) \<and>
    wfP (tc_system p)\<inverse>\<inverse> \<and>
    (\<forall>s. (tc_system p)\<^sup>*\<^sup>* s0 s \<longrightarrow>
       (\<exists>s'. (tc_system p)\<^sup>*\<^sup>* s s' \<and> ts_passed s') \<and>
       (ts_passed s \<longrightarrow> WaitGroup_result p (ts_mem s) = Success \<and>
          fst (DAccumulator_reduce (ts_data s)) = word_of_nat (card (triangles (dl_verts d) (\<lambda>v. set (dl_adj d v))))))"
proof -
  have ok: "dl_ok d" using assms(1) by (simp add: tc_input_def)
  have acc: "length (localCounters acc) = length (dl_csrs d)" "globalValue acc + sum_list (localCounters acc) = 0"
    using assms(4,5) by (auto simp: DAccumulator_initialize_def DAccumulator_reset_def)
  have "triangles (tc_verts (dlcsr_tc_graph here d)) (tc_adj (dlcsr_tc_graph here d)) = triangles (dl_verts d) (\<lambda>v. set (dl_adj d v))"
    unfolding dlcsr_tc_vertices(3) [OF assms(1)]
    by (rule triangles_cong) (use dl_adj_closed [OF ok] dlcsr_tc_adj(1) [OF ok] in auto)
  note c = dl_tc.triangles_counted [OF assms(1-3,6) acc(1), unfolded this acc(2) add_0_left]
  have "(\<exists>vs. visit_vertices d = Some vs)" using dlcsr_tc_vertices(1) [OF assms(1)] by blast
  moreover have "\<forall>v \<in> dl_verts d. (\<exists>es. RefSpan_visit (DLCSR_edges d v) = Some es) \<and> DLCSR_getTokenID d v = Inr (dl_token d v)"
    using dl_vertex(1,2) [OF ok] by blast
  ultimately show ?thesis using c task_sys_runs_end by blast
qed


subsection \<open>An example\<close>

text \<open>Two hosts and one triangle: 10 and 20 on the first host, 30 and 40 on the second, edges from smaller to larger tokens.\<close>

definition tri_dlcsr :: "(u64, u64) DistLocalCSR" where
  "tri_dlcsr = \<lparr>dl_csrs =
       [(example_host 0x0800000000000000 [0, 2, 3] [0x0800000000001008, 0x0800100000001000, 0x0800100000001000] HashTable_new)
          \<lparr>topologyToToken := example_array 0x0800000000005000 [10, 20]\<rparr>,
        (example_host 0x0800100000000000 [0, 1, 1] [0x0800100000001008] HashTable_new)
          \<lparr>topologyToToken := example_array 0x0800100000005000 [30, 40]\<rparr>],
     dl_numVertices = 4, dl_numEdges = 4, dl_v2pm = example_array 0x0800000000007000 [0, 1]\<rparr>"

lemma tri_located:
  "\<forall>h < 2. \<forall>p \<in> set (map (elem_ptr (vertexEdgeOffsets (dl_csrs tri_dlcsr ! h))) [0..<length (ar_elems (vertexEdgeOffsets (dl_csrs tri_dlcsr ! h)))]).
     host_of p = word_of_nat h"
  "\<forall>h < 2. \<forall>p \<in> set (map (elem_ptr (edgeDestinations (dl_csrs tri_dlcsr ! h))) [0..<length (ar_elems (edgeDestinations (dl_csrs tri_dlcsr ! h)))]).
     host_of p = word_of_nat h"
  "\<forall>h < 2. \<forall>p \<in> set (map (elem_ptr (vertexData (dl_csrs tri_dlcsr ! h))) [0..<length (ar_elems (vertexData (dl_csrs tri_dlcsr ! h)))]).
     host_of p = word_of_nat h"
  by code_simp+

lemma tri_offsets: "\<forall>c \<in> set (dl_csrs tri_dlcsr). offsets_ok c"
  by code_simp

lemma tri_closed: "\<forall>h < 2. \<forall>e \<in> set (ar_elems (edgeDestinations (dl_csrs tri_dlcsr ! h))). he_dst e \<in> dl_verts tri_dlcsr"
  by code_simp

lemma tri_verts: "dl_verts tri_dlcsr = {0x0800000000001000, 0x0800000000001008, 0x0800100000001000, 0x0800100000001008}"
  by code_simp

lemma tri_adj:
  "map (dl_adj tri_dlcsr) [0x0800000000001000, 0x0800000000001008, 0x0800100000001000, 0x0800100000001008] =
     [[0x0800000000001008, 0x0800100000001000], [0x0800100000001000], [0x0800100000001008], []]"
  by code_simp

lemma tri_tokens: "map (dl_token tri_dlcsr) [0x0800000000001000, 0x0800000000001008, 0x0800100000001000, 0x0800100000001008] = [10, 20, 30, 40]"
  by code_simp

lemma tri_hosts: "length (dl_csrs tri_dlcsr) = 2" "map num_vertices (dl_csrs tri_dlcsr) = [2, 2]"
  by (simp_all add: tri_dlcsr_def example_host_def example_array_def num_vertices_def)

lemma tri_csr:
  "offsets_ok (dl_csrs tri_dlcsr ! 0) \<Longrightarrow> csr_ok (dl_csrs tri_dlcsr ! 0) \<and> placed (vertexData (dl_csrs tri_dlcsr ! 0))"
  "offsets_ok (dl_csrs tri_dlcsr ! 1) \<Longrightarrow> csr_ok (dl_csrs tri_dlcsr ! 1) \<and> placed (vertexData (dl_csrs tri_dlcsr ! 1))"
  unfolding csr_ok_def
  by (intro conjI; (assumption | simp add: placed_def Array_ok_def num_vertices_def tri_dlcsr_def example_host_def example_array_def))+

lemma tri_host_ok: "h < 2 \<Longrightarrow> host_ok h (dl_csrs tri_dlcsr ! h)"
proof -
  assume h: "h < 2"
  let ?c = "dl_csrs tri_dlcsr ! h"
  have "located h (vertexEdgeOffsets ?c)" "located h (edgeDestinations ?c)" "located h (vertexData ?c)"
    unfolding located_upt using tri_located h by blast+
  moreover have "offsets_ok ?c" using tri_offsets h nth_mem [of h "dl_csrs tri_dlcsr"] by (simp add: tri_hosts)
  ultimately show ?thesis using h tri_csr by (auto simp: host_ok_def less_2_cases_iff)
qed

lemma tri_input: "tc_input tri_dlcsr"
proof -
  have v: "card (dl_verts tri_dlcsr) = 4" by (simp add: tri_verts)
  have "dl_ok tri_dlcsr" unfolding dl_ok_def tri_hosts using tri_host_ok tri_closed tri_hosts(1) by auto
  moreover have "\<forall>h < length (dl_csrs tri_dlcsr). 0 < num_vertices (dl_csrs tri_dlcsr ! h)"
    using arg_cong [OF tri_hosts(2), of "\<lambda>ns. \<forall>n \<in> set ns. 0 < n"] by simp
  moreover have "dl_numVertices tri_dlcsr = 4" by (simp add: tri_dlcsr_def)
  ultimately show ?thesis using tri_adj tri_tokens unfolding tc_input_def v tri_verts by (simp add: inj_on_def)
qed

lemma tri_triangles:
  "triangles (dl_verts tri_dlcsr) (\<lambda>v. set (dl_adj tri_dlcsr v)) = {(0x0800000000001000, 0x0800000000001008, 0x0800100000001000)}"
  using tri_adj by (auto simp: triangles_def tri_verts)

theorem tc_no_chunk_counts_triangles_witness:
  "\<exists>s0 s. tc_no_chunk (Inr 8) (\<lambda>_. 0) \<lparr>localCounters = [0, 0], globalValue = 0\<rparr>
       (tc_no_chunk_thread example_machine NODE_ONLY (\<lambda>i pl. Success) (\<lambda>v i pl. Success) (\<lambda>_. 0) (dlcsr_tc_graph anyPlace tri_dlcsr)) = Inr (8, s0) \<and>
     (tc_system 8)\<^sup>*\<^sup>* s0 s \<and> ts_passed s \<and> fst (DAccumulator_reduce (ts_data s)) = 1"
proof -
  let ?th = "tc_no_chunk_thread example_machine NODE_ONLY (\<lambda>i pl. Success) (\<lambda>v i pl. Success) (\<lambda>_. 0) (dlcsr_tc_graph anyPlace tri_dlcsr)"
  let ?a = "\<lparr>localCounters = [0, 0 :: u64], globalValue = 0\<rparr>"
  let ?s0 = "task_sys_start ?th (\<lambda>_. 0) ?a"
  have a: "DAccumulator_initialize (Inr 64) (Inr [9, 9]) 3 = (Success, Some (False, ?a), [])"
    by (simp add: DAccumulator_initialize_def DAccumulator_reset_def)
  have t: "tc_no_chunk (Inr 8) (\<lambda>_. 0) ?a ?th = Inr (8, ?s0)"
    by (simp add: tc_no_chunk_def WaitGroup_initialize_def WaitGroup_getHandle_def fun_upd_idem)
  have run: "(tc_system 8)\<^sup>*\<^sup>* ?s0 s \<longrightarrow> (\<exists>s'. (tc_system 8)\<^sup>*\<^sup>* s s' \<and> ts_passed s') \<and>
      (ts_passed s \<longrightarrow> fst (DAccumulator_reduce (ts_data s)) = 1)" for s
    using tc_no_chunk_counts_triangles [OF tri_input _ _ a _ t] by (simp add: tri_hosts tri_triangles)
  then obtain s' where "(tc_system 8)\<^sup>*\<^sup>* ?s0 s'" "ts_passed s'" by blast
  then show ?thesis using t run by blast
qed

end
