(* ===== verification/Tri_Chunk.thy ===== *)
theory Tri_Chunk
  imports Tri_Count_Dlcsr
begin

text \<open>
  Triangle counting in rounds (\<^verbatim>\<open>tc_chunk_vertices\<close> of \<^verbatim>\<open>microbench/triangle-counting/src/tc_algos.cpp\<close>): in a round every host counts
  the triangles of the next \<^verbatim>\<open>query_sz\<close> of its vertices, and the window doubles from round to round. The loops of a
  round are joined before it goes on, and the additions to the counters commute, so a round is modelled by its effect.
  The offsets are in a \<^verbatim>\<open>HostIndexedMap\<close>, whose iterator names the host of an element as its place; a task works on the
  graph of the host it runs on, which is up to the scheduler.
\<close>

subsection \<open>The rounds\<close>

record chunk =
  ck_offsets :: "u64 list"
  ck_count :: DAccumulator
  ck_work :: DAccumulator

definition HostIndexedMapIt_localityOf :: "nat \<Rightarrow> Place" where
  "HostIndexedMapIt_localityOf loc = Place (NodeIndex (word_of_nat loc)) anyPod anyCore"

text \<open>The elements of the map for which a task is started, with the node on which it runs.\<close>

definition chunk_tasks ::
  "machine \<Rightarrow> SchedulerPolicy \<Rightarrow> (u64 \<Rightarrow> Place \<Rightarrow> Status) \<Rightarrow> (nat \<Rightarrow> i8) \<Rightarrow> nat \<Rightarrow> (nat \<times> nat) list" where
  "chunk_tasks mc policy executeOn draw hosts =
     (let ops = fst (doAll mc policy executeOn draw HostIndexedMapIt_localityOf \<lparr>r_elems = [0..<hosts], r_size = word_of_nat hosts\<rparr>)
      in zip (spawned ops) (map (\<lambda>p. unat (node_id (place_node p))) (spawn_places ops)))"

text \<open>What the loop over the vertices of a window adds to the counters.\<close>

definition tc_vertex_work :: "('v, 'e) tc_graph \<Rightarrow> 'v \<Rightarrow> (nat \<times> u64) list" where
  "tc_vertex_work g v0 =
     (if tg_getNumEdges g v0 < TC_EMBEDDING_SZ - 1 then [] else map (tc_edge_work g v0) (r_elems (tg_edges g v0)))"

definition chunk_task ::
  "('v, 'e) DistLocalCSR \<Rightarrow> (u64, u64) tc_graph \<Rightarrow> u64 \<Rightarrow> nat \<times> nat \<Rightarrow> chunk \<Rightarrow> chunk option" where
  "chunk_task d g query_sz t s =
     (let (i, node) = t; lcsr = getCachedCSR d (word_of_nat node); offset = ck_offsets s ! i in
      Option.bind (RefSpan_visit (LCSR_vertices_window lcsr offset query_sz)) (\<lambda>vs.
        let count = fold tc_exec (concat (map (tc_vertex_work g) vs)) (ck_count s);
            lcsr_num_vertices = LCSR_size lcsr;
            offset' = offset + query_sz;
            work = (if offset' < lcsr_num_vertices then DAccumulator_increment node (ck_work s) else ck_work s)
        in Some \<lparr>ck_offsets = (ck_offsets s)[i := offset'], ck_count = count, ck_work = work\<rparr>))"

fun chunk_round ::
  "('v, 'e) DistLocalCSR \<Rightarrow> (u64, u64) tc_graph \<Rightarrow> u64 \<Rightarrow> (nat \<times> nat) list \<Rightarrow> chunk \<Rightarrow> chunk option" where
  "chunk_round d g query_sz [] s = Some s"
| "chunk_round d g query_sz (t # ts) s = Option.bind (chunk_task d g query_sz t s) (chunk_round d g query_sz ts)"

text \<open>The calling thread is on host \<open>here\<close>; the tasks are the same in every round.\<close>

partial_function (option) chunk_loop ::
  "('v, 'e) DistLocalCSR \<Rightarrow> (u64, u64) tc_graph \<Rightarrow> nat \<Rightarrow> (nat \<times> nat) list \<Rightarrow> u64 \<Rightarrow> chunk \<Rightarrow> chunk option" where
  "chunk_loop d g here tasks query_sz s =
     (let s1 = s\<lparr>ck_work := snd (DAccumulator_reset (ck_work s))\<rparr> in
      Option.bind (chunk_round d g query_sz tasks s1) (\<lambda>s2.
        let (current_count, f, count) = DAccumulator_reduce (ck_count s2);
            count' = DAccumulator_add here current_count (snd (DAccumulator_reset count));
            (remaining, f', work) = DAccumulator_reduce (ck_work s2);
            s3 = \<lparr>ck_offsets = ck_offsets s2, ck_count = count', ck_work = work\<rparr>
        in if remaining \<noteq> 0 then chunk_loop d g here tasks (query_sz * 2) s3 else Some s3))"

declare chunk_loop.simps [code]

definition tc_chunk_vertices ::
  "('v, 'e) DistLocalCSR \<Rightarrow> (u64, u64) tc_graph \<Rightarrow> nat \<Rightarrow> (nat \<times> nat) list \<Rightarrow> DAccumulator \<Rightarrow> DAccumulator \<Rightarrow> chunk option" where
  "tc_chunk_vertices d g here tasks final_tri_count work_remaining =
     chunk_loop d g here tasks 1
       \<lparr>ck_offsets = replicate (length (dl_csrs d)) 0, ck_count = final_tri_count, ck_work = work_remaining\<rparr>"

subsection \<open>Where the tasks run\<close>

definition keeps_node :: "SchedulerPolicy \<Rightarrow> bool" where
  "keeps_node policy \<longleftrightarrow> policy \<in> {RANDOM, CORE_STRIPE, NODE_ONLY}"

lemma schedulerImpl_node: "keeps_node policy \<Longrightarrow> place_node (fst (schedulerImpl mc policy dr pl l)) = place_node pl"
  by (auto simp: keeps_node_def schedulerImpl_def Let_def split: SchedulerPolicy.splits)

lemma doAll_loop_places:
  assumes "\<forall>i pl. executeOn i pl = Success" "\<And>l it. place_node (fst (place_of l it)) = node_of it"
  shows "doAll_loop executeOn place_of rsize iter l its = (ops, err) \<Longrightarrow>
    spawned ops = its \<and> map place_node (spawn_places ops) = map node_of its"
  using assms(1)
proof (induction its arbitrary: iter l ops err)
  case (Cons it its)
  obtain pl l' where pl: "place_of l it = (pl, l')" by fastforce
  obtain ops' err' where r: "doAll_loop executeOn place_of rsize (iter + 1) l' its = (ops', err')" by fastforce
  have "executeOn iter pl = Success" using Cons.prems(2) by simp
  then show ?case using Cons.IH [OF r Cons.prems(2)] Cons.prems(1) pl r assms(2) [of l it] by auto
qed simp

lemma chunk_tasks_own:
  assumes "\<forall>i pl. executeOn i pl = Success" "keeps_node policy" "hosts < 2 ^ 63"
  shows "chunk_tasks mc policy executeOn draw hosts = map (\<lambda>h. (h, h)) [0..<hosts]"
proof -
  let ?rng = "\<lparr>r_elems = [0..<hosts], r_size = word_of_nat hosts\<rparr>"
  let ?place = "\<lambda>ll it. schedulerImpl mc policy (draw it) (HostIndexedMapIt_localityOf it) ll"
  obtain ops err where r: "doAll_loop executeOn ?place (r_size ?rng) 0 loopLocal_start (r_elems ?rng) = (ops, err)" by fastforce
  have n: "place_node (fst (?place l it)) = NodeIndex (word_of_nat it)" for l it
    using assms(2) by (simp add: schedulerImpl_node HostIndexedMapIt_localityOf_def)
  note s = doAll_loop_places [OF assms(1) n r]
  have "map (\<lambda>p. unat (node_id (place_node p))) (spawn_places ops) = map (\<lambda>n. unat (node_id n)) (map place_node (spawn_places ops))"
    by simp
  also have "\<dots> = map (\<lambda>h. unat (word_of_nat h :: i64)) [0..<hosts]" using s by simp
  also have "\<dots> = [0..<hosts]" using assms(3) by (intro map_idI) simp
  finally have "map (\<lambda>p. unat (node_id (place_node p))) (spawn_places ops) = [0..<hosts]" .
  then show ?thesis using s r unfolding chunk_tasks_def doAll_thread Let_def by (simp add: zip_same_conv_map)
qed


text \<open>With the policy \<^verbatim>\<open>NAIVE\<close> every task runs on the host of the caller, and the graphs of the other hosts are never read.\<close>

lemma chunk_tasks_naive:
  assumes "\<forall>i pl. executeOn i pl = Success"
  shows "chunk_tasks mc NAIVE executeOn draw hosts = map (\<lambda>h. (h, unat (node_id (mc_currentNode mc)))) [0..<hosts]"
proof -
  let ?rng = "\<lparr>r_elems = [0..<hosts], r_size = word_of_nat hosts\<rparr>"
  let ?place = "\<lambda>ll it. schedulerImpl mc NAIVE (draw it) (HostIndexedMapIt_localityOf it) ll"
  obtain ops err where r: "doAll_loop executeOn ?place (r_size ?rng) 0 loopLocal_start (r_elems ?rng) = (ops, err)" by fastforce
  have n: "place_node (fst (?place l it)) = mc_currentNode mc" for l it by (simp add: schedulerImpl_def)
  note s = doAll_loop_places [OF assms n r]
  have "map (\<lambda>p. unat (node_id (place_node p))) (spawn_places ops) = map (\<lambda>n. unat (node_id n)) (map place_node (spawn_places ops))"
    by simp
  then have "map (\<lambda>p. unat (node_id (place_node p))) (spawn_places ops) = map (\<lambda>_. unat (node_id (mc_currentNode mc))) [0..<hosts]"
    using s by (simp add: comp_def)
  then show ?thesis using s r unfolding chunk_tasks_def doAll_thread Let_def by (simp add: zip_map2 zip_same_conv_map)
qed

subsection \<open>The windows\<close>

lemma window_visited:
  assumes c: "csr_ok c" and off: "off < 2 ^ 64" "q < 2 ^ 64"
  shows "RefSpan_visit (LCSR_vertices_window c (word_of_nat off) (word_of_nat q)) = Some (map (vertex_ptr c) [off..<min (num_vertices c) (off + q)])"
proof -
  let ?n = "num_vertices c" and ?a = "vertexEdgeOffsets c"
  note z = csr_ok_size [OF c]
  have p: "placed ?a" using c by (simp add: csr_ok_def)
  have sz: "ar_size ?a - 1 = word_of_nat ?n" using z(2,3) by (simp add: LCSR_size_def u64_eq_iff_unat)
  have le: "word_of_nat off \<ge> (word_of_nat ?n :: u64) \<longleftrightarrow> ?n \<le> off" using off(1) z(3) by (simp add: word_le_nat_alt)
  show ?thesis
  proof (cases "?n \<le> off")
    case True
    then show ?thesis
      using RefSpan_visit_elems [OF p, of 0 0] le sz by (simp add: LCSR_vertices_window_def Let_def min_absorb1)
  next
    case False
    have "word_of_nat ?n - word_of_nat off = (word_of_nat (?n - off) :: u64)" using False by (simp add: of_nat_diff)
    moreover have "min (word_of_nat q) (word_of_nat (?n - off)) = (word_of_nat (min q (?n - off)) :: u64)"
      using off(2) z(3) by (simp add: min_def word_le_nat_alt)
    ultimately have "LCSR_vertices_window c (word_of_nat off) (word_of_nat q) = \<lparr>rs_data = vertex_ptr c off, rs_size = word_of_nat (min q (?n - off))\<rparr>"
      using le sz False by (simp add: LCSR_vertices_window_def Let_def)
    moreover have "off + min q (?n - off) = min ?n (off + q)" using False by simp
    ultimately show ?thesis
      using RefSpan_visit_elems [OF p, of off "min q (?n - off)"] z(1) False by simp
  qed
qed


subsection \<open>What the rounds add up\<close>

definition tri_at :: "('v, 'e) DistLocalCSR \<Rightarrow> u64 \<Rightarrow> nat" where
  "tri_at d v = (\<Sum>b \<in> set (dl_adj d v). card (set (dl_adj d v) \<inter> set (dl_adj d b)))"

lemma tri_at_adj:
  assumes "tc_input d" "v \<in> dl_verts d"
  shows "(\<Sum>b \<in> tc_adj (dlcsr_tc_graph pl d) v. card (tc_adj (dlcsr_tc_graph pl d) v \<inter> tc_adj (dlcsr_tc_graph pl d) b)) = tri_at d v"
proof -
  have d: "dl_ok d" using assms(1) by (simp add: tc_input_def)
  have "b \<in> dl_verts d" if "b \<in> set (dl_adj d v)" for b using dl_adj_closed [OF d assms(2)] that by blast
  then show ?thesis by (simp add: tri_at_def dlcsr_tc_adj [OF d] assms(2))
qed

lemma vertex_work:
  assumes "tc_input d" "v \<in> dl_verts d"
  shows "sum_list (map snd (tc_vertex_work (dlcsr_tc_graph pl d) v)) = word_of_nat (tri_at d v) \<and>
    (\<forall>w \<in> set (tc_vertex_work (dlcsr_tc_graph pl d) v). fst w < length (dl_csrs d))"
proof -
  have v: "v \<in> tc_verts (dlcsr_tc_graph pl d)" using assms(2) dlcsr_tc_vertices(3) [OF assms(1), of pl] by simp
  note s = dl_tc.vertex_sum [OF assms(1) v] and w = dl_tc.edge_work [OF assms(1) v]
  show ?thesis using s w tri_at_adj [OF assms, of pl] by (auto simp: tc_vertex_work_def comp_def)
qed

definition holds :: "DAccumulator \<Rightarrow> nat \<Rightarrow> nat \<Rightarrow> bool" where
  "holds a hosts n \<longleftrightarrow> length (localCounters a) = hosts \<and> globalValue a = 0 \<and> sum_list (localCounters a) = word_of_nat n"

lemma holds_reset: "length (localCounters a) = hosts \<Longrightarrow> holds (snd (DAccumulator_reset a)) hosts 0"
  by (simp add: holds_def DAccumulator_reset_def)

lemma holds_add: "holds a hosts n \<Longrightarrow> node < hosts \<Longrightarrow> holds (DAccumulator_add node (word_of_nat x) a) hosts (n + x)"
  by (simp add: holds_def DAccumulator_add_sum)

lemma holds_reduce: "holds a hosts n \<Longrightarrow> DAccumulator_reduce a = (word_of_nat n, True, a\<lparr>globalValue := word_of_nat n\<rparr>)"
  by (simp add: holds_def DAccumulator_reduce_def reduce_loop_sum Let_def)

lemma concat_work:
  assumes "tc_input d" "set vs \<subseteq> dl_verts d"
  shows "sum_list (map snd (concat (map (tc_vertex_work (dlcsr_tc_graph pl d)) vs))) = word_of_nat (\<Sum>v \<leftarrow> vs. tri_at d v) \<and>
    (\<forall>w \<in> set (concat (map (tc_vertex_work (dlcsr_tc_graph pl d)) vs)). fst w < length (dl_csrs d))"
  using assms(2) by (induction vs) (use vertex_work [OF assms(1), of _ pl] in auto)

lemma count_window:
  assumes "tc_input d" "set vs \<subseteq> dl_verts d" "holds a (length (dl_csrs d)) n"
  shows "holds (fold tc_exec (concat (map (tc_vertex_work (dlcsr_tc_graph pl d)) vs)) a) (length (dl_csrs d)) (n + (\<Sum>v \<leftarrow> vs. tri_at d v))"
proof -
  let ?xs = "concat (map (tc_vertex_work (dlcsr_tc_graph pl d)) vs)"
  note w = concat_work [OF assms(1,2), of pl]
  have "\<forall>(m, x) \<in> set ?xs. m < length (localCounters a)" using w assms(3) unfolding holds_def by fastforce
  from fold_DAccumulator_add [OF this] show ?thesis using w assms(3) unfolding holds_def tc_exec_def by simp
qed

text \<open>The triangles of the vertices of a host from the first to below \<open>m\<close>.\<close>

definition host_tri :: "('v, 'e) DistLocalCSR \<Rightarrow> nat \<Rightarrow> nat \<Rightarrow> nat" where
  "host_tri d h m = (\<Sum>i \<leftarrow> [0..<min (num_vertices (dl_csrs d ! h)) m]. tri_at d (vertex_ptr (dl_csrs d ! h) i))"

lemma host_tri_window:
  "host_tri d h off + (\<Sum>v \<leftarrow> map (vertex_ptr (dl_csrs d ! h)) [off..<min (num_vertices (dl_csrs d ! h)) (off + q)]. tri_at d v) = host_tri d h (off + q)"
proof (cases "num_vertices (dl_csrs d ! h) \<le> off")
  case True
  then show ?thesis by (simp add: host_tri_def min_absorb1)
next
  case False
  then have "[0..<min (num_vertices (dl_csrs d ! h)) (off + q)] = [0..<off] @ [off..<min (num_vertices (dl_csrs d ! h)) (off + q)]"
    using upt_add_eq_append [of 0 off "min (num_vertices (dl_csrs d ! h)) (off + q) - off"] by simp
  then show ?thesis using False by (simp add: host_tri_def comp_def min_absorb2)
qed

definition more :: "('v, 'e) DistLocalCSR \<Rightarrow> nat \<Rightarrow> nat \<Rightarrow> nat" where
  "more d m h = of_bool (m < num_vertices (dl_csrs d ! h))"

lemma chunk_task_step:
  assumes d: "tc_input d" and h: "h < length (dl_csrs d)" and off: "off + q < 2 ^ 63"
    and s: "length (ck_offsets s) = length (dl_csrs d)" "ck_offsets s ! h = word_of_nat off"
      "holds (ck_count s) (length (dl_csrs d)) n" "holds (ck_work s) (length (dl_csrs d)) w"
  shows "\<exists>s'. chunk_task d (dlcsr_tc_graph pl d) (word_of_nat q) (h, h) s = Some s' \<and>
    ck_offsets s' = (ck_offsets s)[h := word_of_nat (off + q)] \<and>
    holds (ck_count s') (length (dl_csrs d)) (n + (\<Sum>v \<leftarrow> map (vertex_ptr (dl_csrs d ! h)) [off..<min (num_vertices (dl_csrs d ! h)) (off + q)]. tri_at d v)) \<and>
    holds (ck_work s') (length (dl_csrs d)) (w + more d (off + q) h)"
proof -
  let ?c = "dl_csrs d ! h" and ?H = "length (dl_csrs d)"
  let ?vs = "map (vertex_ptr ?c) [off..<min (num_vertices ?c) (off + q)]"
  have ok: "dl_ok d" using d by (simp add: tc_input_def)
  have c: "csr_ok ?c" by (rule host_csr_ok [OF ok h])
  have g: "getCachedCSR d (word_of_nat h) = ?c" by (rule getCachedCSR_nat [OF ok h])
  have v: "RefSpan_visit (LCSR_vertices_window ?c (word_of_nat off) (word_of_nat q)) = Some ?vs" using off by (intro window_visited [OF c]) simp_all
  have "set ?vs \<subseteq> dl_verts d" using dl_vertsI [OF h] by auto
  note cw = count_window [OF d this s(3), of pl]
  have sz: "word_of_nat (off + q) < LCSR_size ?c \<longleftrightarrow> off + q < num_vertices ?c"
    using csr_ok_size(2) [OF c] off by (simp add: word_less_nat_alt del: of_nat_add)
  let ?w = "if word_of_nat (off + q) < LCSR_size ?c then DAccumulator_increment h (ck_work s) else ck_work s"
  have "holds ?w ?H (w + more d (off + q) h)"
    using holds_add [OF s(4) h, of 1] s(4) by (simp add: sz more_def DAccumulator_increment_def del: of_nat_add)
  then show ?thesis using cw v s(2) by (simp add: chunk_task_def g Let_def)
qed


lemma chunk_round_steps:
  assumes d: "tc_input d" and off: "off + q < 2 ^ 63"
    and "distinct hs" "\<forall>h \<in> set hs. h < length (dl_csrs d) \<and> ck_offsets s ! h = word_of_nat off"
    and "length (ck_offsets s) = length (dl_csrs d)" "holds (ck_count s) (length (dl_csrs d)) n" "holds (ck_work s) (length (dl_csrs d)) w"
  shows "\<exists>s'. chunk_round d (dlcsr_tc_graph pl d) (word_of_nat q) (map (\<lambda>h. (h, h)) hs) s = Some s' \<and>
    length (ck_offsets s') = length (dl_csrs d) \<and> (\<forall>h \<in> set hs. ck_offsets s' ! h = word_of_nat (off + q)) \<and>
    (\<forall>h. h \<notin> set hs \<longrightarrow> ck_offsets s' ! h = ck_offsets s ! h) \<and>
    holds (ck_count s') (length (dl_csrs d)) (n + (\<Sum>h \<leftarrow> hs. host_tri d h (off + q) - host_tri d h off)) \<and>
    holds (ck_work s') (length (dl_csrs d)) (w + (\<Sum>h \<leftarrow> hs. more d (off + q) h))"
  using assms(3-)
proof (induction hs arbitrary: s n w)
  case Nil
  then show ?case by simp
next
  case (Cons h hs)
  let ?H = "length (dl_csrs d)"
  have h: "h < ?H" "ck_offsets s ! h = word_of_nat off" using Cons.prems(2) by simp_all
  have win: "(\<Sum>v \<leftarrow> map (vertex_ptr (dl_csrs d ! h)) [off..<min (num_vertices (dl_csrs d ! h)) (off + q)]. tri_at d v) =
      host_tri d h (off + q) - host_tri d h off" using host_tri_window [of d h off q] by simp
  obtain s1 where s1: "chunk_task d (dlcsr_tc_graph pl d) (word_of_nat q) (h, h) s = Some s1"
      "ck_offsets s1 = (ck_offsets s)[h := word_of_nat (off + q)]"
      "holds (ck_count s1) ?H (n + (host_tri d h (off + q) - host_tri d h off))" "holds (ck_work s1) ?H (w + more d (off + q) h)"
    using chunk_task_step [OF d h(1) off Cons.prems(3) h(2) Cons.prems(4,5), of pl] unfolding win by blast
  have "\<forall>h' \<in> set hs. h' < ?H \<and> ck_offsets s1 ! h' = word_of_nat off"
    using Cons.prems(1,2) s1(2) by (metis distinct.simps(2) list.set_intros(2) nth_list_update_neq)
  moreover have "length (ck_offsets s1) = ?H" using s1(2) Cons.prems(3) by simp
  ultimately obtain s' where s': "chunk_round d (dlcsr_tc_graph pl d) (word_of_nat q) (map (\<lambda>h. (h, h)) hs) s1 = Some s'"
      "length (ck_offsets s') = ?H" "\<forall>h \<in> set hs. ck_offsets s' ! h = word_of_nat (off + q)"
      "\<forall>h. h \<notin> set hs \<longrightarrow> ck_offsets s' ! h = ck_offsets s1 ! h"
      "holds (ck_count s') ?H (n + (host_tri d h (off + q) - host_tri d h off) + (\<Sum>h \<leftarrow> hs. host_tri d h (off + q) - host_tri d h off))"
      "holds (ck_work s') ?H (w + more d (off + q) h + (\<Sum>h \<leftarrow> hs. more d (off + q) h))"
    using Cons.IH [OF _ _ _ s1(3,4)] Cons.prems(1) by auto
  have "ck_offsets s' ! h = word_of_nat (off + q)" using s'(4) s1(2) Cons.prems(1,3) h(1) by simp
  then show ?case using s' s1(1,2) by (auto simp: add.assoc)
qed

lemma host_tri_mono: "m \<le> m' \<Longrightarrow> host_tri d h m \<le> host_tri d h m'"
  using host_tri_window [of d h m "m' - m"] by simp

abbreviation all_tri :: "('v, 'e) DistLocalCSR \<Rightarrow> nat \<Rightarrow> nat" where
  "all_tri d m \<equiv> (\<Sum>h \<leftarrow> [0..<length (dl_csrs d)]. host_tri d h m)"

lemma all_tri_step:
  "all_tri d off + (\<Sum>h \<leftarrow> [0..<length (dl_csrs d)]. host_tri d h (off + q) - host_tri d h off) = all_tri d (off + q)"
proof -
  have "(\<Sum>h \<leftarrow> hs. host_tri d h off) + (\<Sum>h \<leftarrow> hs. host_tri d h (off + q) - host_tri d h off) = (\<Sum>h \<leftarrow> hs. host_tri d h (off + q))" for hs
  proof (induction hs)
    case (Cons h hs)
    then show ?case using host_tri_mono [of off "off + q" d h] by simp
  qed simp
  then show ?thesis .
qed

lemma chunk_round_all:
  assumes "tc_input d" "off + q < 2 ^ 63" "ck_offsets s = replicate (length (dl_csrs d)) (word_of_nat off)"
    and "holds (ck_count s) (length (dl_csrs d)) (all_tri d off)" "holds (ck_work s) (length (dl_csrs d)) 0"
  shows "\<exists>s'. chunk_round d (dlcsr_tc_graph pl d) (word_of_nat q) (map (\<lambda>h. (h, h)) [0..<length (dl_csrs d)]) s = Some s' \<and>
    ck_offsets s' = replicate (length (dl_csrs d)) (word_of_nat (off + q)) \<and>
    holds (ck_count s') (length (dl_csrs d)) (all_tri d (off + q)) \<and>
    holds (ck_work s') (length (dl_csrs d)) (\<Sum>h \<leftarrow> [0..<length (dl_csrs d)]. more d (off + q) h)"
proof -
  let ?H = "length (dl_csrs d)"
  have "length (ck_offsets s) = ?H" "\<forall>h \<in> set [0..<?H]. h < ?H \<and> ck_offsets s ! h = word_of_nat off" using assms(3) by simp_all
  then obtain s' where s': "chunk_round d (dlcsr_tc_graph pl d) (word_of_nat q) (map (\<lambda>h. (h, h)) [0..<?H]) s = Some s'"
      "length (ck_offsets s') = ?H" "\<forall>h \<in> set [0..<?H]. ck_offsets s' ! h = word_of_nat (off + q)"
      "holds (ck_count s') ?H (all_tri d off + (\<Sum>h \<leftarrow> [0..<?H]. host_tri d h (off + q) - host_tri d h off))"
      "holds (ck_work s') ?H (0 + (\<Sum>h \<leftarrow> [0..<?H]. more d (off + q) h))"
    using chunk_round_steps [OF assms(1,2) distinct_upt _ _ assms(4,5), of 0 ?H pl] by blast
  then have "ck_offsets s' = replicate ?H (word_of_nat (off + q))" by (intro nth_equalityI) simp_all
  then show ?thesis using s' unfolding all_tri_step by simp
qed

text \<open>The work that remains is the number of hosts with vertices left, which the counter holds without wrap-around.\<close>

lemma more_sum:
  assumes "dl_ok d"
  shows "(word_of_nat (\<Sum>h \<leftarrow> [0..<length (dl_csrs d)]. more d m h) :: u64) = 0 \<longleftrightarrow> (\<forall>h < length (dl_csrs d). num_vertices (dl_csrs d ! h) \<le> m)"
proof -
  let ?n = "\<Sum>h \<leftarrow> [0..<length (dl_csrs d)]. more d m h"
  have "?n \<le> (\<Sum>h \<leftarrow> [0..<length (dl_csrs d)]. 1)" by (intro sum_list_mono) (simp add: more_def)
  then have "?n < 2 ^ 64" using assms by (simp add: sum_list_triv dl_ok_def)
  then have "(word_of_nat ?n :: u64) = 0 \<longleftrightarrow> ?n = 0" by (simp add: u64_eq_iff_unat)
  also have "\<dots> \<longleftrightarrow> (\<forall>h < length (dl_csrs d). num_vertices (dl_csrs d ! h) \<le> m)"
    by (auto simp: more_def sum_list_eq_0_iff not_less)
  finally show ?thesis .
qed


lemma length_reduced: "DAccumulator_reduce a = (v, f, a') \<Longrightarrow> length (localCounters a') = length (localCounters a)"
  by (auto simp: DAccumulator_reduce_def Let_def)

text \<open>One turn of the loop, with windows of \<open>q\<close> vertices.\<close>

lemma chunk_loop_turn:
  assumes d: "tc_input d" and q: "off + q < 2 ^ 63" and here: "here < length (dl_csrs d)"
    and s: "ck_offsets s = replicate (length (dl_csrs d)) (word_of_nat off)" "holds (ck_count s) (length (dl_csrs d)) (all_tri d off)"
      "length (localCounters (ck_work s)) = length (dl_csrs d)"
  shows "\<exists>s'. ck_offsets s' = replicate (length (dl_csrs d)) (word_of_nat (off + q)) \<and>
    holds (ck_count s') (length (dl_csrs d)) (all_tri d (off + q)) \<and> length (localCounters (ck_work s')) = length (dl_csrs d) \<and>
    chunk_loop d (dlcsr_tc_graph pl d) here (map (\<lambda>h. (h, h)) [0..<length (dl_csrs d)]) (word_of_nat q) s =
      (if \<forall>h < length (dl_csrs d). num_vertices (dl_csrs d ! h) \<le> off + q then Some s'
       else chunk_loop d (dlcsr_tc_graph pl d) here (map (\<lambda>h. (h, h)) [0..<length (dl_csrs d)]) (word_of_nat (2 * q)) s')"
proof -
  let ?H = "length (dl_csrs d)" and ?s1 = "s\<lparr>ck_work := snd (DAccumulator_reset (ck_work s))\<rparr>"
  let ?m = "\<Sum>h \<leftarrow> [0..<?H]. more d (off + q) h"
  have ok: "dl_ok d" using d by (simp add: tc_input_def)
  have w: "holds (ck_work ?s1) ?H 0" using holds_reset [OF s(3)] by simp
  obtain s2 where s2: "chunk_round d (dlcsr_tc_graph pl d) (word_of_nat q) (map (\<lambda>h. (h, h)) [0..<?H]) ?s1 = Some s2"
      "ck_offsets s2 = replicate ?H (word_of_nat (off + q))" "holds (ck_count s2) ?H (all_tri d (off + q))" "holds (ck_work s2) ?H ?m"
    using chunk_round_all [OF d q, of ?s1 pl] s w by auto
  note r = holds_reduce [OF s2(3)] holds_reduce [OF s2(4)]
  let ?a = "(ck_count s2)\<lparr>globalValue := word_of_nat (all_tri d (off + q))\<rparr>"
  have "length (localCounters ?a) = ?H" using s2(3) by (simp add: holds_def)
  note a = holds_add [OF holds_reset [OF this] here, of "all_tri d (off + q)", unfolded add_0_left]
  have l: "length (localCounters ((ck_work s2)\<lparr>globalValue := word_of_nat ?m\<rparr>)) = ?H" using s2(4) by (simp add: holds_def)
  let ?s3 = "\<lparr>ck_offsets = ck_offsets s2, ck_count = DAccumulator_add here (word_of_nat (all_tri d (off + q))) (snd (DAccumulator_reset ?a)),
      ck_work = (ck_work s2)\<lparr>globalValue := word_of_nat ?m\<rparr>\<rparr>"
  have "chunk_loop d (dlcsr_tc_graph pl d) here (map (\<lambda>h. (h, h)) [0..<?H]) (word_of_nat q) s =
      (if word_of_nat ?m \<noteq> (0 :: u64) then chunk_loop d (dlcsr_tc_graph pl d) here (map (\<lambda>h. (h, h)) [0..<?H]) (word_of_nat q * 2) ?s3 else Some ?s3)"
    by (subst chunk_loop.simps) (simp only: Let_def s2(1) r bind.bind_lunit prod.case)
  also have "word_of_nat q * 2 = (word_of_nat (2 * q) :: u64)" by simp
  finally have "chunk_loop d (dlcsr_tc_graph pl d) here (map (\<lambda>h. (h, h)) [0..<?H]) (word_of_nat q) s =
      (if \<forall>h < ?H. num_vertices (dl_csrs d ! h) \<le> off + q then Some ?s3
       else chunk_loop d (dlcsr_tc_graph pl d) here (map (\<lambda>h. (h, h)) [0..<?H]) (word_of_nat (2 * q)) ?s3)"
    unfolding more_sum [OF ok, symmetric] by (simp only: if_not_P simp_thms if_P split: if_splits)
  then show ?thesis using s2(2) a l by (intro exI [of _ ?s3]) (simp only: chunk.simps simp_thms)
qed

lemma chunk_loop_returns:
  assumes d: "tc_input d" and here: "here < length (dl_csrs d)"
  shows "k \<le> 61 \<Longrightarrow> ck_offsets s = replicate (length (dl_csrs d)) (word_of_nat (2 ^ k - 1)) \<Longrightarrow>
    holds (ck_count s) (length (dl_csrs d)) (all_tri d (2 ^ k - 1)) \<Longrightarrow> length (localCounters (ck_work s)) = length (dl_csrs d) \<Longrightarrow>
    \<exists>s' m. chunk_loop d (dlcsr_tc_graph pl d) here (map (\<lambda>h. (h, h)) [0..<length (dl_csrs d)]) (word_of_nat (2 ^ k)) s = Some s' \<and>
      holds (ck_count s') (length (dl_csrs d)) (all_tri d m) \<and> (\<forall>h < length (dl_csrs d). num_vertices (dl_csrs d ! h) \<le> m)"
proof (induction "61 - k" arbitrary: k s)
  case (0 k)
  then have k: "k = 61" by simp
  have ok: "dl_ok d" using d by (simp add: tc_input_def)
  have n: "num_vertices (dl_csrs d ! h) \<le> 2 ^ 61 - 1 + 2 ^ 61" if "h < length (dl_csrs d)" for h
    using csr_ok_size(3) [OF host_csr_ok [OF ok that]] by simp
  have "(2 ^ 61 - 1 + 2 ^ 61 :: nat) < 2 ^ 63" by simp
  from chunk_loop_turn [OF d this here 0(3-5) [unfolded k], of pl] show ?case unfolding k using n by (auto intro!: exI [of _ "2 ^ 61 - 1 + 2 ^ 61"])
next
  case (Suc j k)
  then have k: "k < 61" by simp
  let ?off = "2 ^ k - 1 :: nat" and ?q = "2 ^ k :: nat"
  have "?q \<le> 2 ^ 61" using k by (intro power_increasing) simp_all
  then have q: "?off + ?q < 2 ^ 63" by simp
  have e: "?off + ?q = 2 ^ Suc k - 1" "2 * ?q = 2 ^ Suc k" using one_le_power [of "2 :: nat" k] by simp_all
  obtain s' where s': "ck_offsets s' = replicate (length (dl_csrs d)) (word_of_nat (2 ^ Suc k - 1))"
    "holds (ck_count s') (length (dl_csrs d)) (all_tri d (2 ^ Suc k - 1))" "length (localCounters (ck_work s')) = length (dl_csrs d)"
    "chunk_loop d (dlcsr_tc_graph pl d) here (map (\<lambda>h. (h, h)) [0..<length (dl_csrs d)]) (word_of_nat ?q) s =
      (if \<forall>h < length (dl_csrs d). num_vertices (dl_csrs d ! h) \<le> 2 ^ Suc k - 1 then Some s'
       else chunk_loop d (dlcsr_tc_graph pl d) here (map (\<lambda>h. (h, h)) [0..<length (dl_csrs d)]) (word_of_nat (2 ^ Suc k)) s')"
    using chunk_loop_turn [OF d q here Suc.prems(2-4), of pl] unfolding e by blast
  show ?case
  proof (cases "\<forall>h < length (dl_csrs d). num_vertices (dl_csrs d ! h) \<le> 2 ^ Suc k - 1")
    case True
    then show ?thesis using s'(2,4) by (intro exI [of _ s'] exI [of _ "2 ^ Suc k - 1"]) simp
  next
    case False
    have "j = 61 - Suc k" "Suc k \<le> 61" using Suc.hyps(2) k by simp_all
    from Suc.hyps(1) [OF this s'(1-3)] show ?thesis unfolding s'(4) if_not_P [OF False] .
  qed
qed

lemma sum_concat: "(\<Sum>v \<leftarrow> concat (map P hs). f v) = (\<Sum>h \<leftarrow> hs. \<Sum>v \<leftarrow> P h. f v)"
  by (induction hs) auto

lemma all_tri_triangles:
  assumes d: "tc_input d" and m: "\<forall>h < length (dl_csrs d). num_vertices (dl_csrs d ! h) \<le> m"
  shows "all_tri d m = card (triangles (dl_verts d) (\<lambda>v. set (dl_adj d v)))"
proof -
  let ?P = "\<lambda>h. map (vertex_ptr (dl_csrs d ! h)) [0..<num_vertices (dl_csrs d ! h)]"
  have ok: "dl_ok d" "\<forall>h < length (dl_csrs d). 0 < num_vertices (dl_csrs d ! h)" using d by (simp_all add: tc_input_def)
  have vs: "distinct (concat (map ?P [0..<length (dl_csrs d)]))" "set (concat (map ?P [0..<length (dl_csrs d)])) = dl_verts d"
    using visit_vertices_spec [OF ok] visit_vertices_all [OF ok] by simp_all
  have "all_tri d m = (\<Sum>h \<leftarrow> [0..<length (dl_csrs d)]. \<Sum>v \<leftarrow> ?P h. tri_at d v)"
    using m by (intro arg_cong [of _ _ sum_list] map_cong refl) (simp add: host_tri_def min_absorb1 comp_def)
  also have "\<dots> = (\<Sum>v \<leftarrow> concat (map ?P [0..<length (dl_csrs d)]). tri_at d v)" by (simp add: sum_concat)
  also have "\<dots> = (\<Sum>v \<in> dl_verts d. tri_at d v)" using sum_list_distinct_conv_sum_set [OF vs(1)] vs(2) by simp
  also have "\<dots> = card (triangles (dl_verts d) (\<lambda>v. set (dl_adj d v)))"
    using card_dl_verts(1) [OF ok(1)] by (subst card_triangles) (simp_all add: tri_at_def)
  finally show ?thesis .
qed


text \<open>
  C10: \<^verbatim>\<open>tc_chunk_vertices\<close> ends and counts every triangle once. When the scheduler keeps the host of a task (every policy but
  \<^verbatim>\<open>UNSAFE_STRIPE\<close> and \<^verbatim>\<open>NAIVE\<close>) and all tasks can be started, the rounds with windows of doubling size end, no loop over a
  window runs on, and the value of \<^verbatim>\<open>reduce\<close> on the counter is then the number of triangles of the graph, modulo \<open>2 ^ 64\<close>:
  the windows of all rounds cover each vertex of each host once, and putting the count back with \<^verbatim>\<open>reset\<close> and \<^verbatim>\<open>add\<close>
  after every round keeps it from being added twice.
\<close>

theorem tc_chunk_vertices_counts_triangles:
  assumes "tc_input d" "\<forall>i pl. executeOn i pl = Success" "keeps_node policy" "here < length (dl_csrs d)"
    and "DAccumulator_initialize (Inr cp) (Inr counters) junk = (st, Some (f, acc), fr)" "length counters = length (dl_csrs d)"
    and "length (localCounters work) = length (dl_csrs d)"
    and "tasks = chunk_tasks mc policy executeOn draw (length (dl_csrs d))"
  shows "\<exists>s. tc_chunk_vertices d (dlcsr_tc_graph pl d) here tasks acc work = Some s \<and>
    fst (DAccumulator_reduce (ck_count s)) = word_of_nat (card (triangles (dl_verts d) (\<lambda>v. set (dl_adj d v))))"
proof -
  have ok: "length (dl_csrs d) < 2 ^ 63" using assms(1) by (simp add: tc_input_def dl_ok_def)
  have t: "tasks = map (\<lambda>h. (h, h)) [0..<length (dl_csrs d)]" using assms(8) chunk_tasks_own [OF assms(2,3) ok] by simp
  have "all_tri d 0 = 0" by (simp add: host_tri_def sum_list_triv)
  moreover have "holds acc (length (dl_csrs d)) 0"
    using assms(5,6) by (auto simp: DAccumulator_initialize_def DAccumulator_reset_def holds_def)
  ultimately have "holds acc (length (dl_csrs d)) (all_tri d 0)" by (simp only:)
  then obtain s m where s: "tc_chunk_vertices d (dlcsr_tc_graph pl d) here tasks acc work = Some s"
      "holds (ck_count s) (length (dl_csrs d)) (all_tri d m)" "\<forall>h < length (dl_csrs d). num_vertices (dl_csrs d ! h) \<le> m"
    using chunk_loop_returns [OF assms(1,4), of 0 "\<lparr>ck_offsets = replicate (length (dl_csrs d)) 0, ck_count = acc, ck_work = work\<rparr>" pl]
      assms(7) unfolding tc_chunk_vertices_def t by auto
  then show ?thesis using holds_reduce [OF s(2)] all_tri_triangles [OF assms(1) s(3)] by simp
qed

theorem tc_chunk_vertices_counts_triangles_witness:
  "\<exists>s. tc_chunk_vertices tri_dlcsr (dlcsr_tc_graph anyPlace tri_dlcsr) 0
       (chunk_tasks example_machine CORE_STRIPE (\<lambda>i pl. Success) (\<lambda>_. 0) 2)
       \<lparr>localCounters = [0, 0], globalValue = 0\<rparr> \<lparr>localCounters = [5, 6], globalValue = 7\<rparr> = Some s \<and>
     fst (DAccumulator_reduce (ck_count s)) = 1"
proof -
  have a: "DAccumulator_initialize (Inr 64) (Inr [9, 9]) 3 = (Success, Some (False, \<lparr>localCounters = [0, 0], globalValue = 0\<rparr>), [])"
    by (simp add: DAccumulator_initialize_def DAccumulator_reset_def)
  show ?thesis
    using tc_chunk_vertices_counts_triangles [OF tri_input _ _ _ a _ _ refl, where executeOn = "\<lambda>i pl. Success" and policy = CORE_STRIPE and here = 0
        and work = "\<lparr>localCounters = [5, 6], globalValue = 7\<rparr>" and mc = example_machine and draw = "\<lambda>_. 0" and pl = anyPlace]
    by (simp add: tri_hosts tri_triangles keeps_node_def)
qed

end
