(* ===== verification/Spec2Isabelle.thy ===== *)
theory Spec2Isabelle
  imports
    Address_Translation
    Drv_Address_Map
    Riscv_Interp
    Spin_Lock
    Wait_Group
    Memory_Resources
    Galois_Stack
    Hash_Table_Props
    Merge_Sort
    Prefix_Sum
    Thread_Local_Flatten
    Tri_Chunk
begin

text \<open>
  A verification development for the PANDO software stack: the runtime (\<^verbatim>\<open>pando-rt\<close>), the graph library
  (\<^verbatim>\<open>include/pando-lib-galois\<close>, \<^verbatim>\<open>src\<close>), the RISC-V interpreter and address map of the simulator (\<^verbatim>\<open>pando-drv\<close>) and the
  breadth first search and triangle counting of \<^verbatim>\<open>microbench\<close>. All paths below are under the source tree of the repository.

  \<^bold>\<open>The program.\<close> A PANDO machine has nodes (hosts, PXNs), each with pods of cores, each with hardware threads, and a
  global address space whose addresses name the memory they are in. The runtime translates addresses, hands out memory on
  every node and runs tasks on a place. The graph library builds containers on the allocation front end, parallel
  loops on the tasks and a wait group, and distributed graphs on both; the applications are loops over these
  graphs. The simulator executes RISC-V programs against the same address map.

  \<^bold>\<open>Conventions.\<close> Machine integers are words (\<open>u64\<close>, \<open>i8\<close>, ...; \<open>sint\<close> reads a signed one). An operation that can fail returns a
  \<open>Status\<close> or \<open>Status + 'a\<close>; an abort of the process is \<open>Inl\<close> of an \<open>or_abort\<close>. Memory that several operations share is an explicit function
  from addresses to 64-bit cells (\<open>rt_mem\<close>). Loops whose end is not evident are \<^verbatim>\<open>partial_function (option)\<close>: not returning is \<open>None\<close>, and
  the properties about them prove \<open>Some\<close>. No fuel is used. Code that runs concurrently is a step relation, and the properties
  quantify over all interleavings. Code that is not in the repository, and the answers of the operating system and the network (allocated
  addresses, results of remote calls, random draws), are arguments.

  \<^bold>\<open>Theories.\<close> \<open>Pando_Prelude\<close> has the word types, the collections of facts and the lemmas on words and lists that the others share.

  \<^item> Addresses. \<open>Bit_Manip\<close> (\<^verbatim>\<open>utility/bit_manip.hpp\<close>, \<^verbatim>\<open>math.hpp\<close>), \<open>Place_Index\<close> (\<^verbatim>\<open>index.hpp\<close>), \<open>Bit_Field\<close> with the locale \<open>field_store\<close> of packed
    fields, \<open>Address_Translation\<close> (\<^verbatim>\<open>memory/address_map.hpp\<close>, \<^verbatim>\<open>address_translation.hpp\<close>, PREP back end) and \<open>Drv_Address_Map\<close>
    (\<^verbatim>\<open>api/DrvAPIAddressMap\<close>, DrvX back end). Both back ends interpret \<open>field_store\<close>. Shown: encoded fields are read back, different addresses
    stay different, making an address global keeps its physical address.

  \<^item> Interpreter. \<open>Riscv_Table\<close> (\<^verbatim>\<open>InstructionTable.h\<close>, \<^verbatim>\<open>RISCVDecoder.hpp\<close>), \<open>Riscv_Instr\<close> (fields and immediates), \<open>Riscv_Hart\<close> (the RV64I and
    RV64M visitors), \<open>Riscv_Interp\<close> (\<^verbatim>\<open>interpreter.cpp\<close>). Shown: the decoder finds every entry of the table, division identities, the frame of a step, the
    invariant of a run, loads after stores.

  \<^item> Memory. \<open>Rt_Align\<close> (\<^verbatim>\<open>memory.cpp\<close>), \<open>Rt_Atomics\<close> (\<^verbatim>\<open>atomic.cpp\<close>), \<open>Rt_Status\<close>, \<open>Rt_Resource\<close> with the locales \<open>memory_resource\<close> and
    \<open>freeing_resource\<close>, \<open>Slab_Resource\<close> and \<open>Slab_Contract\<close>, \<open>Bump_Resource\<close>, \<open>FreeList_Resource\<close> (\<^verbatim>\<open>memory/*_memory_resource.hpp\<close>), \<open>Memory_Buckets\<close>,
    \<open>Memory_Tiers\<close> and \<open>Memory_Resources\<close> (\<^verbatim>\<open>memory_resources.cpp\<close>), the last with the locale \<open>tiered_resource\<close> of a chain of resources. Slab and bump
    resource interpret the contract of a resource, both node resources that of a chain. Shown: from the constructors on, the blocks that a program
    holds are disjoint and inside the buffer, whatever it requests, frees and stores; the slab resource serves a request when it can; the
    free list is best fit on a pool of blocks.

  \<^item> Synchronization. \<open>Spin_Lock\<close> (locale \<open>spin_lock\<close>, interpreted on the three locks), \<open>Wait_Group\<close> (locale \<open>completion_counter\<close>, interpreted on
    wait group and barrier). Shown: mutual exclusion, and that a wait passes only when everything announced has signalled.

  \<^item> Containers. \<open>Rt_Containers\<close> (\<^verbatim>\<open>allocate_memory.hpp\<close>, \<^verbatim>\<open>containers/array.hpp\<close>), \<open>Rt_Vector\<close> (\<^verbatim>\<open>vector.hpp\<close>, locale \<open>growable\<close>), \<open>Galois_Stack\<close>,
    \<open>Hash_Probe\<close>, \<open>Hash_Table\<close>, \<open>Hash_Table_Map\<close> (locale \<open>fallible_map\<close>), \<open>Hash_Table_Props\<close>, \<open>Merge_Sort\<close>, \<open>Prefix_Sum\<close> (locale \<open>prefix_ops\<close>, with the
    waterfall lock). Shown: vectors and stacks are lists, the hash table is a finite map and its iterator visits it, sorting sorts, the parallel prefix sum computes the sums
    and ends.

  \<^item> Parallel loops. \<open>Galois_Locality\<close> (\<^verbatim>\<open>utility/locality.hpp\<close>, \<^verbatim>\<open>pod_local_storage.hpp\<close>) numbers threads and pods; \<open>Do_All\<close> (\<^verbatim>\<open>loops/do_all.hpp\<close>) has the
    schedulers and loops, in which the calling thread and its tasks are interleaved on the counter of \<open>Wait_Group\<close>, whose locale carries the
    proof; \<open>Thread_Local_Vector\<close> and \<open>Thread_Local_Flatten\<close> (\<^verbatim>\<open>containers/thread_local_vector.hpp\<close>) use the loops, the vectors and the prefix
    sum. Shown: the numberings are inverse, a loop joins all its tasks, the shares of the hosts and the cores that work items go to, flattening appends the parts of the
    threads in order.

  \<^item> Graphs. \<open>Local_Csr\<close>, \<open>Csr_Layout\<close>, \<open>Csr_Props\<close> (\<^verbatim>\<open>graphs/local_csr.hpp\<close>), \<open>Dist_Local_Csr\<close>, \<open>Dist_Csr_Props\<close>, \<open>Dist_Csr_Iter\<close>, \<open>Dist_Csr_Index\<close>
    (\<^verbatim>\<open>graphs/dist_local_csr.hpp\<close>), \<open>Bfs\<close>, \<open>Bfs_Correct\<close> (locale \<open>labelled_graph\<close>, interpreted on the distributed graph) and \<open>Sssp_Dlcsr\<close>
    (\<^verbatim>\<open>microbench/bfs\<close>, \<^verbatim>\<open>sssp.hpp\<close>). Shown: a graph gives back the adjacency lists it was built from, a construction that fails gives back the
    blocks it allocated, writing a datum changes nothing else, the iterators visit every vertex, and the search labels
    every vertex with its distance in every interleaving of its tasks.

  \<^item> Triangle counting. \<open>Tri_Kernels\<close> (\<^verbatim>\<open>microbench/triangle-counting/include/utils.hpp\<close>, \<^verbatim>\<open>utility/search.hpp\<close>), \<open>Dist_Accumulator\<close>
    (\<^verbatim>\<open>utility/dist_accumulator.hpp\<close>), \<open>Nested_Loops\<close> (loops whose tasks run loops on the same wait group, proved in the locale of
    \<open>Wait_Group\<close>), \<open>Tri_Count\<close> (\<^verbatim>\<open>tc_no_chunk\<close> of \<^verbatim>\<open>tc_algos.cpp\<close>, locale \<open>triangle_graph\<close> of what it needs of a graph), \<open>Tri_Count_Dlcsr\<close> (its
    interpretation on the distributed graph) and \<open>Tri_Chunk\<close> (\<^verbatim>\<open>tc_chunk_vertices\<close>). Shown: the kernels agree and count common neighbours, the
    nested loops join, and both variants count the triangles of the graph.

  \<^bold>\<open>Bounds.\<close> Where 64-bit arithmetic could wrap, a property names the bound: fewer than \<open>2 ^ 32\<close> elements in a loop (the counter takes
  32-bit numbers), fewer than \<open>2 ^ 59\<close> vertices, buffers that do not cross the end of the address space, and so on; these are limits of
  the code, not of the model. Properties that state a flaw of the code (the lookup in a full table, the split for one worker, the
  numbering of pods) say so in their text.

  \<^bold>\<open>Not modelled.\<close> The vendored simulators (\<^verbatim>\<open>sst-core-src\<close>, \<^verbatim>\<open>sst-elements-src\<close>) and \<^verbatim>\<open>concurrentqueue.hpp\<close> are third-party code. The back ends that start
  threads, fibers and GASNet messages (\<^verbatim>\<open>pando-rt/src/prep\<close>, \<^verbatim>\<open>drvx\<close>) and the simulator components (\<^verbatim>\<open>pando-drv/element\<close>) are calls of external
  frameworks. File import, mirrored and array-based distributed graphs, the neural-network and influence workflows, timers, tracing and printing are left
  out. Memory orderings weaker than sequential consistency are not distinguished: an atomic access is one step. Floating-point
  instructions of the interpreter and the operations of its 128-bit library are parameters.
\<close>

end
